(* ===== verification/Rpc_Prelude.thy ===== *)
theory Rpc_Prelude
  imports Main "HOL-Library.Word" "HOL-Library.Monad_Syntax"
begin

text \<open>
  The vocabulary shared by every component: addresses, nginx return codes, the fault
  monad and the task-pool interfaces.

  A C operation is a function from the state to \<open>('a \<times> 's) option\<close> or
  \<open>'s option\<close>. The value \<open>None\<close> means that the C text gives the run no defined
  result: a \<open>NULL\<close> or dangling pointer is dereferenced, a block is released that is not
  a live block, an array is read out of range, or (for a loop) the loop does not return.
  Every theorem that an operation is safe is therefore stated as \<open>op s = Some \<dots>\<close>.
\<close>

section \<open>Types and return codes\<close>

type_synonym addr = nat

abbreviation (input) NGX_OK :: int where "NGX_OK \<equiv> 0"
abbreviation (input) NGX_ERROR :: int where "NGX_ERROR \<equiv> -1"
abbreviation (input) NGX_AGAIN :: int where "NGX_AGAIN \<equiv> -2"
abbreviation (input) NGX_DECLINED :: int where "NGX_DECLINED \<equiv> -5"
abbreviation (input) NGX_HTTP_OK :: int where "NGX_HTTP_OK \<equiv> 200"
abbreviation (input) NGX_HTTP_BAD_REQUEST :: int where "NGX_HTTP_BAD_REQUEST \<equiv> 400"
abbreviation (input) NGX_HTTP_INTERNAL_SERVER_ERROR :: int
  where "NGX_HTTP_INTERNAL_SERVER_ERROR \<equiv> 500"

text \<open>A value stored into a C \<open>int\<close>.\<close>

definition c_int :: "int \<Rightarrow> int" where
  "c_int x = signed_take_bit 31 x"

lemma c_int_id: "- (2 ^ 31) \<le> x \<Longrightarrow> x < 2 ^ 31 \<Longrightarrow> c_int x = x"
  unfolding c_int_def by (rule signed_take_bit_int_eq_self) simp_all

section \<open>Facts about the fault monad\<close>

lemma bind_SomeI: "f = Some x \<Longrightarrow> g x = r \<Longrightarrow> Option.bind f g = r"
  by simp

lemma case_option_Some_conv:
  "(case x of None \<Rightarrow> None | Some y \<Rightarrow> f y) = Some z \<longleftrightarrow> (\<exists>y. x = Some y \<and> f y = Some z)"
  by (cases x) auto

lemmas fault_simps = Option.bind_eq_Some_conv case_option_Some_conv

lemma disjointD: "A \<inter> B = {} \<Longrightarrow> a \<in> A \<Longrightarrow> a \<notin> B"
  by blast

section \<open>Functions in pieces\<close>

text \<open>
  A function that other processes can interrupt is written as its atomic pieces: \<open>piece pc s\<close> runs the piece
  at the place \<open>pc\<close> of its text and gives the place where the function goes on, or \<open>None\<close> when it returns. The
  function itself runs its pieces one after the other; an interleaving runs them with those of other processes
  in between. The run is a \<open>partial_function\<close>: pieces that never return make it \<open>None\<close>.
\<close>

type_synonym ('pc, 's) pieces = "'pc \<Rightarrow> 's \<Rightarrow> ('pc option \<times> 's) option"

partial_function (option) run_pieces :: "('pc, 's) pieces \<Rightarrow> 'pc \<Rightarrow> 's \<Rightarrow> 's option" where
  "run_pieces piece pc s =
     do {
       (next, s) \<leftarrow> piece pc s;
       (case next of None \<Rightarrow> Some s | Some pc \<Rightarrow> run_pieces piece pc s)
     }"

text \<open>
  A function whose places \<open>emb pc\<close> are those of the pieces \<open>p\<close>, and which goes on at \<open>after\<close> where they return, runs
  them to their end first.
\<close>

lemma run_pieces_then:
  assumes q: "\<And>pc s. q (emb pc) s =
      do { (next, s) \<leftarrow> p pc s; Some (case next of Some pc \<Rightarrow> Some (emb pc) | None \<Rightarrow> after, s) }"
  shows "run_pieces q (emb pc) s =
      do { s \<leftarrow> run_pieces p pc s; (case after of None \<Rightarrow> Some s | Some pc \<Rightarrow> run_pieces q pc s) }"
proof -
  let ?after = "\<lambda>t. case after of None \<Rightarrow> Some t | Some pc \<Rightarrow> run_pieces q pc t"
  have "p' = p \<longrightarrow> run_pieces q (emb pc) s = ?after t" if "run_pieces p' pc s = Some t" for p' pc s t
  proof (rule run_pieces.raw_induct [where P = "\<lambda>p' pc s t. p' = p \<longrightarrow> run_pieces q (emb pc) s = ?after t", OF _ that])
    fix f p' pc s t
    assume ih: "\<And>p' pc s t. f p' pc s = Some t \<Longrightarrow> p' = p \<longrightarrow> run_pieces q (emb pc) s = ?after t"
      and r: "do { (next, s) \<leftarrow> p' pc s; (case next of None \<Rightarrow> Some s | Some pc \<Rightarrow> f p' pc s) } = Some t"
    obtain r' s1 where n: "p' pc s = Some (r', s1)" "(case r' of None \<Rightarrow> Some s1 | Some pc \<Rightarrow> f p' pc s1) = Some t"
      using r by (auto simp: fault_simps)
    show "p' = p \<longrightarrow> run_pieces q (emb pc) s = ?after t"
      using n ih by (subst run_pieces.simps) (cases r'; cases after; auto simp: q)
  qed
  then have d: "run_pieces q (emb pc) s = ?after t" if "run_pieces p pc s = Some t" for t using that by blast
  have "\<forall>pc. q' = q \<and> pc' = emb pc \<longrightarrow> (\<exists>t. run_pieces p pc s = Some t)" if "run_pieces q' pc' s = Some u" for q' pc' s u
  proof (rule run_pieces.raw_induct [where P = "\<lambda>q' pc' s u. \<forall>pc. q' = q \<and> pc' = emb pc \<longrightarrow> (\<exists>t. run_pieces p pc s = Some t)",
        OF _ that], intro allI impI)
    fix f q' pc' s u pc
    assume ih: "\<And>q' pc' s u. f q' pc' s = Some u \<Longrightarrow> \<forall>pc. q' = q \<and> pc' = emb pc \<longrightarrow> (\<exists>t. run_pieces p pc s = Some t)"
      and r: "do { (next, s) \<leftarrow> q' pc' s; (case next of None \<Rightarrow> Some s | Some pc \<Rightarrow> f q' pc s) } = Some u"
      and e: "q' = q \<and> pc' = emb pc"
    obtain r' s1 where n: "p pc s = Some (r', s1)" "\<And>pc. r' = Some pc \<Longrightarrow> f q (emb pc) s1 = Some u"
      using r e by (cases "p pc s") (auto simp: q split: option.splits)
    show "\<exists>t. run_pieces p pc s = Some t"
      using n(1) ih [OF n(2)] by (subst run_pieces.simps) (auto split: option.splits)
  qed
  then have e: "\<exists>t. run_pieces p pc s = Some t" if "run_pieces q (emb pc) s = Some u" for u using that by blast
  show ?thesis
  proof (cases "run_pieces p pc s")
    case None
    then show ?thesis using e by (cases "run_pieces q (emb pc) s") auto
  qed (simp add: d)
qed

section \<open>The loop that empties a pool\<close>

text \<open>
  Both consumers of the program run the same C loop: take one node, stop when there is
  none, otherwise run a body on it. \<open>drain pop body\<close> is that loop. A body that keeps refilling the pool
  makes it \<open>None\<close>.
\<close>

datatype 'x drain_pc = Drain_Pop | Drain_Body 'x

primrec drain_piece ::
  "('s \<Rightarrow> ('x option \<times> 's) option) \<Rightarrow> ('x \<Rightarrow> 's \<Rightarrow> 's option) \<Rightarrow> ('x drain_pc, 's) pieces" where
  "drain_piece pop body Drain_Pop = (\<lambda>s. do { (r, s) \<leftarrow> pop s; Some (map_option Drain_Body r, s) })"
| "drain_piece pop body (Drain_Body x) = (\<lambda>s. do { s \<leftarrow> body x s; Some (Some Drain_Pop, s) })"

definition drain ::
  "('s \<Rightarrow> ('x option \<times> 's) option) \<Rightarrow> ('x \<Rightarrow> 's \<Rightarrow> 's option) \<Rightarrow> 's \<Rightarrow> 's option" where
  "drain pop body s = run_pieces (drain_piece pop body) Drain_Pop s"

lemma drain_unfold:
  "drain pop body s =
     do {
       (r, s) \<leftarrow> pop s;
       (case r of
          None \<Rightarrow> Some s
        | Some x \<Rightarrow> do { s \<leftarrow> body x s; drain pop body s })
     }"
proof -
  have b: "run_pieces (drain_piece pop body) (Drain_Body x) t = do { t \<leftarrow> body x t; drain pop body t }" for x t
    by (subst run_pieces.simps) (auto simp: drain_def split: bind_splits)
  show ?thesis
    unfolding drain_def [of pop body s]
    by (subst run_pieces.simps) (auto simp: b split: bind_splits option.splits)
qed

text \<open>Taking a number of nodes in a row.\<close>

primrec pops :: "('s \<Rightarrow> ('x option \<times> 's) option) \<Rightarrow> nat \<Rightarrow> 's \<Rightarrow> ('x option list \<times> 's) option" where
  "pops pop 0 s = Some ([], s)"
| "pops pop (Suc k) s =
     do { (r, s) \<leftarrow> pop s; (rs, s) \<leftarrow> pops pop k s; Some (r # rs, s) }"

section \<open>Interfaces: pools of nodes\<close>

text \<open>
  \<open>rep s xs\<close> says that in state \<open>s\<close> the pool holds exactly the nodes \<open>xs\<close>, first to be
  taken first. A pool can be emptied; a \<open>fifo_pool\<close> is filled at the end (a notify object's
  pending tasks), a \<open>lifo_pool\<close> at the front (the idle processors).
\<close>

locale node_pool =
  fixes rep :: "'s \<Rightarrow> 'x list \<Rightarrow> bool"
    and pop :: "'s \<Rightarrow> ('x option \<times> 's) option"
  assumes pop_none: "rep s [] \<Longrightarrow> pop s = Some (None, s)"
    and pop_some: "rep s (x # xs) \<Longrightarrow> \<exists>s'. pop s = Some (Some x, s') \<and> rep s' xs"
begin

text \<open>
  The loop ends, and it hands the nodes to the body in the pool's order, when the body
  leaves the pool alone. \<open>ok s ys\<close> is what the body needs with \<open>ys\<close> still to come, and
  \<open>note\<close> is any observation that a turn on \<open>x\<close> updates by \<open>upd x\<close>.
\<close>

lemma drain_empties:
  assumes "rep s xs" and "ok s xs"
    and step: "\<And>s s1 zs x ys. \<lbrakk> xs = zs @ x # ys; rep s (x # ys); ok s (x # ys);
       pop s = Some (Some x, s1); rep s1 ys \<rbrakk> \<Longrightarrow>
       \<exists>s2. body x s1 = Some s2 \<and> rep s2 ys \<and> ok s2 ys \<and> note s2 = upd x (note s)"
  shows "\<exists>s'. drain pop body s = Some s' \<and> rep s' [] \<and> ok s' [] \<and> note s' = fold upd xs (note s)"
  using assms
proof (induction xs arbitrary: s)
  case Nil
  then show ?case
    by (subst drain_unfold) (simp add: pop_none)
next
  case (Cons x xs)
  obtain s1 where s1: "pop s = Some (Some x, s1)" "rep s1 xs"
    using pop_some [OF Cons.prems(1)] by blast
  obtain s2 where s2: "body x s1 = Some s2" "rep s2 xs" "ok s2 xs" "note s2 = upd x (note s)"
    using Cons.prems(3) [OF _ Cons.prems(1,2) s1] by auto
  have "\<exists>s'. drain pop body s2 = Some s' \<and> rep s' [] \<and> ok s' [] \<and> note s' = fold upd xs (note s2)"
  proof (rule Cons.IH [OF s2(2,3)])
    fix t t1 zs y ys
    assume "xs = zs @ y # ys" and t: "rep t (y # ys)" "ok t (y # ys)"
      "pop t = Some (Some y, t1)" "rep t1 ys"
    then have "x # xs = (x # zs) @ y # ys" by simp
    then show "\<exists>t2. body y t1 = Some t2 \<and> rep t2 ys \<and> ok t2 ys \<and> note t2 = upd y (note t)"
      using t by (rule Cons.prems(3))
  qed
  then show ?case
    by (subst drain_unfold) (simp add: s1 s2)
qed

lemma pops_all:
  "rep s (xs @ ys) \<Longrightarrow> \<exists>s'. pops pop (length xs) s = Some (map Some xs, s') \<and> rep s' ys"
proof (induction xs arbitrary: s)
  case (Cons x xs)
  obtain s1 where s1: "pop s = Some (Some x, s1)" "rep s1 (xs @ ys)"
    using pop_some [of s x "xs @ ys"] Cons.prems by auto
  then show ?case using Cons.IH [OF s1(2)] by auto
qed simp

end

locale fifo_pool = node_pool rep pop
  for rep :: "'s \<Rightarrow> 'x list \<Rightarrow> bool" and pop :: "'s \<Rightarrow> ('x option \<times> 's) option" +
  fixes push :: "'x \<Rightarrow> 's \<Rightarrow> 's option"
    and fits :: "'s \<Rightarrow> 'x \<Rightarrow> bool"
  assumes push_back: "rep s xs \<Longrightarrow> fits s x \<Longrightarrow> x \<notin> set xs \<Longrightarrow>
      \<exists>s'. push x s = Some s' \<and> rep s' (xs @ [x]) \<and> (\<forall>y. fits s' y = fits s y)"
begin

text \<open>Pushing a list of distinct new nodes one after the other appends it.\<close>

lemma push_many:
  assumes "rep s xs" and "\<And>y. y \<in> set ys \<Longrightarrow> fits s y"
    and "distinct ys" and "set ys \<inter> set xs = {}"
  shows "\<exists>s'. fold (\<lambda>y r. Option.bind r (push y)) ys (Some s) = Some s' \<and> rep s' (xs @ ys)"
  using assms
proof (induction ys arbitrary: s xs)
  case Nil
  then show ?case by simp
next
  case (Cons y ys)
  obtain s1 where s1: "push y s = Some s1" "rep s1 (xs @ [y])" "\<forall>z. fits s1 z = fits s z"
    using push_back [OF Cons.prems(1), of y] Cons.prems(2,4) by auto
  have "\<exists>s'. fold (\<lambda>y r. Option.bind r (push y)) ys (Some s1) = Some s' \<and> rep s' ((xs @ [y]) @ ys)"
    by (rule Cons.IH [OF s1(2)]) (use Cons.prems s1(3) in auto)
  then show ?case by (simp add: s1(1))
qed

end

locale lifo_pool = node_pool rep pop
  for rep :: "'s \<Rightarrow> 'x list \<Rightarrow> bool" and pop :: "'s \<Rightarrow> ('x option \<times> 's) option" +
  fixes put :: "'x \<Rightarrow> 's \<Rightarrow> 's option"
    and fits :: "'s \<Rightarrow> 'x \<Rightarrow> bool"
  assumes put_front: "rep s xs \<Longrightarrow> fits s x \<Longrightarrow> x \<notin> set xs \<Longrightarrow>
      \<exists>s'. put x s = Some s' \<and> rep s' (x # xs)"
begin

text \<open>The node put last is the node taken first.\<close>

lemma put_pop:
  assumes "rep s xs" and "fits s x" and "x \<notin> set xs"
  shows "\<exists>s' s''. put x s = Some s' \<and> pop s' = Some (Some x, s'') \<and> rep s'' xs"
  using put_front [OF assms] pop_some by blast

end

end
