(* ===== verification/Slab_Memory.thy ===== *)
theory Slab_Memory
  imports Rpc_Prelude
begin

text \<open>
  The shared-memory slab pool as the module sees it. \<open>ngx_slab_alloc\<close> and
  \<open>ngx_slab_free\<close> belong to nginx; how they choose an address is the parameter
  \<open>pick\<close> of every operation that allocates. The model keeps the set of live chunks with
  what each was requested for: an allocation either fails (\<open>NULL\<close>) or returns an address that is not live,
  and a release is defined only on the start address of a live chunk. (nginx logs an alert
  for any other pointer, or releases a chunk that belongs to somebody else.)
\<close>

section \<open>The pool\<close>

text \<open>
  What a block of memory was requested for: \<open>sizeof\<close> one of the module's or nginx's
  structures, an array of notify pointers, or a number of bytes. \<open>Pool_mem\<close> marks memory of an
  nginx pool (\<open>ngx_palloc\<close>: request bodies, response buffers), which lives in the same
  address space but does not belong to the slab.
\<close>

datatype chunk =
    Notify_t
  | Queue_t
  | Task_t
  | Buf_t
  | Chain_t
  | Ctx_t
  | Notify_slots int
  | Bytes int
  | Pool_mem chunk

fun slab_chunk :: "chunk \<Rightarrow> bool" where
  "slab_chunk (Pool_mem n) = False"
| "slab_chunk _ = True"

type_synonym slab_pick = "(addr \<rightharpoonup> chunk) \<Rightarrow> chunk \<Rightarrow> addr option"

record slab =
  chunks :: "addr \<rightharpoonup> chunk"

definition live :: "'z slab_scheme \<Rightarrow> addr \<Rightarrow> bool" where
  "live s a \<longleftrightarrow> chunks s a \<noteq> None"

definition ngx_slab_alloc ::
  "slab_pick \<Rightarrow> chunk \<Rightarrow> 'z slab_scheme \<Rightarrow> addr option \<times> 'z slab_scheme" where
  "ngx_slab_alloc pick n s =
     (case pick (chunks s) n of
        None \<Rightarrow> (None, s)
      | Some a \<Rightarrow>
          if live s a then (None, s) else (Some a, s\<lparr>chunks := (chunks s)(a \<mapsto> n)\<rparr>))"

definition ngx_slab_free :: "addr \<Rightarrow> 'z slab_scheme \<Rightarrow> 'z slab_scheme option" where
  "ngx_slab_free a s =
     (case chunks s a of
        None \<Rightarrow> None
      | Some k \<Rightarrow>
          if slab_chunk k then Some (s\<lparr>chunks := (chunks s)(a := None)\<rparr>) else None)"

text \<open>Reading a typed object out of the pool: only from a live chunk.\<close>

definition load :: "'z slab_scheme \<Rightarrow> (addr \<rightharpoonup> 'a) \<Rightarrow> addr \<Rightarrow> 'a option" where
  "load s m a = (if live s a then m a else None)"

section \<open>Laws\<close>

lemma live_update [simp]: "live (s\<lparr>chunks := c\<rparr>) a \<longleftrightarrow> c a \<noteq> None"
  by (simp add: live_def)

lemma alloc_cases:
  obtains (fail) "ngx_slab_alloc pick n s = (None, s)"
  | (ok) a where "\<not> live s a" and
      "ngx_slab_alloc pick n s = (Some a, s\<lparr>chunks := (chunks s)(a \<mapsto> n)\<rparr>)"
proof (cases "pick (chunks s) n")
  case None
  then show thesis by (intro fail) (simp add: ngx_slab_alloc_def)
next
  case (Some a)
  then show thesis
    using fail ok [of a] by (cases "live s a") (simp_all add: ngx_slab_alloc_def)
qed

lemma alloc_SomeD:
  assumes "ngx_slab_alloc pick n s = (Some a, s')"
  shows "\<not> live s a" and "s' = s\<lparr>chunks := (chunks s)(a \<mapsto> n)\<rparr>"
  using assms by (auto simp: ngx_slab_alloc_def split: option.splits if_splits)

lemma alloc_NoneD: "ngx_slab_alloc pick n s = (None, s') \<Longrightarrow> s' = s"
  by (auto simp: ngx_slab_alloc_def split: option.splits if_splits)

lemma free_Some_iff:
  "ngx_slab_free a s = Some s' \<longleftrightarrow>
     (\<exists>k. chunks s a = Some k \<and> slab_chunk k) \<and> s' = s\<lparr>chunks := (chunks s)(a := None)\<rparr>"
  by (auto simp: ngx_slab_free_def split: option.splits)

lemma free_chunk:
  "chunks s a = Some k \<Longrightarrow> slab_chunk k \<Longrightarrow>
     ngx_slab_free a s = Some (s\<lparr>chunks := (chunks s)(a := None)\<rparr>)"
  by (simp add: ngx_slab_free_def)

lemma free_alloc:
  assumes "ngx_slab_alloc pick k s = (Some a, s')" and "slab_chunk k"
  shows "ngx_slab_free a s' = Some s"
  using alloc_SomeD [OF assms(1)] assms(2) by (simp add: ngx_slab_free_def live_def fun_upd_idem)

lemma double_free: "ngx_slab_free a s = Some s' \<Longrightarrow> ngx_slab_free a s' = None"
  by (auto simp: ngx_slab_free_def split: option.splits if_splits)

lemma load_live: "live s a \<Longrightarrow> load s m a = m a"
  by (simp add: load_def)

lemma load_Some_iff: "load s m a = Some x \<longleftrightarrow> live s a \<and> m a = Some x"
  by (simp add: load_def)

lemma load_cong: "chunks s = chunks s' \<Longrightarrow> load s m a = load s' m a"
  by (simp add: load_def live_def)

text \<open>
  \<open>spare pick m n\<close>: starting with the live chunks \<open>m\<close>, the pool serves any \<open>n\<close> requests in
  a row. Theorems that an operation succeeds state how many requests it makes.
\<close>

primrec spare :: "slab_pick \<Rightarrow> (addr \<rightharpoonup> chunk) \<Rightarrow> nat \<Rightarrow> bool" where
  "spare pick m 0 \<longleftrightarrow> True"
| "spare pick m (Suc n) \<longleftrightarrow>
     (\<forall>k. \<exists>a. pick m k = Some a \<and> m a = None \<and> spare pick (m(a \<mapsto> k)) n)"

declare spare.simps(2) [simp del]

lemma spare_alloc:
  assumes "spare pick (chunks s) (Suc n)"
  obtains a where "ngx_slab_alloc pick k s = (Some a, s\<lparr>chunks := (chunks s)(a \<mapsto> k)\<rparr>)"
    and "\<not> live s a" and "spare pick ((chunks s)(a \<mapsto> k)) n"
  using assms by (auto simp: spare.simps(2) ngx_slab_alloc_def live_def dest: spec [of _ k])

text \<open>A first-fit pool over a bounded range of addresses, to run the model on concrete input.\<close>

definition first_fit :: "nat \<Rightarrow> slab_pick" where
  "first_fit limit m k = find (\<lambda>a. m a = None) [1..<limit]"

lemma spare_first_fit:
  "k \<le> card {a \<in> {1..<limit}. m a = None} \<Longrightarrow> spare (first_fit limit) m k"
proof (induction k arbitrary: m)
  case (Suc k)
  show ?case
    unfolding spare.simps(2)
  proof
    fix c
    let ?F = "{a \<in> {1..<limit}. m a = None}"
    have "?F \<noteq> {}" using Suc.prems by (metis card.empty not_less_eq_eq zero_le)
    then have "\<exists>a \<in> set [1..<limit]. m a = None" by auto
    then have "first_fit limit m c \<noteq> None" by (auto simp: first_fit_def find_None_iff)
    then obtain a where a: "first_fit limit m c = Some a" by auto
    then have am: "m a = None" "a \<in> {1..<limit}"
      unfolding first_fit_def find_Some_iff by (auto dest: nth_mem [of _ "[1..<limit]"])
    have "{b \<in> {1..<limit}. (m(a \<mapsto> c)) b = None} = ?F - {a}" by auto
    then have "k \<le> card {b \<in> {1..<limit}. (m(a \<mapsto> c)) b = None}" using Suc.prems am by simp
    then have "spare (first_fit limit) (m(a \<mapsto> c)) k" by (rule Suc.IH)
    then show "\<exists>a. first_fit limit m c = Some a \<and> m a = None \<and> spare (first_fit limit) (m(a \<mapsto> c)) k"
      using a am(1) by blast
  qed
qed simp

end
