(* ===== verification/Ngx_Queue.thy ===== *)
theory Ngx_Queue
  imports Slab_Memory
begin

text \<open>
  The intrusive circular lists of nginx (\<open>ngx_queue_t\<close>), at the level of their \<open>prev\<close>
  and \<open>next\<close> fields. The module manipulates these fields by hand under its locks, so the
  model keeps them as two maps from link addresses to link addresses; a field that was never
  written, or that holds \<open>NULL\<close>, is \<open>None\<close>, and so is every field of a released object.
  \<open>ring s q xs\<close> says that the list with head \<open>q\<close> is a well-formed circular list through
  the nodes \<open>xs\<close>.

  The macros \<open>ngx_queue_init\<close>, \<open>ngx_queue_empty\<close> and \<open>ngx_queue_data\<close> are those of
  \<open>ngx_queue.h\<close> in the nginx distribution the repository ships
  (thirdparty/tengine/tengine-master.zip).
\<close>

section \<open>Link addresses\<close>

text \<open>
  A link address is the address of an embedded \<open>ngx_queue_t\<close>: the field \<open>idles\<close> of a
  queue object, the fields \<open>queue_head\<close> and \<open>idles\<close> of a notify object, the fields
  \<open>node\<close> and \<open>params\<close> of a task.
\<close>

datatype qaddr =
    QueueIdles addr
  | NotifyHead addr
  | NotifyIdles addr
  | TaskNode addr
  | TaskParams addr

fun qowner :: "qaddr \<Rightarrow> addr" where
  "qowner (QueueIdles a) = a"
| "qowner (NotifyHead a) = a"
| "qowner (NotifyIdles a) = a"
| "qowner (TaskNode a) = a"
| "qowner (TaskParams a) = a"

text \<open>\<open>ngx_queue_data\<close>: from the address of the field back to the object.\<close>

fun data_notify_idles :: "qaddr \<Rightarrow> addr option" where
  "data_notify_idles (NotifyIdles n) = Some n"
| "data_notify_idles _ = None"

fun data_task_node :: "qaddr \<Rightarrow> addr option" where
  "data_task_node (TaskNode t) = Some t"
| "data_task_node _ = None"

record qstate = slab +
  qnext :: "qaddr \<rightharpoonup> qaddr"
  qprev :: "qaddr \<rightharpoonup> qaddr"

definition node_live :: "'z slab_scheme \<Rightarrow> qaddr \<Rightarrow> bool" where
  "node_live s a \<longleftrightarrow> live s (qowner a)"

definition get_next :: "qaddr \<Rightarrow> 'z qstate_scheme \<Rightarrow> qaddr option" where
  "get_next a s = (if node_live s a then qnext s a else None)"

definition get_prev :: "qaddr \<Rightarrow> 'z qstate_scheme \<Rightarrow> qaddr option" where
  "get_prev a s = (if node_live s a then qprev s a else None)"

definition set_next :: "qaddr \<Rightarrow> qaddr \<Rightarrow> 'z qstate_scheme \<Rightarrow> 'z qstate_scheme option" where
  "set_next a v s = (if node_live s a then Some (s\<lparr>qnext := (qnext s)(a \<mapsto> v)\<rparr>) else None)"

definition set_prev :: "qaddr \<Rightarrow> qaddr \<Rightarrow> 'z qstate_scheme \<Rightarrow> 'z qstate_scheme option" where
  "set_prev a v s = (if node_live s a then Some (s\<lparr>qprev := (qprev s)(a \<mapsto> v)\<rparr>) else None)"

definition ngx_queue_init :: "qaddr \<Rightarrow> 'z qstate_scheme \<Rightarrow> 'z qstate_scheme option" where
  "ngx_queue_init q s = do { s \<leftarrow> set_prev q q s; set_next q q s }"

definition ngx_queue_empty :: "qaddr \<Rightarrow> 'z qstate_scheme \<Rightarrow> bool option" where
  "ngx_queue_empty h s = do { p \<leftarrow> get_prev h s; Some (h = p) }"

lemma node_live_updates [simp]:
  "node_live (s\<lparr>qnext := f\<rparr>) a = node_live s a"
  "node_live (s\<lparr>qprev := f\<rparr>) a = node_live s a"
  by (simp_all add: node_live_def live_def)

lemmas link_defs = get_next_def get_prev_def set_next_def set_prev_def

section \<open>Segments and rings of the two maps\<close>

text \<open>\<open>seg nx pv a xs b\<close>: from \<open>a\<close> the links lead through \<open>xs\<close> to \<open>b\<close>, and back.\<close>

fun seg :: "(qaddr \<rightharpoonup> qaddr) \<Rightarrow> (qaddr \<rightharpoonup> qaddr) \<Rightarrow> qaddr \<Rightarrow> qaddr list \<Rightarrow> qaddr \<Rightarrow> bool" where
  "seg nx pv a [] b \<longleftrightarrow> nx a = Some b \<and> pv b = Some a"
| "seg nx pv a (x # xs) b \<longleftrightarrow> nx a = Some x \<and> pv x = Some a \<and> seg nx pv x xs b"

text \<open>The first and the last node of a ring; the head itself when the ring is empty.\<close>

definition qfirst :: "qaddr \<Rightarrow> qaddr list \<Rightarrow> qaddr" where
  "qfirst q xs = hd (xs @ [q])"

definition qlast :: "qaddr \<Rightarrow> qaddr list \<Rightarrow> qaddr" where
  "qlast q xs = last (q # xs)"

lemma qfirst_simps [simp]: "qfirst q [] = q" "qfirst q (x # xs) = x"
  by (simp_all add: qfirst_def)

lemma qlast_simps [simp]: "qlast q [] = q" "qlast q (xs @ [x]) = x"
  by (simp_all add: qlast_def)

lemma qlast_in: "qlast q xs \<in> set (q # xs)"
  unfolding qlast_def by (rule last_in_set) simp

lemma qfirst_in: "qfirst q xs \<in> set (q # xs)"
  by (cases xs) auto

definition mring :: "(qaddr \<rightharpoonup> qaddr) \<Rightarrow> (qaddr \<rightharpoonup> qaddr) \<Rightarrow> qaddr \<Rightarrow> qaddr list \<Rightarrow> bool" where
  "mring nx pv q xs \<longleftrightarrow> seg nx pv q xs q \<and> distinct (q # xs)"

lemma seg_append:
  "seg nx pv a (xs @ x # ys) b \<longleftrightarrow> seg nx pv a xs x \<and> seg nx pv x ys b"
  by (induction xs arbitrary: a) auto

lemma seg_upd_next: "c \<notin> set (a # xs) \<Longrightarrow> seg (nx(c := v)) pv a xs b = seg nx pv a xs b"
  by (induction xs arbitrary: a) auto

lemma seg_upd_prev: "c \<notin> set (xs @ [b]) \<Longrightarrow> seg nx (pv(c := v)) a xs b = seg nx pv a xs b"
  by (induction xs arbitrary: a) auto

lemma seg_next: "seg nx pv a xs b \<Longrightarrow> nx a = Some (qfirst b xs)"
  by (cases xs) auto

lemma seg_prev: "seg nx pv a xs b \<Longrightarrow> pv b = Some (qlast a xs)"
  by (induction xs arbitrary: a) (auto simp: qlast_def)

lemma seg_unique:
  "\<lbrakk> seg nx pv a xs b; seg nx pv a ys b; b \<notin> set xs; b \<notin> set ys \<rbrakk> \<Longrightarrow> xs = ys"
proof (induction xs arbitrary: a ys)
  case Nil
  then show ?case by (cases ys) auto
next
  case (Cons x xs)
  then show ?case by (cases ys) auto
qed

lemma mring_unique: "mring nx pv q xs \<Longrightarrow> mring nx pv q ys \<Longrightarrow> xs = ys"
  using seg_unique by (auto simp: mring_def)

lemma mring_single: "nx q = Some q \<Longrightarrow> pv q = Some q \<Longrightarrow> mring nx pv q []"
  by (simp add: mring_def)

lemma qlast_is_head: "distinct (q # xs) \<Longrightarrow> q = qlast q xs \<longleftrightarrow> xs = []"
  by (auto simp: qlast_def)

lemma mring_frame:
  assumes "mring nx pv q xs"
    and "\<And>a. a \<in> set (q # xs) \<Longrightarrow> nx' a = nx a \<and> pv' a = pv a"
  shows "mring nx' pv' q xs"
proof -
  have "seg nx pv a ys q \<Longrightarrow> (\<And>c. c \<in> set (a # ys) \<union> {q} \<Longrightarrow> nx' c = nx c \<and> pv' c = pv c)
      \<Longrightarrow> seg nx' pv' a ys q" for a ys
    by (induction ys arbitrary: a) auto
  with assms show ?thesis by (auto simp: mring_def)
qed

text \<open>Writing the links of nodes outside the ring leaves it alone.\<close>

lemma mring_upd_next: "c \<notin> set (q # xs) \<Longrightarrow> mring nx pv q xs \<Longrightarrow> mring (nx(c := v)) pv q xs"
  by (erule mring_frame) auto

lemma mring_upd_prev: "c \<notin> set (q # xs) \<Longrightarrow> mring nx pv q xs \<Longrightarrow> mring nx (pv(c := v)) q xs"
  by (erule mring_frame) auto

section \<open>The three list surgeries\<close>

text \<open>
  What the code does to a ring, as updates of the two maps in the order of the assignments:
  insertion before the head (push), removal after the head (pop, take), insertion after the
  head (the idle processors).
\<close>

lemma mring_insert_tail:
  assumes "mring nx pv q xs" and "x \<notin> set (q # xs)"
  shows "mring (nx(qlast q xs \<mapsto> x, x \<mapsto> q)) (pv(x \<mapsto> qlast q xs, q \<mapsto> x)) q (xs @ [x])"
proof (cases xs rule: rev_cases)
  case Nil
  with assms show ?thesis by (auto simp: mring_def)
next
  case (snoc ys t)
  with assms have *: "seg nx pv q ys t" "t \<noteq> x" "t \<noteq> q" "x \<noteq> q"
    "t \<notin> set ys" "x \<notin> set ys" "q \<notin> set ys" "distinct ys"
    by (auto simp: mring_def seg_append)
  have "seg (nx(t \<mapsto> x, x \<mapsto> q)) (pv(x \<mapsto> t, q \<mapsto> x)) q (ys @ t # [x]) q"
    unfolding seg_append using * by (simp add: seg_upd_next seg_upd_prev)
  with snoc * show ?thesis by (auto simp: mring_def)
qed

lemma mring_remove_head:
  assumes "mring nx pv q (x # xs)"
  shows "nx x = Some (qfirst q xs)"
    and "mring (nx(q \<mapsto> qfirst q xs)) (pv(qfirst q xs \<mapsto> q)) q xs"
proof -
  have s: "seg nx pv x xs q" and d: "distinct (q # x # xs)"
    using assms by (auto simp: mring_def)
  show "nx x = Some (qfirst q xs)"
    using s by (rule seg_next)
  show "mring (nx(q \<mapsto> qfirst q xs)) (pv(qfirst q xs \<mapsto> q)) q xs"
  proof (cases xs)
    case Nil
    then show ?thesis by (simp add: mring_def)
  next
    case (Cons y ys)
    with s d have "seg nx pv y ys q" by simp
    moreover have "y \<notin> set (ys @ [q])" "q \<notin> set (y # ys)"
      using d Cons by auto
    ultimately have "seg (nx(q \<mapsto> y)) (pv(y \<mapsto> q)) y ys q"
      by (simp add: seg_upd_next seg_upd_prev)
    with d Cons show ?thesis by (auto simp: mring_def)
  qed
qed

lemma mring_insert_head:
  assumes "mring nx pv q xs" and "x \<notin> set (q # xs)"
  shows "mring (nx(x \<mapsto> qfirst q xs, q \<mapsto> x)) (pv(qfirst q xs \<mapsto> x, x \<mapsto> q)) q (x # xs)"
proof (cases xs)
  case Nil
  with assms show ?thesis by (auto simp: mring_def)
next
  case (Cons y ys)
  with assms have *: "seg nx pv y ys q" "distinct (q # x # y # ys)" "y \<notin> set (ys @ [q])"
    "x \<notin> set (ys @ [q])" "q \<notin> set (y # ys)" "x \<notin> set (y # ys)"
    by (auto simp: mring_def)
  then have "seg (nx(x \<mapsto> y, q \<mapsto> x)) (pv(y \<mapsto> x, x \<mapsto> q)) y ys q"
    by (simp add: seg_upd_next seg_upd_prev)
  with Cons * show ?thesis by (auto simp: mring_def)
qed

text \<open>
  Inserting a node after the head when it already is the first node ties it to itself: the
  node's \<open>next\<close> becomes the node, and the rest of the list is cut off.
\<close>

lemma insert_head_twice:
  assumes "mring nx pv q (x # xs)"
  shows "nx q = Some x"
    and "(nx(x \<mapsto> x, q \<mapsto> x)) x = Some x"
    and "\<not> mring (nx(x \<mapsto> x, q \<mapsto> x)) (pv(x \<mapsto> x, x \<mapsto> q)) q ys"
proof -
  show nq: "nx q = Some x" using assms by (simp add: mring_def)
  have qx: "q \<noteq> x" using assms by (auto simp: mring_def)
  then show "(nx(x \<mapsto> x, q \<mapsto> x)) x = Some x" by simp
  have "\<not> seg (nx(x \<mapsto> x, q \<mapsto> x)) p x zs q" for p zs
  proof (induction zs)
    case Nil
    from qx show ?case by simp
  next
    case (Cons z zs)
    then show ?case using qx by auto
  qed
  then show "\<not> mring (nx(x \<mapsto> x, q \<mapsto> x)) (pv(x \<mapsto> x, x \<mapsto> q)) q ys"
    using qx by (cases ys) (auto simp: mring_def)
qed

section \<open>Rings in a state\<close>

definition ring :: "'z qstate_scheme \<Rightarrow> qaddr \<Rightarrow> qaddr list \<Rightarrow> bool" where
  "ring s q xs \<longleftrightarrow> mring (qnext s) (qprev s) q xs \<and> list_all (node_live s) (q # xs)"

lemma ring_unique: "ring s q xs \<Longrightarrow> ring s q ys \<Longrightarrow> xs = ys"
  using mring_unique by (auto simp: ring_def)

lemma ring_liveD: "ring s q xs \<Longrightarrow> a \<in> set (q # xs) \<Longrightarrow> node_live s a"
  by (auto simp: ring_def list_all_iff)

lemma ring_next: "ring s q xs \<Longrightarrow> get_next q s = Some (qfirst q xs)"
  by (auto simp: ring_def mring_def get_next_def dest: seg_next)

lemma ring_prev: "ring s q xs \<Longrightarrow> get_prev q s = Some (qlast q xs)"
  by (auto simp: ring_def mring_def get_prev_def dest: seg_prev)

lemma ring_iff:
  "ring s q xs \<longleftrightarrow> mring (qnext s) (qprev s) q xs \<and> (\<forall>a \<in> set (q # xs). node_live s a)"
  by (simp add: ring_def list_all_iff)

lemma ring_distinct: "ring s q xs \<Longrightarrow> distinct (q # xs)"
  by (simp add: ring_def mring_def)

lemma ring_empty:
  assumes "ring s q xs"
  shows "ngx_queue_empty q s = Some (xs = [])"
  using qlast_is_head [OF ring_distinct [OF assms]]
  by (simp add: ngx_queue_empty_def ring_prev [OF assms])

lemma ring_init:
  assumes "node_live s q"
  shows "ngx_queue_init q s = Some (s\<lparr>qprev := (qprev s)(q \<mapsto> q), qnext := (qnext s)(q \<mapsto> q)\<rparr>)"
    and "ring (s\<lparr>qprev := (qprev s)(q \<mapsto> q), qnext := (qnext s)(q \<mapsto> q)\<rparr>) q []"
  using assms by (simp_all add: ngx_queue_init_def link_defs ring_def mring_single)

lemma ring_frame:
  assumes "ring s q xs" and "chunks s' = chunks s"
    and "\<And>a. a \<in> set (q # xs) \<Longrightarrow> qnext s' a = qnext s a \<and> qprev s' a = qprev s a"
  shows "ring s' q xs"
proof -
  have "mring (qnext s') (qprev s') q xs"
    by (rule mring_frame [of "qnext s" "qprev s"]) (use assms in \<open>simp_all add: ring_iff\<close>)
  with assms(1,2) show ?thesis by (simp add: ring_iff node_live_def live_def)
qed

lemma ring_same_links:
  "ring s q xs \<Longrightarrow> qnext s' = qnext s \<Longrightarrow> qprev s' = qprev s \<Longrightarrow> chunks s' = chunks s
    \<Longrightarrow> ring s' q xs"
  by (erule ring_frame) simp_all

text \<open>
  The surgeries on a state. Each keeps every ring that shares no node with the one it works
  on.
\<close>

lemma ring_insert_tail:
  assumes "ring s q xs" and "node_live s x" and "x \<notin> set (q # xs)"
    and "s' = s\<lparr>qnext := (qnext s)(qlast q xs \<mapsto> x, x \<mapsto> q),
                qprev := (qprev s)(x \<mapsto> qlast q xs, q \<mapsto> x)\<rparr>"
  shows "ring s' q (xs @ [x])"
    and "ring s q' ys \<Longrightarrow> set (q' # ys) \<inter> set (x # q # xs) = {} \<Longrightarrow> ring s' q' ys"
proof -
  show "ring s' q (xs @ [x])"
    using mring_insert_tail [of "qnext s" "qprev s" q xs x] assms by (auto simp: ring_iff)
  assume r: "ring s q' ys" and d: "set (q' # ys) \<inter> set (x # q # xs) = {}"
  have same: "qnext s' a = qnext s a \<and> qprev s' a = qprev s a" if "a \<in> set (q' # ys)" for a
    using disjointD [OF d that] qlast_in [of q xs] by (auto simp: assms(4))
  show "ring s' q' ys"
    by (rule ring_frame [OF r _ same]) (simp_all add: assms(4))
qed

lemma ring_remove_head:
  assumes "ring s q (x # xs)"
    and "s' = s\<lparr>qnext := (qnext s)(q \<mapsto> qfirst q xs), qprev := (qprev s)(qfirst q xs \<mapsto> q)\<rparr>"
  shows "get_next q s = Some x" and "get_next x s = Some (qfirst q xs)"
    and "ring s' q xs"
    and "ring s q' ys \<Longrightarrow> set (q' # ys) \<inter> set (q # xs) = {} \<Longrightarrow> ring s' q' ys"
proof -
  have m: "mring (qnext s) (qprev s) q (x # xs)" using assms(1) by (simp add: ring_iff)
  show "get_next q s = Some x" using ring_next [OF assms(1)] by simp
  show "get_next x s = Some (qfirst q xs)"
    using mring_remove_head(1) [OF m] assms(1) by (simp add: ring_iff get_next_def)
  show "ring s' q xs"
    using mring_remove_head(2) [OF m] assms by (simp add: ring_iff)
  assume r: "ring s q' ys" and d: "set (q' # ys) \<inter> set (q # xs) = {}"
  have same: "qnext s' a = qnext s a \<and> qprev s' a = qprev s a" if "a \<in> set (q' # ys)" for a
    using disjointD [OF d that] qfirst_in [of q xs] by (auto simp: assms(2))
  show "ring s' q' ys"
    by (rule ring_frame [OF r _ same]) (simp_all add: assms(2))
qed

lemma ring_insert_head:
  assumes "ring s q xs" and "node_live s x" and "x \<notin> set (q # xs)"
    and "s' = s\<lparr>qnext := (qnext s)(x \<mapsto> qfirst q xs, q \<mapsto> x),
                qprev := (qprev s)(qfirst q xs \<mapsto> x, x \<mapsto> q)\<rparr>"
  shows "ring s' q (x # xs)"
    and "ring s q' ys \<Longrightarrow> set (q' # ys) \<inter> set (x # q # xs) = {} \<Longrightarrow> ring s' q' ys"
proof -
  show "ring s' q (x # xs)"
    using mring_insert_head [of "qnext s" "qprev s" q xs x] assms by (auto simp: ring_iff)
  assume r: "ring s q' ys" and d: "set (q' # ys) \<inter> set (x # q # xs) = {}"
  have same: "qnext s' a = qnext s a \<and> qprev s' a = qprev s a" if "a \<in> set (q' # ys)" for a
    using disjointD [OF d that] qfirst_in [of q xs] by (auto simp: assms(4))
  show "ring s' q' ys"
    by (rule ring_frame [OF r _ same]) (simp_all add: assms(4))
qed

text \<open>
  The first node of a ring inserted after the head again: its \<open>next\<close> is itself, so the
  walk from the head never leaves it and no list is represented any more.
\<close>

lemma ring_insert_head_again:
  assumes "ring s q (x # xs)"
    and "s' = s\<lparr>qnext := (qnext s)(x \<mapsto> x, q \<mapsto> x), qprev := (qprev s)(x \<mapsto> q)\<rparr>"
  shows "get_next q s' = Some x" and "get_next x s' = Some x" and "\<not> ring s' q ys"
proof -
  have m: "mring (qnext s) (qprev s) q (x # xs)" and l: "node_live s q" "node_live s x"
    using assms(1) by (auto simp: ring_iff)
  have "q \<noteq> x" using ring_distinct [OF assms(1)] by auto
  then show "get_next q s' = Some x" and "get_next x s' = Some x"
    using l by (simp_all add: get_next_def assms(2))
  show "\<not> ring s' q ys"
    using insert_head_twice(3) [OF m, of ys] by (simp add: ring_iff assms(2))
qed

end
