(* ===== verification/Rpc_Notify.thy ===== *)
theory Rpc_Notify
  imports Ngx_Queue
begin

text \<open>
  The notify object of ngx_rpc_module/ngx_rpc_notify.c: a list of pending tasks in shared
  memory, guarded by a lock, and an eventfd that wakes the process that owns it. The regions
  between \<open>ngx_shmtx_lock\<close> and \<open>ngx_shmtx_unlock\<close> are atomic in the model; the theory
  Notify_Wakeup interleaves them with the eventfd calls outside them.
\<close>

section \<open>State\<close>

text \<open>The functions the module stores in \<open>read_hanlder\<close> and \<open>write_hanlder\<close>.\<close>

datatype notify_fn = Notify_Default_Hanlder | Proc_Process_One_Cycle | Http_Process_Notify_Task

text \<open>What the module stores in \<open>ctx\<close>: a processor's or a worker's configuration.\<close>

datatype notify_ctx = Proc_Conf addr | Http_Conf addr

text \<open>
  A field that was never assigned is \<open>None\<close>; so is a \<open>NULL\<close> connection. The lock, the log
  and the pool pointer are left out.
\<close>

record ngx_rpc_notify =
  event_fd :: int
  read_hanlder :: "notify_fn option"
  write_hanlder :: "notify_fn option"
  notify_ctx :: "notify_ctx option"
  notify_conn :: "nat option"

datatype event_fn = Notify_Read_Handler | Notify_Write_Handler

record ngx_connection =
  c_fd :: int
  c_sockaddr :: addr
  c_read_handler :: event_fn
  c_read_data :: nat
  c_write_handler :: event_fn
  c_write_data :: nat
  c_added :: bool
  c_write_event :: bool

record nstate = qstate +
  notifies :: "addr \<rightharpoonup> ngx_rpc_notify"
  notify_slots :: "addr \<rightharpoonup> addr option list"
  conns :: "nat \<rightharpoonup> ngx_connection"
  efds :: "int \<rightharpoonup> nat"

section \<open>Eventfds\<close>

text \<open>
  A Linux eventfd is a 64-bit counter that never exceeds \<open>2 ^ 64 - 2\<close>. In non-blocking mode
  a write that would exceed it fails (the module ignores the result), and a read of zero
  fails with \<open>-1\<close>; any other read returns the 8 bytes of the counter and clears it.
\<close>

definition eventfd_max :: nat where
  "eventfd_max = 2 ^ 64 - 2"

definition eventfd_open :: "int \<Rightarrow> 'z nstate_scheme \<Rightarrow> 'z nstate_scheme" where
  "eventfd_open fd s = s\<lparr>efds := (if fd < 0 then efds s else (efds s)(fd \<mapsto> 0))\<rparr>"

definition eventfd_write :: "int \<Rightarrow> nat \<Rightarrow> 'z nstate_scheme \<Rightarrow> 'z nstate_scheme" where
  "eventfd_write fd v s =
     s\<lparr>efds := (case efds s fd of
               None \<Rightarrow> efds s
             | Some c \<Rightarrow> if c + v \<le> eventfd_max then (efds s)(fd \<mapsto> c + v) else efds s)\<rparr>"

definition eventfd_read :: "int \<Rightarrow> 'z nstate_scheme \<Rightarrow> int \<times> 'z nstate_scheme" where
  "eventfd_read fd s =
     (case efds s fd of
        None \<Rightarrow> (-1, s)
      | Some c \<Rightarrow> if c = 0 then (-1, s) else (8, s\<lparr>efds := (efds s)(fd \<mapsto> 0)\<rparr>))"

section \<open>Operations\<close>

text \<open>
  \<open>shmtx_ok\<close> is the outcome of \<open>ngx_shmtx_create\<close> and \<open>fd\<close> the descriptor that the
  kernel returned. The pointer from \<open>ngx_slab_alloc\<close> is used without a check.
\<close>

definition ngx_rpc_notify_create ::
  "slab_pick \<Rightarrow> bool \<Rightarrow> int \<Rightarrow> 'z nstate_scheme \<Rightarrow> (addr option \<times> 'z nstate_scheme) option" where
  "ngx_rpc_notify_create pick shmtx_ok fd s =
     (case ngx_slab_alloc pick Notify_t s of
        (None, s) \<Rightarrow> None
      | (Some n, s) \<Rightarrow>
          if \<not> shmtx_ok then do { s \<leftarrow> ngx_slab_free n s; Some (None, s) }
          else do {
            s \<leftarrow> Some (eventfd_open fd s);
            s \<leftarrow> Some (s\<lparr>notifies := (notifies s)(n \<mapsto>
                  \<lparr>event_fd = fd, read_hanlder = None, write_hanlder = None,
                   notify_ctx = None, notify_conn = None\<rparr>)\<rparr>);
            s \<leftarrow> ngx_queue_init (NotifyHead n) s;
            s \<leftarrow> ngx_queue_init (NotifyIdles n) s;
            Some (Some n, s)
          })"

definition ngx_rpc_notify_free :: "addr \<Rightarrow> 'z nstate_scheme \<Rightarrow> 'z nstate_scheme option" where
  "ngx_rpc_notify_free n s = ngx_slab_free n s"

text \<open>
  \<open>pslot\<close> and \<open>lastp\<close> are nginx's globals \<open>ngx_process_slot\<close> and
  \<open>ngx_last_process\<close>; \<open>conn\<close> is the result of \<open>ngx_get_connection\<close> and
  \<open>add_ok\<close> whether \<open>ngx_add_conn\<close> succeeded. The slot array is indexed without a look
  at its length.
\<close>

definition ngx_rpc_notify_register ::
  "int \<Rightarrow> int \<Rightarrow> nat option \<Rightarrow> bool \<Rightarrow> addr \<Rightarrow> notify_ctx \<Rightarrow> 'z nstate_scheme
    \<Rightarrow> (addr option \<times> 'z nstate_scheme) option" where
  "ngx_rpc_notify_register pslot lastp conn add_ok notify_slot ctx s =
     (if pslot < 0 \<or> pslot > lastp then Some (None, s)
      else do {
        arr \<leftarrow> load s (notify_slots s) notify_slot;
        entry \<leftarrow> (if nat pslot < length arr then Some (arr ! nat pslot) else None);
        n \<leftarrow> entry;
        nt \<leftarrow> load s (notifies s) n;
        c \<leftarrow> conn;
        s \<leftarrow> Some (s\<lparr>notifies := (notifies s)(n \<mapsto> nt\<lparr>notify_ctx := Some ctx,
                    notify_conn := Some c,
                    read_hanlder := Some Notify_Default_Hanlder,
                    write_hanlder := Some Notify_Default_Hanlder\<rparr>),
                  conns := (conns s)(c \<mapsto> \<lparr>c_fd = event_fd nt, c_sockaddr = n,
                    c_read_handler = Notify_Read_Handler, c_read_data = c,
                    c_write_handler = Notify_Write_Handler, c_write_data = c,
                    c_added = add_ok, c_write_event = add_ok\<rparr>)\<rparr>);
        Some (if add_ok then Some n else None, s)
      })"

text \<open>
  \<open>ngx_del_conn\<close>, \<open>close\<close> and \<open>ngx_free_connection\<close>. The notify object stays, and so does the eventfd: \<open>close\<close> takes away
  the descriptor of this process only, and the processes that were forked with it still hold theirs.
\<close>

definition ngx_rpc_notify_unregister ::
  "addr \<Rightarrow> 'z nstate_scheme \<Rightarrow> (int \<times> 'z nstate_scheme) option" where
  "ngx_rpc_notify_unregister n s =
     do {
       nt \<leftarrow> load s (notifies s) n;
       c \<leftarrow> notify_conn nt;
       k \<leftarrow> conns s c;
       Some (NGX_OK, s\<lparr>conns := (conns s)(c := None)\<rparr>)
     }"

text \<open>The region of \<open>ngx_rpc_notify_push_task\<close> under the lock, assignment by assignment.\<close>

definition notify_link_tail :: "addr \<Rightarrow> qaddr \<Rightarrow> 'z nstate_scheme \<Rightarrow> 'z nstate_scheme option" where
  "notify_link_tail n node s =
     do {
       p \<leftarrow> get_prev (NotifyHead n) s;
       s \<leftarrow> set_prev node p s;
       s \<leftarrow> set_prev (NotifyHead n) node s;
       p \<leftarrow> get_prev node s;
       s \<leftarrow> set_next p node s;
       set_next node (NotifyHead n) s
     }"

text \<open>The function in its pieces: the region under the lock, then the signal.\<close>

datatype push_pc = Push_Region | Push_Signal

primrec push_piece :: "addr \<Rightarrow> qaddr \<Rightarrow> (push_pc, 'z nstate_scheme) pieces" where
  "push_piece n node Push_Region = (\<lambda>s.
     do {
       s \<leftarrow> notify_link_tail n node s;
       Some (Some Push_Signal, s)
     })"
| "push_piece n node Push_Signal = (\<lambda>s.
     do {
       nt \<leftarrow> load s (notifies s) n;
       s \<leftarrow> Some (eventfd_write (event_fd nt) 1 s);
       Some (None, s)
     })"

definition ngx_rpc_notify_push_task ::
  "addr \<Rightarrow> qaddr \<Rightarrow> 'z nstate_scheme \<Rightarrow> (int \<times> 'z nstate_scheme) option" where
  "ngx_rpc_notify_push_task n node s =
     do { s \<leftarrow> run_pieces (push_piece n node) Push_Region s; Some (NGX_OK, s) }"

lemma push_task_code:
  "ngx_rpc_notify_push_task n node s =
     do {
       s \<leftarrow> notify_link_tail n node s;
       nt \<leftarrow> load s (notifies s) n;
       s \<leftarrow> Some (eventfd_write (event_fd nt) 1 s);
       Some (NGX_OK, s)
     }"
  unfolding ngx_rpc_notify_push_task_def
  by (subst run_pieces.simps) (auto simp: run_pieces.simps [of _ Push_Signal] split: bind_splits)

definition ngx_rpc_notify_pop_task ::
  "addr \<Rightarrow> 'z nstate_scheme \<Rightarrow> (int \<times> qaddr option \<times> 'z nstate_scheme) option" where
  "ngx_rpc_notify_pop_task n s =
     do {
       e \<leftarrow> ngx_queue_empty (NotifyHead n) s;
       (if e then Some (NGX_ERROR, None, s)
        else do {
          node \<leftarrow> get_next (NotifyHead n) s;
          nn \<leftarrow> get_next node s;
          s \<leftarrow> set_next (NotifyHead n) nn s;
          h \<leftarrow> get_next (NotifyHead n) s;
          s \<leftarrow> set_prev h (NotifyHead n) s;
          Some (NGX_OK, Some node, s)
        })
     }"

text \<open>
  The epoll callbacks. What the functions stored in a notify object are is fixed by the processor and the worker. The
  do-while of the read callback in its pieces: the \<open>read\<close>, the call of the stored function on its
  context, which enters that function at \<open>entry f ctx\<close>, and the pieces \<open>piece\<close> of the function; when it returns,
  the loop goes round if the \<open>read\<close> returned bytes.
\<close>

datatype 'h read_pc = Read_Fd | Read_Call bool | Read_In bool 'h

primrec read_piece ::
  "(notify_fn \<Rightarrow> notify_ctx \<Rightarrow> 'h) \<Rightarrow> ('h, 'z nstate_scheme) pieces \<Rightarrow> addr
    \<Rightarrow> ('h read_pc, 'z nstate_scheme) pieces" where
  "read_piece entry piece n Read_Fd = (\<lambda>s.
     do {
       nt \<leftarrow> load s (notifies s) n;
       (ret, s) \<leftarrow> Some (eventfd_read (event_fd nt) s);
       Some (Some (Read_Call (ret > 0)), s)
     })"
| "read_piece entry piece n (Read_Call again) = (\<lambda>s.
     do {
       nt \<leftarrow> load s (notifies s) n;
       f \<leftarrow> read_hanlder nt;
       ctx \<leftarrow> notify_ctx nt;
       Some (Some (Read_In again (entry f ctx)), s)
     })"
| "read_piece entry piece n (Read_In again h) = (\<lambda>s.
     do {
       (next, s) \<leftarrow> piece h s;
       Some (case next of Some h \<Rightarrow> Some (Read_In again h) | None \<Rightarrow> if again then Some Read_Fd else None, s)
     })"

text \<open>Without interruption the stored function is one piece: \<open>call\<close> runs it.\<close>

definition call_piece ::
  "(notify_fn \<Rightarrow> notify_ctx \<Rightarrow> 's \<Rightarrow> 's option) \<Rightarrow> (notify_fn \<times> notify_ctx, 's) pieces" where
  "call_piece call h s = do { s \<leftarrow> call (fst h) (snd h) s; Some (None, s) }"

definition notify_read_loop ::
  "(notify_fn \<Rightarrow> notify_ctx \<Rightarrow> 'z nstate_scheme \<Rightarrow> 'z nstate_scheme option) \<Rightarrow> addr
    \<Rightarrow> 'z nstate_scheme \<Rightarrow> 'z nstate_scheme option" where
  "notify_read_loop call n s = run_pieces (read_piece Pair (call_piece call) n) Read_Fd s"

definition ngx_rpc_notify_read_handler ::
  "(notify_fn \<Rightarrow> notify_ctx \<Rightarrow> 'z nstate_scheme \<Rightarrow> 'z nstate_scheme option) \<Rightarrow> nat
    \<Rightarrow> 'z nstate_scheme \<Rightarrow> 'z nstate_scheme option" where
  "ngx_rpc_notify_read_handler call c s =
     do { k \<leftarrow> conns s c; notify_read_loop call (c_sockaddr k) s }"

definition ngx_rpc_notify_write_handler ::
  "(notify_fn \<Rightarrow> notify_ctx \<Rightarrow> 'z nstate_scheme \<Rightarrow> 'z nstate_scheme option) \<Rightarrow> nat
    \<Rightarrow> 'z nstate_scheme \<Rightarrow> 'z nstate_scheme option" where
  "ngx_rpc_notify_write_handler call c s =
     do {
       k \<leftarrow> conns s c;
       s \<leftarrow> Some (s\<lparr>conns := (conns s)(c \<mapsto> k\<lparr>c_write_event := False\<rparr>)\<rparr>);
       nt \<leftarrow> load s (notifies s) (c_sockaddr k);
       f \<leftarrow> write_hanlder nt;
       ctx \<leftarrow> notify_ctx nt;
       call f ctx s
     }"

section \<open>Frames\<close>

lemma ring_nstate_updates [simp]:
  "ring (s\<lparr>notifies := a\<rparr>) q xs = ring s q xs"
  "ring (s\<lparr>notify_slots := b\<rparr>) q xs = ring s q xs"
  "ring (s\<lparr>conns := c\<rparr>) q xs = ring s q xs"
  "ring (s\<lparr>efds := d\<rparr>) q xs = ring s q xs"
  by (simp_all add: ring_iff node_live_def live_def)

lemma live_nstate_updates [simp]:
  "live (s\<lparr>qnext := f\<rparr>) a = live s a" "live (s\<lparr>qprev := g\<rparr>) a = live s a"
  "live (s\<lparr>notifies := h\<rparr>) a = live s a" "live (s\<lparr>notify_slots := i\<rparr>) a = live s a"
  "live (s\<lparr>conns := j\<rparr>) a = live s a" "live (s\<lparr>efds := k\<rparr>) a = live s a"
  by (simp_all add: live_def)

lemma node_live_nstate_updates [simp]:
  "node_live (s\<lparr>notifies := h\<rparr>) x = node_live s x"
  "node_live (s\<lparr>notify_slots := i\<rparr>) x = node_live s x"
  "node_live (s\<lparr>conns := j\<rparr>) x = node_live s x"
  "node_live (s\<lparr>efds := k\<rparr>) x = node_live s x"
  by (simp_all add: node_live_def)

lemma eventfd_write_frame [simp]:
  "chunks (eventfd_write fd v s) = chunks s"
  "qnext (eventfd_write fd v s) = qnext s"
  "qprev (eventfd_write fd v s) = qprev s"
  "notifies (eventfd_write fd v s) = notifies s"
  "notify_slots (eventfd_write fd v s) = notify_slots s"
  "conns (eventfd_write fd v s) = conns s"
  by (auto simp: eventfd_write_def split: option.splits)

lemma eventfd_read_frame:
  assumes "eventfd_read fd s = (r, s')"
  shows "chunks s' = chunks s" "qnext s' = qnext s" "qprev s' = qprev s"
    "notifies s' = notifies s" "conns s' = conns s" "notify_slots s' = notify_slots s"
  using assms by (auto simp: eventfd_read_def split: option.splits if_splits)

lemma eventfd_write_other: "fd' \<noteq> fd \<Longrightarrow> efds (eventfd_write fd v s) fd' = efds s fd'"
  by (auto simp: eventfd_write_def split: option.splits)

text \<open>A signal is never lost: after a write an open eventfd is readable.\<close>

lemma eventfd_write_readable:
  assumes "efds s fd = Some c" and "c \<le> eventfd_max"
  shows "\<exists>c'. efds (eventfd_write fd 1 s) fd = Some c' \<and> 0 < c' \<and> c' \<le> eventfd_max"
proof (cases "c + 1 \<le> eventfd_max")
  case True
  with assms(1) show ?thesis by (simp add: eventfd_write_def)
next
  case False
  moreover have "0 < eventfd_max" by (simp add: eventfd_max_def)
  ultimately show ?thesis using assms by (simp add: eventfd_write_def)
qed

lemma eventfd_read_clears:
  assumes "eventfd_read fd s = (r, s')"
  shows "efds s fd = Some c \<Longrightarrow> efds s' fd = Some 0"
    and "r > 0 \<longleftrightarrow> (\<exists>c. efds s fd = Some c \<and> 0 < c)"
  using assms by (auto simp: eventfd_read_def split: option.splits if_splits)

section \<open>The loop of the read callback\<close>

lemma eventfd_read_notifies: "eventfd_read fd s = (r, s') \<Longrightarrow> load s' (notifies s') n = load s (notifies s) n"
  by (auto simp: eventfd_read_def load_def live_def split: option.splits if_splits)

lemma notify_read_loop_unfold:
  "notify_read_loop call n s =
     do {
       nt \<leftarrow> load s (notifies s) n;
       (ret, s) \<leftarrow> Some (eventfd_read (event_fd nt) s);
       f \<leftarrow> read_hanlder nt;
       ctx \<leftarrow> notify_ctx nt;
       s \<leftarrow> call f ctx s;
       (if ret > 0 then notify_read_loop call n s else Some s)
     }"
proof -
  let ?p = "read_piece Pair (call_piece call) n"
  have i: "run_pieces ?p (Read_In again (f, x)) t =
      do { t \<leftarrow> call f x t; (if again then notify_read_loop call n t else Some t) }" for again f x t
    by (subst run_pieces.simps) (auto simp: call_piece_def notify_read_loop_def split: bind_splits)
  have c: "run_pieces ?p (Read_Call again) t =
      do { nt \<leftarrow> load t (notifies t) n; f \<leftarrow> read_hanlder nt; x \<leftarrow> notify_ctx nt;
           t \<leftarrow> call f x t; (if again then notify_read_loop call n t else Some t) }" for again t
    by (subst run_pieces.simps) (auto simp: i split: bind_splits)
  show ?thesis
    unfolding notify_read_loop_def [of call n s]
    by (subst run_pieces.simps) (auto simp: c eventfd_read_notifies split: bind_splits prod.splits)
qed

text \<open>
  The loop is its pieces one after the other, however finely the stored functions are cut into pieces of their own:
  run without interruption, \<open>read_piece entry piece n\<close> does what the loop does with calls that run the pieces.
\<close>

lemma read_in_pieces:
  "run_pieces (read_piece entry piece n) (Read_In again h) s =
     do { s \<leftarrow> run_pieces piece h s; (if again then run_pieces (read_piece entry piece n) Read_Fd s else Some s) }"
  using run_pieces_then [of "read_piece entry piece n" "Read_In again" piece "if again then Some Read_Fd else None" h s]
  by (cases again) (simp_all cong: option.case_cong)

lemma read_loop_fine:
  assumes call: "\<And>f ctx s. call f ctx s = run_pieces piece (entry f ctx) s"
    and "run_pieces (read_piece Pair (call_piece call) n) pc s = Some t"
  shows "run_pieces (read_piece entry piece n) (map_read_pc (\<lambda>(f, ctx). entry f ctx) pc) s = Some t"
proof -
  let ?q = "read_piece entry piece n" and ?c = "read_piece Pair (call_piece call) n"
  define place where "place = map_read_pc (\<lambda>(f, ctx). entry f ctx)"
  have "run_pieces ?q (place pc) s = Some t" if "run_pieces p pc s = Some t" "p = ?c" for p pc s t
    using that(2)
  proof (rule mp [rotated], intro run_pieces.raw_induct [where P = "\<lambda>p pc s t. p = ?c \<longrightarrow> run_pieces ?q (place pc) s = Some t", OF _ that(1)] impI)
    fix g p pc s t
    assume ih: "\<And>p pc s t. g p pc s = Some t \<Longrightarrow> p = ?c \<longrightarrow> run_pieces ?q (place pc) s = Some t"
      and r: "do { (next, s) \<leftarrow> p pc s; (case next of None \<Rightarrow> Some s | Some pc \<Rightarrow> g p pc s) } = Some t" and p: "p = ?c"
    show "run_pieces ?q (place pc) s = Some t"
    proof (cases pc)
      case Read_Fd
      then obtain nt where nt: "load s (notifies s) n = Some nt"
        "g ?c (Read_Call (fst (eventfd_read (event_fd nt) s) > 0)) (snd (eventfd_read (event_fd nt) s)) = Some t"
        using r p by (auto simp: fault_simps split_beta)
      show ?thesis
        using nt(1) ih [OF nt(2)] Read_Fd by (subst run_pieces.simps) (simp add: split_beta place_def)
    next
      case (Read_Call b)
      then obtain nt f x where nt: "load s (notifies s) n = Some nt" "read_hanlder nt = Some f" "notify_ctx nt = Some x"
        "g ?c (Read_In b (f, x)) s = Some t"
        using r p by (auto simp: fault_simps)
      show ?thesis
        using nt(1-3) ih [OF nt(4)] Read_Call by (subst run_pieces.simps) (simp add: place_def)
    next
      case (Read_In b h)
      then obtain u where u: "call (fst h) (snd h) s = Some u" "if b then g ?c Read_Fd u = Some t else u = t"
        using r p by (auto simp: fault_simps call_piece_def split: if_splits)
      have "run_pieces ?q Read_Fd u = Some t" if b using u(2) ih [of ?c Read_Fd u t] that by (simp add: place_def)
      then show ?thesis
        using u Read_In by (cases h) (auto simp: read_in_pieces place_def call [symmetric])
    qed
  qed
  then show ?thesis using assms(2) unfolding place_def by blast
qed

lemma read_loop_coarse:
  assumes call: "\<And>f ctx s. call f ctx s = run_pieces piece (entry f ctx) s"
    and "run_pieces (read_piece entry piece n) Read_Fd s = Some t"
  shows "run_pieces (read_piece Pair (call_piece call) n) Read_Fd s = Some t"
proof -
  let ?q = "read_piece entry piece n" and ?c = "read_piece Pair (call_piece call) n"
  let ?Q = "\<lambda>pc s t. case pc of
      Read_In b h \<Rightarrow> (\<exists>u. run_pieces piece h s = Some u \<and> (if b then run_pieces ?c Read_Fd u = Some t else u = t))
    | Read_Call b \<Rightarrow> run_pieces ?c (Read_Call b) s = Some t
    | Read_Fd \<Rightarrow> run_pieces ?c Read_Fd s = Some t"
  have "?Q pc s t" if "run_pieces p pc s = Some t" "p = ?q" for p pc s t
    using that(2)
  proof (rule mp [rotated], intro run_pieces.raw_induct [where P = "\<lambda>p pc s t. p = ?q \<longrightarrow> ?Q pc s t", OF _ that(1)] impI)
    fix g p pc s t
    assume ih: "\<And>p pc s t. g p pc s = Some t \<Longrightarrow> p = ?q \<longrightarrow> ?Q pc s t"
      and r: "do { (next, s) \<leftarrow> p pc s; (case next of None \<Rightarrow> Some s | Some pc \<Rightarrow> g p pc s) } = Some t" and p: "p = ?q"
    show "?Q pc s t"
    proof (cases pc)
      case Read_Fd
      then obtain nt where nt: "load s (notifies s) n = Some nt"
        "g ?q (Read_Call (fst (eventfd_read (event_fd nt) s) > 0)) (snd (eventfd_read (event_fd nt) s)) = Some t"
        using r p by (auto simp: fault_simps split_beta)
      show ?thesis
        using nt(1) ih [OF nt(2)] Read_Fd by (subst (1) run_pieces.simps) (simp add: split_beta)
    next
      case (Read_Call b)
      then obtain nt f x where nt: "load s (notifies s) n = Some nt" "read_hanlder nt = Some f" "notify_ctx nt = Some x"
        "g ?q (Read_In b (entry f x)) s = Some t"
        using r p by (auto simp: fault_simps)
      have "run_pieces ?c (Read_In b (f, x)) s = Some t"
        using ih [OF nt(4)] by (subst run_pieces.simps) (auto simp: call_piece_def call)
      then show ?thesis
        using nt(1-3) Read_Call by (subst (1) run_pieces.simps) simp
    next
      case (Read_In b h)
      then obtain r' u where u: "piece h s = Some (r', u)" and g: "\<And>h'. r' = Some h' \<Longrightarrow> g ?q (Read_In b h') u = Some t"
        "r' = None \<Longrightarrow> b \<Longrightarrow> g ?q Read_Fd u = Some t" "r' = None \<Longrightarrow> \<not> b \<Longrightarrow> u = t"
        using r p by (auto simp: fault_simps split: option.splits if_splits)
      show ?thesis
      proof (cases r')
        case None
        then show ?thesis
          using u g(2,3) ih [of ?q Read_Fd u t] Read_In by (subst run_pieces.simps) auto
      next
        case (Some h')
        then show ?thesis
          using u ih [OF g(1)] Read_In by (subst run_pieces.simps) auto
      qed
    qed
  qed
  from this [OF assms(2) refl] show ?thesis by simp
qed

lemma read_loop_pieces:
  assumes "\<And>f ctx s. call f ctx s = run_pieces piece (entry f ctx) s"
  shows "run_pieces (read_piece entry piece n) Read_Fd s = notify_read_loop call n s"
proof (cases "run_pieces (read_piece entry piece n) Read_Fd s")
  case None
  then show ?thesis
    using read_loop_fine [OF assms, where pc = Read_Fd and s = s]
    by (cases "run_pieces (read_piece Pair (call_piece call) n) Read_Fd s") (auto simp: notify_read_loop_def)
qed (simp add: notify_read_loop_def read_loop_coarse [OF assms])

section \<open>The pending list\<close>

definition pending :: "'z nstate_scheme \<Rightarrow> addr \<Rightarrow> qaddr list \<Rightarrow> bool" where
  "pending s n xs \<longleftrightarrow> ring s (NotifyHead n) xs \<and> notifies s n \<noteq> None"

lemma pending_unique: "pending s n xs \<Longrightarrow> pending s n ys \<Longrightarrow> xs = ys"
  by (auto simp: pending_def dest: ring_unique)

lemma pending_live: "pending s n xs \<Longrightarrow> live s n"
  by (auto simp: pending_def node_live_def dest: ring_liveD [where a = "NotifyHead n"])

lemma pending_load: "pending s n xs \<Longrightarrow> \<exists>nt. load s (notifies s) n = Some nt"
  using pending_live [of s n xs] by (auto simp: pending_def load_live)

lemma link_tail_eq:
  assumes "ring s (NotifyHead n) xs" and "node_live s x" and "x \<notin> set (NotifyHead n # xs)"
  shows "notify_link_tail n x s =
     Some (s\<lparr>qnext := (qnext s)(qlast (NotifyHead n) xs \<mapsto> x, x \<mapsto> NotifyHead n),
             qprev := (qprev s)(x \<mapsto> qlast (NotifyHead n) xs, NotifyHead n \<mapsto> x)\<rparr>)"
proof -
  define t where "t = qlast (NotifyHead n) xs"
  have "t \<in> set (NotifyHead n # xs)" unfolding t_def by (rule qlast_in)
  then have "node_live s t" using assms(1) by (rule ring_liveD [rotated])
  moreover have "node_live s (NotifyHead n)" using assms(1) by (rule ring_liveD) simp
  moreover have "get_prev (NotifyHead n) s = Some t" using ring_prev [OF assms(1)] t_def by simp
  moreover have "x \<noteq> NotifyHead n" using assms(3) by auto
  ultimately show ?thesis
    using assms(2) by (simp add: notify_link_tail_def link_defs t_def [symmetric])
qed

lemma pop_task_eq:
  assumes "ring s (NotifyHead n) (x # xs)"
  shows "ngx_rpc_notify_pop_task n s = Some (NGX_OK, Some x,
     s\<lparr>qnext := (qnext s)(NotifyHead n \<mapsto> qfirst (NotifyHead n) xs),
       qprev := (qprev s)(qfirst (NotifyHead n) xs \<mapsto> NotifyHead n)\<rparr>)"
proof -
  have "ngx_queue_empty (NotifyHead n) s = Some False"
    using ring_empty [OF assms] by simp
  moreover have "get_next (NotifyHead n) s = Some x" "get_next x s = Some (qfirst (NotifyHead n) xs)"
    using ring_remove_head(1,2) [OF assms refl] by auto
  moreover have "node_live s (NotifyHead n)" "node_live s (qfirst (NotifyHead n) xs)"
    using ring_liveD [OF assms] qfirst_in [of "NotifyHead n" xs] by auto
  ultimately show ?thesis
    by (simp add: ngx_rpc_notify_pop_task_def link_defs)
qed

lemma pop_task_none:
  "ring s (NotifyHead n) [] \<Longrightarrow> ngx_rpc_notify_pop_task n s = Some (NGX_ERROR, None, s)"
  by (simp add: ngx_rpc_notify_pop_task_def ring_empty)

text \<open>
  Push and pop on a well-formed pending list, with everything they leave alone: the notify
  objects, the chunks, and every ring that shares no node with the list.
\<close>

lemma push_task_ok:
  assumes p: "pending s n xs" and x: "node_live s x" "x \<notin> set (NotifyHead n # xs)"
    and nt: "notifies s n = Some nt"
  shows "\<exists>s1 s'. notify_link_tail n x s = Some s1 \<and> s' = eventfd_write (event_fd nt) 1 s1
     \<and> ngx_rpc_notify_push_task n x s = Some (NGX_OK, s')
     \<and> pending s' n (xs @ [x]) \<and> chunks s' = chunks s \<and> notifies s' = notifies s
     \<and> notify_slots s' = notify_slots s \<and> conns s' = conns s \<and> efds s1 = efds s
     \<and> (\<forall>q ys. ring s q ys \<longrightarrow> set (q # ys) \<inter> set (x # NotifyHead n # xs) = {} \<longrightarrow> ring s' q ys)"
proof -
  have r: "ring s (NotifyHead n) xs" using p by (simp add: pending_def)
  let ?s1 = "s\<lparr>qnext := (qnext s)(qlast (NotifyHead n) xs \<mapsto> x, x \<mapsto> NotifyHead n),
               qprev := (qprev s)(x \<mapsto> qlast (NotifyHead n) xs, NotifyHead n \<mapsto> x)\<rparr>"
  let ?s' = "eventfd_write (event_fd nt) 1 ?s1"
  have l: "notify_link_tail n x s = Some ?s1" by (rule link_tail_eq [OF r x])
  have "live s n" by (rule pending_live [OF p])
  then have push: "ngx_rpc_notify_push_task n x s = Some (NGX_OK, ?s')"
    using nt by (simp add: push_task_code l load_def)
  have "ring ?s1 (NotifyHead n) (xs @ [x])" by (rule ring_insert_tail(1) [OF r x refl])
  then have "pending ?s' n (xs @ [x])"
    using nt by (auto simp: pending_def intro: ring_same_links)
  moreover have "ring ?s' q ys" if "ring s q ys" "set (q # ys) \<inter> set (x # NotifyHead n # xs) = {}" for q ys
    using ring_insert_tail(2) [OF r x refl that] by (rule ring_same_links) simp_all
  ultimately show ?thesis using l push by simp
qed

lemma pop_task_ok:
  assumes p: "pending s n (x # xs)"
  shows "\<exists>s'. ngx_rpc_notify_pop_task n s = Some (NGX_OK, Some x, s') \<and> pending s' n xs
     \<and> chunks s' = chunks s \<and> notifies s' = notifies s \<and> conns s' = conns s
     \<and> notify_slots s' = notify_slots s \<and> efds s' = efds s
     \<and> (\<forall>q ys. ring s q ys \<longrightarrow> set (q # ys) \<inter> set (NotifyHead n # x # xs) = {} \<longrightarrow> ring s' q ys)"
proof -
  have r: "ring s (NotifyHead n) (x # xs)" using p by (simp add: pending_def)
  have keep: "ring s q ys \<Longrightarrow> set (q # ys) \<inter> set (NotifyHead n # x # xs) = {} \<Longrightarrow>
     ring (s\<lparr>qnext := (qnext s)(NotifyHead n \<mapsto> qfirst (NotifyHead n) xs),
       qprev := (qprev s)(qfirst (NotifyHead n) xs \<mapsto> NotifyHead n)\<rparr>) q ys" for q ys
    by (rule ring_remove_head(4) [OF r refl]) auto
  show ?thesis
    using p ring_remove_head(3) [OF r refl] keep by (simp add: pop_task_eq [OF r] pending_def)
qed

section \<open>The pending list is a fifo pool\<close>

definition pending_pop ::
  "addr \<Rightarrow> 'z nstate_scheme \<Rightarrow> (qaddr option \<times> 'z nstate_scheme) option" where
  "pending_pop n s =
     do {
       (ret, node, s) \<leftarrow> ngx_rpc_notify_pop_task n s;
       Some (if ret = NGX_OK then node else None, s)
     }"

definition pending_push :: "addr \<Rightarrow> qaddr \<Rightarrow> 'z nstate_scheme \<Rightarrow> 'z nstate_scheme option" where
  "pending_push n x s = map_option snd (ngx_rpc_notify_push_task n x s)"

definition pending_fits :: "addr \<Rightarrow> 'z nstate_scheme \<Rightarrow> qaddr \<Rightarrow> bool" where
  "pending_fits n s x \<longleftrightarrow> node_live s x \<and> x \<noteq> NotifyHead n"

lemma pending_popD: "pending_pop n s = Some (r, s') \<Longrightarrow>
    chunks s' = chunks s \<and> notifies s' = notifies s \<and> efds s' = efds s \<and> conns s' = conns s
    \<and> qstate.more s' = qstate.more s"
  by (auto simp: pending_pop_def ngx_rpc_notify_pop_task_def link_defs fault_simps split: if_splits)

interpretation notify_pool: fifo_pool "\<lambda>s. pending s n" "pending_pop n" "pending_push n"
  "pending_fits n" for n
proof
  show "pending_pop n s = Some (None, s)" if "pending s n []" for s :: "'z nstate_scheme"
    using that by (simp add: pending_pop_def pop_task_none pending_def)
  show "\<exists>s'. pending_pop n s = Some (Some x, s') \<and> pending s' n xs"
    if "pending s n (x # xs)" for s :: "'z nstate_scheme" and x xs
    using pop_task_ok [OF that] by (auto simp: pending_pop_def)
  show "\<exists>s'. pending_push n x s = Some s' \<and> pending s' n (xs @ [x]) \<and>
      (\<forall>y. pending_fits n s' y = pending_fits n s y)"
    if p: "pending s n xs" and "pending_fits n s x" and "x \<notin> set xs"
    for s :: "'z nstate_scheme" and x xs
  proof -
    obtain nt where nt: "notifies s n = Some nt" using p by (auto simp: pending_def)
    have x: "node_live s x" "x \<notin> set (NotifyHead n # xs)"
      using that by (auto simp: pending_fits_def)
    obtain s' where "ngx_rpc_notify_push_task n x s = Some (NGX_OK, s')"
      "pending s' n (xs @ [x])" "chunks s' = chunks s"
      using push_task_ok [OF p x nt] by blast
    then show ?thesis
      by (simp add: pending_push_def pending_fits_def node_live_def live_def)
  qed
qed

section \<open>Creation, registration and the epoll callbacks\<close>

lemma ring_fresh_owner:
  "ring s q xs \<Longrightarrow> \<not> live s n \<Longrightarrow> a \<in> set (q # xs) \<Longrightarrow> qowner a \<noteq> n"
  by (auto dest!: ring_liveD simp: node_live_def)

text \<open>
  A created notify object is fresh memory with an empty pending list, off every idle list,
  and its creation disturbs no list that existed.
\<close>

lemma create_ok:
  assumes "ngx_rpc_notify_create pick True fd s = Some (r, s')"
  shows "\<exists>n. r = Some n \<and> \<not> live s n \<and> chunks s' = (chunks s)(n \<mapsto> Notify_t)
     \<and> pending s' n [] \<and> ring s' (NotifyIdles n) []
     \<and> notifies s' = (notifies s)(n \<mapsto> \<lparr>event_fd = fd, read_hanlder = None,
          write_hanlder = None, notify_ctx = None, notify_conn = None\<rparr>)
     \<and> notify_slots s' = notify_slots s \<and> conns s' = conns s
     \<and> efds s' = (if fd < 0 then efds s else (efds s)(fd \<mapsto> 0))
     \<and> nstate.more s' = nstate.more s
     \<and> (\<forall>q ys. ring s q ys \<longrightarrow> ring s' q ys)"
proof (cases "ngx_slab_alloc pick Notify_t s" rule: prod.exhaust)
  case (Pair a s1)
  then obtain n where a: "a = Some n"
    using assms by (cases a) (auto simp: ngx_rpc_notify_create_def)
  have fresh: "\<not> live s n" and s1: "s1 = s\<lparr>chunks := (chunks s)(n \<mapsto> Notify_t)\<rparr>"
    using alloc_SomeD [OF Pair [unfolded a]] by auto
  have res: "r = Some n" "s' = (eventfd_open fd s1)\<lparr>notifies := (notifies s)(n \<mapsto>
      \<lparr>event_fd = fd, read_hanlder = None, write_hanlder = None, notify_ctx = None,
       notify_conn = None\<rparr>),
      qnext := (qnext s)(NotifyHead n \<mapsto> NotifyHead n, NotifyIdles n \<mapsto> NotifyIdles n),
      qprev := (qprev s)(NotifyHead n \<mapsto> NotifyHead n, NotifyIdles n \<mapsto> NotifyIdles n)\<rparr>"
    using assms Pair a s1
    by (auto simp: ngx_rpc_notify_create_def eventfd_open_def ngx_queue_init_def link_defs
        node_live_def live_def)
  have "ring s' q ys" if r: "ring s q ys" for q ys
  proof -
    have own: "qowner b \<noteq> n" if "b \<in> set (q # ys)" for b
      by (rule ring_fresh_owner [OF r fresh that])
    have "mring (qnext s') (qprev s') q ys"
    proof (rule mring_frame [of "qnext s" "qprev s"])
      show "mring (qnext s) (qprev s) q ys" using r by (simp add: ring_iff)
      show "qnext s' b = qnext s b \<and> qprev s' b = qprev s b" if "b \<in> set (q # ys)" for b
        using own [OF that] by (auto simp: res(2) eventfd_open_def)
    qed
    then show ?thesis
      using r by (auto simp: ring_iff res(2) eventfd_open_def s1 node_live_def live_def)
  qed
  then have "\<forall>q ys. ring s q ys \<longrightarrow> ring s' q ys" by blast
  moreover have "pending s' n []" "ring s' (NotifyIdles n) []"
    by (simp_all add: res(2) s1 eventfd_open_def pending_def ring_def mring_def node_live_def)
  moreover have "chunks s' = (chunks s)(n \<mapsto> Notify_t)"
    "notifies s' = (notifies s)(n \<mapsto> \<lparr>event_fd = fd, read_hanlder = None,
        write_hanlder = None, notify_ctx = None, notify_conn = None\<rparr>)"
    "notify_slots s' = notify_slots s" "conns s' = conns s" "nstate.more s' = nstate.more s"
    "efds s' = (if fd < 0 then efds s else (efds s)(fd \<mapsto> 0))"
    by (simp_all add: res(2) s1 eventfd_open_def)
  ultimately show ?thesis
    using fresh res(1) by (intro exI [of _ n]) blast
qed

lemma create_lock_failure:
  assumes "ngx_rpc_notify_create pick False fd s = Some (r, s')"
  shows "r = None \<and> s' = s"
  using assms
  by (auto simp: ngx_rpc_notify_create_def split: prod.splits option.splits
      dest: alloc_SomeD free_alloc)

lemma create_out_of_memory:
  "ngx_slab_alloc pick Notify_t s = (None, s) \<Longrightarrow> ngx_rpc_notify_create pick ok fd s = None"
  by (simp add: ngx_rpc_notify_create_def)

text \<open>What registration does on every path.\<close>

lemma register_range:
  "pslot < 0 \<or> pslot > lastp \<Longrightarrow>
     ngx_rpc_notify_register pslot lastp conn add_ok arr ctx s = Some (None, s)"
  by (simp add: ngx_rpc_notify_register_def)

lemma register_ok:
  assumes "0 \<le> pslot" "pslot \<le> lastp"
    and "load s (notify_slots s) arr = Some ns" and "nat pslot < length ns"
    and "ns ! nat pslot = Some n" and "load s (notifies s) n = Some nt"
  shows "ngx_rpc_notify_register pslot lastp (Some c) add_ok arr ctx s =
     Some (if add_ok then Some n else None,
       s\<lparr>notifies := (notifies s)(n \<mapsto> nt\<lparr>notify_ctx := Some ctx, notify_conn := Some c,
            read_hanlder := Some Notify_Default_Hanlder,
            write_hanlder := Some Notify_Default_Hanlder\<rparr>),
         conns := (conns s)(c \<mapsto> \<lparr>c_fd = event_fd nt, c_sockaddr = n,
            c_read_handler = Notify_Read_Handler, c_read_data = c,
            c_write_handler = Notify_Write_Handler, c_write_data = c,
            c_added = add_ok, c_write_event = add_ok\<rparr>)\<rparr>)"
  using assms by (simp add: ngx_rpc_notify_register_def)

lemma register_past_end:
  assumes "load s (notify_slots s) arr = Some ns" and "int (length ns) = lastp"
  shows "ngx_rpc_notify_register lastp lastp conn add_ok arr ctx s = None"
  using assms(1) by (auto simp: ngx_rpc_notify_register_def assms(2) [symmetric])

text \<open>
  The do-while of the read callback: the handler runs once after every \<open>read\<close>, and the
  loop goes round again when the \<open>read\<close> returned bytes.
\<close>

lemma read_loop_runs:
  assumes nt: "load s (notifies s) n = Some nt" "read_hanlder nt = Some f" "notify_ctx nt = Some x"
    and cnt: "efds s (event_fd nt) = Some cnt"
    and keeps: "\<And>t t'. call f x t = Some t' \<Longrightarrow> efds t' (event_fd nt) = efds t (event_fd nt)
        \<and> notifies t' n = notifies t n \<and> chunks t' = chunks t"
  shows "notify_read_loop call n s =
     (if cnt = 0 then call f x s
      else Option.bind (call f x (s\<lparr>efds := (efds s)(event_fd nt \<mapsto> 0)\<rparr>)) (call f x))"
proof -
  have once: "notify_read_loop call n t = call f x t"
    if "load t (notifies t) n = Some nt" "efds t (event_fd nt) = Some 0" for t
    using that nt by (subst notify_read_loop_unfold) (auto simp: eventfd_read_def)
  show ?thesis
  proof (cases "cnt = 0")
    case True
    then show ?thesis using once nt cnt by simp
  next
    case False
    let ?s = "s\<lparr>efds := (efds s)(event_fd nt \<mapsto> 0)\<rparr>"
    have "notify_read_loop call n s = Option.bind (call f x ?s) (notify_read_loop call n)"
      using False nt cnt by (subst notify_read_loop_unfold) (simp add: eventfd_read_def)
    also have "\<dots> = Option.bind (call f x ?s) (call f x)"
    proof (cases "call f x ?s")
      case (Some t)
      have "load t (notifies t) n = Some nt" "efds t (event_fd nt) = Some 0"
        using keeps [OF Some] nt(1) by (auto simp: load_Some_iff live_def)
      then show ?thesis using Some once by simp
    qed simp
    finally show ?thesis using False by simp
  qed
qed

end
