(* ===== verification/Rpc_Task.thy ===== *)
theory Rpc_Task
  imports Rpc_Notify
begin

text \<open>
  Tasks (ngx_rpc_module/ngx_rpc_task.h and ngx_rpc_task.c): the record a request travels in
  between a worker and a processor, its two embedded buffer chains, and the operations that
  create it, destroy it and copy a chain of buffers into it.

  Buffers and chains are kept at the level of their pointers. A data pointer is the address
  of its block and an offset into the block. The two fields of a chain link are separate maps,
  so that a field that was never written is \<open>None\<close>, apart from a \<open>NULL\<close> field, which is
  \<open>Some None\<close>.
\<close>

section \<open>State\<close>

type_synonym byte = "8 word"

type_synonym cptr = "addr \<times> int"

text \<open>The fields of \<open>ngx_buf_t\<close> that the module uses.\<close>

record ngx_buf =
  b_pos :: cptr
  b_last :: cptr
  b_start :: cptr
  b_end :: cptr
  b_in_file :: bool
  b_last_buf :: bool
  b_temporary :: bool
  b_memory :: bool

text \<open>
  The address of an \<open>ngx_chain_t\<close>: a cell of its own, or the head embedded in a task as
  \<open>req_bufs\<close> or \<open>res_bufs\<close>.
\<close>

datatype chaddr = Chain_cell addr | Req_bufs addr | Res_bufs addr

fun chowner :: "chaddr \<Rightarrow> addr" where
  "chowner (Chain_cell a) = a"
| "chowner (Req_bufs t) = t"
| "chowner (Res_bufs t) = t"

datatype task_fn = Method_Handler nat | Foward_Done | Request_Finish | Request_Foward

datatype closure_arg = Rpc_Ctx addr | Rpc_Channel addr | Http_Request addr

record task_closure =
  handler :: "task_fn option"
  p1 :: "closure_arg option"

record ngx_rpc_task =
  proc_notify :: "addr option"
  done_notify :: "addr option"
  refcount :: "64 word"
  closure :: task_closure
  finish :: task_closure
  path :: "byte list"
  req_length :: int
  res_length :: int
  response_states :: int
  time_out_ms :: "64 word"

definition MAX_PATH_NAME :: nat where
  "MAX_PATH_NAME = 128"

record tstate = nstate +
  bufs :: "addr \<rightharpoonup> ngx_buf"
  chain_buf :: "chaddr \<rightharpoonup> addr option"
  chain_next :: "chaddr \<rightharpoonup> chaddr option"
  data :: "addr \<rightharpoonup> byte list"
  tasks :: "addr \<rightharpoonup> ngx_rpc_task"

definition get_buf :: "chaddr \<Rightarrow> 'z tstate_scheme \<Rightarrow> addr option option" where
  "get_buf c s = (if live s (chowner c) then chain_buf s c else None)"

definition get_link :: "chaddr \<Rightarrow> 'z tstate_scheme \<Rightarrow> chaddr option option" where
  "get_link c s = (if live s (chowner c) then chain_next s c else None)"

definition set_buf :: "chaddr \<Rightarrow> addr option \<Rightarrow> 'z tstate_scheme \<Rightarrow> 'z tstate_scheme option" where
  "set_buf c b s =
     (if live s (chowner c) then Some (s\<lparr>chain_buf := (chain_buf s)(c \<mapsto> b)\<rparr>) else None)"

definition set_link :: "chaddr \<Rightarrow> chaddr option \<Rightarrow> 'z tstate_scheme \<Rightarrow> 'z tstate_scheme option" where
  "set_link c p s =
     (if live s (chowner c) then Some (s\<lparr>chain_next := (chain_next s)(c \<mapsto> p)\<rparr>) else None)"

lemmas chain_defs = get_buf_def get_link_def set_buf_def set_link_def

text \<open>The difference of two pointers, defined when they point into the same block.\<close>

definition ptr_diff :: "cptr \<Rightarrow> cptr \<Rightarrow> int option" where
  "ptr_diff p q = (if fst p = fst q then Some (snd p - snd q) else None)"

text \<open>\<open>n\<close> bytes from a pointer, within the bounds of its block.\<close>

definition read_bytes :: "cptr \<Rightarrow> int \<Rightarrow> 'z tstate_scheme \<Rightarrow> byte list option" where
  "read_bytes p n s =
     do {
       bs \<leftarrow> load s (data s) (fst p);
       (if 0 \<le> n \<and> 0 \<le> snd p \<and> snd p + n \<le> int (length bs)
        then Some (take (nat n) (drop (nat (snd p)) bs)) else None)
     }"

text \<open>\<open>ngx_slab_free\<close> on a data pointer: the start of a slab block.\<close>

definition free_ptr :: "cptr \<Rightarrow> 'z slab_scheme \<Rightarrow> 'z slab_scheme option" where
  "free_ptr p s = (if snd p = 0 then ngx_slab_free (fst p) s else None)"

definition free_chain_cell :: "chaddr \<Rightarrow> 'z slab_scheme \<Rightarrow> 'z slab_scheme option" where
  "free_chain_cell c s = (case c of Chain_cell a \<Rightarrow> ngx_slab_free a s | _ \<Rightarrow> None)"

section \<open>Creation and destruction\<close>

definition zero_task :: ngx_rpc_task where
  "zero_task = \<lparr>proc_notify = None, done_notify = None, refcount = 0,
     closure = \<lparr>handler = None, p1 = None\<rparr>, finish = \<lparr>handler = None, p1 = None\<rparr>,
     path = replicate MAX_PATH_NAME 0, req_length = 0, res_length = 0,
     response_states = 0, time_out_ms = 0\<rparr>"

definition ngx_http_rpc_task_create ::
  "slab_pick \<Rightarrow> 'z tstate_scheme \<Rightarrow> (addr option \<times> 'z tstate_scheme) option" where
  "ngx_http_rpc_task_create pick s =
     (case ngx_slab_alloc pick Task_t s of
        (None, s) \<Rightarrow> Some (None, s)
      | (Some t, s) \<Rightarrow>
          do {
            s \<leftarrow> Some (s\<lparr>tasks := (tasks s)(t \<mapsto> zero_task),
                  chain_buf := (chain_buf s)(Req_bufs t \<mapsto> None, Res_bufs t \<mapsto> None),
                  chain_next := (chain_next s)(Req_bufs t \<mapsto> None, Res_bufs t \<mapsto> None),
                  qnext := (qnext s)(TaskNode t := None, TaskParams t := None),
                  qprev := (qprev s)(TaskNode t := None, TaskParams t := None)\<rparr>);
            s \<leftarrow> ngx_queue_init (TaskNode t) s;
            Some (Some t, s)
          })"

text \<open>The release loop of the destructor: it stops at a \<open>NULL\<close> link or a \<open>NULL\<close> buffer.\<close>

partial_function (option) free_starts ::
  "chaddr option \<Rightarrow> 'z tstate_scheme \<Rightarrow> 'z tstate_scheme option" where
  "free_starts p s =
     (case p of
        None \<Rightarrow> Some s
      | Some c \<Rightarrow>
          do {
            b \<leftarrow> get_buf c s;
            (case b of
               None \<Rightarrow> Some s
             | Some b \<Rightarrow>
                 do {
                   bf \<leftarrow> load s (bufs s) b;
                   s \<leftarrow> free_ptr (b_start bf) s;
                   nx \<leftarrow> get_link c s;
                   free_starts nx s
                 })
          })"

definition ngx_http_rpc_task_destory :: "addr \<Rightarrow> 'z tstate_scheme \<Rightarrow> 'z tstate_scheme option" where
  "ngx_http_rpc_task_destory t s =
     do {
       tk \<leftarrow> load s (tasks s) t;
       s \<leftarrow> free_starts (Some (Req_bufs t)) s;
       s \<leftarrow> free_starts (Some (Res_bufs t)) s;
       ngx_slab_free t s
     }"

text \<open>
  The reference count macros. \<open>ngx_atomic_fetch_add\<close> returns the value before the
  addition, on an unsigned 64-bit count.
\<close>

definition ngx_http_rpc_task_ref_add :: "addr \<Rightarrow> 'z tstate_scheme \<Rightarrow> 'z tstate_scheme option" where
  "ngx_http_rpc_task_ref_add t s =
     do {
       tk \<leftarrow> load s (tasks s) t;
       Some (s\<lparr>tasks := (tasks s)(t \<mapsto> tk\<lparr>refcount := refcount tk + 1\<rparr>)\<rparr>)
     }"

definition ngx_http_rpc_task_ref_sub :: "addr \<Rightarrow> 'z tstate_scheme \<Rightarrow> 'z tstate_scheme option" where
  "ngx_http_rpc_task_ref_sub t s =
     do {
       tk \<leftarrow> load s (tasks s) t;
       s \<leftarrow> Some (s\<lparr>tasks := (tasks s)(t \<mapsto> tk\<lparr>refcount := refcount tk - 1\<rparr>)\<rparr>);
       (if refcount tk = 0 then ngx_http_rpc_task_destory t s else Some s)
     }"

section \<open>Copying a chain of buffers\<close>

text \<open>The second release loop of \<open>ngx_http_rpc_task_set_bufs\<close>, over the old links.\<close>

partial_function (option) release_tail ::
  "chaddr option \<Rightarrow> 'z tstate_scheme \<Rightarrow> 'z tstate_scheme option" where
  "release_tail p s =
     (case p of
        None \<Rightarrow> Some s
      | Some c \<Rightarrow>
          do {
            b \<leftarrow> get_buf c s;
            b \<leftarrow> b;
            bf \<leftarrow> load s (bufs s) b;
            s \<leftarrow> free_ptr (b_pos bf) s;
            s \<leftarrow> ngx_slab_free b s;
            s \<leftarrow> set_buf c None s;
            s \<leftarrow> free_chain_cell c s;
            nx \<leftarrow> get_link c s;
            release_tail nx s
          })"

text \<open>One buffer copied into the link \<open>dst\<close>: a new \<open>ngx_buf_t\<close> and a new data block.\<close>

definition copy_buf ::
  "slab_pick \<Rightarrow> chaddr \<Rightarrow> addr \<Rightarrow> 'z tstate_scheme \<Rightarrow> 'z tstate_scheme option" where
  "copy_buf pick dst b s =
     do {
       sb \<leftarrow> load s (bufs s) b;
       size \<leftarrow> ptr_diff (b_last sb) (b_pos sb);
       (nb, s) \<leftarrow> Some (ngx_slab_alloc pick Buf_t s);
       s \<leftarrow> set_buf dst nb s;
       nb \<leftarrow> nb;
       s \<leftarrow> Some (s\<lparr>bufs := (bufs s)(nb \<mapsto> sb)\<rparr>);
       (blk, s) \<leftarrow> Some (ngx_slab_alloc pick (Bytes size) s);
       blk \<leftarrow> blk;
       bs \<leftarrow> read_bytes (b_pos sb) size s;
       Some (s\<lparr>data := (data s)(blk \<mapsto> bs),
               bufs := (bufs s)(nb \<mapsto> sb\<lparr>b_pos := (blk, 0), b_start := (blk, 0),
                                        b_last := (blk, size), b_end := (blk, size)\<rparr>)\<rparr>)
     }"

partial_function (option) copy_bufs ::
  "slab_pick \<Rightarrow> chaddr \<Rightarrow> chaddr option \<Rightarrow> 'z tstate_scheme \<Rightarrow> 'z tstate_scheme option" where
  "copy_bufs pick dst src s =
     (case src of
        None \<Rightarrow> Some s
      | Some c \<Rightarrow>
          do {
            b \<leftarrow> get_buf c s;
            (case b of
               None \<Rightarrow> Some s
             | Some b \<Rightarrow>
                 do {
                   s \<leftarrow> copy_buf pick dst b s;
                   nx \<leftarrow> get_link c s;
                   (case nx of
                      None \<Rightarrow> set_link dst None s
                    | Some c' \<Rightarrow>
                        do {
                          (nc, s) \<leftarrow> Some (ngx_slab_alloc pick Chain_t s);
                          s \<leftarrow> set_link dst (map_option Chain_cell nc) s;
                          nc \<leftarrow> nc;
                          copy_bufs pick (Chain_cell nc) (Some c') s
                        })
                 })
          })"

definition ngx_http_rpc_task_set_bufs ::
  "slab_pick \<Rightarrow> chaddr \<Rightarrow> chaddr option \<Rightarrow> 'z tstate_scheme \<Rightarrow> 'z tstate_scheme option" where
  "ngx_http_rpc_task_set_bufs pick dst src s =
     do {
       b \<leftarrow> get_buf dst s;
       s \<leftarrow> (case b of
               None \<Rightarrow> Some s
             | Some b \<Rightarrow>
                 do {
                   bf \<leftarrow> load s (bufs s) b;
                   s \<leftarrow> free_ptr (b_pos bf) s;
                   s \<leftarrow> ngx_slab_free b s;
                   set_buf dst None s
                 });
       nx \<leftarrow> get_link dst s;
       s \<leftarrow> release_tail nx s;
       s \<leftarrow> set_link dst None s;
       copy_bufs pick dst src s
     }"

section \<open>What a chain holds\<close>

text \<open>The bytes of a buffer between \<open>pos\<close> and \<open>last\<close>.\<close>

definition buf_content :: "'z tstate_scheme \<Rightarrow> addr \<Rightarrow> byte list option" where
  "buf_content s b =
     do {
       bf \<leftarrow> load s (bufs s) b;
       n \<leftarrow> ptr_diff (b_last bf) (b_pos bf);
       read_bytes (b_pos bf) n s
     }"

text \<open>The bytes of the buffers of a chain, in order.\<close>

abbreviation chain_bytes :: "'z tstate_scheme \<Rightarrow> (chaddr \<times> addr) list \<Rightarrow> byte list list \<Rightarrow> bool" where
  "chain_bytes s \<equiv> list_all2 (\<lambda>(c, b) bs. buf_content s b = Some bs)"

text \<open>
  \<open>chain_seg s p cs\<close>: from \<open>p\<close> the links lead through the cells of \<open>cs\<close>, each with its
  buffer, to \<open>NULL\<close>.
\<close>

fun chain_seg :: "'z tstate_scheme \<Rightarrow> chaddr option \<Rightarrow> (chaddr \<times> addr) list \<Rightarrow> bool" where
  "chain_seg s p [] \<longleftrightarrow> p = None"
| "chain_seg s p ((c, b) # cs) \<longleftrightarrow> p = Some c \<and> get_buf c s = Some (Some b) \<and>
     (case get_link c s of None \<Rightarrow> False | Some nx \<Rightarrow> chain_seg s nx cs)"

text \<open>
  A buffer the module built itself: the structure and the block are two live slab chunks, and
  the block is filled from its start to its end with \<open>bs\<close>.
\<close>

definition owned_buf :: "'z tstate_scheme \<Rightarrow> addr \<Rightarrow> addr \<Rightarrow> byte list \<Rightarrow> bool" where
  "owned_buf s b k bs \<longleftrightarrow>
     chunks s b = Some Buf_t \<and> chunks s k = Some (Bytes (int (length bs)))
     \<and> data s k = Some bs
     \<and> (case bufs s b of
          None \<Rightarrow> False
        | Some bf \<Rightarrow> b_pos bf = (k, 0) \<and> b_start bf = (k, 0)
            \<and> b_last bf = (k, int (length bs)) \<and> b_end bf = (k, int (length bs)))"

definition cell_kind :: "'z tstate_scheme \<Rightarrow> chaddr \<Rightarrow> bool" where
  "cell_kind s c \<longleftrightarrow>
     chunks s (chowner c) = Some (case c of Chain_cell _ \<Rightarrow> Chain_t | _ \<Rightarrow> Task_t)"

fun owned_seg ::
  "'z tstate_scheme \<Rightarrow> chaddr option \<Rightarrow> (chaddr \<times> addr \<times> addr \<times> byte list) list \<Rightarrow> bool" where
  "owned_seg s p [] \<longleftrightarrow> p = None"
| "owned_seg s p ((c, b, k, bs) # ts) \<longleftrightarrow> p = Some c \<and> cell_kind s c \<and>
     get_buf c s = Some (Some b) \<and> owned_buf s b k bs \<and>
     (case get_link c s of None \<Rightarrow> False | Some nx \<Rightarrow> owned_seg s nx ts)"

definition owned_addrs :: "(chaddr \<times> addr \<times> addr \<times> byte list) list \<Rightarrow> addr list" where
  "owned_addrs ts = concat (map (\<lambda>(c, b, k, bs). [b, k]) ts)"

definition owned_blocks :: "(chaddr \<times> addr \<times> addr \<times> byte list) list \<Rightarrow> addr list" where
  "owned_blocks ts = map (\<lambda>(c, b, k, bs). k) ts"

definition owned_bytes :: "(chaddr \<times> addr \<times> addr \<times> byte list) list \<Rightarrow> byte list list" where
  "owned_bytes ts = map (\<lambda>(c, b, k, bs). bs) ts"

lemma owned_addrs_simps [simp]:
  "owned_addrs [] = []" "owned_addrs ((c, b, k, bs) # ts) = b # k # owned_addrs ts"
  by (simp_all add: owned_addrs_def)

lemmas owned_list_defs = owned_addrs_def owned_blocks_def owned_bytes_def

text \<open>A head whose buffer is \<open>NULL\<close> is the empty chain.\<close>

definition owned_chain ::
  "'z tstate_scheme \<Rightarrow> chaddr \<Rightarrow> (chaddr \<times> addr \<times> addr \<times> byte list) list \<Rightarrow> bool" where
  "owned_chain s h ts \<longleftrightarrow> cell_kind s h \<and> distinct (owned_addrs ts) \<and>
     (if ts = [] then get_buf h s = Some None else owned_seg s (Some h) ts)"

lemma owned_buf_content: "owned_buf s b k bs \<Longrightarrow> buf_content s b = Some bs"
  by (auto simp: owned_buf_def buf_content_def load_def live_def ptr_diff_def read_bytes_def
      split: option.splits)

lemma owned_seg_chain_seg:
  "owned_seg s p ts \<Longrightarrow> chain_seg s p (map (\<lambda>(c, b, k, bs). (c, b)) ts)"
  by (induction ts arbitrary: p) (auto split: option.splits)

text \<open>
  \<open>grows D s s'\<close>: \<open>s'\<close> has what was live in \<open>s\<close> unchanged, apart from the chain links in
  \<open>D\<close>; the only other difference is new memory.
\<close>

definition grows :: "chaddr set \<Rightarrow> 'z tstate_scheme \<Rightarrow> 'z tstate_scheme \<Rightarrow> bool" where
  "grows D s s' \<longleftrightarrow>
     (\<forall>a. live s a \<longrightarrow> chunks s' a = chunks s a \<and> bufs s' a = bufs s a \<and> data s' a = data s a)
     \<and> (\<forall>c. live s (chowner c) \<longrightarrow> c \<notin> D \<longrightarrow>
          chain_buf s' c = chain_buf s c \<and> chain_next s' c = chain_next s c)
     \<and> qnext s' = qnext s \<and> qprev s' = qprev s \<and> notifies s' = notifies s
     \<and> notify_slots s' = notify_slots s \<and> conns s' = conns s \<and> efds s' = efds s
     \<and> tasks s' = tasks s \<and> tstate.more s' = tstate.more s"

lemma grows_refl: "grows D s s"
  by (simp add: grows_def)

lemma grows_live: "grows D s s' \<Longrightarrow> live s a \<Longrightarrow> live s' a"
  by (simp add: grows_def live_def)

lemma grows_trans:
  assumes "grows D s s1" and "grows E s1 s2" and "\<And>c. c \<in> E \<Longrightarrow> live s (chowner c) \<Longrightarrow> c \<in> D"
  shows "grows D s s2"
  using assms grows_live [OF assms(1)] unfolding grows_def by metis

lemma grows_cell:
  assumes "grows D s s'" and "c \<notin> D" and "live s (chowner c)"
  shows "get_buf c s' = get_buf c s" and "get_link c s' = get_link c s"
  using assms grows_live [OF assms(1,3)] by (auto simp: grows_def chain_defs)

lemma grows_content:
  assumes g: "grows D s s'" and c: "buf_content s b = Some bs"
  shows "buf_content s' b = Some bs"
proof -
  obtain bf n where bf: "load s (bufs s) b = Some bf" "ptr_diff (b_last bf) (b_pos bf) = Some n"
    "read_bytes (b_pos bf) n s = Some bs"
    using c by (auto simp: buf_content_def fault_simps)
  then have b: "live s b" "bufs s b = Some bf" by (simp_all add: load_Some_iff)
  then have "load s' (bufs s') b = Some bf"
    using g grows_live [OF g] by (auto simp: load_Some_iff grows_def)
  moreover obtain d where d: "load s (data s) (fst (b_pos bf)) = Some d"
    using bf(3) by (auto simp: read_bytes_def fault_simps)
  then have "load s' (data s') (fst (b_pos bf)) = Some d"
    using g grows_live [OF g] by (auto simp: load_Some_iff grows_def)
  then have "read_bytes (b_pos bf) n s' = Some bs"
    using bf(3) d by (simp add: read_bytes_def)
  ultimately show ?thesis using bf(2) by (simp add: buf_content_def)
qed

lemma grows_owned_buf: "grows D s s' \<Longrightarrow> owned_buf s b k bs \<Longrightarrow> owned_buf s' b k bs"
  by (auto simp: grows_def owned_buf_def live_def)

lemma grows_chain_seg:
  "\<lbrakk> grows D s s'; chain_seg s p cs; D \<inter> fst ` set cs = {} \<rbrakk> \<Longrightarrow> chain_seg s' p cs"
proof (induction cs arbitrary: p)
  case (Cons x cs)
  obtain c b where x: "x = (c, b)" by force
  have "live s (chowner c)" "c \<notin> D"
    using Cons.prems x by (auto simp: get_buf_def split: if_splits)
  then show ?case
    using Cons grows_cell [OF Cons.prems(1)] by (auto simp: x split: option.splits)
qed simp

lemma live_tstate_updates [simp]:
  "live (s\<lparr>bufs := f\<rparr>) a = live s a" "live (s\<lparr>chain_buf := g\<rparr>) a = live s a"
  "live (s\<lparr>chain_next := h\<rparr>) a = live s a" "live (s\<lparr>data := i\<rparr>) a = live s a"
  "live (s\<lparr>tasks := j\<rparr>) a = live s a"
  by (simp_all add: live_def)

section \<open>Copying is a deep copy\<close>

lemma buf_content_SomeE:
  assumes "buf_content s b = Some bs"
  obtains sb d where "live s b" "bufs s b = Some sb"
    "ptr_diff (b_last sb) (b_pos sb) = Some (int (length bs))"
    "live s (fst (b_pos sb))" "data s (fst (b_pos sb)) = Some d" "0 \<le> snd (b_pos sb)"
    "snd (b_pos sb) + int (length bs) \<le> int (length d)"
    "bs = take (length bs) (drop (nat (snd (b_pos sb))) d)"
proof -
  obtain sb n where sb: "load s (bufs s) b = Some sb" "ptr_diff (b_last sb) (b_pos sb) = Some n"
    "read_bytes (b_pos sb) n s = Some bs"
    using assms by (auto simp: buf_content_def fault_simps)
  obtain d where d: "load s (data s) (fst (b_pos sb)) = Some d" "0 \<le> n" "0 \<le> snd (b_pos sb)"
    "snd (b_pos sb) + n \<le> int (length d)" "bs = take (nat n) (drop (nat (snd (b_pos sb))) d)"
    using sb(3) by (auto simp: read_bytes_def fault_simps split: if_splits)
  then have "length bs = nat n" by simp
  with sb d that [of sb d] show thesis by (auto simp: load_Some_iff)
qed

text \<open>The state after \<open>copy_buf\<close>: one new structure, one new block, one link written.\<close>

definition after_copy ::
  "chaddr \<Rightarrow> addr \<Rightarrow> addr \<Rightarrow> ngx_buf \<Rightarrow> byte list \<Rightarrow> 'z tstate_scheme \<Rightarrow> 'z tstate_scheme" where
  "after_copy dst nb k sb bs s =
     s\<lparr>chunks := (chunks s)(nb \<mapsto> Buf_t, k \<mapsto> Bytes (int (length bs))),
       chain_buf := (chain_buf s)(dst \<mapsto> Some nb),
       bufs := (bufs s)(nb \<mapsto> sb\<lparr>b_pos := (k, 0), b_start := (k, 0),
                 b_last := (k, int (length bs)), b_end := (k, int (length bs))\<rparr>),
       data := (data s)(k \<mapsto> bs)\<rparr>"

definition after_cell ::
  "chaddr \<Rightarrow> addr \<Rightarrow> 'z tstate_scheme \<Rightarrow> 'z tstate_scheme" where
  "after_cell dst nc s =
     s\<lparr>chunks := (chunks s)(nc \<mapsto> Chain_t),
       chain_next := (chain_next s)(dst \<mapsto> Some (Chain_cell nc))\<rparr>"

text \<open>A buffer that does not stand for a part of a file.\<close>

definition in_memory :: "'z tstate_scheme \<Rightarrow> addr \<Rightarrow> bool" where
  "in_memory s b \<longleftrightarrow> (\<exists>bf. load s (bufs s) b = Some bf \<and> \<not> b_in_file bf)"

abbreviation copied_in_memory ::
  "'z tstate_scheme \<Rightarrow> 'z tstate_scheme \<Rightarrow> (chaddr \<times> addr) list \<Rightarrow> (chaddr \<times> addr \<times> addr \<times> byte list) list \<Rightarrow> bool" where
  "copied_in_memory s s' \<equiv> list_all2 (\<lambda>x y. in_memory s (snd x) \<longrightarrow> in_memory s' (fst (snd y)))"

lemma grows_in_memory: "grows D s s' \<Longrightarrow> in_memory s b \<Longrightarrow> in_memory s' b"
  unfolding in_memory_def load_Some_iff by (metis grows_def grows_live)

lemma copy_buf_ok:
  assumes dst: "live s (chowner dst)" and c: "buf_content s b = Some bs"
    and sp: "spare pick (chunks s) (Suc (Suc n))"
  obtains nb k sb where "copy_buf pick dst b s = Some (after_copy dst nb k sb bs s)"
    and "\<not> live s nb" and "\<not> live s k" and "nb \<noteq> k"
    and "spare pick (chunks (after_copy dst nb k sb bs s)) n" and "load s (bufs s) b = Some sb"
proof -
  obtain sb d where sb: "live s b" "bufs s b = Some sb"
    "ptr_diff (b_last sb) (b_pos sb) = Some (int (length bs))"
    "live s (fst (b_pos sb))" "data s (fst (b_pos sb)) = Some d" "0 \<le> snd (b_pos sb)"
    "snd (b_pos sb) + int (length bs) \<le> int (length d)"
    "bs = take (length bs) (drop (nat (snd (b_pos sb))) d)"
    using c by (rule buf_content_SomeE)
  obtain nb where nb: "ngx_slab_alloc pick Buf_t s = (Some nb, s\<lparr>chunks := (chunks s)(nb \<mapsto> Buf_t)\<rparr>)"
    "\<not> live s nb" "spare pick ((chunks s)(nb \<mapsto> Buf_t)) (Suc n)"
    by (rule spare_alloc [OF sp])
  let ?s1 = "s\<lparr>chunks := (chunks s)(nb \<mapsto> Buf_t), chain_buf := (chain_buf s)(dst \<mapsto> Some nb),
      bufs := (bufs s)(nb \<mapsto> sb)\<rparr>"
  have "spare pick (chunks ?s1) (Suc n)" using nb(3) by simp
  then obtain k where k: "ngx_slab_alloc pick (Bytes (int (length bs))) ?s1 =
      (Some k, ?s1\<lparr>chunks := (chunks ?s1)(k \<mapsto> Bytes (int (length bs)))\<rparr>)"
    "\<not> live ?s1 k" "spare pick ((chunks ?s1)(k \<mapsto> Bytes (int (length bs)))) n"
    by (rule spare_alloc)
  have kn: "k \<noteq> nb" "\<not> live s k" using k(2) by (auto simp: live_def split: if_splits)
  have rd: "read_bytes (b_pos sb) (int (length bs))
      (?s1\<lparr>chunks := (chunks ?s1)(k \<mapsto> Bytes (int (length bs)))\<rparr>) = Some bs"
    using sb(4-8) by (simp add: read_bytes_def load_def live_def)
  have ld: "load s (bufs s) b = Some sb" using sb(1,2) by (simp add: load_Some_iff)
  then have "copy_buf pick dst b s = Some (after_copy dst nb k sb bs s)"
    using dst nb(1) k(1) rd sb(3) by (simp add: copy_buf_def set_buf_def live_def after_copy_def)
  then show thesis using that nb(2) kn k(3) ld by (simp add: after_copy_def)
qed

lemma after_copy_grows:
  "\<not> live s nb \<Longrightarrow> \<not> live s k \<Longrightarrow> grows {dst} s (after_copy dst nb k sb bs s)"
  by (auto simp: after_copy_def grows_def live_def)

lemma after_cell_grows: "\<not> live s nc \<Longrightarrow> grows {dst} s (after_cell dst nc s)"
  by (auto simp: after_cell_def grows_def live_def)

lemma after_copy_owned: "nb \<noteq> k \<Longrightarrow> owned_buf (after_copy dst nb k sb bs s) nb k bs"
  by (simp add: after_copy_def owned_buf_def)

lemma after_copy_in_memory:
  "load s (bufs s) b = Some sb \<Longrightarrow> in_memory s b \<Longrightarrow> in_memory (after_copy dst nb k sb bs s) nb"
  by (auto simp: after_copy_def in_memory_def load_def live_def)

lemma after_copy_dst:
  assumes "cell_kind s dst" and "\<not> live s nb" and "\<not> live s k"
  shows "cell_kind (after_copy dst nb k sb bs s) dst"
    and "get_buf dst (after_copy dst nb k sb bs s) = Some (Some nb)"
  using assms by (auto simp: after_copy_def cell_kind_def get_buf_def live_def)

lemma cell_kind_live: "cell_kind s c \<Longrightarrow> live s (chowner c)"
  by (simp add: cell_kind_def live_def)

lemma grows_cell_kind: "grows D s s' \<Longrightarrow> cell_kind s c \<Longrightarrow> cell_kind s' c"
  using cell_kind_live [of s c] by (simp add: grows_def cell_kind_def)

lemma chain_seg_live:
  "chain_seg s p cs \<Longrightarrow> c \<in> fst ` set cs \<Longrightarrow> live s (chowner c)"
proof (induction cs arbitrary: p)
  case (Cons x cs)
  obtain c' b where x: "x = (c', b)" by force
  show ?case
  proof (cases "c = c'")
    case True
    then show ?thesis using Cons.prems(1) x by (auto simp: get_buf_def split: if_splits)
  next
    case False
    then have "c \<in> fst ` set cs" using Cons.prems(2) x by auto
    then show ?thesis using Cons.IH Cons.prems(1) x by (auto split: option.splits)
  qed
qed simp

lemma copy_bufs_last:
  assumes "cell_kind s dst" and "get_buf c s = Some (Some b)" and "get_link c s = Some None"
    and "buf_content s b = Some bs" and "c \<noteq> dst" and "spare pick (chunks s) (Suc (Suc n))"
  shows "\<exists>s' nb k. copy_bufs pick dst (Some c) s = Some s'
     \<and> owned_seg s' (Some dst) [(dst, nb, k, bs)] \<and> grows {dst} s s'
     \<and> \<not> live s nb \<and> \<not> live s k \<and> nb \<noteq> k \<and> spare pick (chunks s') n
     \<and> (in_memory s b \<longrightarrow> in_memory s' nb)"
proof -
  obtain nb k sb where cp: "copy_buf pick dst b s = Some (after_copy dst nb k sb bs s)"
    and fresh: "\<not> live s nb" "\<not> live s k" "nb \<noteq> k"
    and sp: "spare pick (chunks (after_copy dst nb k sb bs s)) n" and sb: "load s (bufs s) b = Some sb"
    by (rule copy_buf_ok [OF cell_kind_live [OF assms(1)] assms(4,6)])
  let ?s1 = "after_copy dst nb k sb bs s"
  let ?s' = "?s1\<lparr>chain_next := (chain_next ?s1)(dst \<mapsto> None)\<rparr>"
  have g: "grows {dst} s ?s1" by (rule after_copy_grows [OF fresh(1,2)])
  note dst1 = after_copy_dst [OF assms(1) fresh(1,2), of sb bs]
  have l1: "live ?s1 (chowner dst)" by (rule cell_kind_live [OF dst1(1)])
  have "get_link c ?s1 = Some None"
    using grows_cell(2) [OF g, of c] assms(2,3,5) by (auto simp: get_buf_def split: if_splits)
  then have "copy_bufs pick dst (Some c) s = Some ?s'"
    using cp l1 assms(2) by (subst copy_bufs.simps) (simp add: set_link_def)
  moreover have "owned_seg ?s' (Some dst) [(dst, nb, k, bs)]"
    using dst1 after_copy_owned [OF fresh(3), of dst sb bs s] l1
    by (simp add: cell_kind_def owned_buf_def chain_defs)
  moreover have "grows {dst} s ?s'" using g by (auto simp: grows_def)
  moreover have "spare pick (chunks ?s') n" using sp by simp
  moreover have "in_memory ?s' nb" if "in_memory s b"
    using after_copy_in_memory [OF sb that, of dst nb k bs] by (simp add: in_memory_def load_def)
  ultimately show ?thesis using fresh by blast
qed

lemma copy_bufs_step:
  assumes dst: "cell_kind s dst" and c: "get_buf c s = Some (Some b)" "get_link c s = Some (Some c')"
    and bs: "buf_content s b = Some bs" and "c \<noteq> dst"
    and sp: "spare pick (chunks s) (Suc (Suc (Suc n)))"
  obtains s2 nb k nc where "copy_bufs pick dst (Some c) s = copy_bufs pick (Chain_cell nc) (Some c') s2"
    and "grows {dst} s s2" and "owned_buf s2 nb k bs" and "cell_kind s2 dst"
    and "get_buf dst s2 = Some (Some nb)" and "get_link dst s2 = Some (Some (Chain_cell nc))"
    and "cell_kind s2 (Chain_cell nc)" and "spare pick (chunks s2) n"
    and "\<not> live s nb" and "\<not> live s k" and "nb \<noteq> k" and "\<not> live s nc"
    and "in_memory s b \<longrightarrow> in_memory s2 nb"
proof -
  obtain nb k sb where cp: "copy_buf pick dst b s = Some (after_copy dst nb k sb bs s)"
    and fresh: "\<not> live s nb" "\<not> live s k" "nb \<noteq> k"
    and sp1: "spare pick (chunks (after_copy dst nb k sb bs s)) (Suc n)" and sb: "load s (bufs s) b = Some sb"
    by (rule copy_buf_ok [OF cell_kind_live [OF dst] bs sp])
  let ?s1 = "after_copy dst nb k sb bs s"
  have g: "grows {dst} s ?s1" by (rule after_copy_grows [OF fresh(1,2)])
  note dst1 = after_copy_dst [OF dst fresh(1,2), of sb bs]
  obtain nc where nc: "ngx_slab_alloc pick Chain_t ?s1 =
        (Some nc, ?s1\<lparr>chunks := (chunks ?s1)(nc \<mapsto> Chain_t)\<rparr>)" "\<not> live ?s1 nc"
      "spare pick ((chunks ?s1)(nc \<mapsto> Chain_t)) n"
    by (rule spare_alloc [OF sp1])
  let ?s2 = "after_cell dst nc ?s1"
  have g2: "grows {dst} ?s1 ?s2" by (rule after_cell_grows [OF nc(2)])
  have l1: "live ?s1 (chowner dst)" by (rule cell_kind_live [OF dst1(1)])
  have "get_link c ?s1 = Some (Some c')"
    using grows_cell(2) [OF g, of c] c \<open>c \<noteq> dst\<close> by (auto simp: get_buf_def split: if_splits)
  then have cpb: "copy_bufs pick dst (Some c) s = copy_bufs pick (Chain_cell nc) (Some c') ?s2"
    using cp l1 c(1) nc(1)
    by (subst copy_bufs.simps) (auto simp: set_link_def live_def after_cell_def)
  have d2: "get_buf dst ?s2 = Some (Some nb)" "get_link dst ?s2 = Some (Some (Chain_cell nc))"
    using dst1(2) l1 by (auto simp: after_cell_def chain_defs live_def split: if_splits)
  have k2: "cell_kind ?s2 dst" "cell_kind ?s2 (Chain_cell nc)"
    using grows_cell_kind [OF g2 dst1(1)] by (simp_all add: after_cell_def cell_kind_def)
  have sp2: "spare pick (chunks ?s2) n" using nc(3) by (simp add: after_cell_def)
  have gg: "grows {dst} s ?s2" by (rule grows_trans [OF g g2]) simp
  show thesis
    by (rule that [OF cpb gg grows_owned_buf [OF g2 after_copy_owned [OF fresh(3)]] k2(1) d2 k2(2) sp2 fresh])
      (use nc(2) grows_live [OF g] grows_in_memory [OF g2] after_copy_in_memory [OF sb] in blast)+
qed

text \<open>
  The copy loop builds, from the destination on, a chain of new buffers with the source's
  bytes; nothing that was live changes apart from the destination's two fields. Three
  allocations per buffer are enough, one less for the last.
\<close>

lemma copy_bufs_ok:
  assumes "chain_seg s (Some c) cs"
    and "list_all2 (\<lambda>(c, b) bs. buf_content s b = Some bs) cs bss"
    and "cell_kind s dst" and "dst \<notin> fst ` set cs"
    and "spare pick (chunks s) (3 * length cs - 1 + n)"
  shows "\<exists>s' ts. copy_bufs pick dst (Some c) s = Some s' \<and> owned_seg s' (Some dst) ts
     \<and> owned_bytes ts = bss \<and> grows {dst} s s'
     \<and> (\<forall>a \<in> set (owned_addrs ts). \<not> live s a) \<and> distinct (owned_addrs ts)
     \<and> spare pick (chunks s') n
     \<and> copied_in_memory s s' cs ts"
  using assms
proof (induction cs arbitrary: s c dst bss)
  case Nil
  then show ?case by simp
next
  case (Cons x cs)
  obtain b where x: "x = (c, b)" using Cons.prems(1) by (cases x) auto
  obtain bs bss' where bss: "bss = bs # bss'" "buf_content s b = Some bs"
      "list_all2 (\<lambda>(c, b) bs. buf_content s b = Some bs) cs bss'"
    using Cons.prems(2) x by (auto simp: list_all2_Cons1)
  obtain nx where c: "get_buf c s = Some (Some b)" "get_link c s = Some nx" "chain_seg s nx cs"
    using Cons.prems(1) x by (auto split: option.splits)
  have cd: "c \<noteq> dst" "dst \<notin> fst ` set cs" using Cons.prems(4) x by auto
  show ?case
  proof (cases cs)
    case Nil
    then have nx: "nx = None" and sp: "spare pick (chunks s) (Suc (Suc n))" and "bss' = []"
      using c(3) Cons.prems(5) bss(3) by auto
    obtain s' nb k where "copy_bufs pick dst (Some c) s = Some s'"
      "owned_seg s' (Some dst) [(dst, nb, k, bs)]" "grows {dst} s s'"
      "\<not> live s nb" "\<not> live s k" "nb \<noteq> k" "spare pick (chunks s') n" "in_memory s b \<longrightarrow> in_memory s' nb"
      using copy_bufs_last [OF Cons.prems(3) c(1) c(2) [unfolded nx] bss(2) cd(1) sp] by blast
    then show ?thesis
      using bss(1) \<open>bss' = []\<close> Nil x
      by (intro exI [of _ s'] exI [of _ "[(dst, nb, k, bs)]"]) (simp add: owned_list_defs)
  next
    case (Cons y ys)
    then obtain c' where nx: "nx = Some c'" using c(3) by (cases y) auto
    have "Suc (Suc (Suc (3 * length cs - 1 + n))) = 3 * length (x # cs) - 1 + n" using Cons by simp
    then have sp: "spare pick (chunks s) (Suc (Suc (Suc (3 * length cs - 1 + n))))"
      using Cons.prems(5) by metis
    obtain s2 nb k nc where s2:
      "copy_bufs pick dst (Some c) s = copy_bufs pick (Chain_cell nc) (Some c') s2"
      "grows {dst} s s2" "owned_buf s2 nb k bs" "cell_kind s2 dst" "get_buf dst s2 = Some (Some nb)"
      "get_link dst s2 = Some (Some (Chain_cell nc))" "cell_kind s2 (Chain_cell nc)"
      "spare pick (chunks s2) (3 * length cs - 1 + n)"
      "\<not> live s nb" "\<not> live s k" "nb \<noteq> k" "\<not> live s nc" "in_memory s b \<longrightarrow> in_memory s2 nb"
      using copy_bufs_step [OF Cons.prems(3) c(1) c(2) [unfolded nx] bss(2) cd(1) sp] by metis
    have seg2: "chain_seg s2 (Some c') cs"
      using grows_chain_seg [OF s2(2) c(3) [unfolded nx]] cd(2) by simp
    have con2: "list_all2 (\<lambda>(c, b) bs. buf_content s2 b = Some bs) cs bss'"
      using bss(3) by (rule list_all2_mono) (auto dest: grows_content [OF s2(2)])
    have fresh2: "Chain_cell nc \<notin> fst ` set cs" using chain_seg_live [OF c(3)] s2(12) by force
    obtain s' ts where s': "copy_bufs pick (Chain_cell nc) (Some c') s2 = Some s'"
      "owned_seg s' (Some (Chain_cell nc)) ts" "owned_bytes ts = bss'"
      "grows {Chain_cell nc} s2 s'" "\<forall>a \<in> set (owned_addrs ts). \<not> live s2 a"
      "distinct (owned_addrs ts)" "spare pick (chunks s') n"
      "copied_in_memory s2 s' cs ts"
      using Cons.IH [OF seg2 con2 s2(7) fresh2 s2(8)] by blast
    have dc: "dst \<noteq> Chain_cell nc" using cell_kind_live [OF Cons.prems(3)] s2(12) by auto
    have "owned_seg s' (Some dst) ((dst, nb, k, bs) # ts)"
      using grows_cell [OF s'(4) _ cell_kind_live [OF s2(4)]] dc s2(5,6) s'(2)
        grows_owned_buf [OF s'(4) s2(3)] grows_cell_kind [OF s'(4) s2(4)] by simp
    moreover have "grows {dst} s s'" by (rule grows_trans [OF s2(2) s'(4)]) (use s2(12) in auto)
    moreover have "live s2 nb" "live s2 k" using s2(3) by (auto simp: owned_buf_def live_def)
    then have "distinct (owned_addrs ((dst, nb, k, bs) # ts))"
      using s'(5,6) s2(11) by auto
    moreover have "\<forall>a \<in> set (owned_addrs ((dst, nb, k, bs) # ts)). \<not> live s a"
      using s'(5) s2(9,10) grows_live [OF s2(2)] by auto
    moreover have "copied_in_memory s s' cs ts"
      by (rule list_all2_mono [OF s'(8)]) (auto intro: grows_in_memory [OF s2(2)])
    moreover have "in_memory s b \<longrightarrow> in_memory s' nb" using s2(13) grows_in_memory [OF s'(4)] by blast
    ultimately show ?thesis
      using s2(1) s'(1,3,7) bss(1) x
      by (intro exI [of _ s'] exI [of _ "(dst, nb, k, bs) # ts"]) (simp add: owned_bytes_def)
  qed
qed

text \<open>
  The operation on a task whose destination was never filled: the reference behaviour of
  \<open>ngx_http_rpc_task_set_bufs\<close>.
\<close>

lemma set_bufs_fresh_eq:
  assumes "get_buf h s = Some None" and "get_link h s = Some None"
  shows "ngx_http_rpc_task_set_bufs pick h src s = copy_bufs pick h src s"
proof -
  have "release_tail None s = Some s" by (subst release_tail.simps) simp
  moreover have "set_link h None s = Some s"
    using assms(2) by (auto simp: chain_defs fun_upd_idem split: if_splits)
  ultimately show ?thesis
    using assms by (simp add: ngx_http_rpc_task_set_bufs_def)
qed

lemma set_bufs_fresh:
  assumes h: "cell_kind s h" "get_buf h s = Some None" "get_link h s = Some None"
    and src: "chain_seg s (Some c) cs"
    and bss: "list_all2 (\<lambda>(c, b) bs. buf_content s b = Some bs) cs bss"
    and sp: "spare pick (chunks s) (3 * length cs - 1 + n)"
  shows "\<exists>s' ts. ngx_http_rpc_task_set_bufs pick h (Some c) s = Some s' \<and> owned_chain s' h ts
     \<and> owned_bytes ts = bss \<and> grows {h} s s' \<and> (\<forall>a \<in> set (owned_addrs ts). \<not> live s a)
     \<and> spare pick (chunks s') n
     \<and> copied_in_memory s s' cs ts"
proof -
  have "get_buf x s \<noteq> Some None" if "(x, b) \<in> set cs" for x b
  proof -
    have "chain_seg s p cs \<Longrightarrow> (x, b) \<in> set cs \<Longrightarrow> get_buf x s = Some (Some b)" for p
      by (induction cs arbitrary: p) (auto split: option.splits)
    then show ?thesis using src that by fastforce
  qed
  then have "h \<notin> fst ` set cs" using h(2) by auto
  from copy_bufs_ok [OF src bss h(1) this sp] obtain s' ts where
    s': "copy_bufs pick h (Some c) s = Some s'" "owned_seg s' (Some h) ts" "owned_bytes ts = bss"
      "grows {h} s s'" "\<forall>a \<in> set (owned_addrs ts). \<not> live s a" "distinct (owned_addrs ts)"
      "spare pick (chunks s') n"
      "copied_in_memory s s' cs ts"
    by blast
  have "ts \<noteq> []" using s'(2) by auto
  then have "owned_chain s' h ts"
    using s'(2,6) grows_cell_kind [OF s'(4) h(1)] by (simp add: owned_chain_def)
  then show ?thesis using s' by (auto simp: set_bufs_fresh_eq [OF h(2,3)])
qed

lemma set_bufs_empty_source:
  assumes "get_buf h s = Some None" and "get_link h s = Some None"
    and "src = None \<or> (\<exists>c. src = Some c \<and> get_buf c s = Some None)"
  shows "ngx_http_rpc_task_set_bufs pick h src s = Some s"
  using assms(3) unfolding set_bufs_fresh_eq [OF assms(1,2)]
  by (subst copy_bufs.simps) auto

text \<open>
  The loop that releases an old chain reads the \<open>next\<close> field of the cell it has just
  released, so it has no defined result on any cell.
\<close>

lemma free_Some_dead: "ngx_slab_free a s = Some s' \<Longrightarrow> \<not> live s' a"
  by (auto simp: free_Some_iff)

lemma release_tail_faults: "release_tail (Some c) s = None"
proof -
  have "get_link c s' = None" if "free_chain_cell c s2 = Some s'" for s2 s' :: "'z tstate_scheme"
    using that free_Some_dead
    by (cases c) (auto simp: free_chain_cell_def get_link_def)
  then show ?thesis
    by (subst release_tail.simps) (auto simp: bind_eq_None_conv)
qed

lemma set_bufs_old_tail:
  assumes "get_link h s = Some (Some c)"
  shows "ngx_http_rpc_task_set_bufs pick h src s = None"
proof -
  have head: "chain_next s' = chain_next s"
    if "(case b of None \<Rightarrow> Some s
         | Some b \<Rightarrow> do { bf \<leftarrow> load s (bufs s) b; s \<leftarrow> free_ptr (b_pos bf) s;
                          s \<leftarrow> ngx_slab_free b s; set_buf h None s }) = Some s'"
    for b s'
    using that
    by (auto simp: fault_simps free_ptr_def free_Some_iff set_buf_def split: option.splits if_splits)
  have "get_link h s' = Some (Some c) \<or> get_link h s' = None" if "chain_next s' = chain_next s" for s'
    using assms that by (auto simp: get_link_def split: if_splits)
  note link = this
  have "ngx_http_rpc_task_set_bufs pick h src s \<noteq> Some s'" for s'
    using link [OF head]
    by (force simp: ngx_http_rpc_task_set_bufs_def Option.bind_eq_Some_conv release_tail_faults)
  then show ?thesis by (metis not_None_eq)
qed

section \<open>Creation and destruction\<close>

lemma task_create_ok:
  assumes "ngx_http_rpc_task_create pick s = Some (Some t, s')"
  shows "\<not> live s t" and "chunks s' = (chunks s)(t \<mapsto> Task_t)"
    and "tasks s' = (tasks s)(t \<mapsto> zero_task)" and "ring s' (TaskNode t) []"
    and "owned_chain s' (Req_bufs t) []" and "owned_chain s' (Res_bufs t) []"
    and "get_link (Req_bufs t) s' = Some None" and "get_link (Res_bufs t) s' = Some None"
    and "bufs s' = bufs s" and "data s' = data s" and "notifies s' = notifies s" and "efds s' = efds s"
    and "ring s q xs \<Longrightarrow> ring s' q xs"
proof -
  obtain s1 where al: "ngx_slab_alloc pick Task_t s = (Some t, s1)"
    using assms
    by (auto simp: ngx_http_rpc_task_create_def fault_simps split: prod.splits option.splits)
  have fresh: "\<not> live s t" by (rule alloc_SomeD [OF al])
  have s': "s' = s\<lparr>chunks := (chunks s)(t \<mapsto> Task_t), tasks := (tasks s)(t \<mapsto> zero_task),
        chain_buf := (chain_buf s)(Req_bufs t \<mapsto> None, Res_bufs t \<mapsto> None),
        chain_next := (chain_next s)(Req_bufs t \<mapsto> None, Res_bufs t \<mapsto> None),
        qnext := (qnext s)(TaskParams t := None, TaskNode t \<mapsto> TaskNode t),
        qprev := (qprev s)(TaskParams t := None, TaskNode t \<mapsto> TaskNode t)\<rparr>"
    using assms alloc_SomeD(2) [OF al]
    by (auto simp: ngx_http_rpc_task_create_def al ngx_queue_init_def link_defs node_live_def live_def
        fun_upd_twist)
  show "\<not> live s t" by (rule fresh)
  show "chunks s' = (chunks s)(t \<mapsto> Task_t)" "tasks s' = (tasks s)(t \<mapsto> zero_task)"
    "bufs s' = bufs s" "data s' = data s" "notifies s' = notifies s" "efds s' = efds s"
    "owned_chain s' (Req_bufs t) []" "owned_chain s' (Res_bufs t) []"
    "get_link (Req_bufs t) s' = Some None" "get_link (Res_bufs t) s' = Some None"
    by (simp_all add: s' owned_chain_def cell_kind_def get_buf_def get_link_def live_def)
  show "ring s' (TaskNode t) []"
    by (simp add: s' ring_def mring_def node_live_def live_def)
  assume r: "ring s q xs"
  have own: "qowner a \<noteq> t" if "a \<in> set (q # xs)" for a
    by (rule ring_fresh_owner [OF r fresh that])
  have "mring (qnext s') (qprev s') q xs"
  proof (rule mring_frame [of "qnext s" "qprev s"])
    show "mring (qnext s) (qprev s) q xs" using r by (simp add: ring_iff)
    show "qnext s' a = qnext s a \<and> qprev s' a = qprev s a" if "a \<in> set (q # xs)" for a
      using own [OF that] by (auto simp: s')
  qed
  then show "ring s' q xs" using r by (auto simp: ring_iff s' node_live_def live_def)
qed

text \<open>Releasing data blocks leaves the structures of every other chain in place.\<close>

definition without :: "addr set \<Rightarrow> 'z slab_scheme \<Rightarrow> 'z slab_scheme" where
  "without B s = s\<lparr>chunks := chunks s |` (- B)\<rparr>"

lemma without_simps [simp]:
  "chunks (without B s) a = (if a \<in> B then None else chunks s a)"
  "live (without B s) a \<longleftrightarrow> a \<notin> B \<and> live s a"
  "bufs (without B t) = bufs t" "data (without B t) = data t" "tasks (without B t) = tasks t"
  "chain_buf (without B t) = chain_buf t" "chain_next (without B t) = chain_next t"
  by (simp_all add: without_def live_def restrict_map_def)

lemma without_empty: "without {} s = s"
  by (simp add: without_def restrict_map_def)

lemma without_without: "without A (without B s) = without (A \<union> B) s"
  by (auto simp: without_def restrict_map_def fun_eq_iff)

lemma free_without: "chunks s a = Some k \<Longrightarrow> slab_chunk k \<Longrightarrow> ngx_slab_free a s = Some (without {a} s)"
  by (auto simp: free_chunk without_def restrict_map_def fun_eq_iff)

lemma owned_seg_without:
  assumes "owned_seg s p ts" and "B \<inter> set (owned_addrs ts) = {}"
    and "\<And>k. k \<in> B \<Longrightarrow> \<exists>n. chunks s k = Some (Bytes n)"
  shows "owned_seg (without B s) p ts"
  using assms(1,2)
proof (induction ts arbitrary: p)
  case (Cons x ts)
  obtain c b k bs where x: "x = (c, b, k, bs)" by (cases x) auto
  have "cell_kind s c" using Cons.prems x by simp
  then have "chowner c \<notin> B"
    using assms(3) by (cases c) (fastforce simp: cell_kind_def)+
  then have "get_buf c (without B s) = get_buf c s" "get_link c (without B s) = get_link c s"
    "cell_kind (without B s) c = cell_kind s c"
    by (simp_all add: get_buf_def get_link_def cell_kind_def)
  then show ?case
    using Cons x by (auto simp: owned_buf_def split: option.splits)
qed simp

lemma owned_chain_without:
  assumes "owned_chain s h ts" and "B \<inter> set (owned_addrs ts) = {}"
    and "\<And>k. k \<in> B \<Longrightarrow> \<exists>n. chunks s k = Some (Bytes n)"
  shows "owned_chain (without B s) h ts"
proof -
  have "chowner h \<notin> B"
    using assms(1,3) by (cases h) (fastforce simp: cell_kind_def owned_chain_def)+
  then show ?thesis
    using assms owned_seg_without [of s "Some h" ts B]
    by (auto simp: owned_chain_def get_buf_def cell_kind_def)
qed

lemma owned_blocks_simps [simp]:
  "owned_blocks [] = []" "owned_blocks ((c, b, k, bs) # ts) = k # owned_blocks ts"
  by (simp_all add: owned_blocks_def)

lemma owned_blocks_addrs: "set (owned_blocks ts) \<subseteq> set (owned_addrs ts)"
  by (auto simp: owned_blocks_def owned_addrs_def)

lemma owned_blocks_chunk:
  "owned_seg s p ts \<Longrightarrow> k \<in> set (owned_blocks ts) \<Longrightarrow> \<exists>n. chunks s k = Some (Bytes n)"
  by (induction ts arbitrary: p) (auto simp: owned_buf_def split: option.splits)

lemma free_starts_seg:
  "\<lbrakk> owned_seg s p ts; distinct (owned_addrs ts) \<rbrakk> \<Longrightarrow>
     free_starts p s = Some (without (set (owned_blocks ts)) s)"
proof (induction ts arbitrary: s p)
  case Nil
  then show ?case by (subst free_starts.simps) (simp add: without_empty)
next
  case (Cons x ts)
  obtain c b k bs where x: "x = (c, b, k, bs)" by (cases x) auto
  obtain nx where c: "p = Some c" "get_buf c s = Some (Some b)" "get_link c s = Some nx"
    "owned_seg s nx ts" "cell_kind s c"
    using Cons.prems(1) x by (auto split: option.splits)
  obtain bf where b: "chunks s k = Some (Bytes (int (length bs)))" "load s (bufs s) b = Some bf"
    "b_start bf = (k, 0)"
    using Cons.prems(1) x by (auto simp: owned_buf_def load_def live_def split: option.splits)
  have "owned_seg (without {k} s) nx ts"
    using owned_seg_without [OF c(4), of "{k}"] Cons.prems(2) x b(1) by auto
  then have "free_starts nx (without {k} s)
      = Some (without (set (owned_blocks ts)) (without {k} s))"
    using Cons.IH Cons.prems(2) x by simp
  moreover have "get_link c (without {k} s) = Some nx"
    using c(3,5) b(1) by (cases c) (auto simp: get_link_def cell_kind_def split: if_splits)
  moreover have "free_ptr (b_start bf) s = Some (without {k} s)"
    using b by (simp add: free_ptr_def free_without)
  ultimately show ?case
    using c b by (subst free_starts.simps) (simp add: x without_without insert_commute)
qed

lemma free_starts_chain:
  assumes "owned_chain s h ts"
  shows "free_starts (Some h) s = Some (without (set (owned_blocks ts)) s)"
proof (cases "ts = []")
  case True
  then show ?thesis
    using assms by (subst free_starts.simps) (simp add: owned_chain_def without_empty)
next
  case False
  then show ?thesis using assms by (simp add: owned_chain_def free_starts_seg)
qed

text \<open>
  Destroying a task whose two chains the module filled releases the task and every data block
  of the chains, and nothing else: the buffer structures and the chain cells stay allocated.
\<close>

lemma destory_eq:
  assumes t: "chunks s t = Some Task_t" "tasks s t = Some tk"
    and rq: "owned_chain s (Req_bufs t) rq" and rs: "owned_chain s (Res_bufs t) rs"
    and dj: "set (owned_addrs rq) \<inter> set (owned_addrs rs) = {}"
  shows "ngx_http_rpc_task_destory t s =
     Some (without ({t} \<union> set (owned_blocks rs) \<union> set (owned_blocks rq)) s)"
proof -
  let ?B = "set (owned_blocks rq)" and ?C = "set (owned_blocks rs)"
  have bytes: "\<exists>n. chunks s k = Some (Bytes n)" if "k \<in> ?B \<or> k \<in> ?C" for k
    using that rq rs by (auto simp: owned_chain_def dest: owned_blocks_chunk split: if_splits)
  have "owned_chain (without ?B s) (Res_bufs t) rs"
    by (rule owned_chain_without [OF rs]) (use dj bytes owned_blocks_addrs in blast)+
  then have "free_starts (Some (Res_bufs t)) (without ?B s) = Some (without ?C (without ?B s))"
    by (rule free_starts_chain)
  moreover have "t \<notin> ?B" "t \<notin> ?C" using bytes t(1) by fastforce+
  then have "ngx_slab_free t (without ?C (without ?B s)) = Some (without {t} (without ?C (without ?B s)))"
    using t(1) by (intro free_without [of _ _ Task_t]) simp_all
  moreover have "load s (tasks s) t = Some tk" using t by (simp add: load_def live_def)
  ultimately show ?thesis
    by (simp add: ngx_http_rpc_task_destory_def free_starts_chain [OF rq] without_without Un_assoc
        insert_is_Un [symmetric])
qed

text \<open>
  The reference count: a task is created with count 0, an addition never releases it, and a
  subtraction releases it exactly when the count was already 0.
\<close>

definition ref_adds :: "nat \<Rightarrow> addr \<Rightarrow> 'z tstate_scheme \<Rightarrow> 'z tstate_scheme option" where
  "ref_adds k t s = ((\<lambda>r. Option.bind r (ngx_http_rpc_task_ref_add t)) ^^ k) (Some s)"

definition ref_subs :: "nat \<Rightarrow> addr \<Rightarrow> 'z tstate_scheme \<Rightarrow> 'z tstate_scheme option" where
  "ref_subs k t s = ((\<lambda>r. Option.bind r (ngx_http_rpc_task_ref_sub t)) ^^ k) (Some s)"

definition with_count :: "64 word \<Rightarrow> addr \<Rightarrow> ngx_rpc_task \<Rightarrow> 'z tstate_scheme \<Rightarrow> 'z tstate_scheme" where
  "with_count w t tk s = s\<lparr>tasks := (tasks s)(t \<mapsto> tk\<lparr>refcount := w\<rparr>)\<rparr>"

lemma with_count_load: "live s t \<Longrightarrow> load (with_count w t tk s) (tasks (with_count w t tk s)) t
    = Some (tk\<lparr>refcount := w\<rparr>)"
  by (simp add: with_count_def load_def)

lemma ref_adds_eq:
  "live s t \<Longrightarrow> ref_adds k t (with_count w t tk s) = Some (with_count (w + of_nat k) t tk s)"
  by (induction k)
    (simp_all add: ref_adds_def ngx_http_rpc_task_ref_add_def with_count_load add_ac,
     simp_all add: with_count_def)

lemma word_of_nat_nonzero: "0 < k \<Longrightarrow> k < 2 ^ 64 \<Longrightarrow> (of_nat k :: 64 word) \<noteq> 0"
  using dvd_imp_le [of "2 ^ 64" k] by (auto simp: word_of_nat_eq_0_iff)

lemma ref_subs_eq:
  "\<lbrakk> live s t; j \<le> k; k < 2 ^ 64 \<rbrakk> \<Longrightarrow>
     ref_subs j t (with_count (of_nat k) t tk s) = Some (with_count (of_nat (k - j)) t tk s)"
proof (induction j)
  case 0
  then show ?case by (simp add: ref_subs_def)
next
  case (Suc j)
  then have IH: "ref_subs j t (with_count (of_nat k) t tk s) = Some (with_count (of_nat (k - j)) t tk s)"
    by simp
  have nz: "(of_nat (k - j) :: 64 word) \<noteq> 0"
    by (rule word_of_nat_nonzero) (use Suc.prems in auto)
  have "k - j = Suc (k - Suc j)" using Suc.prems by simp
  then have dec: "(of_nat (k - j) :: 64 word) - 1 = of_nat (k - Suc j)" by simp
  have "ngx_http_rpc_task_ref_sub t (with_count (of_nat (k - j)) t tk s)
      = Some (with_count (of_nat (k - Suc j)) t tk s)"
    using nz dec with_count_load [OF Suc.prems(1)]
    by (simp add: ngx_http_rpc_task_ref_sub_def) (simp add: with_count_def)
  then show ?case using IH by (simp add: ref_subs_def)
qed

lemma ref_sub_last:
  assumes "live s t"
  shows "ngx_http_rpc_task_ref_sub t (with_count 0 t tk s) =
     ngx_http_rpc_task_destory t (with_count (- 1) t tk s)"
  using with_count_load [OF assms, of 0 tk]
  by (simp add: ngx_http_rpc_task_ref_sub_def) (simp add: with_count_def)

end
