(* ===== verification/Rpc_Queue.thy ===== *)
theory Rpc_Queue
  imports Rpc_Task
begin

text \<open>
  The queue object of ngx_rpc_module/ngx_rpc_queue.h and ngx_rpc_queue.c: the list of idle
  processors' notify objects under a lock, and the array with one notify object per
  process. (The lines of ngx_rpc_queue.c from 120 on are commented out.)
\<close>

section \<open>State and operations\<close>

record ngx_rpc_queue =
  notify_slot :: "addr option"
  notify_num :: int

record rstate = tstate +
  queues :: "addr \<rightharpoonup> ngx_rpc_queue"

text \<open>
  The loop that creates the notify objects. \<open>oks\<close> and \<open>fds\<close> give, for each index, whether
  its lock could be created and which descriptor \<open>eventfd\<close> returned. The array is not
  read before it is filled; its entries start as \<open>None\<close>.
\<close>

definition store_slot :: "addr \<Rightarrow> nat \<Rightarrow> addr option \<Rightarrow> 'z nstate_scheme \<Rightarrow> 'z nstate_scheme option" where
  "store_slot arr c v s =
     do {
       xs \<leftarrow> load s (notify_slots s) arr;
       (if c < length xs then Some (s\<lparr>notify_slots := (notify_slots s)(arr \<mapsto> xs[c := v])\<rparr>) else None)
     }"

function fill_slots ::
  "slab_pick \<Rightarrow> (nat \<Rightarrow> bool) \<Rightarrow> (nat \<Rightarrow> int) \<Rightarrow> addr option \<Rightarrow> nat \<Rightarrow> nat
    \<Rightarrow> 'z nstate_scheme \<Rightarrow> 'z nstate_scheme option" where
  "fill_slots pick oks fds arr c num s =
     (if c < num then
        do {
          (n, s) \<leftarrow> ngx_rpc_notify_create pick (oks c) (fds c) s;
          a \<leftarrow> arr;
          s \<leftarrow> store_slot a c n s;
          fill_slots pick oks fds arr (Suc c) num s
        }
      else Some s)"
  by pat_completeness auto
termination
  by (relation "measure (\<lambda>(pick, oks, fds, arr, c, num, s). num - c)") auto

definition ngx_rpc_queue_create ::
  "slab_pick \<Rightarrow> bool \<Rightarrow> (nat \<Rightarrow> bool) \<Rightarrow> (nat \<Rightarrow> int) \<Rightarrow> int
    \<Rightarrow> 'z rstate_scheme \<Rightarrow> (addr option \<times> 'z rstate_scheme) option" where
  "ngx_rpc_queue_create pick lock_ok oks fds num s =
     (case ngx_slab_alloc pick Queue_t s of
        (None, s) \<Rightarrow> Some (None, s)
      | (Some q, s) \<Rightarrow>
          do {
            s \<leftarrow> Some (s\<lparr>queues := (queues s)(q \<mapsto> \<lparr>notify_slot = None, notify_num = num\<rparr>)\<rparr>);
            (if \<not> lock_ok then do { s \<leftarrow> ngx_slab_free q s; Some (None, s) }
             else do {
               s \<leftarrow> ngx_queue_init (QueueIdles q) s;
               (arr, s) \<leftarrow> Some (ngx_slab_alloc pick (Notify_slots num) s);
               s \<leftarrow> Some (s\<lparr>queues := (queues s)(q \<mapsto> \<lparr>notify_slot = arr, notify_num = num\<rparr>)\<rparr>);
               s \<leftarrow> Some (case arr of
                        None \<Rightarrow> s
                      | Some a \<Rightarrow> s\<lparr>notify_slots := (notify_slots s)(a \<mapsto> replicate (nat num) None)\<rparr>);
               s \<leftarrow> fill_slots pick oks fds arr 0 (nat num) s;
               Some (Some q, s)
             })
          })"

function free_slots :: "addr option \<Rightarrow> nat \<Rightarrow> nat \<Rightarrow> 'z nstate_scheme \<Rightarrow> 'z nstate_scheme option" where
  "free_slots arr c num s =
     (if c < num then
        do {
          a \<leftarrow> arr;
          xs \<leftarrow> load s (notify_slots s) a;
          n \<leftarrow> (if c < length xs then xs ! c else None);
          s \<leftarrow> ngx_rpc_notify_free n s;
          free_slots arr (Suc c) num s
        }
      else Some s)"
  by pat_completeness auto
termination
  by (relation "measure (\<lambda>(arr, c, num, s). num - c)") auto

definition ngx_rpc_queue_destory :: "addr \<Rightarrow> 'z rstate_scheme \<Rightarrow> 'z rstate_scheme option" where
  "ngx_rpc_queue_destory q s =
     do {
       qu \<leftarrow> load s (queues s) q;
       s \<leftarrow> free_slots (notify_slot qu) 0 (nat (notify_num qu)) s;
       a \<leftarrow> notify_slot qu;
       s \<leftarrow> ngx_slab_free a s;
       ngx_slab_free q s
     }"

declare fill_slots.simps [simp del] free_slots.simps [simp del]

text \<open>The region of \<open>ngx_rpc_queue_push_and_notify\<close> under the lock.\<close>

definition take_idle :: "addr \<Rightarrow> 'z qstate_scheme \<Rightarrow> (qaddr option \<times> 'z qstate_scheme) option" where
  "take_idle q s =
     do {
       e \<leftarrow> ngx_queue_empty (QueueIdles q) s;
       (if e then Some (None, s)
        else do {
          node \<leftarrow> get_next (QueueIdles q) s;
          nn \<leftarrow> get_next node s;
          s \<leftarrow> set_next (QueueIdles q) nn s;
          nn \<leftarrow> get_next node s;
          s \<leftarrow> set_prev nn (QueueIdles q) s;
          Some (Some node, s)
        })
     }"

definition ngx_rpc_queue_push_and_notify ::
  "addr \<Rightarrow> addr \<Rightarrow> 'z rstate_scheme \<Rightarrow> (int \<times> 'z rstate_scheme) option" where
  "ngx_rpc_queue_push_and_notify q t s =
     do {
       qu \<leftarrow> load s (queues s) q;
       (node, s) \<leftarrow> take_idle q s;
       (case node of
          None \<Rightarrow> Some (NGX_ERROR, s)
        | Some node \<Rightarrow>
            do {
              n \<leftarrow> data_notify_idles node;
              tk \<leftarrow> load s (tasks s) t;
              s \<leftarrow> Some (s\<lparr>tasks := (tasks s)(t \<mapsto> tk\<lparr>proc_notify := Some n\<rparr>)\<rparr>);
              ngx_rpc_notify_push_task n (TaskNode t) s
            })
     }"

definition ngx_rpc_queue_add_current_consumer ::
  "int \<Rightarrow> int \<Rightarrow> nat option \<Rightarrow> bool \<Rightarrow> addr \<Rightarrow> notify_ctx \<Rightarrow> 'z rstate_scheme
    \<Rightarrow> (addr option \<times> 'z rstate_scheme) option" where
  "ngx_rpc_queue_add_current_consumer pslot lastp conn add_ok q ctx s =
     do {
       qu \<leftarrow> load s (queues s) q;
       (if pslot < 0 \<or> pslot > lastp then Some (None, s)
        else do {
          arr \<leftarrow> notify_slot qu;
          ngx_rpc_notify_register pslot lastp conn add_ok arr ctx s
        })
     }"

definition ngx_rpc_queue_add_current_producer ::
  "int \<Rightarrow> int \<Rightarrow> nat option \<Rightarrow> bool \<Rightarrow> addr \<Rightarrow> notify_ctx \<Rightarrow> 'z rstate_scheme
    \<Rightarrow> (addr option \<times> 'z rstate_scheme) option" where
  "ngx_rpc_queue_add_current_producer pslot lastp conn add_ok q ctx s =
     do {
       qu \<leftarrow> load s (queues s) q;
       (if pslot < 0 \<or> pslot > lastp then Some (None, s)
        else do {
          arr \<leftarrow> notify_slot qu;
          ngx_rpc_notify_register pslot lastp conn add_ok arr ctx s
        })
     }"

section \<open>The idle list\<close>

definition idles :: "'z qstate_scheme \<Rightarrow> addr \<Rightarrow> addr list \<Rightarrow> bool" where
  "idles s q ns \<longleftrightarrow> ring s (QueueIdles q) (map NotifyIdles ns)"

lemma take_idle_eq:
  assumes "ring s (QueueIdles q) (x # xs)"
  shows "take_idle q s = Some (Some x,
     s\<lparr>qnext := (qnext s)(QueueIdles q \<mapsto> qfirst (QueueIdles q) xs),
       qprev := (qprev s)(qfirst (QueueIdles q) xs \<mapsto> QueueIdles q)\<rparr>)"
proof -
  have "ngx_queue_empty (QueueIdles q) s = Some False"
    using ring_empty [OF assms] by simp
  moreover have "get_next (QueueIdles q) s = Some x" "get_next x s = Some (qfirst (QueueIdles q) xs)"
    using ring_remove_head(1,2) [OF assms refl] by auto
  moreover have "node_live s (QueueIdles q)" "node_live s (qfirst (QueueIdles q) xs)"
    using ring_liveD [OF assms] qfirst_in [of "QueueIdles q" xs] by auto
  moreover have "x \<noteq> QueueIdles q" using ring_distinct [OF assms] by auto
  ultimately show ?thesis
    by (auto simp: take_idle_def link_defs split: if_splits)
qed

lemma take_idle_none: "ring s (QueueIdles q) [] \<Longrightarrow> take_idle q s = Some (None, s)"
  by (simp add: take_idle_def ring_empty)

lemma take_idle_ok:
  assumes "idles s q (n # ns)"
  shows "\<exists>s'. take_idle q s = Some (Some (NotifyIdles n), s') \<and> idles s' q ns
     \<and> s' = s\<lparr>qnext := qnext s', qprev := qprev s'\<rparr>
     \<and> (\<forall>p ys. ring s p ys \<longrightarrow> set (p # ys) \<inter> set (QueueIdles q # map NotifyIdles ns) = {} \<longrightarrow> ring s' p ys)"
proof -
  have r: "ring s (QueueIdles q) (NotifyIdles n # map NotifyIdles ns)"
    using assms by (simp add: idles_def)
  note rem = ring_remove_head [OF r refl]
  show ?thesis
    using rem(3,4) by (simp add: take_idle_eq [OF r] idles_def)
qed

text \<open>
  \<open>idle_same s s'\<close>: the links of the idle lists are as they were, and what was live still is. Nothing that
  works on pending lists touches them, whether the idle list is well formed or not.
\<close>

fun idle_node :: "qaddr \<Rightarrow> bool" where
  "idle_node (QueueIdles q) = True"
| "idle_node (NotifyIdles n) = True"
| "idle_node _ = False"

definition idle_same :: "'z qstate_scheme \<Rightarrow> 'z qstate_scheme \<Rightarrow> bool" where
  "idle_same s s' \<longleftrightarrow> (\<forall>x. idle_node x \<longrightarrow> qnext s' x = qnext s x \<and> qprev s' x = qprev s x)
     \<and> (\<forall>a. live s a \<longrightarrow> live s' a)"

lemma idle_same_trans: "idle_same s s1 \<Longrightarrow> idle_same s1 s2 \<Longrightarrow> idle_same s s2"
  by (simp add: idle_same_def)

lemma idle_same_links: "qnext s' = qnext s \<Longrightarrow> qprev s' = qprev s \<Longrightarrow> chunks s' = chunks s \<Longrightarrow> idle_same s s'"
  by (simp add: idle_same_def live_def)

lemma idle_same_live: "idle_same s s' \<Longrightarrow> live s a \<Longrightarrow> live s' a"
  by (simp add: idle_same_def)

lemma idle_same_idles:
  assumes "idle_same s s'" and "idles s q ns"
  shows "idles s' q ns"
proof -
  have r: "mring (qnext s) (qprev s) (QueueIdles q) (map NotifyIdles ns)"
    "\<And>x. x \<in> set (QueueIdles q # map NotifyIdles ns) \<Longrightarrow> node_live s x"
    using assms(2) by (auto simp: idles_def ring_iff)
  have "mring (qnext s') (qprev s') (QueueIdles q) (map NotifyIdles ns)"
    by (rule mring_frame [OF r(1)]) (use assms(1) in \<open>auto simp: idle_same_def\<close>)
  then show ?thesis using r(2) assms(1) by (auto simp: idles_def ring_iff node_live_def idle_same_def)
qed

lemma push_idle_same:
  assumes "pending s n (map TaskNode ts)" and "live s t" "t \<notin> set ts"
    and "ngx_rpc_notify_push_task n (TaskNode t) s = Some (r, s')"
  shows "idle_same s s'"
proof -
  have x: "node_live s (TaskNode t)" "TaskNode t \<notin> set (NotifyHead n # map TaskNode ts)"
    using assms(2,3) by (auto simp: node_live_def)
  obtain nt where nt: "load s (notifies s) n = Some nt" using pending_load [OF assms(1)] by blast
  have l: "qlast (NotifyHead n) (map TaskNode ts) \<in> set (NotifyHead n # map TaskNode ts)" by (rule qlast_in)
  have "ring s (NotifyHead n) (map TaskNode ts)" using assms(1) by (simp add: pending_def)
  from link_tail_eq [OF this x] show ?thesis
    using assms(4) nt l by (auto simp: push_task_code idle_same_def load_def live_def split: if_splits)
qed

lemma pop_idle_same:
  assumes "pending s n (x # xs)" and "\<forall>y \<in> set xs. \<not> idle_node y" and "pending_pop n s = Some (r, s')"
  shows "idle_same s s'"
proof -
  have "ring s (NotifyHead n) (x # xs)" using assms(1) by (simp add: pending_def)
  moreover have "\<not> idle_node (qfirst (NotifyHead n) xs)" using assms(2) qfirst_in [of "NotifyHead n" xs] by auto
  ultimately show ?thesis
    using assms(3) by (auto simp: pending_pop_def pop_task_eq idle_same_def)
qed

section \<open>Handing a task to an idle processor\<close>

lemma push_and_notify_none:
  assumes "load s (queues s) q = Some qu" and "idles s q []"
  shows "ngx_rpc_queue_push_and_notify q t s = Some (NGX_ERROR, s)"
  using assms by (simp add: ngx_rpc_queue_push_and_notify_def idles_def take_idle_none)

text \<open>
  The task goes to the end of the list of the processor that became idle last; its
  \<open>proc_notify\<close> names that processor, and the processor leaves the idle list.
\<close>

lemma push_and_notify_ok:
  assumes q: "load s (queues s) q = Some qu" and i: "idles s q (n # ns)"
    and p: "pending s n xs" and t: "load s (tasks s) t = Some tk" "TaskNode t \<notin> set xs"
    and nt: "notifies s n = Some nt"
    and dj: "set (NotifyHead n # xs) \<inter> set (QueueIdles q # map NotifyIdles (n # ns)) = {}"
  shows "\<exists>s'. ngx_rpc_queue_push_and_notify q t s = Some (NGX_OK, s') \<and> idles s' q ns
     \<and> pending s' n (xs @ [TaskNode t]) \<and> tasks s' = (tasks s)(t \<mapsto> tk\<lparr>proc_notify := Some n\<rparr>)
     \<and> chunks s' = chunks s \<and> notifies s' = notifies s \<and> queues s' = queues s
     \<and> efds s' = efds (eventfd_write (event_fd nt) 1 s)
     \<and> (\<forall>p ys. ring s p ys \<longrightarrow> set (p # ys) \<inter>
          (set (QueueIdles q # map NotifyIdles ns) \<union> set (TaskNode t # NotifyHead n # xs)) = {}
          \<longrightarrow> ring s' p ys)"
proof -
  obtain s1 where s1: "take_idle q s = Some (Some (NotifyIdles n), s1)" "idles s1 q ns"
    "s1 = s\<lparr>qnext := qnext s1, qprev := qprev s1\<rparr>"
    "\<And>p ys. ring s p ys \<Longrightarrow> set (p # ys) \<inter> set (QueueIdles q # map NotifyIdles ns) = {} \<Longrightarrow> ring s1 p ys"
    using take_idle_ok [OF i] by blast
  have same: "chunks s1 = chunks s" "tasks s1 = tasks s" "notifies s1 = notifies s"
    "queues s1 = queues s" "efds s1 = efds s"
    using arg_cong [where f = chunks, OF s1(3)] arg_cong [where f = tasks, OF s1(3)]
      arg_cong [where f = notifies, OF s1(3)] arg_cong [where f = queues, OF s1(3)]
      arg_cong [where f = efds, OF s1(3)] by simp_all
  let ?s2 = "s1\<lparr>tasks := (tasks s1)(t \<mapsto> tk\<lparr>proc_notify := Some n\<rparr>)\<rparr>"
  have "ring s1 (NotifyHead n) xs"
    by (rule s1(4)) (use p dj in \<open>auto simp: pending_def\<close>)
  then have p2: "pending ?s2 n xs"
    using nt same by (auto simp: pending_def intro: ring_same_links)
  have x: "node_live ?s2 (TaskNode t)" "TaskNode t \<notin> set (NotifyHead n # xs)"
    using t same by (auto simp: node_live_def live_def load_Some_iff)
  have nt2: "notifies ?s2 n = Some nt" using nt same by simp
  obtain s3 s' where s': "notify_link_tail n (TaskNode t) ?s2 = Some s3"
    "s' = eventfd_write (event_fd nt) 1 s3" "efds s3 = efds ?s2"
    "ngx_rpc_notify_push_task n (TaskNode t) ?s2 = Some (NGX_OK, s')"
    "pending s' n (xs @ [TaskNode t])" "chunks s' = chunks ?s2" "notifies s' = notifies ?s2"
    "\<And>p ys. ring ?s2 p ys \<Longrightarrow> set (p # ys) \<inter> set (TaskNode t # NotifyHead n # xs) = {} \<Longrightarrow> ring s' p ys"
    using push_task_ok [OF p2 x nt2] by auto
  have keep: "tasks s3 = tasks ?s2" "queues s3 = queues ?s2"
    using s'(1) by (auto simp: notify_link_tail_def link_defs fault_simps split: if_splits)
  have ring2: "ring ?s2 p ys" if "ring s1 p ys" for p ys
    using that by (rule ring_same_links) simp_all
  have "load s1 (tasks s1) t = Some tk"
    using t same by (simp add: load_Some_iff live_def)
  then have "ngx_rpc_queue_push_and_notify q t s = Some (NGX_OK, s')"
    using q s1(1) s'(4) by (simp add: ngx_rpc_queue_push_and_notify_def)
  moreover have "idles s' q ns"
    unfolding idles_def
    by (rule s'(8), rule ring2) (use s1(2) dj in \<open>auto simp: idles_def\<close>)
  moreover have "tasks s' = tasks s3" "queues s' = queues s3"
    "efds s' = efds (eventfd_write (event_fd nt) 1 s)"
    using s'(2,3) same by (simp_all add: eventfd_write_def split: option.splits)
  ultimately show ?thesis
    using s'(5-8) keep same s1(4) ring2
    by (intro exI [of _ s']) (auto simp: Int_Un_distrib)
qed

section \<open>Creating and destroying a queue\<close>

lemma create_total:
  assumes "spare pick (chunks s) (Suc k)"
  obtains n s' where "ngx_rpc_notify_create pick True fd s = Some (Some n, s')"
    and "spare pick (chunks s') k"
proof -
  obtain n where n: "ngx_slab_alloc pick Notify_t s = (Some n, s\<lparr>chunks := (chunks s)(n \<mapsto> Notify_t)\<rparr>)"
    "spare pick ((chunks s)(n \<mapsto> Notify_t)) k"
    using assms by (rule spare_alloc)
  then obtain s' where c: "ngx_rpc_notify_create pick True fd s = Some (Some n, s')"
    by (simp add: ngx_rpc_notify_create_def eventfd_open_def ngx_queue_init_def link_defs
        node_live_def live_def)
  have "chunks s' = (chunks s)(n \<mapsto> Notify_t)" using create_ok [OF c] by auto
  then show thesis using that c n(2) by simp
qed

text \<open>A notify object as its creation leaves it.\<close>

definition fresh_notify :: "'z nstate_scheme \<Rightarrow> addr \<Rightarrow> int \<Rightarrow> bool" where
  "fresh_notify s n fd \<longleftrightarrow> chunks s n = Some Notify_t \<and> pending s n [] \<and> ring s (NotifyIdles n) []
     \<and> map_option event_fd (notifies s n) = Some fd"

lemma fresh_notify_frame:
  assumes "fresh_notify s n fd" and "chunks s' n = chunks s n" and "notifies s' n = notifies s n"
    and "\<And>q ys. ring s q ys \<Longrightarrow> ring s' q ys"
  shows "fresh_notify s' n fd"
  using assms by (auto simp: fresh_notify_def pending_def)

text \<open>
  The loop fills the array with distinct new notify objects and changes nothing else that
  was live.
\<close>

lemma fill_slots_ok:
  "\<lbrakk> notify_slots s a = Some (xs @ replicate k None); length xs = c; num = c + k;
     live s a; spare pick (chunks s) (k + m); \<And>i. oks i \<rbrakk> \<Longrightarrow>
   \<exists>s' ns. fill_slots pick oks fds (Some a) c num s = Some s' \<and> length ns = k \<and> distinct ns
     \<and> notify_slots s' = (notify_slots s)(a \<mapsto> xs @ map Some ns)
     \<and> (\<forall>n \<in> set ns. \<not> live s n)
     \<and> (\<forall>i < k. fresh_notify s' (ns ! i) (fds (c + i)))
     \<and> (\<forall>m. m \<notin> set ns \<longrightarrow> chunks s' m = chunks s m \<and> notifies s' m = notifies s m)
     \<and> (\<forall>q ys. ring s q ys \<longrightarrow> ring s' q ys)
     \<and> (\<forall>i < k. 0 \<le> fds (c + i) \<longrightarrow> efds s' (fds (c + i)) = Some 0)
     \<and> (\<forall>fd. fd \<notin> fds ` {c..<num} \<longrightarrow> efds s' fd = efds s fd)
     \<and> nstate.more s' = nstate.more s \<and> spare pick (chunks s') m"
proof (induction k arbitrary: s xs c)
  case 0
  then show ?case by (subst fill_slots.simps) auto
next
  case (Suc k)
  obtain n s1 where cr: "ngx_rpc_notify_create pick True (fds c) s = Some (Some n, s1)"
    "spare pick (chunks s1) (k + m)"
    using create_total [of pick s "k + m"] Suc.prems(5) by auto
  from create_ok [OF cr(1)] have s1: "\<not> live s n" "chunks s1 = (chunks s)(n \<mapsto> Notify_t)"
    "pending s1 n []" "ring s1 (NotifyIdles n) []" "map_option event_fd (notifies s1 n) = Some (fds c)"
    "\<And>m. m \<noteq> n \<Longrightarrow> notifies s1 m = notifies s m"
    "notify_slots s1 = notify_slots s" "nstate.more s1 = nstate.more s"
    "efds s1 = (if fds c < 0 then efds s else (efds s)(fds c \<mapsto> 0))"
    "\<And>q ys. ring s q ys \<Longrightarrow> ring s1 q ys"
    by auto
  have an: "a \<noteq> n" and la: "live s1 a" using Suc.prems(4) s1(1,2) by (auto simp: live_def)
  let ?s2 = "s1\<lparr>notify_slots := (notify_slots s)(a \<mapsto> (xs @ [Some n]) @ replicate k None)\<rparr>"
  have st: "store_slot a c (Some n) s1 = Some ?s2"
    using Suc.prems(1,2) la s1(7) by (simp add: store_slot_def load_def list_update_append)
  have step: "fill_slots pick oks fds (Some a) c num s = fill_slots pick oks fds (Some a) (Suc c) num ?s2"
    using Suc.prems(3,6) cr(1) st by (subst fill_slots.simps) simp
  have "\<exists>s' ns. fill_slots pick oks fds (Some a) (Suc c) num ?s2 = Some s' \<and> length ns = k \<and> distinct ns
     \<and> notify_slots s' = (notify_slots ?s2)(a \<mapsto> (xs @ [Some n]) @ map Some ns)
     \<and> (\<forall>n \<in> set ns. \<not> live ?s2 n)
     \<and> (\<forall>i < k. fresh_notify s' (ns ! i) (fds (Suc c + i)))
     \<and> (\<forall>m. m \<notin> set ns \<longrightarrow> chunks s' m = chunks ?s2 m \<and> notifies s' m = notifies ?s2 m)
     \<and> (\<forall>q ys. ring ?s2 q ys \<longrightarrow> ring s' q ys)
     \<and> (\<forall>i < k. 0 \<le> fds (Suc c + i) \<longrightarrow> efds s' (fds (Suc c + i)) = Some 0)
     \<and> (\<forall>fd. fd \<notin> fds ` {Suc c..<num} \<longrightarrow> efds s' fd = efds ?s2 fd)
     \<and> nstate.more s' = nstate.more ?s2 \<and> spare pick (chunks s') m"
    by (rule Suc.IH) (use Suc.prems la cr(2) in auto)
  then obtain s' ns where s': "fill_slots pick oks fds (Some a) (Suc c) num ?s2 = Some s'"
    "length ns = k" "distinct ns"
    "notify_slots s' = (notify_slots s)(a \<mapsto> xs @ map Some (n # ns))"
    "\<forall>n \<in> set ns. \<not> live s1 n" "\<forall>i < k. fresh_notify s' (ns ! i) (fds (Suc c + i))"
    "\<And>m. m \<notin> set ns \<Longrightarrow> chunks s' m = chunks s1 m \<and> notifies s' m = notifies s1 m"
    "\<And>q ys. ring s1 q ys \<Longrightarrow> ring s' q ys"
    "\<forall>i < k. 0 \<le> fds (Suc c + i) \<longrightarrow> efds s' (fds (Suc c + i)) = Some 0"
    "\<And>fd. fd \<notin> fds ` {Suc c..<num} \<Longrightarrow> efds s' fd = efds s1 fd"
    "nstate.more s' = nstate.more s1" "spare pick (chunks s') m"
    by auto
  have n_new: "n \<notin> set ns" using s'(5) s1(2) by (auto simp: live_def)
  have nl: "\<forall>m \<in> set (n # ns). \<not> live s m"
    using s'(5) s1(1,2) by (auto simp: live_def split: if_splits)
  have fresh: "\<forall>i < Suc k. fresh_notify s' ((n # ns) ! i) (fds (c + i))"
  proof (intro allI impI)
    fix i
    assume i: "i < Suc k"
    have "fresh_notify s1 n (fds c)" using s1 by (simp add: fresh_notify_def)
    then have "fresh_notify s' n (fds c)"
      by (rule fresh_notify_frame) (use s'(7) [OF n_new] s'(8) in auto)
    then show "fresh_notify s' ((n # ns) ! i) (fds (c + i))"
      using i s'(6) by (cases i) auto
  qed
  have e0: "0 \<le> fds c \<longrightarrow> efds s' (fds c) = Some 0"
  proof (cases "fds c \<in> fds ` {Suc c..<num}")
    case True
    then obtain j where j: "j \<in> {Suc c..<num}" "fds c = fds j" by auto
    then have "j - Suc c < k" "Suc c + (j - Suc c) = j" using Suc.prems(3) by auto
    then show ?thesis using s'(9) j(2) by force
  next
    case False
    then show ?thesis using s'(10) s1(9) by simp
  qed
  have efd: "\<forall>i < Suc k. 0 \<le> fds (c + i) \<longrightarrow> efds s' (fds (c + i)) = Some 0"
  proof (intro allI impI)
    fix i
    assume "i < Suc k" "0 \<le> fds (c + i)"
    then show "efds s' (fds (c + i)) = Some 0" using e0 s'(9) by (cases i) auto
  qed
  have efo: "efds s' fd = efds s fd" if "fd \<notin> fds ` {c..<num}" for fd
  proof -
    have "fd \<notin> fds ` {Suc c..<num}" "fd \<noteq> fds c" using that Suc.prems(3) by auto
    then show ?thesis using s'(10) s1(9) by simp
  qed
  show ?case
    using step s'(1-4,7,8,11,12) n_new nl fresh efd efo s1(2,6,8,10)
    by (intro exI [of _ s'] exI [of _ "n # ns"]) auto
qed

text \<open>
  A complete queue object: the structure, its slot array and one notify object per slot are
  distinct live chunks.
\<close>

definition queue_ok :: "'z rstate_scheme \<Rightarrow> addr \<Rightarrow> addr \<Rightarrow> addr list \<Rightarrow> bool" where
  "queue_ok s q a ns \<longleftrightarrow>
     chunks s q = Some Queue_t \<and> queues s q = Some \<lparr>notify_slot = Some a, notify_num = int (length ns)\<rparr>
     \<and> chunks s a = Some (Notify_slots (int (length ns))) \<and> notify_slots s a = Some (map Some ns)
     \<and> distinct ns \<and> (\<forall>n \<in> set ns. chunks s n = Some Notify_t)"

lemma more_eqD:
  fixes s t :: "'z rstate_scheme"
  assumes "nstate.more s = nstate.more t"
  shows "tasks s = tasks t" "queues s = queues t" "rstate.more s = rstate.more t"
    "bufs s = bufs t" "data s = data t" "chain_buf s = chain_buf t" "chain_next s = chain_next t"
  using assms by (cases s, cases t, simp)+

text \<open>The tasks and the memory of the buffer chains.\<close>

definition stored where
  "stored s = (tasks s, bufs s, data s, chain_buf s, chain_next s)"

lemma queue_create_ok:
  assumes "spare pick (chunks s) (num + 2 + m)" and "\<And>i. oks i"
  shows "\<exists>q a ns s'. ngx_rpc_queue_create pick True oks fds (int num) s = Some (Some q, s')
     \<and> queue_ok s' q a ns \<and> length ns = num \<and> idles s' q []
     \<and> (\<forall>i < num. fresh_notify s' (ns ! i) (fds i))
     \<and> (\<forall>i < num. 0 \<le> fds i \<longrightarrow> efds s' (fds i) = Some 0)
     \<and> (\<forall>m \<in> {q, a} \<union> set ns. \<not> live s m)
     \<and> (\<forall>m. m \<notin> {q, a} \<union> set ns \<longrightarrow> chunks s' m = chunks s m \<and> notifies s' m = notifies s m)
     \<and> stored s' = stored s \<and> rstate.more s' = rstate.more s \<and> spare pick (chunks s') m
     \<and> (\<forall>p ys. ring s p ys \<longrightarrow> ring s' p ys)"
proof -
  have "spare pick (chunks s) (Suc (Suc (num + m)))" using assms(1) by simp
  then obtain q where q: "ngx_slab_alloc pick Queue_t s = (Some q, s\<lparr>chunks := (chunks s)(q \<mapsto> Queue_t)\<rparr>)"
    "\<not> live s q" "spare pick ((chunks s)(q \<mapsto> Queue_t)) (Suc (num + m))"
    by (rule spare_alloc)
  let ?Q = "\<lambda>arr. (queues s)(q \<mapsto> \<lparr>notify_slot = arr, notify_num = int num\<rparr>)"
  let ?s1 = "s\<lparr>chunks := (chunks s)(q \<mapsto> Queue_t), queues := ?Q None,
     qprev := (qprev s)(QueueIdles q \<mapsto> QueueIdles q), qnext := (qnext s)(QueueIdles q \<mapsto> QueueIdles q)\<rparr>"
  have "spare pick (chunks ?s1) (Suc (num + m))" using q(3) by simp
  then obtain a where a: "ngx_slab_alloc pick (Notify_slots (int num)) ?s1 =
      (Some a, ?s1\<lparr>chunks := (chunks ?s1)(a \<mapsto> Notify_slots (int num))\<rparr>)"
    "\<not> live ?s1 a" "spare pick ((chunks ?s1)(a \<mapsto> Notify_slots (int num))) (num + m)"
    by (rule spare_alloc)
  have aq: "a \<noteq> q" "\<not> live s a" using a(2) by (auto simp: live_def split: if_splits)
  let ?s2 = "?s1\<lparr>chunks := (chunks s)(q \<mapsto> Queue_t, a \<mapsto> Notify_slots (int num)), queues := ?Q (Some a),
     notify_slots := (notify_slots s)(a \<mapsto> replicate num None)\<rparr>"
  have "\<exists>s' ns. fill_slots pick oks fds (Some a) 0 num ?s2 = Some s' \<and> length ns = num \<and> distinct ns
     \<and> notify_slots s' = (notify_slots ?s2)(a \<mapsto> [] @ map Some ns)
     \<and> (\<forall>n \<in> set ns. \<not> live ?s2 n)
     \<and> (\<forall>i < num. fresh_notify s' (ns ! i) (fds (0 + i)))
     \<and> (\<forall>m. m \<notin> set ns \<longrightarrow> chunks s' m = chunks ?s2 m \<and> notifies s' m = notifies ?s2 m)
     \<and> (\<forall>q ys. ring ?s2 q ys \<longrightarrow> ring s' q ys)
     \<and> (\<forall>i < num. 0 \<le> fds (0 + i) \<longrightarrow> efds s' (fds (0 + i)) = Some 0)
     \<and> (\<forall>fd. fd \<notin> fds ` {0..<num} \<longrightarrow> efds s' fd = efds ?s2 fd)
     \<and> nstate.more s' = nstate.more ?s2 \<and> spare pick (chunks s') m"
    by (rule fill_slots_ok) (use a(3) assms(2) in \<open>auto simp: live_def\<close>)
  then obtain s' ns where s': "fill_slots pick oks fds (Some a) 0 num ?s2 = Some s'"
    "length ns = num" "distinct ns" "notify_slots s' a = Some (map Some ns)"
    "\<And>n. n \<in> set ns \<Longrightarrow> \<not> live ?s2 n" "\<forall>i < num. fresh_notify s' (ns ! i) (fds i)"
    "\<And>m. m \<notin> set ns \<Longrightarrow> chunks s' m = chunks ?s2 m \<and> notifies s' m = notifies ?s2 m"
    "\<And>p ys. ring ?s2 p ys \<Longrightarrow> ring s' p ys"
    "\<forall>i < num. 0 \<le> fds i \<longrightarrow> efds s' (fds i) = Some 0"
    "nstate.more s' = nstate.more ?s2" "spare pick (chunks s') m"
    by auto
  have new: "q \<notin> set ns" "a \<notin> set ns" "\<forall>n \<in> set ns. \<not> live s n"
    using s'(5) by (fastforce simp: live_def split: if_splits)+
  have more: "stored s' = stored s" "queues s' = ?Q (Some a)" "rstate.more s' = rstate.more s"
    using more_eqD [OF s'(10)] by (simp_all add: stored_def)
  have "chunks s' n = Some Notify_t" if "n \<in> set ns" for n
    using that s'(2,6) by (auto simp: in_set_conv_nth fresh_notify_def)
  then have "queue_ok s' q a ns"
    using s'(2-4,7) new aq(1) more by (simp add: queue_ok_def)
  moreover have "ring s' p ys" if r: "ring s p ys" for p ys
  proof (rule s'(8))
    have own: "qowner b \<noteq> q" if "b \<in> set (p # ys)" for b
      by (rule ring_fresh_owner [OF r q(2) that])
    have "mring (qnext ?s2) (qprev ?s2) p ys"
    proof (rule mring_frame [of "qnext s" "qprev s"])
      show "mring (qnext s) (qprev s) p ys" using r by (simp add: ring_iff)
      show "qnext ?s2 b = qnext s b \<and> qprev ?s2 b = qprev s b" if "b \<in> set (p # ys)" for b
        using own [OF that] by auto
    qed
    then show "ring ?s2 p ys" using r by (auto simp: ring_iff node_live_def live_def)
  qed
  moreover have "ring ?s2 (QueueIdles q) []"
    by (simp add: ring_def mring_def node_live_def live_def)
  then have "idles s' q []" using s'(8) by (simp add: idles_def)
  moreover have "ngx_rpc_queue_create pick True oks fds (int num) s = Some (Some q, s')"
    using q(1) a(1) s'(1)
    by (simp add: ngx_rpc_queue_create_def ngx_queue_init_def link_defs node_live_def live_def)
  ultimately show ?thesis
    using s'(2,6,7,9,11) new q(2) aq more(1,3)
    by (intro exI [of _ q] exI [of _ a] exI [of _ ns] exI [of _ s']) auto
qed

lemmas queue_create_exact = queue_create_ok [where m = 0, unfolded add_0_right]

lemma free_slots_ok:
  "\<lbrakk> notify_slots s a = Some (map Some ns); chunks s a = Some (Notify_slots z); distinct ns;
     \<forall>n \<in> set (drop c ns). chunks s n = Some Notify_t; c \<le> length ns \<rbrakk> \<Longrightarrow>
     free_slots (Some a) c (length ns) s = Some (without (set (drop c ns)) s)"
proof (induction "length ns - c" arbitrary: c s)
  case 0
  then show ?case by (subst free_slots.simps) (simp add: without_empty)
next
  case (Suc k)
  then have c: "c < length ns" by simp
  let ?n = "ns ! c" and ?s = "without {ns ! c} s"
  have d: "drop c ns = ?n # drop (Suc c) ns" using c by (simp add: Cons_nth_drop_Suc)
  have nt: "chunks s ?n = Some Notify_t" and an: "a \<noteq> ?n"
    using Suc.prems(2,4) d by auto
  have "?n \<notin> set (drop (Suc c) ns)" using Suc.prems(3) d by (metis distinct.simps(2) distinct_drop)
  then have "free_slots (Some a) (Suc c) (length ns) ?s = Some (without (set (drop (Suc c) ns)) ?s)"
    using Suc.hyps(2) Suc.prems c an d by (intro Suc.hyps(1)) (auto simp: without_def restrict_map_def)
  then show ?case
    using Suc.prems(1,2) c nt d
    by (subst free_slots.simps)
      (simp add: load_def live_def ngx_rpc_notify_free_def free_without without_without insert_commute)
qed

text \<open>The destructor releases the chunks of the queue object and nothing else.\<close>

lemma queue_destory_eq:
  assumes "queue_ok s q a ns"
  shows "ngx_rpc_queue_destory q s = Some (without ({q, a} \<union> set ns) s)"
proof -
  have "free_slots (Some a) 0 (length ns) s = Some (without (set ns) s)"
    using assms free_slots_ok [of s a ns _ 0] by (simp add: queue_ok_def)
  moreover have "q \<notin> set ns" "a \<notin> set ns" "a \<noteq> q" using assms by (auto simp: queue_ok_def)
  ultimately show ?thesis
    using assms
    by (simp add: ngx_rpc_queue_destory_def queue_ok_def load_def live_def free_without [where k = Queue_t]
        free_without [where k = "Notify_slots (int (length ns))"] without_without insert_commute)
qed

section \<open>The fields a submission writes\<close>

lemma take_idle_shape:
  "take_idle q s = Some (r, s1) \<Longrightarrow> s1 = s\<lparr>qnext := qnext s1, qprev := qprev s1\<rparr>"
  by (auto simp: take_idle_def link_defs fault_simps split: if_splits)

lemma push_task_shape:
  "ngx_rpc_notify_push_task n x s = Some (r, s1) \<Longrightarrow>
     s1 = s\<lparr>qnext := qnext s1, qprev := qprev s1, efds := efds s1\<rparr>"
  by (auto simp: push_task_code notify_link_tail_def link_defs eventfd_write_def
      fault_simps split: if_splits)

lemma push_and_notify_shape:
  assumes "ngx_rpc_queue_push_and_notify q t s = Some (r, s1)"
  shows "\<exists>m a b e. s1 = s\<lparr>tasks := m, qnext := a, qprev := b, efds := e\<rparr>"
proof -
  obtain x s0 where s0: "take_idle q s = Some (x, s0)"
    "s1 = s0 \<or> (\<exists>n m. ngx_rpc_notify_push_task n (TaskNode t) (s0\<lparr>tasks := m\<rparr>) = Some (r, s1))"
    using assms
    by (auto simp: ngx_rpc_queue_push_and_notify_def fault_simps split: option.splits) blast
  have links: "s0 = s\<lparr>qnext := qnext s0, qprev := qprev s0\<rparr>" by (rule take_idle_shape [OF s0(1)])
  show ?thesis
  proof (cases "s1 = s0")
    case True
    have "s\<lparr>tasks := tasks s, qnext := qnext s0, qprev := qprev s0, efds := efds s\<rparr>
        = s\<lparr>qnext := qnext s0, qprev := qprev s0\<rparr>" by simp
    then have "s0 = s\<lparr>tasks := tasks s, qnext := qnext s0, qprev := qprev s0, efds := efds s\<rparr>"
      using links by metis
    then show ?thesis using True by blast
  next
    case False
    then obtain n m where "ngx_rpc_notify_push_task n (TaskNode t) (s0\<lparr>tasks := m\<rparr>) = Some (r, s1)"
      using s0(2) by blast
    from push_task_shape [OF this] have "s1 = (s\<lparr>qnext := qnext s0, qprev := qprev s0\<rparr>)\<lparr>
        tasks := m, qnext := qnext s1, qprev := qprev s1, efds := efds s1\<rparr>"
      using links by metis
    then have "s1 = s\<lparr>tasks := m, qnext := qnext s1, qprev := qprev s1, efds := efds s1\<rparr>"
      by simp
    then show ?thesis by blast
  qed
qed

end
