(* ===== verification/Rpc_Process.thy ===== *)
theory Rpc_Process
  imports Rpc_Queue
begin

text \<open>
  The processor module of ngx_rpc_module/ngx_rpc_process.h and ngx_rpc_process.c: its
  configuration, the shared-memory zone, the start and stop of the master and of a processor,
  and the cycle in which a processor runs its pending tasks and becomes idle.

  A configuration is private memory of a process, so every process has its own address for
  it. Results of nginx itself (an allocation from a pool, the zone that
  \<open>ngx_shared_memory_add\<close> returns, the parsed size, the process slot) are arguments.
\<close>

section \<open>State\<close>

record ngx_proc_rpc_conf =
  pc_shpool :: "addr option"
  pc_queue :: "addr option"
  pc_notify :: "addr option"
  shm_size :: "64 word"

text \<open>\<open>NGX_CONF_UNSET_UINT\<close>\<close>

definition conf_unset_uint :: "64 word" where
  "conf_unset_uint = - 1"

text \<open>The module stores the same \<open>init\<close> function and its configuration in either zone.\<close>

datatype zone_fn = Proc_Rpc_Init_Zone | Http_Rpc_Init_Zone

record shm_zone =
  z_init :: "zone_fn option"
  z_data :: "addr option"
  z_addr :: addr

datatype conf_result = Conf_OK | Conf_Error

record pstate = rstate +
  pconfs :: "addr \<rightharpoonup> ngx_proc_rpc_conf"
  zones :: "nat \<rightharpoonup> shm_zone"
  pool_data :: "addr \<rightharpoonup> addr"

section \<open>Configuration and the shared zone\<close>

definition ngx_proc_rpc_init_zone ::
  "nat \<Rightarrow> addr option \<Rightarrow> 'z pstate_scheme \<Rightarrow> (int \<times> 'z pstate_scheme) option" where
  "ngx_proc_rpc_init_zone z old s =
     do {
       zn \<leftarrow> zones s z;
       c \<leftarrow> z_data zn;
       ctx \<leftarrow> pconfs s c;
       (case old of
          Some o' \<Rightarrow>
            do {
              octx \<leftarrow> pconfs s o';
              (if shm_size ctx \<noteq> shm_size octx then Some (NGX_ERROR, s)
               else Some (NGX_OK, s\<lparr>pconfs := (pconfs s)(c \<mapsto> ctx\<lparr>pc_shpool := pc_shpool octx\<rparr>)\<rparr>))
            }
        | None \<Rightarrow>
            Some (NGX_OK, s\<lparr>pconfs := (pconfs s)(c \<mapsto> ctx\<lparr>pc_shpool := Some (z_addr zn)\<rparr>),
                            pool_data := (pool_data s)(z_addr zn \<mapsto> c)\<rparr>))
     }"

text \<open>
  \<open>args\<close> is \<open>cf->args\<close>; the error message about an unreadable size prints \<open>value[3]\<close>.
  \<open>zone\<close> is what \<open>ngx_shared_memory_add\<close> returns; it is used without a check.
\<close>

definition ngx_proc_rpc_set_shm_size ::
  "(byte list \<Rightarrow> int) \<Rightarrow> int \<Rightarrow> nat option \<Rightarrow> byte list list \<Rightarrow> addr
    \<Rightarrow> 'z pstate_scheme \<Rightarrow> (conf_result \<times> 'z pstate_scheme) option" where
  "ngx_proc_rpc_set_shm_size parse_size pagesize zone args c s =
     do {
       cf \<leftarrow> pconfs s c;
       arg \<leftarrow> (if 1 < length args then Some (args ! 1) else None);
       (if parse_size arg = NGX_ERROR then
          (if 3 < length args then Some (Conf_Error, s) else None)
        else if parse_size arg < 8 * pagesize then Some (Conf_Error, s)
        else do {
          s \<leftarrow> Some (s\<lparr>pconfs := (pconfs s)(c \<mapsto> cf\<lparr>shm_size := word_of_int (parse_size arg)\<rparr>)\<rparr>);
          z \<leftarrow> zone;
          zn \<leftarrow> zones s z;
          Some (Conf_OK, s\<lparr>zones := (zones s)(z \<mapsto> zn\<lparr>z_init := Some Proc_Rpc_Init_Zone,
                                                z_data := Some c\<rparr>)\<rparr>)
        })
     }"

definition ngx_proc_rpc_set_log :: "'z pstate_scheme \<Rightarrow> (conf_result \<times> 'z pstate_scheme) option" where
  "ngx_proc_rpc_set_log s = Some (Conf_OK, s)"

text \<open>\<open>mem\<close> is the result of \<open>ngx_pcalloc\<close>.\<close>

definition ngx_proc_rpc_create_loc_conf ::
  "addr option \<Rightarrow> 'z pstate_scheme \<Rightarrow> (addr option \<times> 'z pstate_scheme) option" where
  "ngx_proc_rpc_create_loc_conf mem s =
     (case mem of
        None \<Rightarrow> Some (None, s)
      | Some c \<Rightarrow> Some (Some c, s\<lparr>pconfs := (pconfs s)(c \<mapsto>
          \<lparr>pc_shpool = None, pc_queue = None, pc_notify = None, shm_size = conf_unset_uint\<rparr>)\<rparr>))"

definition ngx_proc_rpc_merge_loc_conf ::
  "nat option \<Rightarrow> addr \<Rightarrow> 'z pstate_scheme \<Rightarrow> (conf_result \<times> 'z pstate_scheme) option" where
  "ngx_proc_rpc_merge_loc_conf zone c s =
     do {
       cf \<leftarrow> pconfs s c;
       (if shm_size cf \<noteq> conf_unset_uint then Some (Conf_OK, s)
        else do {
          s \<leftarrow> Some (s\<lparr>pconfs := (pconfs s)(c \<mapsto> cf\<lparr>shm_size := 4096 * 1024 * 256\<rparr>)\<rparr>);
          z \<leftarrow> zone;
          zn \<leftarrow> zones s z;
          Some (Conf_OK, s\<lparr>zones := (zones s)(z \<mapsto> zn\<lparr>z_init := Some Proc_Rpc_Init_Zone,
                                                z_data := Some c\<rparr>)\<rparr>)
        })
     }"

section \<open>Start and stop\<close>

definition master_notify_num :: "int \<Rightarrow> int \<Rightarrow> int list \<Rightarrow> int" where
  "master_notify_num worker_processes ncpu counts =
     fold (\<lambda>k n. c_int (n + k)) counts
       (c_int (if worker_processes \<le> 0 then ncpu else worker_processes))"

definition ngx_proc_rpc_master_init ::
  "slab_pick \<Rightarrow> bool \<Rightarrow> (nat \<Rightarrow> bool) \<Rightarrow> (nat \<Rightarrow> int) \<Rightarrow> int \<Rightarrow> int \<Rightarrow> int list \<Rightarrow> addr option
    \<Rightarrow> 'z pstate_scheme \<Rightarrow> (int \<times> 'z pstate_scheme) option" where
  "ngx_proc_rpc_master_init pick lock_ok oks fds worker_processes ncpu counts conf s =
     (case conf of
        None \<Rightarrow> Some (NGX_OK, s)
      | Some c \<Rightarrow>
          do {
            cf \<leftarrow> pconfs s c;
            shpool \<leftarrow> pc_shpool cf;
            (q, s) \<leftarrow> ngx_rpc_queue_create pick lock_ok oks fds
                       (master_notify_num worker_processes ncpu counts) s;
            Some (NGX_OK, s\<lparr>pconfs := (pconfs s)(c \<mapsto> cf\<lparr>pc_queue := q\<rparr>)\<rparr>)
          })"

definition ngx_proc_rpc_master_exit :: "addr option \<Rightarrow> 'z pstate_scheme \<Rightarrow> 'z pstate_scheme option" where
  "ngx_proc_rpc_master_exit conf s =
     (case conf of
        None \<Rightarrow> Some s
      | Some c \<Rightarrow> do { cf \<leftarrow> pconfs s c; q \<leftarrow> pc_queue cf; ngx_rpc_queue_destory q s })"

text \<open>With no configuration the first message already reads a field of the \<open>NULL\<close> pointer.\<close>

definition ngx_proc_rpc_process_init ::
  "int \<Rightarrow> int \<Rightarrow> nat option \<Rightarrow> bool \<Rightarrow> addr option
    \<Rightarrow> 'z pstate_scheme \<Rightarrow> (int \<times> 'z pstate_scheme) option" where
  "ngx_proc_rpc_process_init pslot lastp conn add_ok conf s =
     do {
       c \<leftarrow> conf;
       cf \<leftarrow> pconfs s c;
       q \<leftarrow> pc_queue cf;
       (r, s) \<leftarrow> ngx_rpc_queue_add_current_consumer pslot lastp conn add_ok q (Proc_Conf c) s;
       s \<leftarrow> Some (s\<lparr>pconfs := (pconfs s)(c \<mapsto> cf\<lparr>pc_notify := r\<rparr>)\<rparr>);
       (case r of
          None \<Rightarrow> Some (NGX_ERROR, s)
        | Some n \<Rightarrow>
            do {
              nt \<leftarrow> load s (notifies s) n;
              Some (NGX_OK, s\<lparr>notifies := (notifies s)(n \<mapsto> nt\<lparr>notify_ctx := Some (Proc_Conf c),
                     read_hanlder := Some Proc_Process_One_Cycle,
                     write_hanlder := Some Proc_Process_One_Cycle\<rparr>)\<rparr>)
            })
     }"

definition ngx_proc_rpc_process_exit :: "addr option \<Rightarrow> 'z pstate_scheme \<Rightarrow> 'z pstate_scheme option" where
  "ngx_proc_rpc_process_exit conf s =
     do {
       c \<leftarrow> conf;
       cf \<leftarrow> pconfs s c;
       n \<leftarrow> pc_notify cf;
       (r, s) \<leftarrow> ngx_rpc_notify_unregister n s;
       Some s
     }"

section \<open>One cycle of a processor\<close>

text \<open>
  \<open>exec f t p s\<close> runs the function \<open>f\<close> of a closure on task \<open>t\<close> and argument \<open>p\<close>. The
  functions are the worker's and the ones the generator writes for the services.
\<close>

type_synonym 'z exec =
  "task_fn \<Rightarrow> addr \<Rightarrow> closure_arg option \<Rightarrow> 'z pstate_scheme \<Rightarrow> 'z pstate_scheme option"

definition cycle_pop ::
  "addr \<Rightarrow> 'z pstate_scheme \<Rightarrow> (qaddr option \<times> 'z pstate_scheme) option" where
  "cycle_pop c s = do { cf \<leftarrow> pconfs s c; n \<leftarrow> pc_notify cf; pending_pop n s }"

definition cycle_body ::
  "'z exec \<Rightarrow> qaddr \<Rightarrow> 'z pstate_scheme \<Rightarrow> 'z pstate_scheme option" where
  "cycle_body exec node s =
     do {
       t \<leftarrow> data_task_node node;
       tk \<leftarrow> load s (tasks s) t;
       f \<leftarrow> handler (closure tk);
       exec f t (p1 (closure tk)) s
     }"

text \<open>The region under the lock: the notify object is linked in after the list head.\<close>

definition put_idle :: "addr \<Rightarrow> addr \<Rightarrow> 'z qstate_scheme \<Rightarrow> 'z qstate_scheme option" where
  "put_idle q n s =
     do {
       p \<leftarrow> get_next (QueueIdles q) s;
       s \<leftarrow> set_next (NotifyIdles n) p s;
       p \<leftarrow> get_next (NotifyIdles n) s;
       s \<leftarrow> set_prev p (NotifyIdles n) s;
       s \<leftarrow> set_prev (NotifyIdles n) (QueueIdles q) s;
       set_next (QueueIdles q) (NotifyIdles n) s
     }"

text \<open>The cycle in its pieces: a turn of the loop takes a task and runs it, and after the loop comes the region.\<close>

datatype cycle_pc = Cycle_Loop "qaddr drain_pc" | Cycle_Idle

primrec cycle_piece :: "'z exec \<Rightarrow> addr \<Rightarrow> (cycle_pc, 'z pstate_scheme) pieces" where
  "cycle_piece exec c (Cycle_Loop pc) = (\<lambda>s.
     do {
       (next, s) \<leftarrow> drain_piece (cycle_pop c) (cycle_body exec) pc s;
       Some (Some (case next of Some pc \<Rightarrow> Cycle_Loop pc | None \<Rightarrow> Cycle_Idle), s)
     })"
| "cycle_piece exec c Cycle_Idle = (\<lambda>s.
     do {
       cf \<leftarrow> pconfs s c;
       q \<leftarrow> pc_queue cf;
       n \<leftarrow> pc_notify cf;
       s \<leftarrow> put_idle q n s;
       Some (None, s)
     })"

definition ngx_proc_rpc_process_one_cycle ::
  "'z exec \<Rightarrow> addr \<Rightarrow> 'z pstate_scheme \<Rightarrow> 'z pstate_scheme option" where
  "ngx_proc_rpc_process_one_cycle exec c s = run_pieces (cycle_piece exec c) (Cycle_Loop Drain_Pop) s"

lemma cycle_loop_code:
  "run_pieces (cycle_piece exec c) (Cycle_Loop pc) s =
     do { s \<leftarrow> run_pieces (drain_piece (cycle_pop c) (cycle_body exec)) pc s; run_pieces (cycle_piece exec c) Cycle_Idle s }"
  using run_pieces_then [of "cycle_piece exec c" Cycle_Loop "drain_piece (cycle_pop c) (cycle_body exec)" "Some Cycle_Idle" pc s]
  by (simp add: option.case_distrib cong: option.case_cong)

lemma one_cycle_code:
  "ngx_proc_rpc_process_one_cycle exec c s =
     do {
       s \<leftarrow> drain (cycle_pop c) (cycle_body exec) s;
       cf \<leftarrow> pconfs s c;
       q \<leftarrow> pc_queue cf;
       n \<leftarrow> pc_notify cf;
       put_idle q n s
     }"
proof -
  have "run_pieces (cycle_piece exec c) Cycle_Idle t =
      do { cf \<leftarrow> pconfs t c; q \<leftarrow> pc_queue cf; n \<leftarrow> pc_notify cf; put_idle q n t }" for t
    by (subst run_pieces.simps) (auto split: bind_splits)
  then show ?thesis by (simp add: ngx_proc_rpc_process_one_cycle_def cycle_loop_code drain_def)
qed

section \<open>The idle list is a lifo pool\<close>

lemma put_idle_ok:
  assumes i: "idles s q ns" and n: "live s n" "n \<notin> set ns"
  shows "\<exists>s'. put_idle q n s = Some s' \<and> idles s' q (n # ns)
     \<and> s' = s\<lparr>qnext := qnext s', qprev := qprev s'\<rparr>
     \<and> (\<forall>p ys. ring s p ys \<longrightarrow> set (p # ys) \<inter> set (QueueIdles q # map NotifyIdles (n # ns)) = {}
          \<longrightarrow> ring s' p ys)"
proof -
  let ?q = "QueueIdles q" and ?x = "NotifyIdles n" and ?xs = "map NotifyIdles ns"
  have r: "ring s ?q ?xs" using i by (simp add: idles_def)
  have x: "node_live s ?x" "?x \<notin> set (?q # ?xs)" using n by (auto simp: node_live_def)
  define f where "f = qfirst ?q ?xs"
  have fin: "f \<in> set (?q # ?xs)" unfolding f_def by (rule qfirst_in)
  then have f: "node_live s f" "get_next ?q s = Some f" "f \<noteq> ?x" "node_live s ?q"
    using ring_liveD [OF r] ring_next [OF r] x(2) by (auto simp: f_def)
  note ins = ring_insert_head [OF r x refl, folded f_def]
  let ?s' = "s\<lparr>qnext := (qnext s)(?x \<mapsto> f, ?q \<mapsto> ?x), qprev := (qprev s)(f \<mapsto> ?x, ?x \<mapsto> ?q)\<rparr>"
  have "put_idle q n s = Some ?s'"
    using f x(1) by (simp add: put_idle_def link_defs)
  moreover have "set (p # ys) \<inter> set (?x # ?q # ?xs) = {}"
    if "set (p # ys) \<inter> set (?q # map NotifyIdles (n # ns)) = {}" for p ys
    using that by auto
  ultimately show ?thesis using ins by (auto simp: idles_def)
qed

definition idle_pop :: "addr \<Rightarrow> 'z qstate_scheme \<Rightarrow> (addr option \<times> 'z qstate_scheme) option" where
  "idle_pop q s = do { (node, s) \<leftarrow> take_idle q s; Some (Option.bind node data_notify_idles, s) }"

interpretation idle_pool: lifo_pool "\<lambda>s. idles s q" "idle_pop q" "put_idle q" live for q
proof
  show "idle_pop q s = Some (None, s)" if "idles s q []" for s :: "'z qstate_scheme"
    using that by (simp add: idle_pop_def idles_def take_idle_none)
  show "\<exists>s'. idle_pop q s = Some (Some x, s') \<and> idles s' q xs"
    if "idles s q (x # xs)" for s :: "'z qstate_scheme" and x xs
    using take_idle_ok [OF that] by (auto simp: idle_pop_def)
  show "\<exists>s'. put_idle q x s = Some s' \<and> idles s' q (x # xs)"
    if "idles s q xs" "live s x" "x \<notin> set xs" for s :: "'z qstate_scheme" and x xs
    using put_idle_ok [OF that] by blast
qed

section \<open>The pending list as the cycle sees it\<close>

definition proc_pending :: "'z pstate_scheme \<Rightarrow> addr \<Rightarrow> addr \<Rightarrow> qaddr list \<Rightarrow> bool" where
  "proc_pending s c n xs \<longleftrightarrow> pending s n xs \<and> Option.bind (pconfs s c) pc_notify = Some n"

lemma cycle_pop_eq: "Option.bind (pconfs s c) pc_notify = Some n \<Longrightarrow> cycle_pop c s = pending_pop n s"
  by (auto simp: cycle_pop_def fault_simps)

lemma pending_pop_links:
  "pending_pop n s = Some (r, s') \<Longrightarrow> s' = s\<lparr>qnext := qnext s', qprev := qprev s'\<rparr>"
  by (auto simp: pending_pop_def ngx_rpc_notify_pop_task_def link_defs fault_simps split: if_splits)

lemma links_frame:
  fixes s s' :: "'z pstate_scheme"
  assumes "s' = s\<lparr>qnext := nx, qprev := pv\<rparr>"
  shows "chunks s' = chunks s" "notifies s' = notifies s" "efds s' = efds s" "tasks s' = tasks s"
    "queues s' = queues s" "pconfs s' = pconfs s" "load s' m = load s m" "live s' = live s"
  by (simp_all add: assms load_def live_def fun_eq_iff)

interpretation proc_pool: node_pool "\<lambda>s. proc_pending s c n" "cycle_pop c" for c n
proof
  show "cycle_pop c s = Some (None, s)" if "proc_pending s c n []" for s :: "'z pstate_scheme"
    using that notify_pool.pop_none [of s n] by (simp add: proc_pending_def cycle_pop_eq)
  show "\<exists>s'. cycle_pop c s = Some (Some x, s') \<and> proc_pending s' c n xs"
    if pp: "proc_pending s c n (x # xs)" for s :: "'z pstate_scheme" and x xs
  proof -
    obtain s' where s': "pending_pop n s = Some (Some x, s')" "pending s' n xs"
      using pp notify_pool.pop_some [of s n x xs] by (auto simp: proc_pending_def)
    have "pconfs s' = pconfs s" using links_frame(6) [OF pending_pop_links [OF s'(1)]] .
    then show ?thesis using pp s' by (auto simp: proc_pending_def cycle_pop_eq)
  qed
qed

section \<open>What the cycle does\<close>

text \<open>
  The contract of a task's function, stated for one turn of the loop (the task taken from
  the list, then its function run): it returns, it leaves the rest of the processor's list,
  the idle list, the processor's configuration and the tasks still to come alone, and it
  updates the observation \<open>note\<close> by \<open>upd t\<close>. \<open>J\<close> is what is known of the idle list and \<open>I\<close> an invariant
  of the caller's choice.
\<close>

definition turn_contract ::
  "'z exec \<Rightarrow> ('z pstate_scheme \<Rightarrow> bool) \<Rightarrow> ('z pstate_scheme \<Rightarrow> bool) \<Rightarrow> ('z pstate_scheme \<Rightarrow> 'n) \<Rightarrow> (addr \<Rightarrow> 'n \<Rightarrow> 'n)
    \<Rightarrow> addr \<Rightarrow> addr \<Rightarrow> bool" where
  "turn_contract exec I J note upd c n \<longleftrightarrow>
     (\<forall>s s1 t tk f xs. I s \<and> proc_pending s c n (TaskNode t # xs) \<and> J s
        \<and> cycle_pop c s = Some (Some (TaskNode t), s1) \<and> proc_pending s1 c n xs \<and> J s1
        \<and> load s (tasks s) t = Some tk \<and> handler (closure tk) = Some f \<longrightarrow>
        (\<exists>s2. exec f t (p1 (closure tk)) s1 = Some s2 \<and> I s2 \<and> proc_pending s2 c n xs
           \<and> J s2 \<and> pconfs s2 c = pconfs s c \<and> note s2 = upd t (note s)
           \<and> (\<forall>u. TaskNode u \<in> set xs \<longrightarrow> load s2 (tasks s2) u = load s (tasks s) u)))"

text \<open>The contract for a well-formed idle list, whatever processors it holds.\<close>

definition task_contract ::
  "'z exec \<Rightarrow> ('z pstate_scheme \<Rightarrow> bool) \<Rightarrow> ('z pstate_scheme \<Rightarrow> 'n) \<Rightarrow> (addr \<Rightarrow> 'n \<Rightarrow> 'n)
    \<Rightarrow> addr \<Rightarrow> addr \<Rightarrow> addr \<Rightarrow> bool" where
  "task_contract exec I note upd c n q \<longleftrightarrow> (\<forall>ns. turn_contract exec I (\<lambda>s. idles s q ns) note upd c n)"

definition runnable :: "'z tstate_scheme \<Rightarrow> qaddr \<Rightarrow> bool" where
  "runnable s x \<longleftrightarrow> (\<exists>t tk. x = TaskNode t \<and> load s (tasks s) t = Some tk \<and> handler (closure tk) \<noteq> None)"

fun node_task :: "qaddr \<Rightarrow> addr" where
  "node_task (TaskNode t) = t"
| "node_task _ = 0"

lemma pop_keeps_ring:
  assumes p: "proc_pending s c n (x # xs)" and r: "ring s p ys"
    and pop: "cycle_pop c s = Some (Some x, s1)" and x: "\<And>m. x \<noteq> QueueIdles m" "\<And>m. x \<noteq> NotifyIdles m"
    and tasks: "\<forall>y \<in> set xs. runnable s y"
    and idle: "\<forall>y \<in> set (p # ys). (\<exists>m. y = QueueIdles m) \<or> (\<exists>m. y = NotifyIdles m)"
  shows "ring s1 p ys"
proof -
  have pp: "pending s n (x # xs)" and pe: "pending_pop n s = Some (Some x, s1)"
    using p pop by (simp_all add: proc_pending_def cycle_pop_eq)
  obtain s' where s': "ngx_rpc_notify_pop_task n s = Some (NGX_OK, Some x, s')"
    "\<And>p ys. ring s p ys \<Longrightarrow> set (p # ys) \<inter> set (NotifyHead n # x # xs) = {} \<Longrightarrow> ring s' p ys"
    using pop_task_ok [OF pp] by blast
  have "s' = s1" using pe s'(1) by (simp add: pending_pop_def)
  moreover have "y \<noteq> QueueIdles m \<and> y \<noteq> NotifyIdles m" if "y \<in> set xs" for y m
    using tasks that by (auto simp: runnable_def)
  then have "set (p # ys) \<inter> set (NotifyHead n # x # xs) = {}"
    using x idle by fastforce
  ultimately show ?thesis using r s'(2) by blast
qed

lemma pop_keeps_idles:
  assumes "proc_pending s c n (x # xs)" and "idles s q ns"
    and "cycle_pop c s = Some (Some x, s1)" and "\<And>m. x \<noteq> QueueIdles m" "\<And>m. x \<noteq> NotifyIdles m"
    and "\<forall>y \<in> set xs. runnable s y"
  shows "idles s1 q ns"
  using pop_keeps_ring [OF assms(1) _ assms(3-6)] assms(2) by (auto simp: idles_def)

lemma drain_turns:
  assumes p: "proc_pending s c n xs" and J: "J s" and cf: "pconfs s c = Some cf"
    and run: "\<forall>x \<in> set xs. runnable s x" and I: "I s" and k: "turn_contract exec I J note upd c n"
    and pops: "\<And>s s1 x xs. \<lbrakk> proc_pending s c n (x # xs); J s; cycle_pop c s = Some (Some x, s1);
       \<forall>y \<in> set (x # xs). runnable s y \<rbrakk> \<Longrightarrow> J s1"
  shows "\<exists>s'. drain (cycle_pop c) (cycle_body exec) s = Some s' \<and> proc_pending s' c n []
     \<and> J s' \<and> pconfs s' c = Some cf \<and> I s'
     \<and> note s' = fold (upd \<circ> node_task) xs (note s)"
proof -
  let ?ok = "\<lambda>s ys. I s \<and> J s \<and> pconfs s c = Some cf \<and> (\<forall>x \<in> set ys. runnable s x)"
  have "\<exists>s'. drain (cycle_pop c) (cycle_body exec) s = Some s' \<and> proc_pending s' c n [] \<and> ?ok s' []
     \<and> note s' = fold (upd \<circ> node_task) xs (note s)"
  proof (rule proc_pool.drain_empties [OF p])
    show "?ok s xs" using J cf run I by simp
    fix s s1 zs x ys
    assume xs: "xs = zs @ x # ys" and pp: "proc_pending s c n (x # ys)" and ok: "?ok s (x # ys)"
      and pop: "cycle_pop c s = Some (Some x, s1)" and p1: "proc_pending s1 c n ys"
    obtain t tk f where t: "x = TaskNode t" "load s (tasks s) t = Some tk" "handler (closure tk) = Some f"
      using ok by (auto simp: runnable_def)
    have "J s1" by (rule pops [OF pp _ pop]) (use ok in auto)
    then obtain s2 where s2: "exec f t (p1 (closure tk)) s1 = Some s2" "I s2" "proc_pending s2 c n ys"
      "J s2" "pconfs s2 c = pconfs s c" "note s2 = upd t (note s)"
      "\<And>u. TaskNode u \<in> set ys \<Longrightarrow> load s2 (tasks s2) u = load s (tasks s) u"
      using k [unfolded turn_contract_def, rule_format, of s t ys s1 tk f] ok pp pop p1 t by auto
    have "pending_pop n s = Some (Some x, s1)"
      using pp pop by (simp add: proc_pending_def cycle_pop_eq)
    note links = links_frame [OF pending_pop_links [OF this]]
    have "load s1 (tasks s1) t = Some tk" using t(2) links(4,8) by (simp add: load_Some_iff)
    then have "cycle_body exec x s1 = Some s2" using t s2(1) by (simp add: cycle_body_def)
    moreover have "runnable s2 y" if "y \<in> set ys" for y
      using ok that s2(7) by (fastforce simp: runnable_def)
    ultimately show "\<exists>s2. cycle_body exec x s1 = Some s2 \<and> proc_pending s2 c n ys \<and> ?ok s2 ys
        \<and> note s2 = (upd \<circ> node_task) x (note s)"
      using s2 ok t(1) by (intro exI [of _ s2]) auto
  qed
  then show ?thesis by auto
qed

lemma drain_cycle:
  assumes p: "proc_pending s c n xs" and i: "idles s q ns" and cf: "pconfs s c = Some cf"
    and run: "\<forall>x \<in> set xs. runnable s x" and I: "I s" and k: "task_contract exec I note upd c n q"
  shows "\<exists>s'. drain (cycle_pop c) (cycle_body exec) s = Some s' \<and> proc_pending s' c n []
     \<and> idles s' q ns \<and> pconfs s' c = Some cf \<and> I s'
     \<and> note s' = fold (upd \<circ> node_task) xs (note s)"
proof (rule drain_turns [where J = "\<lambda>s. idles s q ns" and I = I, OF p i cf run I])
  show "turn_contract exec I (\<lambda>s. idles s q ns) note upd c n" using k by (simp add: task_contract_def)
  fix s s1 x xs
  assume a: "proc_pending s c n (x # xs)" "idles s q ns" "cycle_pop c s = Some (Some x, s1)" "\<forall>y \<in> set (x # xs). runnable s y"
  show "idles s1 q ns" by (rule pop_keeps_idles [OF a(1-3)]) (use a(4) in \<open>auto simp: runnable_def\<close>)
qed

text \<open>
  A processor that is not on the idle list runs its tasks, first pushed first run, and is
  then the first idle processor.
\<close>

lemma one_cycle_eq:
  assumes p: "proc_pending s c n xs" and i: "idles s q ns"
    and cf: "pconfs s c = Some cf" "pc_queue cf = Some q"
    and run: "\<forall>x \<in> set xs. runnable s x" and I: "I s" and k: "task_contract exec I note upd c n q"
  shows "\<exists>s1. ngx_proc_rpc_process_one_cycle exec c s = put_idle q n s1
     \<and> proc_pending s1 c n [] \<and> idles s1 q ns \<and> pconfs s1 c = Some cf \<and> I s1
     \<and> note s1 = fold (upd \<circ> node_task) xs (note s)"
proof -
  obtain s1 where s1: "drain (cycle_pop c) (cycle_body exec) s = Some s1" "proc_pending s1 c n []"
    "idles s1 q ns" "pconfs s1 c = Some cf" "I s1" "note s1 = fold (upd \<circ> node_task) xs (note s)"
    using drain_cycle [OF p i cf(1) run I k] by blast
  have "pc_notify cf = Some n" using s1(2,4) by (simp add: proc_pending_def)
  then show ?thesis
    using s1 cf by (intro exI [of _ s1]) (simp add: one_cycle_code)
qed

lemma put_idle_pending:
  assumes "proc_pending s c n []" and "idles s q ns" and "n \<notin> set ns"
  shows "\<exists>s'. put_idle q n s = Some s' \<and> idles s' q (n # ns) \<and> proc_pending s' c n []
     \<and> s' = s\<lparr>qnext := qnext s', qprev := qprev s'\<rparr>"
proof -
  have "live s n" using assms(1) by (auto simp: proc_pending_def dest: pending_live)
  from put_idle_ok [OF assms(2) this assms(3)] obtain s' where
    s': "put_idle q n s = Some s'" "idles s' q (n # ns)" "s' = s\<lparr>qnext := qnext s', qprev := qprev s'\<rparr>"
    "\<And>p ys. ring s p ys \<Longrightarrow> set (p # ys) \<inter> set (QueueIdles q # map NotifyIdles (n # ns)) = {} \<Longrightarrow> ring s' p ys"
    by blast
  have "ring s' (NotifyHead n) []"
    by (rule s'(4)) (use assms(1) in \<open>auto simp: proc_pending_def pending_def\<close>)
  then have "proc_pending s' c n []"
    using assms(1) links_frame [OF s'(3)] by (simp add: proc_pending_def pending_def)
  then show ?thesis using s'(1-3) by blast
qed

text \<open>
  A notify object that is already the first idle one and is linked in again: its link points
  to itself, so every later taker gets it and the processors behind it are never reached.
\<close>

definition idle_loop :: "'z qstate_scheme \<Rightarrow> addr \<Rightarrow> addr \<Rightarrow> bool" where
  "idle_loop s q n \<longleftrightarrow> get_next (QueueIdles q) s = Some (NotifyIdles n)
     \<and> get_next (NotifyIdles n) s = Some (NotifyIdles n)
     \<and> (\<exists>p. get_prev (QueueIdles q) s = Some p \<and> p \<noteq> QueueIdles q)"

lemma idle_loop_take:
  assumes "idle_loop s q n"
  shows "\<exists>s'. take_idle q s = Some (Some (NotifyIdles n), s') \<and> idle_loop s' q n"
proof -
  obtain p where "node_live s (QueueIdles q)" "node_live s (NotifyIdles n)"
    "qnext s (QueueIdles q) = Some (NotifyIdles n)" "qnext s (NotifyIdles n) = Some (NotifyIdles n)"
    "qprev s (QueueIdles q) = Some p" "p \<noteq> QueueIdles q"
    using assms by (auto simp: idle_loop_def link_defs split: if_splits)
  then show ?thesis
    by (simp add: take_idle_def ngx_queue_empty_def link_defs idle_loop_def)
qed

primrec take_idles :: "nat \<Rightarrow> addr \<Rightarrow> 'z qstate_scheme \<Rightarrow> qaddr option list option" where
  "take_idles 0 q s = Some []"
| "take_idles (Suc k) q s =
     do { (r, s) \<leftarrow> take_idle q s; rs \<leftarrow> take_idles k q s; Some (r # rs) }"

lemma idle_loop_takes:
  "idle_loop s q n \<Longrightarrow> take_idles k q s = Some (replicate k (Some (NotifyIdles n)))"
proof (induction k arbitrary: s)
  case (Suc k)
  then show ?case using idle_loop_take [OF Suc.prems] by auto
qed simp

lemma put_idle_again:
  assumes "idles s q (n # ns)"
  shows "\<exists>s'. put_idle q n s = Some s' \<and> idle_loop s' q n \<and> (\<forall>ms. \<not> idles s' q ms)
     \<and> s' = s\<lparr>qnext := qnext s', qprev := qprev s'\<rparr>
     \<and> (\<forall>p ys. ring s p ys \<longrightarrow> {QueueIdles q, NotifyIdles n} \<inter> set (p # ys) = {} \<longrightarrow> ring s' p ys)"
proof -
  let ?q = "QueueIdles q" and ?x = "NotifyIdles n"
  have r: "ring s ?q (?x # map NotifyIdles ns)" using assms by (simp add: idles_def)
  have l: "node_live s ?q" "node_live s ?x" using ring_liveD [OF r] by auto
  have nx: "get_next ?q s = Some ?x" using ring_next [OF r] by simp
  have pv: "get_prev ?q s = Some (qlast ?q (?x # map NotifyIdles ns))" by (rule ring_prev [OF r])
  have "qlast ?q (?x # map NotifyIdles ns) \<noteq> ?q"
    using qlast_is_head [OF ring_distinct [OF r]] by auto
  let ?s' = "s\<lparr>qnext := (qnext s)(?x \<mapsto> ?x, ?q \<mapsto> ?x), qprev := (qprev s)(?x \<mapsto> ?q)\<rparr>"
  have "put_idle q n s = Some ?s'"
    using l nx by (simp add: put_idle_def link_defs)
  moreover have "idle_loop ?s' q n"
    using l pv \<open>qlast _ _ \<noteq> _\<close> by (simp add: idle_loop_def link_defs)
  moreover have "\<not> idles ?s' q ms" for ms
    using ring_insert_head_again(3) [OF r refl] by (simp add: idles_def)
  moreover have "ring ?s' p ys" if "ring s p ys" "{?q, ?x} \<inter> set (p # ys) = {}" for p ys
  proof -
    have "mring (qnext ?s') (qprev ?s') p ys"
      by (rule mring_frame [of "qnext s" "qprev s"]) (use that in \<open>auto simp: ring_iff\<close>)
    then show ?thesis using that(1) by (simp add: ring_iff node_live_def live_def)
  qed
  ultimately show ?thesis by auto
qed

text \<open>The read callback runs the handler once more after the \<open>read\<close> that took the signal.\<close>

lemma read_loop_signalled:
  assumes nt: "load s (notifies s) n = Some nt" "read_hanlder nt = Some f" "notify_ctx nt = Some x"
    and cnt: "efds s (event_fd nt) = Some cnt" "0 < cnt"
    and t: "call f x (s\<lparr>efds := (efds s)(event_fd nt \<mapsto> 0)\<rparr>) = Some t"
    and nt': "load t (notifies t) n = Some nt" "efds t (event_fd nt) = Some 0"
  shows "notify_read_loop call n s = call f x t"
proof -
  have "notify_read_loop call n t = call f x t"
    using nt' nt(2,3) by (subst notify_read_loop_unfold) (simp add: eventfd_read_def)
  then show ?thesis
    using nt cnt t by (subst notify_read_loop_unfold) (simp add: eventfd_read_def)
qed

definition proc_call ::
  "'z exec \<Rightarrow> ('z pstate_scheme \<Rightarrow> 'z pstate_scheme option)
    \<Rightarrow> notify_fn \<Rightarrow> notify_ctx \<Rightarrow> 'z pstate_scheme \<Rightarrow> 'z pstate_scheme option" where
  "proc_call exec worker f ctx s =
     (case (f, ctx) of
        (Notify_Default_Hanlder, _) \<Rightarrow> Some s
      | (Proc_Process_One_Cycle, Proc_Conf c) \<Rightarrow> ngx_proc_rpc_process_one_cycle exec c s
      | (Http_Process_Notify_Task, Http_Conf c) \<Rightarrow> worker s
      | _ \<Rightarrow> None)"

section \<open>Starting a processor\<close>

lemma add_consumer_eq:
  assumes "load s (queues s) q = Some \<lparr>notify_slot = Some a, notify_num = k\<rparr>"
  shows "ngx_rpc_queue_add_current_consumer pslot lastp conn add_ok q ctx s =
     ngx_rpc_notify_register pslot lastp conn add_ok a ctx s"
  using assms by (simp add: ngx_rpc_queue_add_current_consumer_def ngx_rpc_notify_register_def)

lemma process_init_eq:
  assumes q: "queue_ok s q a ns" and cf: "pconfs s c = Some cf" "pc_queue cf = Some q"
    and slot: "pslot < length ns" "int pslot \<le> lastp"
    and n: "n = ns ! pslot" "notifies s n = Some nt"
  shows "ngx_proc_rpc_process_init (int pslot) lastp (Some k) True (Some c) s = Some (NGX_OK,
     s\<lparr>pconfs := (pconfs s)(c \<mapsto> cf\<lparr>pc_notify := Some n\<rparr>),
       notifies := (notifies s)(n \<mapsto> nt\<lparr>notify_ctx := Some (Proc_Conf c), notify_conn := Some k,
            read_hanlder := Some Proc_Process_One_Cycle, write_hanlder := Some Proc_Process_One_Cycle\<rparr>),
       conns := (conns s)(k \<mapsto> \<lparr>c_fd = event_fd nt, c_sockaddr = n,
            c_read_handler = Notify_Read_Handler, c_read_data = k,
            c_write_handler = Notify_Write_Handler, c_write_data = k,
            c_added = True, c_write_event = True\<rparr>)\<rparr>)"
proof -
  have nin: "n \<in> set ns" using slot(1) n(1) by simp
  have ld: "load s (queues s) q = Some \<lparr>notify_slot = Some a, notify_num = int (length ns)\<rparr>"
    "load s (notify_slots s) a = Some (map Some ns)" "load s (notifies s) n = Some nt" "live s n"
    using q n(2) nin by (auto simp: queue_ok_def load_def live_def)
  have "map Some ns ! nat (int pslot) = Some n" "nat (int pslot) < length (map Some ns)"
    using slot(1) n(1) by simp_all
  then have reg: "ngx_rpc_notify_register (int pslot) lastp (Some k) True a (Proc_Conf c) s =
     Some (Some n,
       s\<lparr>notifies := (notifies s)(n \<mapsto> nt\<lparr>notify_ctx := Some (Proc_Conf c), notify_conn := Some k,
            read_hanlder := Some Notify_Default_Hanlder,
            write_hanlder := Some Notify_Default_Hanlder\<rparr>),
         conns := (conns s)(k \<mapsto> \<lparr>c_fd = event_fd nt, c_sockaddr = n,
            c_read_handler = Notify_Read_Handler, c_read_data = k,
            c_write_handler = Notify_Write_Handler, c_write_data = k,
            c_added = True, c_write_event = True\<rparr>)\<rparr>)"
    using register_ok [of "int pslot" lastp s a "map Some ns" n nt k True "Proc_Conf c"] slot ld
    by simp
  show ?thesis
    using cf ld
    by (cases nt) (simp add: ngx_proc_rpc_process_init_def add_consumer_eq reg load_def live_def)
qed

lemma process_init_ok:
  assumes q: "queue_ok s q a ns" and cf: "pconfs s c = Some cf" "pc_queue cf = Some q"
    and slot: "pslot < length ns" "int pslot \<le> lastp"
    and n: "n = ns ! pslot" "notifies s n = Some nt"
  shows "\<exists>s'. ngx_proc_rpc_process_init (int pslot) lastp (Some k) True (Some c) s = Some (NGX_OK, s')
     \<and> pconfs s' = (pconfs s)(c \<mapsto> cf\<lparr>pc_notify := Some n\<rparr>)
     \<and> notifies s' = (notifies s)(n \<mapsto> nt\<lparr>notify_ctx := Some (Proc_Conf c), notify_conn := Some k,
            read_hanlder := Some Proc_Process_One_Cycle, write_hanlder := Some Proc_Process_One_Cycle\<rparr>)
     \<and> conns s' = (conns s)(k \<mapsto> \<lparr>c_fd = event_fd nt, c_sockaddr = n,
            c_read_handler = Notify_Read_Handler, c_read_data = k,
            c_write_handler = Notify_Write_Handler, c_write_data = k,
            c_added = True, c_write_event = True\<rparr>)
     \<and> qnext s' = qnext s \<and> qprev s' = qprev s \<and> chunks s' = chunks s \<and> efds s' = efds s
     \<and> queues s' = queues s \<and> tasks s' = tasks s"
  using process_init_eq [OF assms] by simp

text \<open>
  The first event of a started processor is that its eventfd can be written: the write callback
  takes itself out of the events and runs the cycle once, which makes the processor the first idle one.
\<close>

lemma write_handler_puts_idle:
  assumes p: "proc_pending s c n []" and i: "idles s q ns" and n: "n \<notin> set ns"
    and cf: "pconfs s c = Some cf" "pc_queue cf = Some q"
    and nt: "notifies s n = Some nt" "write_hanlder nt = Some Proc_Process_One_Cycle" "notify_ctx nt = Some (Proc_Conf c)"
    and cn: "conns s k = Some cn" "c_sockaddr cn = n"
  shows "\<exists>s'. ngx_rpc_notify_write_handler (proc_call exec worker) k s = Some s' \<and> idles s' q (n # ns)
     \<and> s' = s\<lparr>conns := (conns s)(k \<mapsto> cn\<lparr>c_write_event := False\<rparr>), qnext := qnext s', qprev := qprev s'\<rparr>
     \<and> (\<forall>p ys. ring s p ys \<longrightarrow> set (p # ys) \<inter> set (QueueIdles q # map NotifyIdles (n # ns)) = {} \<longrightarrow> ring s' p ys)"
proof -
  let ?s = "s\<lparr>conns := (conns s)(k \<mapsto> cn\<lparr>c_write_event := False\<rparr>)\<rparr>"
  have pp: "proc_pending ?s c n []" "idles ?s q ns" "pc_notify cf = Some n"
    using p i cf by (simp_all add: proc_pending_def pending_def idles_def)
  have ln: "live s n" using p by (auto simp: proc_pending_def dest: pending_live)
  then have "live ?s n" by simp
  from put_idle_ok [OF pp(2) this n] obtain s' where s': "put_idle q n ?s = Some s'" "idles s' q (n # ns)"
    "s' = ?s\<lparr>qnext := qnext s', qprev := qprev s'\<rparr>"
    "\<And>p ys. ring ?s p ys \<Longrightarrow> set (p # ys) \<inter> set (QueueIdles q # map NotifyIdles (n # ns)) = {} \<Longrightarrow> ring s' p ys"
    by blast
  have "drain (cycle_pop c) (cycle_body exec) ?s = Some ?s"
    using proc_pool.pop_none [OF pp(1)] by (subst drain_unfold) simp
  then have "ngx_proc_rpc_process_one_cycle exec c ?s = Some s'"
    using cf pp(3) s'(1) by (simp add: one_cycle_code)
  then have "ngx_rpc_notify_write_handler (proc_call exec worker) k s = Some s'"
    using cn nt ln by (simp add: ngx_rpc_notify_write_handler_def proc_call_def load_def)
  then show ?thesis using s'(2-4) by (intro exI [of _ s']) simp
qed

section \<open>Starting the master\<close>

lemma notify_num_sum:
  assumes "0 < w" and "list_all (\<lambda>k. 0 \<le> k) counts" and "w + sum_list counts < 2 ^ 31"
  shows "fold (\<lambda>k n. c_int (n + k)) counts (c_int w) = w + sum_list counts"
  using assms
proof (induction counts arbitrary: w)
  case Nil
  then show ?case by (simp add: c_int_id)
next
  case (Cons k ks)
  have "0 \<le> sum_list ks" using Cons.prems(2) by (auto simp: list_all_iff intro: sum_list_nonneg)
  then have "c_int w = w" "c_int (w + k) = w + k"
    using Cons.prems by (auto intro!: c_int_id)
  then show ?case using Cons.IH [of "w + k"] Cons.prems by (simp add: c_int_id add.assoc)
qed

lemma master_init_ok:
  assumes "pconfs s c = Some cf" and "pc_shpool cf = Some p"
    and "w = (if workers \<le> 0 then ncpu else workers)" and "0 < w"
    and "list_all (\<lambda>k. 0 \<le> k) counts" and "w + sum_list counts < 2 ^ 31"
    and "spare pick (chunks s) (nat (w + sum_list counts) + 2 + m)" and "\<And>i. oks i"
  shows "\<exists>s' q a ns. ngx_proc_rpc_master_init pick True oks fds workers ncpu counts (Some c) s = Some (NGX_OK, s')
     \<and> pconfs s' = (pconfs s)(c \<mapsto> cf\<lparr>pc_queue := Some q\<rparr>) \<and> queue_ok s' q a ns
     \<and> int (length ns) = w + sum_list counts \<and> idles s' q []
     \<and> (\<forall>i < length ns. fresh_notify s' (ns ! i) (fds i) \<and> (0 \<le> fds i \<longrightarrow> efds s' (fds i) = Some 0))
     \<and> pstate.more s' = pstate.more s \<and> stored s' = stored s \<and> (\<forall>a. live s a \<longrightarrow> chunks s' a = chunks s a)
     \<and> spare pick (chunks s') m"
proof -
  have num: "master_notify_num workers ncpu counts = int (nat (w + sum_list counts))"
    using notify_num_sum [OF assms(4-6)] assms(3-5)
    by (auto simp: master_notify_num_def list_all_iff intro!: add_nonneg_nonneg sum_list_nonneg)
  have sp: "spare pick (chunks s) (nat (w + sum_list counts) + 2 + m)" using assms(7) .
  obtain q a ns s1 where q: "ngx_rpc_queue_create pick True oks fds (int (nat (w + sum_list counts))) s = Some (Some q, s1)"
    "queue_ok s1 q a ns" "length ns = nat (w + sum_list counts)" "idles s1 q []"
    "\<forall>i < nat (w + sum_list counts). fresh_notify s1 (ns ! i) (fds i)"
    "\<forall>i < nat (w + sum_list counts). 0 \<le> fds i \<longrightarrow> efds s1 (fds i) = Some 0"
    "\<forall>m \<in> {q, a} \<union> set ns. \<not> live s m"
    "\<forall>m. m \<notin> {q, a} \<union> set ns \<longrightarrow> chunks s1 m = chunks s m \<and> notifies s1 m = notifies s m"
    "stored s1 = stored s" "rstate.more s1 = rstate.more s" "spare pick (chunks s1) m"
    using queue_create_ok [where oks = oks and fds = fds, OF sp assms(8)] by blast
  let ?s' = "s1\<lparr>pconfs := (pconfs s)(c \<mapsto> cf\<lparr>pc_queue := Some q\<rparr>)\<rparr>"
  have pc: "pconfs s1 = pconfs s" "pstate.more s1 = pstate.more s" using q(10) by (cases s; cases s1; simp)+
  have "ngx_proc_rpc_master_init pick True oks fds workers ncpu counts (Some c) s = Some (NGX_OK, ?s')"
    using q(1) assms(1,2) by (simp add: ngx_proc_rpc_master_init_def num pc)
  moreover have "queue_ok ?s' q a ns" "idles ?s' q []"
    using q(2,4) by (simp_all add: queue_ok_def idles_def ring_iff node_live_def live_def)
  moreover have "fresh_notify ?s' x fd" if "fresh_notify s1 x fd" for x fd
    using that by (rule fresh_notify_frame) (simp_all add: ring_iff node_live_def live_def)
  moreover have "int (length ns) = w + sum_list counts"
    using q(3) assms(4,5) by (auto simp: list_all_iff intro!: add_nonneg_nonneg sum_list_nonneg)
  moreover have "\<forall>a. live s a \<longrightarrow> chunks ?s' a = chunks s a" using q(7,8) by auto
  ultimately show ?thesis
    using q(3,5,6,9,11) pc(2) by (intro exI [of _ ?s'] exI [of _ q] exI [of _ a] exI [of _ ns]) (simp add: stored_def)
qed

end
