(* ===== verification/Shm_Properties.thy ===== *)
theory Shm_Properties
  imports Rpc_Process
begin

text \<open>
  The properties of the shared-memory part: notify objects, tasks, the queue object and the
  processor. Each is followed by a theorem that applies it to the concrete memory \<open>demo\<close>.
\<close>

section \<open>A concrete memory\<close>

definition next_links :: "qaddr \<Rightarrow> qaddr list \<Rightarrow> qaddr \<rightharpoonup> qaddr" where
  "next_links q xs = map_of (zip (q # xs) (xs @ [q]))"

definition prev_links :: "qaddr \<Rightarrow> qaddr list \<Rightarrow> qaddr \<rightharpoonup> qaddr" where
  "prev_links q xs = map_of (zip (xs @ [q]) (q # xs))"

definition demo_notify :: "int \<Rightarrow> addr \<Rightarrow> ngx_rpc_notify" where
  "demo_notify fd c = \<lparr>event_fd = fd, read_hanlder = Some Proc_Process_One_Cycle,
     write_hanlder = Some Proc_Process_One_Cycle, notify_ctx = Some (Proc_Conf c),
     notify_conn = Some 0\<rparr>"

definition demo_task :: ngx_rpc_task where
  "demo_task = zero_task\<lparr>closure := \<lparr>handler = Some (Method_Handler 0), p1 = None\<rparr>\<rparr>"

text \<open>
  A queue object at 1 with its array at 2, the notify objects 3 and 4 of two processors, and
  the tasks 5 and 6. \<open>ids\<close> are the idle notify objects, \<open>ts\<close> the tasks pending on 3, and
  \<open>sig\<close> is the counter of the eventfd of 3.
\<close>

definition demo :: "addr list \<Rightarrow> addr list \<Rightarrow> nat \<Rightarrow> pstate" where
  "demo ids ts sig = \<lparr>
     chunks = [1 \<mapsto> Queue_t, 2 \<mapsto> Notify_slots 2, 3 \<mapsto> Notify_t, 4 \<mapsto> Notify_t, 5 \<mapsto> Task_t, 6 \<mapsto> Task_t],
     qnext = next_links (NotifyHead 4) [] ++ next_links (QueueIdles 1) (map NotifyIdles ids)
             ++ next_links (NotifyHead 3) (map TaskNode ts),
     qprev = prev_links (NotifyHead 4) [] ++ prev_links (QueueIdles 1) (map NotifyIdles ids)
             ++ prev_links (NotifyHead 3) (map TaskNode ts),
     notifies = [3 \<mapsto> demo_notify 10 0, 4 \<mapsto> demo_notify 11 1],
     notify_slots = [2 \<mapsto> [Some 3, Some 4]],
     conns = Map.empty,
     efds = [10 \<mapsto> sig, 11 \<mapsto> 0],
     bufs = Map.empty,
     chain_buf = [Req_bufs 5 \<mapsto> None, Res_bufs 5 \<mapsto> None, Req_bufs 6 \<mapsto> None, Res_bufs 6 \<mapsto> None],
     chain_next = [Req_bufs 5 \<mapsto> None, Res_bufs 5 \<mapsto> None, Req_bufs 6 \<mapsto> None, Res_bufs 6 \<mapsto> None],
     data = [0 \<mapsto> []],
     tasks = [5 \<mapsto> demo_task, 6 \<mapsto> demo_task],
     queues = [1 \<mapsto> \<lparr>notify_slot = Some 2, notify_num = 2\<rparr>],
     pconfs = [0 \<mapsto> \<lparr>pc_shpool = Some 0, pc_queue = Some 1, pc_notify = Some 3, shm_size = 0\<rparr>,
               1 \<mapsto> \<lparr>pc_shpool = Some 0, pc_queue = Some 1, pc_notify = Some 4, shm_size = 0\<rparr>],
     zones = Map.empty,
     pool_data = Map.empty\<rparr>"

lemmas demo_simps = demo_def demo_notify_def demo_task_def next_links_def prev_links_def
  ring_def mring_def node_live_def live_def load_def pending_def idles_def proc_pending_def

section \<open>Notify objects\<close>

text \<open>
  C13. The pending list is a first-in first-out queue: nodes pushed one after the other behind
  the nodes that wait are popped after those and in the order in which they were pushed, and
  once they are all popped the list is empty.
\<close>

theorem notify_fifo:
  assumes "pending s n xs" and "\<And>y. y \<in> set ys \<Longrightarrow> node_live s y \<and> y \<noteq> NotifyHead n"
    and "distinct ys" and "set ys \<inter> set xs = {}"
  shows "\<exists>s1 s2. fold (\<lambda>y r. Option.bind r (pending_push n y)) ys (Some s) = Some s1
     \<and> pops (pending_pop n) (length (xs @ ys)) s1 = Some (map Some (xs @ ys), s2)
     \<and> ngx_rpc_notify_pop_task n s2 = Some (NGX_ERROR, None, s2)"
proof -
  obtain s1 where s1: "fold (\<lambda>y r. Option.bind r (pending_push n y)) ys (Some s) = Some s1"
    "pending s1 n (xs @ ys)"
    using notify_pool.push_many [OF assms(1) _ assms(3,4)] assms(2) by (auto simp: pending_fits_def)
  obtain s2 where s2: "pops (pending_pop n) (length (xs @ ys)) s1 = Some (map Some (xs @ ys), s2)"
    "pending s2 n []"
    using notify_pool.pops_all [of s1 n "xs @ ys" "[]"] s1(2) by auto
  then have "ngx_rpc_notify_pop_task n s2 = Some (NGX_ERROR, None, s2)"
    by (simp add: pending_def pop_task_none)
  with s1(1) s2(1) show ?thesis by blast
qed

theorem notify_fifo_witness:
  "\<exists>s1 s2. fold (\<lambda>y r. Option.bind r (pending_push 3 y)) [TaskNode 6] (Some (demo [4] [5] 0)) = Some s1
     \<and> pops (pending_pop 3) 2 s1 = Some ([Some (TaskNode 5), Some (TaskNode 6)], s2)
     \<and> ngx_rpc_notify_pop_task 3 s2 = Some (NGX_ERROR, None, s2)"
  using notify_fifo [of "demo [4] [5] 0" 3 "[TaskNode 5]" "[TaskNode 6]"]
  by (simp add: demo_simps numeral_2_eq_2)

text \<open>
  A push links the task in at the end of the pending list, leaves the eventfd readable, so
  that the owner is woken, and changes no other list, no notify object and no task.
\<close>

theorem push_task_signals:
  assumes "pending s n xs" and "load s (tasks s) t = Some tk" and "TaskNode t \<notin> set xs"
    and "notifies s n = Some nt" and "efds s (event_fd nt) = Some cnt" and "cnt \<le> eventfd_max"
  shows "\<exists>s'. ngx_rpc_notify_push_task n (TaskNode t) s = Some (NGX_OK, s')
     \<and> pending s' n (xs @ [TaskNode t])
     \<and> (\<exists>cnt'. efds s' (event_fd nt) = Some cnt' \<and> 0 < cnt')
     \<and> chunks s' = chunks s \<and> notifies s' = notifies s \<and> tasks s' = tasks s
     \<and> (\<forall>q ys. ring s q ys \<longrightarrow> set (q # ys) \<inter> set (TaskNode t # NotifyHead n # xs) = {} \<longrightarrow> ring s' q ys)"
proof -
  have x: "node_live s (TaskNode t)" "TaskNode t \<notin> set (NotifyHead n # xs)"
    using assms(2,3) by (auto simp: load_Some_iff node_live_def)
  obtain s1 s' where s': "notify_link_tail n (TaskNode t) s = Some s1"
    "s' = eventfd_write (event_fd nt) 1 s1" "ngx_rpc_notify_push_task n (TaskNode t) s = Some (NGX_OK, s')"
    "pending s' n (xs @ [TaskNode t])" "chunks s' = chunks s" "notifies s' = notifies s" "efds s1 = efds s"
    "\<forall>q ys. ring s q ys \<longrightarrow> set (q # ys) \<inter> set (TaskNode t # NotifyHead n # xs) = {} \<longrightarrow> ring s' q ys"
    using push_task_ok [OF assms(1) x assms(4)] by blast
  have "tasks s1 = tasks s"
    using s'(1) by (auto simp: notify_link_tail_def link_defs fault_simps split: if_splits)
  then have "tasks s' = tasks s" using s'(2) by (simp add: eventfd_write_def)
  moreover have "\<exists>cnt'. efds s' (event_fd nt) = Some cnt' \<and> 0 < cnt'"
    using eventfd_write_readable [of s1 "event_fd nt" cnt] s'(2,7) assms(5,6) by auto
  ultimately show ?thesis using s' by blast
qed

theorem push_task_signals_witness:
  "\<exists>s'. ngx_rpc_notify_push_task 3 (TaskNode 6) (demo [4] [5] 0) = Some (NGX_OK, s')
     \<and> pending s' 3 [TaskNode 5, TaskNode 6] \<and> (\<exists>cnt'. efds s' 10 = Some cnt' \<and> 0 < cnt')
     \<and> idles s' 1 [4]"
proof -
  have "pending (demo [4] [5] 0) 3 [TaskNode 5]" "load (demo [4] [5] 0) (tasks (demo [4] [5] 0)) 6 = Some demo_task"
    "notifies (demo [4] [5] 0) 3 = Some (demo_notify 10 0)"
    "efds (demo [4] [5] 0) (event_fd (demo_notify 10 0)) = Some 0"
    and i: "ring (demo [4] [5] 0) (QueueIdles 1) [NotifyIdles 4]"
    by (simp_all add: demo_simps)
  from push_task_signals [OF this(1,2) _ this(3,4)] obtain s' where
    "ngx_rpc_notify_push_task 3 (TaskNode 6) (demo [4] [5] 0) = Some (NGX_OK, s')"
    "pending s' 3 ([TaskNode 5] @ [TaskNode 6])"
    "\<exists>cnt'. efds s' (event_fd (demo_notify 10 0)) = Some cnt' \<and> 0 < cnt'"
    "\<And>q ys. ring (demo [4] [5] 0) q ys \<Longrightarrow>
       set (q # ys) \<inter> set (TaskNode 6 # NotifyHead 3 # [TaskNode 5]) = {} \<Longrightarrow> ring s' q ys"
    by auto
  then show ?thesis using i by (auto simp: demo_notify_def idles_def)
qed

text \<open>
  A notify object whose lock cannot be created is given back to the pool: the caller gets
  \<open>NULL\<close> and the memory is as before.
\<close>

theorem notify_create_lock_failure:
  assumes "ngx_rpc_notify_create pick False fd s = Some (r, s')"
  shows "r = None \<and> s' = s"
  using assms by (rule create_lock_failure)

theorem notify_create_lock_failure_witness:
  "\<exists>r s'. ngx_rpc_notify_create (first_fit 9) False 12 (demo [3] [] 0) = Some (r, s')
     \<and> r = None \<and> s' = demo [3] [] 0"
proof -
  obtain r s' where "ngx_rpc_notify_create (first_fit 9) False 12 (demo [3] [] 0) = Some (r, s')"
    by (simp add: ngx_rpc_notify_create_def ngx_slab_alloc_def ngx_slab_free_def first_fit_def
        demo_def live_def upt_rec numeral_eq_Suc)
  then show ?thesis using notify_create_lock_failure by blast
qed

text \<open>
  C26. The range check of the registration admits the slot \<open>ngx_last_process\<close>, one past the
  end of an array of \<open>ngx_last_process\<close> entries (the length that ngx_rpc_queue.h documents):
  the array is then read out of bounds.
\<close>

theorem register_reads_past_end:
  assumes "load s (queues s) q = Some \<lparr>notify_slot = Some a, notify_num = lastp\<rparr>"
    and "load s (notify_slots s) a = Some slots" and "int (length slots) = lastp"
  shows "ngx_rpc_queue_add_current_consumer lastp lastp conn add_ok q ctx s = None
     \<and> (pslot < 0 \<or> pslot > lastp \<longrightarrow>
          ngx_rpc_queue_add_current_consumer pslot lastp conn add_ok q ctx s = Some (None, s))"
  using register_past_end [OF assms(2,3)]
  by (simp add: add_consumer_eq [OF assms(1)] register_range)

theorem register_reads_past_end_witness:
  "ngx_rpc_queue_add_current_consumer 2 2 (Some 0) True 1 (Proc_Conf 0) (demo [3] [] 0) = None"
  using register_reads_past_end [of "demo [3] [] 0" 1 2 2 "[Some 3, Some 4]" "Some 0" True "Proc_Conf 0" 5]
  by (simp add: demo_def load_def live_def)

section \<open>The queue object\<close>

text \<open>
  \<open>ngx_rpc_queue_create\<close> with enough shared memory builds a complete queue: one new
  notify object per slot, each with an empty pending list and the eventfd the kernel gave it,
  and an empty idle list; what was live before is unchanged.
\<close>

theorem queue_create_complete:
  assumes "spare pick (chunks s) (num + 2)" and "\<And>i. oks i"
  shows "\<exists>q a ns s'. ngx_rpc_queue_create pick True oks fds (int num) s = Some (Some q, s')
     \<and> queue_ok s' q a ns \<and> length ns = num \<and> idles s' q []
     \<and> (\<forall>i < num. pending s' (ns ! i) [] \<and> map_option event_fd (notifies s' (ns ! i)) = Some (fds i))
     \<and> (\<forall>m. live s m \<longrightarrow> chunks s' m = chunks s m \<and> notifies s' m = notifies s m)
     \<and> (\<forall>p ys. ring s p ys \<longrightarrow> ring s' p ys)"
proof -
  obtain q a ns s' where s': "ngx_rpc_queue_create pick True oks fds (int num) s = Some (Some q, s')"
    "queue_ok s' q a ns" "length ns = num" "idles s' q []" "\<forall>i < num. fresh_notify s' (ns ! i) (fds i)"
    "\<forall>m \<in> {q, a} \<union> set ns. \<not> live s m"
    "\<forall>m. m \<notin> {q, a} \<union> set ns \<longrightarrow> chunks s' m = chunks s m \<and> notifies s' m = notifies s m"
    "\<forall>p ys. ring s p ys \<longrightarrow> ring s' p ys"
    using queue_create_exact [where oks = oks and fds = fds, OF assms] by blast
  have "\<forall>m. live s m \<longrightarrow> chunks s' m = chunks s m \<and> notifies s' m = notifies s m"
    using s'(6,7) by blast
  with s' show ?thesis by (auto simp: fresh_notify_def)
qed

theorem queue_create_complete_witness:
  "\<exists>q a ns s'. ngx_rpc_queue_create (first_fit 20) True (\<lambda>i. True) int (int 3) (demo [3] [] 0)
       = Some (Some q, s')
     \<and> queue_ok s' q a ns \<and> length ns = 3 \<and> idles s' q []
     \<and> (\<forall>i < 3. pending s' (ns ! i) [] \<and> map_option event_fd (notifies s' (ns ! i)) = Some (int i))
     \<and> (\<forall>m. live (demo [3] [] 0) m \<longrightarrow> chunks s' m = chunks (demo [3] [] 0) m
          \<and> notifies s' m = notifies (demo [3] [] 0) m)
     \<and> (\<forall>p ys. ring (demo [3] [] 0) p ys \<longrightarrow> ring s' p ys)"
proof -
  have "{7, 8, 9, 10, 11} \<subseteq> {a \<in> {1..<20}. chunks (demo [3] [] 0) a = None}"
    by (auto simp: demo_def)
  from card_mono [OF _ this] have "3 + 2 \<le> card {a \<in> {1..<20}. chunks (demo [3] [] 0) a = None}"
    by simp
  then show ?thesis by (intro queue_create_complete spare_first_fit) simp_all
qed

text \<open>
  C21. Creating a queue and destroying it gives every chunk back to the shared memory. The
  eventfds that the creation opened stay open: no release closes them.
\<close>

theorem queue_create_destory:
  assumes "spare pick (chunks s) (num + 2)" and "\<And>i. oks i"
  shows "\<exists>q s1 s2. ngx_rpc_queue_create pick True oks fds (int num) s = Some (Some q, s1)
     \<and> ngx_rpc_queue_destory q s1 = Some s2 \<and> chunks s2 = chunks s
     \<and> (\<forall>i < num. 0 \<le> fds i \<longrightarrow> efds s2 (fds i) = Some 0)"
proof -
  obtain q a ns s1 where s1: "ngx_rpc_queue_create pick True oks fds (int num) s = Some (Some q, s1)"
    "queue_ok s1 q a ns" "\<forall>i < num. 0 \<le> fds i \<longrightarrow> efds s1 (fds i) = Some 0"
    "\<forall>m \<in> {q, a} \<union> set ns. \<not> live s m"
    "\<forall>m. m \<notin> {q, a} \<union> set ns \<longrightarrow> chunks s1 m = chunks s m \<and> notifies s1 m = notifies s m"
    using queue_create_exact [where oks = oks and fds = fds, OF assms] by blast
  let ?s2 = "without ({q, a} \<union> set ns) s1"
  have "chunks ?s2 = chunks s"
    using s1(4,5) by (auto simp: fun_eq_iff live_def)
  moreover have "efds ?s2 = efds s1" by (simp add: without_def)
  ultimately show ?thesis
    using s1(1,3) queue_destory_eq [OF s1(2)] by auto
qed

theorem queue_create_destory_witness:
  "\<exists>q s1 s2. ngx_rpc_queue_create (first_fit 20) True (\<lambda>i. True) int (int 3) (demo [3] [] 0)
       = Some (Some q, s1)
     \<and> ngx_rpc_queue_destory q s1 = Some s2 \<and> chunks s2 = chunks (demo [3] [] 0)
     \<and> (\<forall>i < 3. 0 \<le> int i \<longrightarrow> efds s2 (int i) = Some 0)"
proof -
  have "{7, 8, 9, 10, 11} \<subseteq> {a \<in> {1..<20}. chunks (demo [3] [] 0) a = None}"
    by (auto simp: demo_def)
  from card_mono [OF _ this] have "3 + 2 \<le> card {a \<in> {1..<20}. chunks (demo [3] [] 0) a = None}"
    by simp
  then show ?thesis by (intro queue_create_destory spare_first_fit) simp_all
qed

text \<open>
  C11. \<open>ngx_rpc_queue_push_and_notify\<close> hands a task to the processor that became idle last:
  that processor leaves the idle list, the task is appended to its pending list and names it
  in \<open>proc_notify\<close>, its eventfd is signalled, and no other list changes.
\<close>

theorem push_and_notify_hands_over:
  assumes "load s (queues s) q = Some qu" and "idles s q (n # ns)"
    and "pending s n (map TaskNode ts)" and "load s (tasks s) t = Some tk" "t \<notin> set ts"
    and "notifies s n = Some nt" and "efds s (event_fd nt) = Some cnt" "cnt \<le> eventfd_max"
  shows "\<exists>s'. ngx_rpc_queue_push_and_notify q t s = Some (NGX_OK, s') \<and> idles s' q ns
     \<and> pending s' n (map TaskNode (ts @ [t]))
     \<and> tasks s' = (tasks s)(t \<mapsto> tk\<lparr>proc_notify := Some n\<rparr>)
     \<and> (\<exists>cnt'. efds s' (event_fd nt) = Some cnt' \<and> 0 < cnt')
     \<and> (\<forall>m ys. m \<noteq> n \<longrightarrow> pending s m ys \<longrightarrow> TaskNode t \<notin> set ys \<longrightarrow>
          set ys \<inter> TaskNode ` set ts = {} \<longrightarrow> (\<forall>y \<in> set ys. \<exists>u. y = TaskNode u) \<longrightarrow> pending s' m ys)"
proof -
  have t: "TaskNode t \<notin> set (map TaskNode ts)" using assms(5) by auto
  have dj: "set (NotifyHead n # map TaskNode ts) \<inter> set (QueueIdles q # map NotifyIdles (n # ns)) = {}"
    by auto
  obtain s' where s': "ngx_rpc_queue_push_and_notify q t s = Some (NGX_OK, s')" "idles s' q ns"
    "pending s' n (map TaskNode ts @ [TaskNode t])"
    "tasks s' = (tasks s)(t \<mapsto> tk\<lparr>proc_notify := Some n\<rparr>)" "notifies s' = notifies s"
    "efds s' = efds (eventfd_write (event_fd nt) 1 s)"
    "\<And>p ys. ring s p ys \<Longrightarrow> set (p # ys) \<inter> (set (QueueIdles q # map NotifyIdles ns) \<union>
         set (TaskNode t # NotifyHead n # map TaskNode ts)) = {} \<Longrightarrow> ring s' p ys"
    using push_and_notify_ok [OF assms(1-4) t assms(6) dj] by blast
  have "pending s' m ys" if "m \<noteq> n" "pending s m ys" "TaskNode t \<notin> set ys"
    "set ys \<inter> TaskNode ` set ts = {}" "\<forall>y \<in> set ys. \<exists>u. y = TaskNode u" for m ys
  proof -
    have "ring s' (NotifyHead m) ys"
      by (rule s'(7)) (use that in \<open>auto simp: pending_def\<close>)
    then show ?thesis using that(2) s'(5) by (simp add: pending_def)
  qed
  then show ?thesis
    using s'(1-4,6) eventfd_write_readable [OF assms(7,8)] by (intro exI [of _ s']) auto
qed

theorem push_and_notify_hands_over_witness:
  "\<exists>s'. ngx_rpc_queue_push_and_notify 1 6 (demo [3, 4] [5] 0) = Some (NGX_OK, s') \<and> idles s' 1 [4]
     \<and> pending s' 3 [TaskNode 5, TaskNode 6]
     \<and> tasks s' = (tasks (demo [3, 4] [5] 0))(6 \<mapsto> demo_task\<lparr>proc_notify := Some 3\<rparr>)
     \<and> (\<exists>cnt'. efds s' 10 = Some cnt' \<and> 0 < cnt')"
proof -
  have "load (demo [3, 4] [5] 0) (queues (demo [3, 4] [5] 0)) 1 = Some \<lparr>notify_slot = Some 2, notify_num = 2\<rparr>"
    "idles (demo [3, 4] [5] 0) 1 (3 # [4])" "pending (demo [3, 4] [5] 0) 3 (map TaskNode [5])"
    "load (demo [3, 4] [5] 0) (tasks (demo [3, 4] [5] 0)) 6 = Some demo_task"
    "notifies (demo [3, 4] [5] 0) 3 = Some (demo_notify 10 0)"
    "efds (demo [3, 4] [5] 0) (event_fd (demo_notify 10 0)) = Some 0"
    by (simp_all add: demo_simps)
  from push_and_notify_hands_over [OF this(1-4) _ this(5,6)] show ?thesis
    by (auto simp: demo_notify_def)
qed

text \<open>
  With no idle processor the operation reports \<open>NGX_ERROR\<close> and changes nothing: the task
  is neither queued nor marked.
\<close>

theorem push_and_notify_no_idle:
  assumes "load s (queues s) q = Some qu" and "idles s q []"
  shows "ngx_rpc_queue_push_and_notify q t s = Some (NGX_ERROR, s)"
  using assms by (rule push_and_notify_none)

theorem push_and_notify_no_idle_witness:
  "ngx_rpc_queue_push_and_notify 1 6 (demo [] [5] 0) = Some (NGX_ERROR, demo [] [5] 0)"
  by (rule push_and_notify_no_idle [where qu = "\<lparr>notify_slot = Some 2, notify_num = 2\<rparr>"])
    (simp_all add: demo_simps)

section \<open>Tasks and their buffers\<close>

text \<open>
  C12. \<open>ngx_http_rpc_task_set_bufs\<close> into a task's empty chain makes a deep copy: the chain
  built in the task has one new buffer per source buffer, in order and with the same bytes,
  every structure and block of it was free before, and nothing that was live changes apart
  from the two fields of the destination. Three allocations per buffer suffice.
\<close>

theorem set_bufs_deep_copy:
  assumes "cell_kind s h" "get_buf h s = Some None" "get_link h s = Some None"
    and "chain_seg s (Some c) cs"
    and "list_all2 (\<lambda>(c, b) bs. buf_content s b = Some bs) cs bss"
    and "spare pick (chunks s) (3 * length cs - 1)"
  shows "\<exists>s' ts. ngx_http_rpc_task_set_bufs pick h (Some c) s = Some s'
     \<and> owned_chain s' h ts \<and> owned_bytes ts = bss
     \<and> (\<forall>a \<in> set (owned_addrs ts). \<not> live s a)
     \<and> (\<forall>a. live s a \<longrightarrow> chunks s' a = chunks s a \<and> bufs s' a = bufs s a \<and> data s' a = data s a)
     \<and> (\<forall>x. live s (chowner x) \<longrightarrow> x \<noteq> h \<longrightarrow> get_buf x s' = get_buf x s \<and> get_link x s' = get_link x s)
     \<and> chain_seg s' (Some c) cs \<and> list_all2 (\<lambda>(c, b) bs. buf_content s' b = Some bs) cs bss"
proof -
  obtain s' ts where s': "ngx_http_rpc_task_set_bufs pick h (Some c) s = Some s'" "owned_chain s' h ts"
    "owned_bytes ts = bss" "grows {h} s s'" "\<forall>a \<in> set (owned_addrs ts). \<not> live s a"
    using set_bufs_fresh [OF assms(1-5), of pick 0] assms(6) by auto
  have "h \<notin> fst ` set cs"
  proof
    assume "h \<in> fst ` set cs"
    then obtain b where "(h, b) \<in> set cs" by auto
    moreover have "chain_seg s p cs \<Longrightarrow> (h, b) \<in> set cs \<Longrightarrow> get_buf h s = Some (Some b)" for p
      by (induction cs arbitrary: p) (auto split: option.splits)
    ultimately show False using assms(2,4) by fastforce
  qed
  then have "chain_seg s' (Some c) cs"
    using grows_chain_seg [OF s'(4) assms(4)] by simp
  moreover have "list_all2 (\<lambda>(c, b) bs. buf_content s' b = Some bs) cs bss"
    using assms(5) by (rule list_all2_mono) (auto dest: grows_content [OF s'(4)])
  moreover have "\<forall>a. live s a \<longrightarrow> chunks s' a = chunks s a \<and> bufs s' a = bufs s a \<and> data s' a = data s a"
    using s'(4) by (simp add: grows_def)
  moreover have "\<forall>x. live s (chowner x) \<longrightarrow> x \<noteq> h \<longrightarrow> get_buf x s' = get_buf x s \<and> get_link x s' = get_link x s"
    using grows_cell [OF s'(4)] by blast
  ultimately show ?thesis using s' by blast
qed

text \<open>The witness copies a pool buffer that holds two bytes into the task 5.\<close>

definition demo_body :: pstate where
  "demo_body = (demo [3] [] 0)\<lparr>
     chunks := (chunks (demo [3] [] 0))(7 \<mapsto> Pool_mem Chain_t, 8 \<mapsto> Pool_mem Buf_t, 9 \<mapsto> Pool_mem (Bytes 4)),
     chain_buf := (chain_buf (demo [3] [] 0))(Chain_cell 7 \<mapsto> Some 8),
     chain_next := (chain_next (demo [3] [] 0))(Chain_cell 7 \<mapsto> None),
     bufs := [8 \<mapsto> \<lparr>b_pos = (9, 1), b_last = (9, 3), b_start = (9, 0), b_end = (9, 4), b_in_file = False,
                b_last_buf = True, b_temporary = True, b_memory = False\<rparr>],
     data := [9 \<mapsto> [1, 2, 3, 4]]\<rparr>"

theorem set_bufs_deep_copy_witness:
  "\<exists>s' ts. ngx_http_rpc_task_set_bufs (first_fit 20) (Req_bufs 5) (Some (Chain_cell 7)) demo_body = Some s'
     \<and> owned_chain s' (Req_bufs 5) ts \<and> owned_bytes ts = [[2, 3]]"
proof -
  have "{10, 11} \<subseteq> {a \<in> {1..<20}. chunks demo_body a = None}"
    by (auto simp: demo_body_def demo_def)
  from card_mono [OF _ this] have "spare (first_fit 20) (chunks demo_body) (3 * length [(Chain_cell 7, 8)] - 1)"
    by (intro spare_first_fit) simp
  moreover have "cell_kind demo_body (Req_bufs 5)" "get_buf (Req_bufs 5) demo_body = Some None"
    "get_link (Req_bufs 5) demo_body = Some None" "chain_seg demo_body (Some (Chain_cell 7)) [(Chain_cell 7, 8)]"
    "list_all2 (\<lambda>(c, b) bs. buf_content demo_body b = Some bs) [(Chain_cell 7, 8)] [[2, 3]]"
    by (simp_all add: demo_body_def demo_def cell_kind_def chain_defs live_def buf_content_def load_def
        ptr_diff_def read_bytes_def numeral_eq_Suc)
  ultimately show ?thesis using set_bufs_deep_copy by blast
qed

text \<open>
  C25. Setting a chain that already holds buffers. With one buffer, its structure and its
  block are released and the operation goes on as on an empty chain. With two or more, the
  loop over the old cells reads the link of the cell it has just released: the operation has
  no defined result, whatever the source.
\<close>

theorem set_bufs_refill:
  assumes "owned_chain s h ((h, b, k, bs) # ts)"
  shows "(ts = [] \<longrightarrow> ngx_http_rpc_task_set_bufs pick h src s =
       ngx_http_rpc_task_set_bufs pick h src ((without {b, k} s)\<lparr>chain_buf := (chain_buf s)(h \<mapsto> None)\<rparr>))
     \<and> (ts \<noteq> [] \<longrightarrow> ngx_http_rpc_task_set_bufs pick h src s = None)"
proof (intro conjI impI)
  have h: "cell_kind s h" "get_buf h s = Some (Some b)" "owned_buf s b k bs" "b \<noteq> k"
    using assms by (simp_all add: owned_chain_def)
  assume "ts \<noteq> []"
  then obtain c where "get_link h s = Some (Some c)"
    using assms by (cases ts) (auto simp: owned_chain_def split: option.splits)
  then show "ngx_http_rpc_task_set_bufs pick h src s = None" by (rule set_bufs_old_tail)
next
  have h: "cell_kind s h" "get_buf h s = Some (Some b)" "owned_buf s b k bs" "b \<noteq> k"
    using assms by (simp_all add: owned_chain_def)
  assume "ts = []"
  then have l: "get_link h s = Some None"
    using assms by (auto simp: owned_chain_def split: option.splits)
  obtain bf where b: "chunks s b = Some Buf_t" "chunks s k = Some (Bytes (int (length bs)))"
    "load s (bufs s) b = Some bf" "b_pos bf = (k, 0)"
    using h(3) by (auto simp: owned_buf_def load_def live_def split: option.splits)
  have hk: "chowner h \<noteq> k" "chowner h \<noteq> b" "live s (chowner h)"
    using h(1) b(1,2) by (cases h; auto simp: cell_kind_def live_def)+
  let ?s2 = "(without {b, k} s)\<lparr>chain_buf := (chain_buf s)(h \<mapsto> None)\<rparr>"
  have f: "free_ptr (b_pos bf) s = Some (without {k} s)"
    "ngx_slab_free b (without {k} s) = Some (without {b, k} s)"
    using b h(4) free_without [of "without {k} s" b Buf_t]
    by (simp_all add: free_ptr_def free_without without_without insert_commute)
  have ok: "get_buf h ?s2 = Some None" "get_link h ?s2 = Some None"
    "set_buf h None (without {b, k} s) = Some ?s2" "get_link h ?s2 = Some None"
    using hk l by (auto simp: chain_defs live_def)
  have "release_tail None ?s2 = Some ?s2" by (subst release_tail.simps) simp
  moreover have "set_link h None ?s2 = Some ?s2"
    using ok(2) by (auto simp: chain_defs fun_upd_idem split: if_splits)
  ultimately have "ngx_http_rpc_task_set_bufs pick h src s = copy_bufs pick h src ?s2"
    using h(2) b(3) f ok by (simp add: ngx_http_rpc_task_set_bufs_def)
  then show "ngx_http_rpc_task_set_bufs pick h src s = ngx_http_rpc_task_set_bufs pick h src ?s2"
    using set_bufs_fresh_eq [OF ok(1,2)] by metis
qed

text \<open>A task whose request has \<open>k\<close> buffers of one byte, the cells, structures and blocks at 20 to 22 and 30 to 32.\<close>

definition demo_filled :: pstate where
  "demo_filled = (demo [3] [] 0)\<lparr>
     chunks := (chunks (demo [3] [] 0))(20 \<mapsto> Buf_t, 21 \<mapsto> Bytes 1, 30 \<mapsto> Chain_t, 31 \<mapsto> Buf_t, 32 \<mapsto> Bytes 1),
     chain_buf := (chain_buf (demo [3] [] 0))(Req_bufs 5 \<mapsto> Some 20, Chain_cell 30 \<mapsto> Some 31),
     chain_next := (chain_next (demo [3] [] 0))(Req_bufs 5 \<mapsto> Some (Chain_cell 30), Chain_cell 30 \<mapsto> None),
     bufs := [20 \<mapsto> \<lparr>b_pos = (21, 0), b_last = (21, 1), b_start = (21, 0), b_end = (21, 1),
                b_in_file = False, b_last_buf = False, b_temporary = False, b_memory = True\<rparr>,
              31 \<mapsto> \<lparr>b_pos = (32, 0), b_last = (32, 1), b_start = (32, 0), b_end = (32, 1),
                b_in_file = False, b_last_buf = True, b_temporary = False, b_memory = True\<rparr>],
     data := [21 \<mapsto> [7], 32 \<mapsto> [8]]\<rparr>"

lemma demo_filled_owned:
  "owned_chain demo_filled (Req_bufs 5) [(Req_bufs 5, 20, 21, [7]), (Chain_cell 30, 31, 32, [8])]"
  by (simp add: demo_filled_def demo_def owned_chain_def cell_kind_def chain_defs live_def owned_buf_def)

theorem set_bufs_refill_witness:
  "ngx_http_rpc_task_set_bufs (first_fit 40) (Req_bufs 5) None demo_filled = None"
  using set_bufs_refill [OF demo_filled_owned] by simp

text \<open>
  C23. Destroying a task whose two chains the module filled releases the task and every data
  block of the chains. It releases nothing else: the buffer structures and the chain cells
  stay allocated although nothing refers to them any more.
\<close>

theorem task_destory_releases:
  assumes "chunks s t = Some Task_t" "tasks s t = Some tk"
    and "owned_chain s (Req_bufs t) rq" and "owned_chain s (Res_bufs t) rs"
    and "set (owned_addrs rq) \<inter> set (owned_addrs rs) = {}"
  shows "\<exists>s'. ngx_http_rpc_task_destory t s = Some s'
     \<and> (\<forall>a. chunks s' a = (if a = t \<or> a \<in> set (owned_blocks rq) \<union> set (owned_blocks rs) then None
                           else chunks s a))
     \<and> (\<forall>(c, b, k, bs) \<in> set (rq @ rs). live s' b)
     \<and> (\<forall>a bs. (Chain_cell a, bs) \<in> set (rq @ rs) \<longrightarrow> live s' a)"
proof -
  let ?B = "{t} \<union> set (owned_blocks rs) \<union> set (owned_blocks rq)"
  have d: "ngx_http_rpc_task_destory t s = Some (without ?B s)"
    by (rule destory_eq [OF assms])
  have seg: "owned_seg s p ts \<Longrightarrow> (c, b, k, bs) \<in> set ts \<Longrightarrow>
      chunks s b = Some Buf_t \<and> cell_kind s c \<and> chunks s k = Some (Bytes (int (length bs)))"
    for p ts c b k bs
    by (induction ts arbitrary: p) (auto simp: owned_buf_def split: option.splits)
  have own: "chunks s b = Some Buf_t \<and> cell_kind s c \<and> chunks s k = Some (Bytes (int (length bs)))"
    if "(c, b, k, bs) \<in> set (rq @ rs)" for c b k bs
    using that seg assms(3,4) unfolding owned_chain_def by (auto split: if_splits)
  have blk: "\<exists>n. chunks s k = Some (Bytes n)" if "k \<in> set (owned_blocks rs) \<union> set (owned_blocks rq)" for k
    using that own by (fastforce simp: owned_blocks_def)
  have "live (without ?B s) a" if "chunks s a = Some Buf_t \<or> chunks s a = Some Chain_t" for a
    using that assms(1) blk [of a] by (auto simp: live_def)
  then show ?thesis
    using d own by (intro exI [of _ "without ?B s"]) (fastforce simp: cell_kind_def)
qed

theorem task_destory_releases_witness:
  "\<exists>s'. ngx_http_rpc_task_destory 5 demo_filled = Some s'
     \<and> chunks s' 5 = None \<and> chunks s' 21 = None \<and> chunks s' 32 = None
     \<and> live s' 20 \<and> live s' 31 \<and> live s' 30"
proof -
  have "chunks demo_filled 5 = Some Task_t" "tasks demo_filled 5 = Some demo_task"
    "owned_chain demo_filled (Res_bufs 5) []"
    by (simp_all add: demo_filled_def demo_def owned_chain_def cell_kind_def chain_defs live_def)
  from task_destory_releases [OF this(1,2) demo_filled_owned this(3)] show ?thesis
    by (auto simp: owned_blocks_def)
qed

text \<open>
  C24. The reference count: starting from the count 0 that the creation leaves, \<open>k\<close>
  additions followed by \<open>k\<close> subtractions give back the very same state, and one subtraction
  more destroys the task. The count is kept modulo \<open>2 ^ 64\<close>.
\<close>

theorem refcount_balanced:
  assumes "live s t" and "tasks s t = Some tk" and "refcount tk = 0" and "k < 2 ^ 64"
  shows "Option.bind (ref_adds k t s) (ref_subs k t) = Some s
     \<and> Option.bind (ref_adds k t s) (ref_subs (Suc k) t) =
         ngx_http_rpc_task_destory t (s\<lparr>tasks := (tasks s)(t \<mapsto> tk\<lparr>refcount := - 1\<rparr>)\<rparr>)"
proof -
  have "tk\<lparr>refcount := 0\<rparr> = tk" using assms(3) by (cases tk) simp
  then have s: "s = with_count 0 t tk s" using assms(2) by (simp add: with_count_def fun_upd_idem)
  have adds: "ref_adds k t s = Some (with_count (of_nat k) t tk s)"
    by (subst s) (simp add: ref_adds_eq [OF assms(1)])
  have subs: "ref_subs k t (with_count (of_nat k) t tk s) = Some (with_count 0 t tk s)"
    using ref_subs_eq [OF assms(1) order_refl assms(4), of tk] by simp
  have "ref_subs (Suc k) t (with_count (of_nat k) t tk s)
      = ngx_http_rpc_task_ref_sub t (with_count 0 t tk s)"
    using subs by (simp add: ref_subs_def)
  also have "\<dots> = ngx_http_rpc_task_destory t (with_count (- 1) t tk s)"
    by (rule ref_sub_last [OF assms(1)])
  finally show ?thesis
    using adds subs s by (simp add: with_count_def)
qed

theorem refcount_balanced_witness:
  "Option.bind (ref_adds 2 5 demo_filled) (ref_subs 2 5) = Some demo_filled"
  using refcount_balanced [of demo_filled 5 demo_task 2]
  by (simp add: demo_filled_def demo_def live_def demo_task_def zero_task_def)

section \<open>The processor\<close>

text \<open>
  C10. A processor that is woken and is not on the idle list runs every pending task exactly
  once, first pushed first run, and is then the first idle processor with nothing pending.
  \<open>note\<close> is any observation that a task's function updates by \<open>upd\<close>.
\<close>

theorem one_cycle_runs_all:
  assumes "proc_pending s c n (map TaskNode ts)" and "idles s q ns" and "n \<notin> set ns"
    and "pconfs s c = Some cf" "pc_queue cf = Some q"
    and "\<And>t. t \<in> set ts \<Longrightarrow> \<exists>tk. load s (tasks s) t = Some tk \<and> handler (closure tk) \<noteq> None"
    and "I s" and "task_contract exec I note upd c n q"
    and "\<And>s a b. note (s\<lparr>qnext := a, qprev := b\<rparr>) = note s"
  shows "\<exists>s'. ngx_proc_rpc_process_one_cycle exec c s = Some s'
     \<and> proc_pending s' c n [] \<and> idles s' q (n # ns) \<and> note s' = fold upd ts (note s)"
proof -
  have run: "\<forall>x \<in> set (map TaskNode ts). runnable s x"
    using assms(6) by (auto simp: runnable_def)
  obtain s1 where s1: "ngx_proc_rpc_process_one_cycle exec c s = put_idle q n s1"
    "proc_pending s1 c n []" "idles s1 q ns" "note s1 = fold (upd \<circ> node_task) (map TaskNode ts) (note s)"
    using one_cycle_eq [OF assms(1,2,4,5) run assms(7,8)] by blast
  obtain s' where s': "put_idle q n s1 = Some s'" "idles s' q (n # ns)" "proc_pending s' c n []"
    "s' = s1\<lparr>qnext := qnext s', qprev := qprev s'\<rparr>"
    using put_idle_pending [OF s1(2,3) assms(3)] by blast
  have "note s' = note s1" using assms(9) s'(4) by metis
  then show ?thesis using s1 s'(1-3) by (auto simp: fold_map comp_def)
qed

text \<open>A task function that appends the number of its task to the bytes at 0.\<close>

definition demo_exec :: "unit exec" where
  "demo_exec f t p s =
     Some (s\<lparr>data := (data s)(0 := map_option (\<lambda>bs. bs @ [of_nat t]) (data s 0))\<rparr>)"

lemma demo_exec_turns:
  assumes J: "\<And>(s :: pstate) d. J (s\<lparr>data := d\<rparr>) = J s"
    and I: "\<And>(s :: pstate) a b d. I (s\<lparr>qnext := a, qprev := b, data := d\<rparr>) = I s"
  shows "turn_contract demo_exec I J (\<lambda>s. data s 0) (\<lambda>t. map_option (\<lambda>bs. bs @ [of_nat t])) c n"
  unfolding turn_contract_def
proof (intro allI impI, elim conjE)
  fix s s1 :: pstate and t tk f xs
  assume Is: "I s" and p: "proc_pending s c n (TaskNode t # xs)" and pop: "cycle_pop c s = Some (Some (TaskNode t), s1)"
    and s1: "proc_pending s1 c n xs" "J s1"
  have "pending_pop n s = Some (Some (TaskNode t), s1)"
    using p pop by (simp add: proc_pending_def cycle_pop_eq)
  note links = pending_pop_links [OF this]
  have "data s1 = data s" by (subst links) simp
  moreover have "load s1 (tasks s1) = load s (tasks s)" "pconfs s1 = pconfs s"
    using links_frame [OF links] by (simp_all add: fun_eq_iff load_def)
  moreover have "ring (s1\<lparr>data := d\<rparr>) x ys = ring s1 x ys" for d x ys
    by (simp add: ring_iff node_live_def live_def)
  moreover have "live (s1\<lparr>data := d\<rparr>) = live s1" "load (s1\<lparr>data := d\<rparr>) m = load s1 m" for d and m :: "addr \<rightharpoonup> ngx_rpc_task"
    by (simp_all add: fun_eq_iff load_def live_def)
  moreover obtain a b where "s1 = s\<lparr>qnext := a, qprev := b\<rparr>" using links by blast
  then have "I (s1\<lparr>data := d\<rparr>)" for d using I Is by simp
  ultimately show "\<exists>s2. demo_exec f t (p1 (closure tk)) s1 = Some s2 \<and> I s2
      \<and> proc_pending s2 c n xs \<and> J s2 \<and> pconfs s2 c = pconfs s c
      \<and> data s2 0 = map_option (\<lambda>bs. bs @ [of_nat t]) (data s 0)
      \<and> (\<forall>u. TaskNode u \<in> set xs \<longrightarrow> load s2 (tasks s2) u = load s (tasks s) u)"
    using s1 J by (simp add: demo_exec_def proc_pending_def pending_def)
qed

lemma demo_exec_contract:
  "task_contract demo_exec (\<lambda>s. I (notifies s) (efds s) (live s)) (\<lambda>s. data s 0)
     (\<lambda>t. map_option (\<lambda>bs. bs @ [of_nat t])) c n q"
proof -
  have "live (s\<lparr>qnext := a, qprev := b, data := d\<rparr>) = live s" for s :: pstate and a b d
    by (simp add: live_def fun_eq_iff)
  then show ?thesis
    unfolding task_contract_def
    by (intro allI demo_exec_turns) (simp_all add: idles_def ring_iff node_live_def live_def)
qed

theorem one_cycle_runs_all_witness:
  "\<exists>s'. ngx_proc_rpc_process_one_cycle demo_exec 0 (demo [4] [6, 5] 0) = Some s'
     \<and> proc_pending s' 0 3 [] \<and> idles s' 1 [3, 4] \<and> data s' 0 = Some [6, 5]"
proof -
  have "proc_pending (demo [4] [6, 5] 0) 0 3 (map TaskNode [6, 5])" "idles (demo [4] [6, 5] 0) 1 [4]"
    "pconfs (demo [4] [6, 5] 0) 0 = Some \<lparr>pc_shpool = Some 0, pc_queue = Some 1, pc_notify = Some 3, shm_size = 0\<rparr>"
    by (simp_all add: demo_simps)
  moreover have "t \<in> set [6, 5] \<Longrightarrow> \<exists>tk. load (demo [4] [6, 5] 0) (tasks (demo [4] [6, 5] 0)) t = Some tk
      \<and> handler (closure tk) \<noteq> None" for t
    by (auto simp: demo_simps)
  moreover have "data (demo [4] [6, 5] 0) 0 = Some []" by (simp add: demo_def)
  ultimately show ?thesis
    using one_cycle_runs_all [OF _ _ _ _ _ _ _ demo_exec_contract [of "\<lambda>_ _ _. True"],
        of "demo [4] [6, 5] 0" 0 3 "[6, 5]" 1 "[4]"]
    by simp
qed

lemma read_handler_ties:
  assumes "proc_pending s c n (map TaskNode ts)" and "idles s q ns" and "n \<notin> set ns"
    and "pconfs s c = Some cf" "pc_queue cf = Some q"
    and "\<And>t. t \<in> set ts \<Longrightarrow> \<exists>tk. load s (tasks s) t = Some tk \<and> handler (closure tk) \<noteq> None"
    and nt: "notifies s n = Some nt" "read_hanlder nt = Some Proc_Process_One_Cycle"
      "notify_ctx nt = Some (Proc_Conf c)"
    and sig: "efds s (event_fd nt) = Some cnt" "0 < cnt"
    and I: "I (s\<lparr>efds := (efds s)(event_fd nt \<mapsto> 0)\<rparr>)"
      "\<And>s. I s \<Longrightarrow> notifies s n = Some nt \<and> efds s (event_fd nt) = Some 0"
    and k: "task_contract exec I note upd c n q"
    and conn: "conns s conn = Some cn" "c_sockaddr cn = n"
  shows "\<exists>s'. ngx_rpc_notify_read_handler (proc_call exec worker) conn s = Some s'
     \<and> idle_loop s' q n \<and> (\<forall>ms. \<not> idles s' q ms) \<and> proc_pending s' c n [] \<and> pconfs s' c = Some cf
     \<and> (\<exists>s1 a b. s' = s1\<lparr>qnext := a, qprev := b\<rparr> \<and> I s1
          \<and> note s1 = fold upd ts (note (s\<lparr>efds := (efds s)(event_fd nt \<mapsto> 0)\<rparr>)))"
proof -
  let ?s = "s\<lparr>efds := (efds s)(event_fd nt \<mapsto> 0)\<rparr>"
  have p0: "proc_pending ?s c n (map TaskNode ts)" "idles ?s q ns" "pconfs ?s c = Some cf"
    using assms(1-4) by (simp_all add: proc_pending_def pending_def idles_def)
  have run: "\<forall>x \<in> set (map TaskNode ts). runnable ?s x"
    using assms(6) by (auto simp: runnable_def load_def)
  obtain s1 where s1: "ngx_proc_rpc_process_one_cycle exec c ?s = put_idle q n s1"
    "proc_pending s1 c n []" "idles s1 q ns" "pconfs s1 c = Some cf" "I s1" "note s1 = fold (upd \<circ> node_task) (map TaskNode ts) (note ?s)"
    using one_cycle_eq [OF p0(1-3) assms(5) run I(1) k] by blast
  obtain s2 where s2: "put_idle q n s1 = Some s2" "idles s2 q (n # ns)" "proc_pending s2 c n []"
    "s2 = s1\<lparr>qnext := qnext s2, qprev := qprev s2\<rparr>"
    using put_idle_pending [OF s1(2,3) assms(3)] by blast
  note fr = links_frame [OF s2(4)]
  have cyc2: "drain (cycle_pop c) (cycle_body exec) s2 = Some s2"
    using proc_pool.pop_none [OF s2(3)] by (subst drain_unfold) simp
  have n: "pc_notify cf = Some n" using s1(2,4) by (simp add: proc_pending_def)
  obtain s3 where s3: "put_idle q n s2 = Some s3" "idle_loop s3 q n" "\<forall>ms. \<not> idles s3 q ms"
    "s3 = s2\<lparr>qnext := qnext s3, qprev := qprev s3\<rparr>"
    "\<And>p ys. ring s2 p ys \<Longrightarrow> {QueueIdles q, NotifyIdles n} \<inter> set (p # ys) = {} \<Longrightarrow> ring s3 p ys"
    using put_idle_again [OF s2(2)] by blast
  have c2: "ngx_proc_rpc_process_one_cycle exec c s2 = Some s3"
    using cyc2 n s1(4) s3(1) assms(5) fr(6) by (simp add: one_cycle_code)
  have ln: "live s n" "live s2 n"
    using assms(1) s2(3) by (auto simp: proc_pending_def dest: pending_live)
  have "notify_read_loop (proc_call exec worker) n s = proc_call exec worker Proc_Process_One_Cycle (Proc_Conf c) s2"
  proof (rule read_loop_signalled [OF _ nt(2,3) sig])
    show "load s (notifies s) n = Some nt" using nt(1) ln(1) by (simp add: load_def)
    show "proc_call exec worker Proc_Process_One_Cycle (Proc_Conf c) ?s = Some s2"
      using s1(1) s2(1) by (simp add: proc_call_def)
    show "load s2 (notifies s2) n = Some nt" "efds s2 (event_fd nt) = Some 0"
      using I(2) [OF s1(5)] fr ln(2) by (simp_all add: load_def)
  qed
  then have "ngx_rpc_notify_read_handler (proc_call exec worker) conn s = Some s3"
    using conn c2 by (simp add: ngx_rpc_notify_read_handler_def proc_call_def)
  moreover have "ring s3 (NotifyHead n) []"
    by (rule s3(5)) (use s2(3) in \<open>auto simp: proc_pending_def pending_def\<close>)
  then have "proc_pending s3 c n []"
    using s2(3) links_frame [OF s3(4)] by (simp add: proc_pending_def pending_def)
  moreover have "\<exists>a b. s3 = s1\<lparr>qnext := a, qprev := b\<rparr>"
    by (subst s3(4), subst s2(4)) auto
  moreover have "note s1 = fold upd ts (note ?s)" using s1(6) by (simp add: fold_map comp_def)
  moreover have "pconfs s3 c = Some cf" using s1(4) fr(6) links_frame(6) [OF s3(4)] by simp
  ultimately show ?thesis using s3(2,3) s1(5) by blast
qed

text \<open>
  C22. The read callback of a registered processor runs the cycle once for the signal and once
  more for the failed \<open>read\<close> that ends its loop. The second cycle links the notify object in
  although it is already the first idle one: its link then points to itself. From then on the
  idle list is no well-formed list, every taker gets this processor however often it takes,
  and the processors that were idle before are never taken again.
\<close>

theorem read_handler_ties_idle_list:
  assumes "proc_pending s c n (map TaskNode ts)" and "idles s q ns" and "n \<notin> set ns"
    and "pconfs s c = Some cf" "pc_queue cf = Some q"
    and "\<And>t. t \<in> set ts \<Longrightarrow> \<exists>tk. load s (tasks s) t = Some tk \<and> handler (closure tk) \<noteq> None"
    and nt: "notifies s n = Some nt" "read_hanlder nt = Some Proc_Process_One_Cycle"
      "notify_ctx nt = Some (Proc_Conf c)"
    and sig: "efds s (event_fd nt) = Some cnt" "0 < cnt"
    and I: "I (s\<lparr>efds := (efds s)(event_fd nt \<mapsto> 0)\<rparr>)"
      "\<And>s. I s \<Longrightarrow> notifies s n = Some nt \<and> efds s (event_fd nt) = Some 0"
    and k: "task_contract exec I note upd c n q"
    and conn: "conns s conn = Some cn" "c_sockaddr cn = n"
  shows "\<exists>s'. ngx_rpc_notify_read_handler (proc_call exec worker) conn s = Some s'
     \<and> (\<forall>ms. \<not> idles s' q ms)
     \<and> (\<forall>j. take_idles j q s' = Some (replicate j (Some (NotifyIdles n))))"
proof -
  obtain s' where "ngx_rpc_notify_read_handler (proc_call exec worker) conn s = Some s'" "idle_loop s' q n" "\<forall>ms. \<not> idles s' q ms"
    using read_handler_ties [where exec = exec and worker = worker and I = I, OF assms] by blast
  then show ?thesis using idle_loop_takes by blast
qed

theorem read_handler_ties_idle_list_witness:
  "\<exists>s'. ngx_rpc_notify_read_handler (proc_call demo_exec Some) 0
         ((demo [4] [5] 1)\<lparr>conns := [0 \<mapsto> \<lparr>c_fd = 10, c_sockaddr = 3, c_read_handler = Notify_Read_Handler,
            c_read_data = 0, c_write_handler = Notify_Write_Handler, c_write_data = 0, c_added = True,
            c_write_event = True\<rparr>]\<rparr>) = Some s'
     \<and> (\<forall>ms. \<not> idles s' 1 ms)
     \<and> (\<forall>j. take_idles j 1 s' = Some (replicate j (Some (NotifyIdles 3))))"
  by (rule read_handler_ties_idle_list [where ts = "[5]" and ns = "[4]" and c = 0 and nt = "demo_notify 10 0"
        and cnt = 1, OF _ _ _ _ _ _ _ _ _ _ _ _ _
        demo_exec_contract [of "\<lambda>nts es l. nts 3 = Some (demo_notify 10 0) \<and> es 10 = Some 0"]],
      simp_all add: demo_simps, simp_all)

text \<open>
  Submitting a task and letting the chosen processor run: the worker's push and the
  processor's next cycle together run the task's function once, after whatever was pending on
  that processor, and put the processor back at the front of the idle list.
\<close>

theorem submit_then_run:
  assumes "load s (queues s) q = Some qu" and "idles s q (n # ns)"
    and "proc_pending s c n (map TaskNode ts)" and "t \<notin> set ts"
    and "pconfs s c = Some cf" "pc_queue cf = Some q"
    and "\<And>u. u \<in> set (ts @ [t]) \<Longrightarrow> \<exists>tk. load s (tasks s) u = Some tk \<and> handler (closure tk) \<noteq> None"
    and "task_contract exec (\<lambda>_. True) note upd c n q"
    and "\<And>s a b. note (s\<lparr>qnext := a, qprev := b\<rparr>) = note s"
    and "\<And>s e. note (s\<lparr>efds := e\<rparr>) = note s" and "\<And>s m. note (s\<lparr>tasks := m\<rparr>) = note s"
  shows "\<exists>s1 s2. ngx_rpc_queue_push_and_notify q t s = Some (NGX_OK, s1)
     \<and> ngx_proc_rpc_process_one_cycle exec c s1 = Some s2
     \<and> proc_pending s2 c n [] \<and> idles s2 q (n # ns) \<and> note s2 = fold upd (ts @ [t]) (note s)"
proof -
  have p: "pending s n (map TaskNode ts)" using assms(3) by (simp add: proc_pending_def)
  obtain nt where nt: "notifies s n = Some nt" using p by (auto simp: pending_def)
  obtain tk where tk: "load s (tasks s) t = Some tk" "handler (closure tk) \<noteq> None" using assms(7) [of t] by auto
  have tn: "TaskNode t \<notin> set (map TaskNode ts)" using assms(4) by auto
  have dj: "set (NotifyHead n # map TaskNode ts) \<inter> set (QueueIdles q # map NotifyIdles (n # ns)) = {}"
    by auto
  obtain s1 where s1: "ngx_rpc_queue_push_and_notify q t s = Some (NGX_OK, s1)" "idles s1 q ns"
    "pending s1 n (map TaskNode (ts @ [t]))"
    "tasks s1 = (tasks s)(t \<mapsto> tk\<lparr>proc_notify := Some n\<rparr>)" "chunks s1 = chunks s" "notifies s1 = notifies s"
    using push_and_notify_ok [OF assms(1,2) p tk(1) tn nt dj] by (auto simp del: fun_upd_apply)
  obtain a b e m where eq: "s1 = s\<lparr>tasks := m, qnext := a, qprev := b, efds := e\<rparr>"
    using push_and_notify_shape [OF s1(1)] by blast
  have "note s1 = note s" unfolding eq assms(9-11) by (simp add: assms(9))
  have pc: "pconfs s1 c = Some cf" using assms(5) by (simp add: eq)
  have p1: "proc_pending s1 c n (map TaskNode (ts @ [t]))"
    using s1(3) assms(3,5) pc by (simp add: proc_pending_def)
  have run1: "\<forall>x \<in> set (map TaskNode (ts @ [t])). runnable s1 x"
  proof
    fix x
    assume "x \<in> set (map TaskNode (ts @ [t]))"
    then obtain u where x: "x = TaskNode u" "u \<in> set (ts @ [t])" by auto
    then obtain tk' where u: "x = TaskNode u" "load s (tasks s) u = Some tk'" "handler (closure tk') \<noteq> None"
      using assms(7) by blast
    show "runnable s1 x"
      using u tk s1(4,5) by (cases "u = t") (auto simp: runnable_def load_Some_iff live_def)
  qed
  obtain s1' where s1': "ngx_proc_rpc_process_one_cycle exec c s1 = put_idle q n s1'"
    "proc_pending s1' c n []" "idles s1' q ns"
    "note s1' = fold (upd \<circ> node_task) (map TaskNode (ts @ [t])) (note s1)"
    using one_cycle_eq [OF p1 s1(2) pc assms(6) run1 TrueI assms(8)] by blast
  have "n \<notin> set ns"
    using assms(2) by (auto simp: idles_def dest!: ring_distinct)
  from put_idle_pending [OF s1'(2,3) this] obtain s2 where s2:
    "put_idle q n s1' = Some s2" "idles s2 q (n # ns)" "proc_pending s2 c n []"
    "s2 = s1'\<lparr>qnext := qnext s2, qprev := qprev s2\<rparr>"
    by blast
  have "note s2 = note s1'" using assms(9) s2(4) by metis
  then show ?thesis
    using s1(1) s1'(1,4) s2(1-3) \<open>note s1 = note s\<close>
    by (intro exI [of _ s1] exI [of _ s2]) (simp add: fold_map comp_def)
qed

theorem submit_then_run_witness:
  "\<exists>s1 s2. ngx_rpc_queue_push_and_notify 1 6 (demo [3, 4] [5] 0) = Some (NGX_OK, s1)
     \<and> ngx_proc_rpc_process_one_cycle demo_exec 0 s1 = Some s2
     \<and> proc_pending s2 0 3 [] \<and> idles s2 1 [3, 4] \<and> data s2 0 = Some [5, 6]"
proof -
  have "load (demo [3, 4] [5] 0) (queues (demo [3, 4] [5] 0)) 1 = Some \<lparr>notify_slot = Some 2, notify_num = 2\<rparr>"
    "idles (demo [3, 4] [5] 0) 1 (3 # [4])" "proc_pending (demo [3, 4] [5] 0) 0 3 (map TaskNode [5])"
    "pconfs (demo [3, 4] [5] 0) 0 = Some \<lparr>pc_shpool = Some 0, pc_queue = Some 1, pc_notify = Some 3, shm_size = 0\<rparr>"
    "u \<in> set ([5] @ [6]) \<Longrightarrow> \<exists>tk. load (demo [3, 4] [5] 0) (tasks (demo [3, 4] [5] 0)) u = Some tk
       \<and> handler (closure tk) \<noteq> None"
    "data (demo [3, 4] [5] 0) 0 = Some []" for u
    by (auto simp: demo_simps)
  then show ?thesis
    using submit_then_run [OF _ _ _ _ _ _ _ demo_exec_contract [of "\<lambda>_ _ _. True"],
        where s = "demo [3, 4] [5] 0" and q = 1 and n = 3 and ns = "[4]" and ts = "[5]" and t = 6]
    by simp
qed

text \<open>
  A processor starts by taking the notify object of its process slot: its configuration
  then points to that object, both of the object's handlers are the processor's cycle on this
  configuration, and the connection that watches the eventfd calls the notify object's own
  callbacks. The shared lists are untouched. Without a configuration the start has no defined
  result, because its error message reads a field of the \<open>NULL\<close> pointer.
\<close>

theorem process_init_registers:
  assumes "queue_ok s q a ns" and "pconfs s c = Some cf" "pc_queue cf = Some q"
    and "pslot < length ns" "int pslot \<le> lastp" and "notifies s (ns ! pslot) = Some nt"
  shows "\<exists>s'. ngx_proc_rpc_process_init (int pslot) lastp (Some k) True (Some c) s = Some (NGX_OK, s')
     \<and> Option.bind (pconfs s' c) pc_notify = Some (ns ! pslot)
     \<and> (\<exists>nt'. notifies s' (ns ! pslot) = Some nt' \<and> event_fd nt' = event_fd nt
          \<and> read_hanlder nt' = Some Proc_Process_One_Cycle \<and> write_hanlder nt' = Some Proc_Process_One_Cycle
          \<and> notify_ctx nt' = Some (Proc_Conf c) \<and> notify_conn nt' = Some k)
     \<and> (\<exists>cn. conns s' k = Some cn \<and> c_fd cn = event_fd nt \<and> c_sockaddr cn = ns ! pslot
          \<and> c_read_handler cn = Notify_Read_Handler \<and> c_write_handler cn = Notify_Write_Handler \<and> c_added cn)
     \<and> (\<forall>p ys. ring s p ys \<longrightarrow> ring s' p ys)
     \<and> ngx_proc_rpc_process_init (int pslot) lastp (Some k) True None s = None"
proof -
  obtain s' where s': "ngx_proc_rpc_process_init (int pslot) lastp (Some k) True (Some c) s = Some (NGX_OK, s')"
    "pconfs s' = (pconfs s)(c \<mapsto> cf\<lparr>pc_notify := Some (ns ! pslot)\<rparr>)"
    "notifies s' = (notifies s)(ns ! pslot \<mapsto> nt\<lparr>notify_ctx := Some (Proc_Conf c), notify_conn := Some k,
       read_hanlder := Some Proc_Process_One_Cycle, write_hanlder := Some Proc_Process_One_Cycle\<rparr>)"
    "conns s' = (conns s)(k \<mapsto> \<lparr>c_fd = event_fd nt, c_sockaddr = ns ! pslot,
       c_read_handler = Notify_Read_Handler, c_read_data = k, c_write_handler = Notify_Write_Handler,
       c_write_data = k, c_added = True, c_write_event = True\<rparr>)"
    "qnext s' = qnext s" "qprev s' = qprev s" "chunks s' = chunks s"
    using process_init_ok [OF assms(1-5) refl assms(6)] by blast
  have "\<forall>p ys. ring s p ys \<longrightarrow> ring s' p ys"
    using s'(5-7) by (auto intro: ring_same_links)
  then show ?thesis
    using s'(1-4) by (intro exI [of _ s']) (auto simp: ngx_proc_rpc_process_init_def)
qed

theorem process_init_registers_witness:
  "\<exists>s'. ngx_proc_rpc_process_init 1 2 (Some 7) True (Some 1) (demo [] [] 0) = Some (NGX_OK, s')
     \<and> Option.bind (pconfs s' 1) pc_notify = Some 4"
proof -
  have "queue_ok (demo [] [] 0) 1 2 [3, 4]"
    "pconfs (demo [] [] 0) 1 = Some \<lparr>pc_shpool = Some 0, pc_queue = Some 1, pc_notify = Some 4, shm_size = 0\<rparr>"
    "notifies (demo [] [] 0) ([3, 4] ! 1) = Some (demo_notify 11 1)"
    by (simp_all add: queue_ok_def demo_def)
  from process_init_registers [OF this(1,2) _ _ _ this(3), of 2 7] show ?thesis by auto
qed

section \<open>Configuration\<close>

text \<open>
  The directive that sets the size of the shared memory. A size below eight pages is an
  error that changes nothing. A valid size is stored and the zone is registered with the
  configuration, and the later merge leaves both alone. A size that cannot be parsed has no
  defined result: the message about it prints a fourth argument, and there are only two.
\<close>

theorem set_shm_size_cases:
  assumes "pconfs s c = Some cf" and "zones s z = Some zn" and "args = [name, arg]"
    and "0 < pagesize" and "parse_size arg < 2 ^ 63"
  shows "(parse_size arg = NGX_ERROR \<longrightarrow> ngx_proc_rpc_set_shm_size parse_size pagesize (Some z) args c s = None)
     \<and> (parse_size arg \<noteq> NGX_ERROR \<and> parse_size arg < 8 * pagesize \<longrightarrow>
       ngx_proc_rpc_set_shm_size parse_size pagesize (Some z) args c s = Some (Conf_Error, s))
     \<and> (8 * pagesize \<le> parse_size arg \<longrightarrow>
       (\<exists>s'. ngx_proc_rpc_set_shm_size parse_size pagesize (Some z) args c s = Some (Conf_OK, s')
          \<and> map_option (uint \<circ> shm_size) (pconfs s' c) = Some (parse_size arg)
          \<and> zones s' = (zones s)(z \<mapsto> zn\<lparr>z_init := Some Proc_Rpc_Init_Zone, z_data := Some c\<rparr>)
          \<and> ngx_proc_rpc_merge_loc_conf (Some z) c s' = Some (Conf_OK, s')))"
proof -
  let ?w = "word_of_int (parse_size arg) :: 64 word"
  have w: "uint ?w = parse_size arg" if "8 * pagesize \<le> parse_size arg"
    using that assms(4,5) by (simp add: unsigned_of_int take_bit_int_eq_self)
  have "?w \<noteq> conf_unset_uint" if "8 * pagesize \<le> parse_size arg"
  proof
    assume "?w = conf_unset_uint"
    then have "uint ?w = 2 ^ 64 - 1" by (simp add: conf_unset_uint_def unsigned_minus_1_eq_mask mask_eq_exp_minus_1)
    then show False using w [OF that] assms(5) by simp
  qed
  then have "8 * pagesize \<le> parse_size arg \<longrightarrow>
       (\<exists>s'. ngx_proc_rpc_set_shm_size parse_size pagesize (Some z) args c s = Some (Conf_OK, s')
          \<and> map_option (uint \<circ> shm_size) (pconfs s' c) = Some (parse_size arg)
          \<and> zones s' = (zones s)(z \<mapsto> zn\<lparr>z_init := Some Proc_Rpc_Init_Zone, z_data := Some c\<rparr>)
          \<and> ngx_proc_rpc_merge_loc_conf (Some z) c s' = Some (Conf_OK, s'))"
    using assms w by (auto simp: ngx_proc_rpc_set_shm_size_def ngx_proc_rpc_merge_loc_conf_def)
  then show ?thesis using assms by (auto simp: ngx_proc_rpc_set_shm_size_def)
qed

definition demo_zone :: shm_zone where
  "demo_zone = \<lparr>z_init = None, z_data = None, z_addr = 50\<rparr>"

theorem set_shm_size_cases_witness:
  "\<exists>s'. ngx_proc_rpc_set_shm_size (\<lambda>bs. int (length bs) * 65536) 4096 (Some 0) [[], [49]] 0
         ((demo [] [] 0)\<lparr>zones := [0 \<mapsto> demo_zone]\<rparr>) = Some (Conf_OK, s')
     \<and> map_option (uint \<circ> shm_size) (pconfs s' 0) = Some 65536"
  using set_shm_size_cases [of "(demo [] [] 0)\<lparr>zones := [0 \<mapsto> demo_zone]\<rparr>" 0 _ 0 demo_zone "[[], [49]]" "[]"
      "[49]" 4096 "\<lambda>bs. int (length bs) * 65536"]
  by (auto simp: demo_def)

text \<open>
  The zone's \<open>init\<close> function. At the first start the configuration gets the address of
  the shared memory as its pool. After a reload it keeps the pool of the previous
  configuration if the size is the same, and refuses, changing nothing, if it differs. A
  configuration whose size was never set has been given 1 GiB by the merge.
\<close>

theorem zone_init_cases:
  assumes "pconfs s c = Some cf" and "zones s z = Some zn" and "z_data zn = Some c"
    and "pconfs s old = Some ocf"
  shows "(\<exists>s'. ngx_proc_rpc_init_zone z None s = Some (NGX_OK, s')
          \<and> Option.bind (pconfs s' c) pc_shpool = Some (z_addr zn) \<and> pool_data s' (z_addr zn) = Some c)
     \<and> (shm_size ocf = shm_size cf \<longrightarrow>
          (\<exists>s'. ngx_proc_rpc_init_zone z (Some old) s = Some (NGX_OK, s')
             \<and> Option.bind (pconfs s' c) pc_shpool = pc_shpool ocf))
     \<and> (shm_size ocf \<noteq> shm_size cf \<longrightarrow> ngx_proc_rpc_init_zone z (Some old) s = Some (NGX_ERROR, s))
     \<and> (shm_size cf = conf_unset_uint \<longrightarrow>
          (\<exists>s'. ngx_proc_rpc_merge_loc_conf (Some z) c s = Some (Conf_OK, s')
             \<and> map_option (uint \<circ> shm_size) (pconfs s' c) = Some (2 ^ 30)))"
  using assms by (auto simp: ngx_proc_rpc_init_zone_def ngx_proc_rpc_merge_loc_conf_def)

theorem zone_init_cases_witness:
  "\<exists>s'. ngx_proc_rpc_init_zone 0 None ((demo [] [] 0)\<lparr>zones := [0 \<mapsto> demo_zone\<lparr>z_data := Some 1\<rparr>]\<rparr>)
         = Some (NGX_OK, s')
     \<and> Option.bind (pconfs s' 1) pc_shpool = Some 50 \<and> pool_data s' 50 = Some 1"
  using zone_init_cases [of "(demo [] [] 0)\<lparr>zones := [0 \<mapsto> demo_zone\<lparr>z_data := Some 1\<rparr>]\<rparr>" 1 _ 0
      "demo_zone\<lparr>z_data := Some 1\<rparr>" 0]
  by (auto simp: demo_def demo_zone_def)

text \<open>
  The master builds one notify object per worker and per configured processor. With no
  worker count configured, one per processor core is counted.
\<close>

theorem master_init_builds_queue:
  assumes "pconfs s c = Some cf" and "pc_shpool cf = Some p"
    and "w = (if workers \<le> 0 then ncpu else workers)" and "0 < w"
    and "list_all (\<lambda>k. 0 \<le> k) counts" and "w + sum_list counts < 2 ^ 31"
    and "spare pick (chunks s) (nat (w + sum_list counts) + 2)" and "\<And>i. oks i"
  shows "\<exists>s' q a ns. ngx_proc_rpc_master_init pick True oks fds workers ncpu counts (Some c) s = Some (NGX_OK, s')
     \<and> Option.bind (pconfs s' c) pc_queue = Some q \<and> queue_ok s' q a ns
     \<and> int (length ns) = w + sum_list counts \<and> idles s' q []"
  using master_init_ok [OF assms(1-6) _ assms(8), where fds = fds and m = 0 and pick = pick] assms(7) by fastforce

theorem master_init_builds_queue_witness:
  "\<exists>s' q a ns. ngx_proc_rpc_master_init (first_fit 20) True (\<lambda>i. True) int 0 2 [1, 2] (Some 0) (demo [3] [] 0)
       = Some (NGX_OK, s')
     \<and> Option.bind (pconfs s' 0) pc_queue = Some q \<and> queue_ok s' q a ns
     \<and> int (length ns) = 5 \<and> idles s' q []"
proof -
  have "{7, 8, 9, 10, 11, 12, 13} \<subseteq> {a \<in> {1..<20}. chunks (demo [3] [] 0) a = None}"
    by (auto simp: demo_def)
  from card_mono [OF _ this] have "spare (first_fit 20) (chunks (demo [3] [] 0)) (nat (2 + sum_list [1, 2]) + 2)"
    by (intro spare_first_fit) simp
  moreover have "pconfs (demo [3] [] 0) 0 = Some \<lparr>pc_shpool = Some 0, pc_queue = Some 1, pc_notify = Some 3, shm_size = 0\<rparr>"
    by (simp add: demo_def)
  ultimately show ?thesis
    using master_init_builds_queue [of "demo [3] [] 0" 0 _ 0 2 0 2 "[1, 2]" "first_fit 20" "\<lambda>i. True" int]
    by simp
qed

end
