(* ===== verification/Rpc_Buffer.thy ===== *)
theory Rpc_Buffer
  imports Rpc_Task
begin

text \<open>
  The protobuf streams over chains of nginx buffers: ngx_rpc_module/ngx_rpc_buffer.h and
  ngx_rpc_buffer.cpp. \<open>NgxChainBufferReader\<close> reads the chain of a request,
  \<open>NgxChainBufferWriter\<close> builds a chain in an nginx pool and \<open>NgxShmChainBufferWriter\<close>
  builds one in shared memory. A stream is a record of the C++ object's fields; the chain it
  works on is in the shared state.
\<close>

section \<open>Pool memory and raw blocks\<close>

text \<open>
  \<open>ngx_palloc\<close> takes memory from an nginx pool. \<open>junk\<close> gives the bytes that a new block
  happens to hold.
\<close>

definition ngx_palloc ::
  "slab_pick \<Rightarrow> chunk \<Rightarrow> 'z slab_scheme \<Rightarrow> addr option \<times> 'z slab_scheme" where
  "ngx_palloc pick n s = ngx_slab_alloc pick (Pool_mem n) s"

definition junk_block :: "(nat \<Rightarrow> byte) \<Rightarrow> int \<Rightarrow> byte list" where
  "junk_block junk n = map junk [0..<nat n]"

text \<open>The caller of a stream stores bytes at the pointer it was given.\<close>

definition write_bytes :: "cptr \<Rightarrow> byte list \<Rightarrow> 'z tstate_scheme \<Rightarrow> 'z tstate_scheme option" where
  "write_bytes p xs s =
     do {
       d \<leftarrow> load s (data s) (fst p);
       (if 0 \<le> snd p \<and> snd p + int (length xs) \<le> int (length d)
        then Some (s\<lparr>data := (data s)(fst p \<mapsto>
               take (nat (snd p)) d @ xs @ drop (nat (snd p) + length xs) d)\<rparr>)
        else None)
     }"

section \<open>The reader\<close>

record chain_reader =
  rd_chain :: "chaddr option"
  rd_totaly :: "32 word"

definition reader_create :: "chaddr \<Rightarrow> chain_reader" where
  "reader_create ch = \<lparr>rd_chain = Some ch, rd_totaly = 0\<rparr>"

text \<open>The loop of \<open>Next\<close>: \<open>ch\<close> is the stream's chain, which the loop does not advance.\<close>

partial_function (option) reader_scan ::
  "chaddr \<Rightarrow> addr option \<Rightarrow> chain_reader \<Rightarrow> 'z tstate_scheme
    \<Rightarrow> ((cptr \<times> int) option \<times> chain_reader \<times> 'z tstate_scheme) option" where
  "reader_scan ch cur rd s =
     (case cur of
        None \<Rightarrow> Some (None, rd, s)
      | Some b \<Rightarrow>
          do {
            bf \<leftarrow> load s (bufs s) b;
            (if b_in_file bf then Some (None, rd, s)
             else if b_pos bf = b_last bf then
               do {
                 nx \<leftarrow> get_link ch s;
                 (case nx of
                    Some c \<Rightarrow> do { cur \<leftarrow> get_buf c s; reader_scan ch cur rd s }
                  | None \<Rightarrow> Some (None, rd, s))
               }
             else do {
               n \<leftarrow> ptr_diff (b_last bf) (b_pos bf);
               Some (Some (b_pos bf, c_int n),
                     rd\<lparr>rd_totaly := rd_totaly rd + word_of_int (c_int n)\<rparr>,
                     s\<lparr>bufs := (bufs s)(b \<mapsto> bf\<lparr>b_pos := b_last bf\<rparr>)\<rparr>)
             })
          })"

definition reader_next ::
  "chain_reader \<Rightarrow> 'z tstate_scheme
    \<Rightarrow> ((cptr \<times> int) option \<times> chain_reader \<times> 'z tstate_scheme) option" where
  "reader_next rd s =
     do { ch \<leftarrow> rd_chain rd; cur \<leftarrow> get_buf ch s; reader_scan ch cur rd s }"

definition reader_backup :: "int \<Rightarrow> chain_reader \<Rightarrow> 'z tstate_scheme \<Rightarrow> 'z tstate_scheme option" where
  "reader_backup count rd s =
     do {
       ch \<leftarrow> rd_chain rd;
       b \<leftarrow> get_buf ch s;
       b \<leftarrow> b;
       bf \<leftarrow> load s (bufs s) b;
       Some (s\<lparr>bufs := (bufs s)(b \<mapsto> bf\<lparr>b_pos := (fst (b_pos bf), snd (b_pos bf) - count)\<rparr>)\<rparr>)
     }"

text \<open>
  The loop of \<open>Skip\<close>. After moving to the next cell it sets the current buffer to
  \<open>chain ? NULL : chain->buf\<close>.
\<close>

partial_function (option) reader_skip_loop ::
  "int \<Rightarrow> addr option \<Rightarrow> chain_reader \<Rightarrow> 'z tstate_scheme
    \<Rightarrow> (bool \<times> chain_reader \<times> 'z tstate_scheme) option" where
  "reader_skip_loop count cur rd s =
     (if count < 0 then Some (False, rd, s)
      else case cur of
        None \<Rightarrow> Some (False, rd, s)
      | Some b \<Rightarrow>
          do {
            bf \<leftarrow> load s (bufs s) b;
            (if b_in_file bf then Some (False, rd, s)
             else do {
               n \<leftarrow> ptr_diff (b_last bf) (b_pos bf);
               (if c_int n < count then
                  do {
                    ch \<leftarrow> rd_chain rd;
                    nx \<leftarrow> get_link ch s;
                    rd \<leftarrow> Some (rd\<lparr>rd_chain := nx, rd_totaly := rd_totaly rd + word_of_int (c_int n)\<rparr>);
                    (case nx of
                       Some c \<Rightarrow> reader_skip_loop (count - c_int n) None rd s
                     | None \<Rightarrow> None)
                  }
                else Some (True, rd\<lparr>rd_totaly := rd_totaly rd + 0\<rparr>,
                  s\<lparr>bufs := (bufs s)(b \<mapsto> bf\<lparr>b_pos := (fst (b_pos bf), snd (b_pos bf) + count)\<rparr>)\<rparr>))
             })
          })"

definition reader_skip ::
  "int \<Rightarrow> chain_reader \<Rightarrow> 'z tstate_scheme \<Rightarrow> (bool \<times> chain_reader \<times> 'z tstate_scheme) option" where
  "reader_skip count rd s =
     do { ch \<leftarrow> rd_chain rd; cur \<leftarrow> get_buf ch s; reader_skip_loop count cur rd s }"

definition reader_byte_count :: "chain_reader \<Rightarrow> int" where
  "reader_byte_count rd = uint (rd_totaly rd)"

section \<open>The writers\<close>

record chain_writer =
  wr_chain :: chaddr
  wr_totaly :: int
  wr_extends :: "32 word"

definition default_size :: "32 word" where
  "default_size = 4096"

definition writer_create ::
  "chaddr \<Rightarrow> 32 word \<Rightarrow> 'z tstate_scheme \<Rightarrow> (chain_writer \<times> 'z tstate_scheme) option" where
  "writer_create ch ex s =
     do {
       s \<leftarrow> set_buf ch None s;
       s \<leftarrow> set_link ch None s;
       Some (\<lparr>wr_chain = ch, wr_totaly = 0, wr_extends = ex\<rparr>, s)
     }"

text \<open>
  The steps that the two writers share in their text: appending a cell behind a full buffer,
  handing out the rest of a buffer, and a new buffer. \<open>K\<close> says where the memory comes from.
  None of the allocations is checked.
\<close>

definition add_cell ::
  "(chunk \<Rightarrow> chunk) \<Rightarrow> slab_pick \<Rightarrow> chaddr \<Rightarrow> 'z tstate_scheme \<Rightarrow> (chaddr \<times> 'z tstate_scheme) option" where
  "add_cell K pick ch s =
     do {
       b \<leftarrow> get_buf ch s;
       (case b of
          None \<Rightarrow> Some (ch, s)
        | Some b \<Rightarrow>
            do {
              bf \<leftarrow> load s (bufs s) b;
              (if b_last bf = b_end bf then
                 do {
                   (nc, s) \<leftarrow> Some (ngx_slab_alloc pick (K Chain_t) s);
                   s \<leftarrow> set_link ch (map_option Chain_cell nc) s;
                   nc \<leftarrow> nc;
                   s \<leftarrow> set_link (Chain_cell nc) None s;
                   s \<leftarrow> set_buf (Chain_cell nc) None s;
                   Some (Chain_cell nc, s)
                 }
               else Some (ch, s))
            })
     }"

definition hand_out_rest ::
  "addr \<Rightarrow> 'z tstate_scheme \<Rightarrow> ((cptr \<times> int) \<times> 'z tstate_scheme) option" where
  "hand_out_rest b s =
     do {
       bf \<leftarrow> load s (bufs s) b;
       n \<leftarrow> ptr_diff (b_end bf) (b_last bf);
       Some ((b_last bf, c_int n),
             s\<lparr>bufs := (bufs s)(b \<mapsto> bf\<lparr>b_pos := b_last bf, b_last := b_end bf\<rparr>)\<rparr>)
     }"

definition new_buf ::
  "(chunk \<Rightarrow> chunk) \<Rightarrow> slab_pick \<Rightarrow> (nat \<Rightarrow> byte) \<Rightarrow> (addr \<Rightarrow> ngx_buf) \<Rightarrow> chaddr \<Rightarrow> int
    \<Rightarrow> 'z tstate_scheme \<Rightarrow> ((cptr \<times> int) \<times> 'z tstate_scheme) option" where
  "new_buf K pick junk init ch sz s =
     do {
       (b, s) \<leftarrow> Some (ngx_slab_alloc pick (K Buf_t) s);
       b \<leftarrow> b;
       (k, s) \<leftarrow> Some (ngx_slab_alloc pick (K (Bytes sz)) s);
       k \<leftarrow> k;
       s \<leftarrow> Some (s\<lparr>data := (data s)(k \<mapsto> junk_block junk sz),
               bufs := (bufs s)(b \<mapsto> init k)\<rparr>);
       s \<leftarrow> set_buf ch (Some b) s;
       Some (((k, 0), sz), s)
     }"

text \<open>The fields of a new pool buffer: \<open>memset\<close> to zero, then the assignments.\<close>

definition pool_buf_fields :: "int \<Rightarrow> addr \<Rightarrow> ngx_buf" where
  "pool_buf_fields sz k = \<lparr>b_pos = (k, 0), b_last = (k, sz), b_start = (k, 0), b_end = (k, sz),
     b_in_file = False, b_last_buf = False, b_temporary = False, b_memory = True\<rparr>"

definition writer_next ::
  "slab_pick \<Rightarrow> (nat \<Rightarrow> byte) \<Rightarrow> chain_writer \<Rightarrow> 'z tstate_scheme
    \<Rightarrow> ((cptr \<times> int) \<times> chain_writer \<times> 'z tstate_scheme) option" where
  "writer_next pick junk w s =
     do {
       (ch, s) \<leftarrow> add_cell Pool_mem pick (wr_chain w) s;
       w \<leftarrow> Some (w\<lparr>wr_chain := ch\<rparr>);
       b \<leftarrow> get_buf ch s;
       (case b of
          Some b \<Rightarrow>
            do {
              ((p, n), s) \<leftarrow> hand_out_rest b s;
              Some ((p, n), w\<lparr>wr_totaly := c_int (wr_totaly w + n)\<rparr>, s)
            }
        | None \<Rightarrow>
            do {
              sz \<leftarrow> Some (c_int (uint (default_size * wr_extends w)));
              ((p, n), s) \<leftarrow> new_buf Pool_mem pick junk (pool_buf_fields sz) ch sz s;
              Some ((p, n), w\<lparr>wr_totaly := c_int (wr_totaly w + n),
                              wr_extends := wr_extends w + 1\<rparr>, s)
            })
     }"

text \<open>\<open>BackUp\<close> of both writers works on \<open>chain->buf\<close>; a failed assertion is \<open>None\<close>.\<close>

definition writer_backup ::
  "int \<Rightarrow> chain_writer \<Rightarrow> 'z tstate_scheme \<Rightarrow> (chain_writer \<times> 'z tstate_scheme) option" where
  "writer_backup count w s =
     do {
       w \<leftarrow> Some (w\<lparr>wr_totaly := c_int (wr_totaly w - count)\<rparr>);
       b \<leftarrow> get_buf (wr_chain w) s;
       b \<leftarrow> b;
       bf \<leftarrow> load s (bufs s) b;
       bf \<leftarrow> Some (bf\<lparr>b_last := (fst (b_last bf), snd (b_last bf) - count)\<rparr>);
       d \<leftarrow> ptr_diff (b_last bf) (b_pos bf);
       (if 0 \<le> d \<and> 0 \<le> wr_totaly w then Some (w, s\<lparr>bufs := (bufs s)(b \<mapsto> bf)\<rparr>) else None)
     }"

definition writer_byte_count :: "chain_writer \<Rightarrow> int" where
  "writer_byte_count w = wr_totaly w"

text \<open>
  The shared-memory writer. Its loop clears \<open>last_buf\<close> in every cell but the last; the
  structure of a new buffer is not cleared, so the fields that are not assigned are those of
  \<open>old\<close>.
\<close>

partial_function (option) clear_last ::
  "chaddr \<Rightarrow> 'z tstate_scheme \<Rightarrow> (chaddr \<times> 'z tstate_scheme) option" where
  "clear_last ch s =
     do {
       nx \<leftarrow> get_link ch s;
       (case nx of
          None \<Rightarrow> Some (ch, s)
        | Some c \<Rightarrow>
            do {
              b \<leftarrow> get_buf ch s;
              b \<leftarrow> b;
              bf \<leftarrow> load s (bufs s) b;
              clear_last c (s\<lparr>bufs := (bufs s)(b \<mapsto> bf\<lparr>b_last_buf := False\<rparr>)\<rparr>)
            })
     }"

definition shm_buf_fields :: "bool \<Rightarrow> int \<Rightarrow> addr \<Rightarrow> ngx_buf" where
  "shm_buf_fields old sz k = \<lparr>b_pos = (k, 0), b_last = (k, sz), b_start = (k, 0), b_end = (k, sz),
     b_in_file = old, b_last_buf = True, b_temporary = False, b_memory = True\<rparr>"

definition shm_writer_next ::
  "slab_pick \<Rightarrow> (nat \<Rightarrow> byte) \<Rightarrow> bool \<Rightarrow> chain_writer \<Rightarrow> 'z tstate_scheme
    \<Rightarrow> ((cptr \<times> int) \<times> chain_writer \<times> 'z tstate_scheme) option" where
  "shm_writer_next pick junk old w s =
     do {
       (ch, s) \<leftarrow> clear_last (wr_chain w) s;
       (ch, s) \<leftarrow> add_cell (\<lambda>k. k) pick ch s;
       b \<leftarrow> get_buf ch s;
       (case b of
          Some b \<Rightarrow>
            do {
              ((p, n), s) \<leftarrow> hand_out_rest b s;
              Some ((p, n), w\<lparr>wr_totaly := c_int (wr_totaly w + n)\<rparr>, s)
            }
        | None \<Rightarrow>
            do {
              sz \<leftarrow> Some (c_int (uint (default_size * wr_extends w)));
              ((p, n), s) \<leftarrow> new_buf (\<lambda>k. k) pick junk (shm_buf_fields old sz) ch sz s;
              Some ((p, n), w\<lparr>wr_totaly := c_int (wr_totaly w + n),
                              wr_extends := wr_extends w + 1\<rparr>, s)
            })
     }"

section \<open>What the reader does\<close>

text \<open>A buffer in memory, its fields and the bytes between \<open>pos\<close> and \<open>last\<close>.\<close>

definition mem_buf :: "'z tstate_scheme \<Rightarrow> addr \<Rightarrow> ngx_buf \<Rightarrow> byte list \<Rightarrow> bool" where
  "mem_buf s b bf bs \<longleftrightarrow> load s (bufs s) b = Some bf \<and> \<not> b_in_file bf
     \<and> ptr_diff (b_last bf) (b_pos bf) = Some (int (length bs))
     \<and> read_bytes (b_pos bf) (int (length bs)) s = Some bs \<and> int (length bs) < 2 ^ 31"

lemma mem_buf_content: "mem_buf s b bf bs \<Longrightarrow> buf_content s b = Some bs"
  by (simp add: mem_buf_def buf_content_def)

lemma ptr_diff_eq: "ptr_diff p q = Some n \<Longrightarrow> q = p \<longleftrightarrow> n = 0"
  by (cases p; cases q) (auto simp: ptr_diff_def split: if_splits)

lemma ptr_diff_self: "ptr_diff p p = Some 0"
  by (simp add: ptr_diff_def)

lemma mem_buf_empty: "mem_buf s b bf bs \<Longrightarrow> b_pos bf = b_last bf \<longleftrightarrow> bs = []"
  unfolding mem_buf_def using ptr_diff_eq [of "b_last bf" "b_pos bf"] by auto

lemma read_bytes_bufs [simp]: "read_bytes p n (s\<lparr>bufs := f\<rparr>) = read_bytes p n s"
  by (simp add: read_bytes_def load_def live_def)

lemma cell_bufs [simp]:
  "get_buf c (s\<lparr>bufs := f\<rparr>) = get_buf c s" "get_link c (s\<lparr>bufs := f\<rparr>) = get_link c s"
  by (simp_all add: get_buf_def get_link_def live_def)

lemma load_bufs [simp]: "load (s\<lparr>bufs := f\<rparr>) m = load s m"
  by (simp add: fun_eq_iff load_def live_def)

definition consume :: "addr \<Rightarrow> ngx_buf \<Rightarrow> 'z tstate_scheme \<Rightarrow> 'z tstate_scheme" where
  "consume b bf s = s\<lparr>bufs := (bufs s)(b \<mapsto> bf\<lparr>b_pos := b_last bf\<rparr>)\<rparr>"

lemma consume_mem_buf:
  assumes "mem_buf s b bf bs"
  shows "mem_buf (consume b bf s) b (bf\<lparr>b_pos := b_last bf\<rparr>) []"
    and "mem_buf s a af as \<Longrightarrow> a \<noteq> b \<Longrightarrow> mem_buf (consume b bf s) a af as"
proof -
  have "ptr_diff (b_last bf) (b_pos bf) = Some (int (length bs))"
    "read_bytes (b_pos bf) (int (length bs)) s = Some bs" "live s b"
    using assms by (simp_all add: mem_buf_def load_Some_iff)
  then have "read_bytes (b_last bf) 0 s = Some []"
    by (auto simp: read_bytes_def ptr_diff_def fault_simps split: if_splits)
  then show "mem_buf (consume b bf s) b (bf\<lparr>b_pos := b_last bf\<rparr>) []"
    using assms by (simp add: mem_buf_def consume_def ptr_diff_self load_Some_iff)
  show "mem_buf s a af as \<Longrightarrow> a \<noteq> b \<Longrightarrow> mem_buf (consume b bf s) a af as"
    by (simp add: mem_buf_def consume_def load_Some_iff)
qed

lemma consume_cells [simp]:
  "get_buf c (consume b bf s) = get_buf c s" "get_link c (consume b bf s) = get_link c s"
  "read_bytes p n (consume b bf s) = read_bytes p n s"
  by (simp_all add: consume_def)

lemma scan_hit:
  assumes "mem_buf s b bf bs" and "bs \<noteq> []"
  shows "reader_scan ch (Some b) rd s = Some (Some (b_pos bf, int (length bs)),
     rd\<lparr>rd_totaly := rd_totaly rd + word_of_int (int (length bs))\<rparr>, consume b bf s)"
proof -
  have "c_int (int (length bs)) = int (length bs)"
    using assms(1) by (intro c_int_id) (auto simp: mem_buf_def)
  then show ?thesis
    using assms mem_buf_empty [OF assms(1)]
    by (subst reader_scan.simps) (simp add: mem_buf_def consume_def)
qed

lemma scan_end:
  assumes "mem_buf s b bf []" and "get_link ch s = Some None"
  shows "reader_scan ch (Some b) rd s = Some (None, rd, s)"
  using assms mem_buf_empty [OF assms(1)]
  by (subst reader_scan.simps) (simp add: mem_buf_def)

lemma scan_step:
  assumes "mem_buf s b bf []" and "get_link ch s = Some (Some c)" and "get_buf c s = Some cur"
  shows "reader_scan ch (Some b) rd s = reader_scan ch cur rd s"
  using assms mem_buf_empty [OF assms(1)]
  by (subst reader_scan.simps) (simp add: mem_buf_def)

text \<open>
  When the second buffer of the chain is used up, the loop looks at it again and again,
  because it looks up the next cell from the head each time.
\<close>

lemma scan_diverges:
  fixes s :: "'z tstate_scheme"
  assumes "mem_buf s b bf []" and "get_link ch s = Some (Some c)" and "get_buf c s = Some (Some b)"
  shows "reader_scan ch (Some b) rd s = None"
proof -
  have "reader_scan ch' cur rd' s' = Some r \<Longrightarrow> \<not> (ch' = ch \<and> cur = Some b \<and> s' = s)"
    for ch' cur and rd' :: chain_reader and s' r
  proof (erule reader_scan.raw_induct [where P = "\<lambda>ch' cur rd' s' r. \<not> (ch' = ch \<and> cur = Some b \<and> s' = s)", rotated])
    fix scan :: "chaddr \<Rightarrow> addr option \<Rightarrow> chain_reader \<Rightarrow> 'z tstate_scheme
        \<Rightarrow> ((cptr \<times> int) option \<times> chain_reader \<times> 'z tstate_scheme) option"
      and ch' cur and rd' :: chain_reader and s' r
    assume IH: "\<And>ch' cur rd' s' r. scan ch' cur rd' s' = Some r \<Longrightarrow> \<not> (ch' = ch \<and> cur = Some b \<and> s' = s)"
    assume run: "(case cur of
        None \<Rightarrow> Some (None, rd', s')
      | Some b \<Rightarrow>
          do {
            bf \<leftarrow> load s' (bufs s') b;
            (if b_in_file bf then Some (None, rd', s')
             else if b_pos bf = b_last bf then
               do {
                 nx \<leftarrow> get_link ch' s';
                 (case nx of
                    Some c \<Rightarrow> do { cur \<leftarrow> get_buf c s'; scan ch' cur rd' s' }
                  | None \<Rightarrow> Some (None, rd', s'))
               }
             else do {
               n \<leftarrow> ptr_diff (b_last bf) (b_pos bf);
               Some (Some (b_pos bf, c_int n),
                     rd'\<lparr>rd_totaly := rd_totaly rd' + word_of_int (c_int n)\<rparr>,
                     s'\<lparr>bufs := (bufs s')(b \<mapsto> bf\<lparr>b_pos := b_last bf\<rparr>)\<rparr>)
             })
          }) = Some r"
    show "\<not> (ch' = ch \<and> cur = Some b \<and> s' = s)"
    proof
      assume same: "ch' = ch \<and> cur = Some b \<and> s' = s"
      then have "scan ch (Some b) rd' s = Some r"
        using run assms mem_buf_empty [OF assms(1)] by (simp add: mem_buf_def)
      then show False using IH by blast
    qed
  qed
  then show ?thesis by (metis not_None_eq)
qed

text \<open>A caller that reads until the stream says that there is no more.\<close>

partial_function (option) read_all ::
  "chain_reader \<Rightarrow> 'z tstate_scheme \<Rightarrow> (byte list \<times> chain_reader \<times> 'z tstate_scheme) option" where
  "read_all rd s =
     do {
       (r, rd, s) \<leftarrow> reader_next rd s;
       (case r of
          None \<Rightarrow> Some ([], rd, s)
        | Some (p, n) \<Rightarrow>
            do {
              xs \<leftarrow> read_bytes p n s;
              (ys, rd, s) \<leftarrow> read_all rd s;
              Some (xs @ ys, rd, s)
            })
     }"

lemma read_all_done:
  assumes "rd_chain rd = Some ch" and "get_buf ch s = Some (Some b)" and "get_link ch s = Some None"
    and "mem_buf s b bf []"
  shows "read_all rd s = Some ([], rd, s)"
  using assms scan_end [OF assms(4,3)] by (subst read_all.simps) (simp add: reader_next_def)

lemma read_all_single:
  assumes ch: "get_buf ch s = Some (Some b)" "get_link ch s = Some None" and b: "mem_buf s b bf bs"
  shows "\<exists>rd s'. read_all (reader_create ch) s = Some (bs, rd, s') \<and> reader_byte_count rd = int (length bs)
     \<and> s' = consume b bf s"
proof (cases "bs = []")
  case True
  then have "read_all (reader_create ch) s = Some (bs, reader_create ch, s)"
    using read_all_done [OF _ ch(1,2)] b by (simp add: reader_create_def)
  moreover have "bf\<lparr>b_pos := b_last bf\<rparr> = bf" using mem_buf_empty [OF b] True by simp
  then have "consume b bf s = s"
    using b by (simp add: consume_def mem_buf_def load_Some_iff fun_upd_idem)
  ultimately show ?thesis using True by (simp add: reader_byte_count_def reader_create_def)
next
  case False
  let ?rd = "(reader_create ch)\<lparr>rd_totaly := word_of_int (int (length bs))\<rparr>"
  have nx: "reader_next (reader_create ch) s = Some (Some (b_pos bf, int (length bs)), ?rd, consume b bf s)"
    using scan_hit [OF b False, of ch "reader_create ch"] ch by (simp add: reader_next_def reader_create_def)
  have "read_bytes (b_pos bf) (int (length bs)) (consume b bf s) = Some bs"
    using b by (simp add: mem_buf_def)
  moreover have "read_all ?rd (consume b bf s) = Some ([], ?rd, consume b bf s)"
    by (rule read_all_done [where ch = ch and b = b, OF _ _ _ consume_mem_buf(1) [OF b]]) (simp_all add: ch reader_create_def)
  ultimately have "read_all (reader_create ch) s = Some (bs, ?rd, consume b bf s)"
    using nx by (subst read_all.simps) simp
  moreover have "uint (word_of_int (int (length bs)) :: 32 word) = int (length bs)"
    using b by (simp add: mem_buf_def unsigned_of_nat take_bit_nat_eq_self)
  ultimately show ?thesis by (simp add: reader_byte_count_def)
qed

lemma read_all_stuck:
  assumes "rd_chain rd = Some ch" and "get_buf ch s = Some (Some b)" and "get_link ch s = Some (Some c)"
    and "get_buf c s = Some (Some b2)" and "mem_buf s b bf []" and "mem_buf s b2 bf2 []"
  shows "read_all rd s = None"
  using assms scan_step [OF assms(5,3,4)] scan_diverges [OF assms(6,3,4)]
  by (subst read_all.simps) (simp add: reader_next_def)

lemma read_all_second:
  assumes rd: "rd_chain rd = Some ch" and c: "get_buf ch s = Some (Some b)" "get_link ch s = Some (Some c)"
      "get_buf c s = Some (Some b2)" and b: "mem_buf s b bf []" "mem_buf s b2 bf2 bs2" "b \<noteq> b2"
  shows "read_all rd s = None"
proof (cases "bs2 = []")
  case True
  then show ?thesis using read_all_stuck [OF rd c b(1)] b(2) by simp
next
  case False
  let ?rd = "rd\<lparr>rd_totaly := rd_totaly rd + word_of_int (int (length bs2))\<rparr>"
  have "reader_next rd s = Some (Some (b_pos bf2, int (length bs2)), ?rd, consume b2 bf2 s)"
    using scan_step [OF b(1) c(2,3)] scan_hit [OF b(2) False] rd c by (simp add: reader_next_def)
  moreover have "read_all ?rd (consume b2 bf2 s) = None"
    by (rule read_all_stuck [where ch = ch and c = c, OF _ _ _ _ consume_mem_buf(2) [OF b(2,1,3)] consume_mem_buf(1) [OF b(2)]])
      (simp_all add: rd c)
  ultimately show ?thesis by (subst read_all.simps) (simp add: bind_eq_None_conv)
qed

lemma read_all_two:
  assumes c: "get_buf ch s = Some (Some b)" "get_link ch s = Some (Some c)" "get_buf c s = Some (Some b2)"
    and b: "mem_buf s b bf bs" "mem_buf s b2 bf2 bs2" "b \<noteq> b2"
  shows "read_all (reader_create ch) s = None"
proof (cases "bs = []")
  case True
  then show ?thesis using read_all_second [OF _ c _ b(2,3)] b(1) by (simp add: reader_create_def)
next
  case False
  let ?rd = "(reader_create ch)\<lparr>rd_totaly := word_of_int (int (length bs))\<rparr>"
  have "reader_next (reader_create ch) s = Some (Some (b_pos bf, int (length bs)), ?rd, consume b bf s)"
    using scan_hit [OF b(1) False, of ch "reader_create ch"] c by (simp add: reader_next_def reader_create_def)
  moreover have "read_all ?rd (consume b bf s) = None"
    by (rule read_all_second [where ch = ch and c = c, OF _ _ _ _ consume_mem_buf(1) [OF b(1)] consume_mem_buf(2) [OF b(1,2)] b(3)])
      (use c b(3) in \<open>auto simp: reader_create_def\<close>)
  ultimately show ?thesis by (subst read_all.simps) (simp add: bind_eq_None_conv)
qed

section \<open>The contract of an output stream\<close>

text \<open>
  The protocol of protobuf's \<open>ZeroCopyOutputStream\<close>: \<open>Next\<close> gives a region whose bytes count
  as written, the caller stores into it, and \<open>BackUp\<close> gives the end of the last region back.
  \<open>holds st k bs xs\<close>: the stream holds \<open>bs\<close> and then its last region \<open>xs\<close>, which is full, and
  can serve \<open>k\<close> more regions; \<open>contents st bs\<close>: the caller is done and the stream holds \<open>bs\<close>.
\<close>

primrec put_all ::
  "('s \<Rightarrow> ((cptr \<times> int) \<times> 's) option) \<Rightarrow> (cptr \<Rightarrow> byte list \<Rightarrow> 's \<Rightarrow> 's option) \<Rightarrow>
    (int \<Rightarrow> 's \<Rightarrow> 's option) \<Rightarrow> nat \<Rightarrow> byte list \<Rightarrow> 's \<Rightarrow> 's option" where
  "put_all next_region store back_up 0 ys st = None"
| "put_all next_region store back_up (Suc k) ys st =
     do {
       ((p, n), st) \<leftarrow> next_region st;
       (if int (length ys) \<le> n then do { st \<leftarrow> store p ys st; back_up (n - int (length ys)) st }
        else do {
          st \<leftarrow> store p (take (nat n) ys) st;
          put_all next_region store back_up k (drop (nat n) ys) st
        })
     }"

locale output_stream =
  fixes holds :: "'s \<Rightarrow> nat \<Rightarrow> byte list \<Rightarrow> byte list \<Rightarrow> bool"
    and contents :: "'s \<Rightarrow> byte list \<Rightarrow> bool"
    and next_region :: "'s \<Rightarrow> ((cptr \<times> int) \<times> 's) option"
    and store :: "cptr \<Rightarrow> byte list \<Rightarrow> 's \<Rightarrow> 's option"
    and back_up :: "int \<Rightarrow> 's \<Rightarrow> 's option"
  assumes next_store: "holds st (Suc k) bs xs \<Longrightarrow>
      \<exists>p n st1. next_region st = Some ((p, n), st1) \<and> 4096 \<le> n
        \<and> (\<forall>ys. int (length ys) \<le> n \<longrightarrow>
             (\<exists>st2 rest. store p ys st1 = Some st2 \<and> int (length (ys @ rest)) = n
                \<and> holds st2 k (bs @ xs) (ys @ rest)))"
    and back_up_rest: "holds st k bs (xs @ ys) \<Longrightarrow> xs @ ys \<noteq> [] \<Longrightarrow>
      \<exists>st'. back_up (int (length ys)) st = Some st' \<and> contents st' (bs @ xs)"
begin

text \<open>A caller that writes \<open>ys\<close> region by region ends with exactly these bytes appended.\<close>

lemma put_all_ok:
  "\<lbrakk> holds st (Suc k) bs xs; length ys \<le> 4096 * Suc k \<rbrakk> \<Longrightarrow>
     \<exists>st'. put_all next_region store back_up (Suc k) ys st = Some st' \<and> contents st' (bs @ xs @ ys)"
proof (induction k arbitrary: st bs xs ys)
  case 0
  obtain p n st1 where n: "next_region st = Some ((p, n), st1)" "4096 \<le> n"
    "\<forall>ys. int (length ys) \<le> n \<longrightarrow> (\<exists>st2 rest. store p ys st1 = Some st2
        \<and> int (length (ys @ rest)) = n \<and> holds st2 0 (bs @ xs) (ys @ rest))"
    using next_store [OF 0(1)] by blast
  have fits: "int (length ys) \<le> n" using 0(2) n(2) by simp
  then obtain st2 rest where st2: "store p ys st1 = Some st2" "int (length (ys @ rest)) = n"
    "holds st2 0 (bs @ xs) (ys @ rest)" using n(3) by blast
  have "ys @ rest \<noteq> []" using st2(2) n(2) by auto
  from back_up_rest [OF st2(3) this] show ?case
    using n(1) fits st2(1,2) by (auto simp: algebra_simps)
next
  case (Suc k)
  obtain p n st1 where n: "next_region st = Some ((p, n), st1)" "4096 \<le> n"
    "\<forall>ys. int (length ys) \<le> n \<longrightarrow> (\<exists>st2 rest. store p ys st1 = Some st2
        \<and> int (length (ys @ rest)) = n \<and> holds st2 (Suc k) (bs @ xs) (ys @ rest))"
    using next_store [OF Suc.prems(1)] by blast
  show ?case
  proof (cases "int (length ys) \<le> n")
    case True
    then obtain st2 rest where st2: "store p ys st1 = Some st2" "int (length (ys @ rest)) = n"
      "holds st2 (Suc k) (bs @ xs) (ys @ rest)" using n(3) by blast
    have "ys @ rest \<noteq> []" using st2(2) n(2) by auto
    from back_up_rest [OF st2(3) this] show ?thesis
      using n(1) True st2(1,2) by (auto simp: algebra_simps)
  next
    case False
    let ?a = "take (nat n) ys" and ?b = "drop (nat n) ys"
    have "int (length ?a) = n" using False n(2) by simp
    then obtain st2 where st2: "store p ?a st1 = Some st2" "holds st2 (Suc k) (bs @ xs) ?a"
      using n(3) by (metis append.right_neutral length_append length_0_conv add_cancel_right_right
          of_nat_eq_iff order_refl)
    have "length ?b \<le> 4096 * Suc k" using Suc.prems(2) n(2) by simp
    from Suc.IH [OF st2(2) this] show ?thesis
      using n(1) False st2(1) by simp
  qed
qed

end

section \<open>The steps of a writer\<close>

lemma chain_seg_extend:
  "\<lbrakk> grows {c} s s'; chain_seg s p (cs @ [(c, b)]); c \<notin> fst ` set cs;
     get_buf c s' = Some (Some b); get_link c s' = Some (Some c');
     get_buf c' s' = Some (Some b'); get_link c' s' = Some None \<rbrakk> \<Longrightarrow>
   chain_seg s' p (cs @ [(c, b), (c', b')])"
proof (induction cs arbitrary: p)
  case Nil
  then show ?case by simp
next
  case (Cons x cs)
  obtain d e where x: "x = (d, e)" by force
  have "live s (chowner d)" "d \<notin> {c}"
    using Cons.prems(2,3) x by (auto simp: get_buf_def split: if_splits)
  from grows_cell [OF Cons.prems(1) this(2,1)] show ?case
    using Cons x by (auto split: option.splits)
qed

lemma chain_seg_bufs [simp]: "chain_seg (s\<lparr>bufs := f\<rparr>) p cs = chain_seg s p cs"
  by (induction cs arbitrary: p) (auto split: option.splits)

text \<open>The state after \<open>new_buf\<close> and a store of \<open>ys\<close> at the start of the new block.\<close>

definition after_new ::
  "(chunk \<Rightarrow> chunk) \<Rightarrow> chaddr \<Rightarrow> addr \<Rightarrow> addr \<Rightarrow> ngx_buf \<Rightarrow> int \<Rightarrow> byte list
    \<Rightarrow> 'z tstate_scheme \<Rightarrow> 'z tstate_scheme" where
  "after_new K ch b k bf n d s =
     s\<lparr>chunks := (chunks s)(b \<mapsto> K Buf_t, k \<mapsto> K (Bytes n)),
       data := (data s)(k \<mapsto> d), bufs := (bufs s)(b \<mapsto> bf),
       chain_buf := (chain_buf s)(ch \<mapsto> Some b)\<rparr>"

lemma new_buf_ok:
  assumes "live s (chowner ch)" and "spare pick (chunks s) (Suc (Suc m))"
  obtains b k where "new_buf K pick junk init ch n s =
       Some (((k, 0), n), after_new K ch b k (init k) n (junk_block junk n) s)"
    and "\<not> live s b" and "\<not> live s k" and "b \<noteq> k"
    and "\<And>d bf. spare pick (chunks (after_new K ch b k bf n d s)) m"
proof -
  obtain b where b: "ngx_slab_alloc pick (K Buf_t) s = (Some b, s\<lparr>chunks := (chunks s)(b \<mapsto> K Buf_t)\<rparr>)"
    "\<not> live s b" "spare pick ((chunks s)(b \<mapsto> K Buf_t)) (Suc m)"
    by (rule spare_alloc [OF assms(2)])
  let ?s1 = "s\<lparr>chunks := (chunks s)(b \<mapsto> K Buf_t)\<rparr>"
  have "spare pick (chunks ?s1) (Suc m)" using b(3) by simp
  then obtain k where k: "ngx_slab_alloc pick (K (Bytes n)) ?s1 =
      (Some k, ?s1\<lparr>chunks := (chunks ?s1)(k \<mapsto> K (Bytes n))\<rparr>)"
    "\<not> live ?s1 k" "spare pick ((chunks ?s1)(k \<mapsto> K (Bytes n))) m"
    by (rule spare_alloc)
  have "b \<noteq> k" "\<not> live s k" using k(2) by (auto simp: live_def split: if_splits)
  moreover have "new_buf K pick junk init ch n s =
      Some (((k, 0), n), after_new K ch b k (init k) n (junk_block junk n) s)"
    using b(1) k(1) assms(1) by (auto simp: new_buf_def set_buf_def live_def after_new_def)
  ultimately show thesis using that b(2) k(3) by (simp add: after_new_def)
qed

lemma after_new_grows:
  "\<not> live s b \<Longrightarrow> \<not> live s k \<Longrightarrow> grows {ch} s (after_new K ch b k bf n d s)"
  by (auto simp: after_new_def grows_def live_def)

lemma after_new_write:
  assumes "b \<noteq> k" and "length ys \<le> nat n"
  shows "write_bytes (k, 0) ys (after_new K ch b k bf n (junk_block junk n) s) =
     Some (after_new K ch b k bf n (ys @ drop (length ys) (junk_block junk n)) s)"
  using assms by (simp add: write_bytes_def after_new_def load_def live_def junk_block_def)

lemma add_cell_new:
  assumes c: "get_buf c s = Some (Some b)" "load s (bufs s) b = Some bf" "b_last bf = b_end bf"
    and sp: "spare pick (chunks s) (Suc m)"
  obtains nc s' where "add_cell K pick c s = Some (Chain_cell nc, s')" and "\<not> live s nc"
    and "grows {c} s s'" and "get_buf c s' = Some (Some b)" and "get_link c s' = Some (Some (Chain_cell nc))"
    and "live s' nc" and "get_buf (Chain_cell nc) s' = Some None" and "get_link (Chain_cell nc) s' = Some None"
    and "spare pick (chunks s') m"
proof -
  obtain nc where nc: "ngx_slab_alloc pick (K Chain_t) s = (Some nc, s\<lparr>chunks := (chunks s)(nc \<mapsto> K Chain_t)\<rparr>)"
    "\<not> live s nc" "spare pick ((chunks s)(nc \<mapsto> K Chain_t)) m"
    by (rule spare_alloc [OF sp])
  let ?s' = "s\<lparr>chunks := (chunks s)(nc \<mapsto> K Chain_t),
     chain_next := (chain_next s)(c \<mapsto> Some (Chain_cell nc), Chain_cell nc \<mapsto> None),
     chain_buf := (chain_buf s)(Chain_cell nc \<mapsto> None)\<rparr>"
  have lc: "live s (chowner c)" "chain_buf s c = Some (Some b)"
    using c(1) by (auto simp: get_buf_def split: if_splits)
  then have cn: "c \<noteq> Chain_cell nc" using nc(2) by auto
  show thesis
  proof (rule that)
    show "add_cell K pick c s = Some (Chain_cell nc, ?s')"
      using c nc(1) lc by (auto simp: add_cell_def set_link_def set_buf_def live_def)
    show "grows {c} s ?s'" using nc(2) by (auto simp: grows_def live_def)
    show "get_buf c ?s' = Some (Some b)" "get_link c ?s' = Some (Some (Chain_cell nc))"
      using lc cn by (auto simp: chain_defs live_def)
  qed (use nc in \<open>simp_all add: chain_defs live_def\<close>)
qed

section \<open>What a writer has built\<close>

definition full_buf :: "'z tstate_scheme \<Rightarrow> addr \<Rightarrow> addr \<Rightarrow> byte list \<Rightarrow> bool" where
  "full_buf s b k xs \<longleftrightarrow> (\<exists>bf. load s (bufs s) b = Some bf \<and> b_pos bf = (k, 0)
     \<and> b_last bf = (k, int (length xs)) \<and> b_end bf = (k, int (length xs)))
     \<and> load s (data s) k = Some xs"

lemma full_buf_content: "full_buf s b k xs \<Longrightarrow> buf_content s b = Some xs"
  by (auto simp: full_buf_def buf_content_def ptr_diff_def read_bytes_def)

text \<open>
  The chain from \<open>h\<close> is empty, or it ends in the cell \<open>ch\<close> with a full buffer \<open>xs\<close> behind
  buffers that hold \<open>bs\<close>.
\<close>

definition writer_rep ::
  "chaddr \<Rightarrow> chaddr \<Rightarrow> 'z tstate_scheme \<Rightarrow> byte list \<Rightarrow> byte list \<Rightarrow> bool" where
  "writer_rep h ch s bs xs \<longleftrightarrow>
     (bs = [] \<and> xs = [] \<and> ch = h \<and> get_buf h s = Some None \<and> get_link h s = Some None)
     \<or> (\<exists>cs bss b k. chain_seg s (Some h) (cs @ [(ch, b)]) \<and> ch \<notin> fst ` set cs \<and> b \<notin> snd ` set cs
          \<and> chain_bytes s cs bss \<and> concat bss = bs \<and> full_buf s b k xs \<and> xs \<noteq> [])"

lemma spare_less: "spare pick m (Suc n) \<Longrightarrow> spare pick m n"
proof (induction n arbitrary: m)
  case (Suc n)
  then show ?case
    unfolding spare.simps(2) [of pick m "Suc n"] spare.simps(2) [of pick m n] by blast
qed simp

lemma spare_le:
  assumes "spare pick m n" and "k \<le> n"
  shows "spare pick m k"
  using assms(2,1) by (induction rule: inc_induct) (auto dest: spare_less)

lemma chain_bytes_live: "chain_bytes s cs bss \<Longrightarrow> b \<in> snd ` set cs \<Longrightarrow> live s b"
  by (induction rule: list_all2_induct) (auto simp: buf_content_def fault_simps load_Some_iff)

lemma after_new_full:
  assumes "b \<noteq> k" and "live s (chowner ch)" and "int (length d) = n"
    and "b_pos bf = (k, 0)" "b_last bf = (k, n)" "b_end bf = (k, n)"
  shows "full_buf (after_new K ch b k bf n d s) b k d"
    and "get_buf ch (after_new K ch b k bf n d s) = Some (Some b)"
    and "get_link ch (after_new K ch b k bf n d s) = get_link ch s"
  using assms by (auto simp: full_buf_def after_new_def load_def live_def chain_defs)

text \<open>
  One turn of a writer's \<open>Next\<close> on a full chain, with \<open>n\<close> bytes in the new buffer: the cell
  \<open>c1\<close> has no buffer yet, gets a new one, and a store of at most \<open>n\<close> bytes into it leaves
  a full chain again, in which what the caller did not store is followed by junk.
\<close>

definition serves ::
  "(chunk \<Rightarrow> chunk) \<Rightarrow> slab_pick \<Rightarrow> (nat \<Rightarrow> byte) \<Rightarrow> (addr \<Rightarrow> ngx_buf) \<Rightarrow> int \<Rightarrow> chaddr \<Rightarrow> chaddr
    \<Rightarrow> 'z tstate_scheme \<Rightarrow> byte list \<Rightarrow> nat \<Rightarrow> bool" where
  "serves K pick junk init n h ch s bs m \<longleftrightarrow> (\<exists>c1 s1 k s2.
     add_cell K pick ch s = Some (c1, s1) \<and> get_buf c1 s1 = Some None
     \<and> new_buf K pick junk init c1 n s1 = Some (((k, 0), n), s2) \<and> spare pick (chunks s2) m
     \<and> (\<forall>ys. int (length ys) \<le> n \<longrightarrow> (\<exists>s3 rest. write_bytes (k, 0) ys s2 = Some s3
          \<and> int (length (ys @ rest)) = n \<and> chunks s3 = chunks s2 \<and> writer_rep h c1 s3 bs (ys @ rest))))"

lemma servesI:
  assumes "add_cell K pick ch s = Some (c1, s1)" and "get_buf c1 s1 = Some None"
    and "new_buf K pick junk init c1 n s1 = Some (((k, 0), n), s2)" and "spare pick (chunks s2) m"
    and "\<And>ys. int (length ys) \<le> n \<Longrightarrow> \<exists>s3 rest. write_bytes (k, 0) ys s2 = Some s3
       \<and> int (length (ys @ rest)) = n \<and> chunks s3 = chunks s2 \<and> writer_rep h c1 s3 bs (ys @ rest)"
  shows "serves K pick junk init n h ch s bs m"
  using assms unfolding serves_def by blast

lemma junk_rest:
  "int (length ys) \<le> n \<Longrightarrow> int (length (ys @ drop (length ys) (junk_block junk n))) = n"
  by (simp add: junk_block_def)

lemma serves_empty:
  assumes empty: "bs = []" "xs = []" "ch = h" "get_buf h s = Some None" "get_link h s = Some None"
    and sp: "spare pick (chunks s) (Suc (Suc (Suc m)))"
    and init: "\<And>k. b_pos (init k) = (k, 0)" "\<And>k. b_last (init k) = (k, n)" "\<And>k. b_end (init k) = (k, n)"
    and n: "0 < n"
  shows "serves K pick junk init n h ch s (bs @ xs) m"
proof -
  have lh: "live s (chowner h)" using empty(4) by (simp add: get_buf_def split: if_splits)
  obtain b k where b: "new_buf K pick junk init h n s =
      Some (((k, 0), n), after_new K h b k (init k) n (junk_block junk n) s)"
    "b \<noteq> k" "\<And>d bf. spare pick (chunks (after_new K h b k bf n d s)) m"
    using new_buf_ok [OF lh spare_less [OF sp], of K junk init n] by metis
  show ?thesis
  proof (rule servesI)
    show "add_cell K pick ch s = Some (h, s)" using empty by (simp add: add_cell_def)
    show "get_buf h s = Some None" by (rule empty(4))
    show "new_buf K pick junk init h n s = Some (((k, 0), n), after_new K h b k (init k) n (junk_block junk n) s)"
      by (rule b(1))
    show "spare pick (chunks (after_new K h b k (init k) n (junk_block junk n) s)) m" by (rule b(3))
    fix ys :: "byte list"
    assume ys: "int (length ys) \<le> n"
    let ?d = "ys @ drop (length ys) (junk_block junk n)"
    let ?s3 = "after_new K h b k (init k) n ?d s"
    have "chain_seg ?s3 (Some h) ([] @ [(h, b)])"
      using after_new_full(2,3) [where K = K, OF b(2) lh junk_rest [OF ys] init] empty(5) by simp
    moreover have "full_buf ?s3 b k ?d" by (rule after_new_full(1) [OF b(2) lh junk_rest [OF ys] init])
    moreover have "?d \<noteq> []" using junk_rest [OF ys, of junk] n by auto
    ultimately have "writer_rep h h ?s3 (bs @ xs) ?d"
      unfolding writer_rep_def empty(1,2)
      by (intro disjI2 exI [of _ "[]"] exI [of _ "[]"] exI [of _ b] exI [of _ k]) simp
    moreover have "write_bytes (k, 0) ys (after_new K h b k (init k) n (junk_block junk n) s) = Some ?s3"
      by (rule after_new_write) (use b(2) ys in auto)
    ultimately show "\<exists>s3 rest. write_bytes (k, 0) ys (after_new K h b k (init k) n (junk_block junk n) s) = Some s3
        \<and> int (length (ys @ rest)) = n
        \<and> chunks s3 = chunks (after_new K h b k (init k) n (junk_block junk n) s)
        \<and> writer_rep h h s3 (bs @ xs) (ys @ rest)"
      using junk_rest [OF ys]
      by (intro exI [of _ ?s3] exI [of _ "drop (length ys) (junk_block junk n)"]) (simp add: after_new_def)
  qed
qed

lemma serves_full:
  assumes full: "chain_seg s (Some h) (cs @ [(ch, b)])" "ch \<notin> fst ` set cs" "b \<notin> snd ` set cs"
      "chain_bytes s cs bss" "concat bss = bs" "full_buf s b k xs" "xs \<noteq> []"
    and sp: "spare pick (chunks s) (Suc (Suc (Suc m)))"
    and init: "\<And>k. b_pos (init k) = (k, 0)" "\<And>k. b_last (init k) = (k, n)" "\<And>k. b_end (init k) = (k, n)"
    and n: "0 < n"
  shows "serves K pick junk init n h ch s (bs @ xs) m"
proof -
  have "chain_seg s p (cs @ [(ch, b)]) \<Longrightarrow> get_buf ch s = Some (Some b)" for p
    by (induction cs arbitrary: p) (auto split: option.splits)
  then have gb: "get_buf ch s = Some (Some b)" using full(1) by blast
  obtain bf where bf: "load s (bufs s) b = Some bf" "b_last bf = b_end bf" "live s b"
    using full(6) by (auto simp: full_buf_def load_Some_iff)
  obtain nc s1 where nc: "add_cell K pick ch s = Some (Chain_cell nc, s1)" "\<not> live s nc" "grows {ch} s s1"
    "get_buf ch s1 = Some (Some b)" "get_link ch s1 = Some (Some (Chain_cell nc))" "live s1 nc"
    "get_buf (Chain_cell nc) s1 = Some None" "get_link (Chain_cell nc) s1 = Some None"
    "spare pick (chunks s1) (Suc (Suc m))"
    using add_cell_new [OF gb bf(1,2) sp] by metis
  let ?c = "Chain_cell nc"
  have lc: "live s1 (chowner ?c)" using nc(6) by simp
  obtain b' k' where b': "new_buf K pick junk init ?c n s1 =
      Some (((k', 0), n), after_new K ?c b' k' (init k') n (junk_block junk n) s1)"
    "\<not> live s1 b'" "\<not> live s1 k'" "b' \<noteq> k'" "\<And>d bf. spare pick (chunks (after_new K ?c b' k' bf n d s1)) m"
    using new_buf_ok [OF lc nc(9), of K junk init n] by metis
  have old: "live s (chowner ch)" using gb by (simp add: get_buf_def split: if_splits)
  have "live s (chowner x)" if "x \<in> fst ` set (cs @ [(ch, b)])" for x
    by (rule chain_seg_live [OF full(1) that])
  then have new1: "?c \<notin> fst ` set (cs @ [(ch, b)])" using nc(2) by (metis chowner.simps(1))
  have "live s1 a" if "a \<in> snd ` set (cs @ [(ch, b)])" for a
  proof -
    have "live s a" using that chain_bytes_live [OF full(4)] bf(3) by auto
    then show ?thesis by (rule grows_live [OF nc(3)])
  qed
  then have new2: "b' \<notin> snd ` set (cs @ [(ch, b)])" using b'(2) by blast
  have new3: "ch \<noteq> ?c" using old nc(2) by auto
  show ?thesis
  proof (rule servesI)
    show "add_cell K pick ch s = Some (?c, s1)" by (rule nc(1))
    show "get_buf ?c s1 = Some None" by (rule nc(7))
    show "new_buf K pick junk init ?c n s1 = Some (((k', 0), n), after_new K ?c b' k' (init k') n (junk_block junk n) s1)"
      by (rule b'(1))
    show "spare pick (chunks (after_new K ?c b' k' (init k') n (junk_block junk n) s1)) m" by (rule b'(5))
    fix ys :: "byte list"
    assume ys: "int (length ys) \<le> n"
    let ?d = "ys @ drop (length ys) (junk_block junk n)"
    let ?s3 = "after_new K ?c b' k' (init k') n ?d s1"
    note af = after_new_full [where K = K, OF b'(4) lc junk_rest [OF ys] init]
    have g1: "grows {?c} s1 ?s3" by (rule after_new_grows [OF b'(2,3)])
    have g: "grows {ch} s ?s3" by (rule grows_trans [OF nc(3) g1]) (use nc(2) in auto)
    have "get_buf ch ?s3 = Some (Some b)" "get_link ch ?s3 = Some (Some ?c)"
      using grows_cell [OF g1, of ch] new3 nc(4,5) grows_live [OF nc(3) old] by auto
    then have "chain_seg ?s3 (Some h) (cs @ [(ch, b), (?c, b')])"
      by (intro chain_seg_extend [OF g full(1,2)]) (simp_all add: af nc(8))
    moreover have "chain_bytes ?s3 (cs @ [(ch, b)]) (bss @ [xs])"
    proof (rule list_all2_appendI)
      show "chain_bytes ?s3 cs bss"
        using full(4) by (rule list_all2_mono) (auto dest: grows_content [OF g])
      show "chain_bytes ?s3 [(ch, b)] [xs]"
        using grows_content [OF g full_buf_content [OF full(6)]] by simp
    qed
    moreover have "full_buf ?s3 b' k' ?d" by (rule af(1))
    moreover have "concat (bss @ [xs]) = bs @ xs" using full(5) by simp
    moreover have "?d \<noteq> []" using junk_rest [OF ys, of junk] n by auto
    ultimately have "writer_rep h ?c ?s3 (bs @ xs) ?d"
      unfolding writer_rep_def using new1 new2
      by (intro disjI2 exI [of _ "cs @ [(ch, b)]"] exI [of _ "bss @ [xs]"] exI [of _ b'] exI [of _ k'])
        simp
    moreover have "write_bytes (k', 0) ys (after_new K ?c b' k' (init k') n (junk_block junk n) s1) = Some ?s3"
      by (rule after_new_write) (use b'(4) ys in auto)
    ultimately show "\<exists>s3 rest. write_bytes (k', 0) ys (after_new K ?c b' k' (init k') n (junk_block junk n) s1) = Some s3
        \<and> int (length (ys @ rest)) = n
        \<and> chunks s3 = chunks (after_new K ?c b' k' (init k') n (junk_block junk n) s1)
        \<and> writer_rep h ?c s3 (bs @ xs) (ys @ rest)"
      using junk_rest [OF ys]
      by (intro exI [of _ ?s3] exI [of _ "drop (length ys) (junk_block junk n)"]) (simp add: after_new_def)
  qed
qed

lemma writer_step:
  assumes rep: "writer_rep h ch s bs xs" and sp: "spare pick (chunks s) (Suc (Suc (Suc m)))"
    and init: "\<And>k. b_pos (init k) = (k, 0)" "\<And>k. b_last (init k) = (k, n)" "\<And>k. b_end (init k) = (k, n)"
    and n: "0 < n"
  shows "serves K pick junk init n h ch s (bs @ xs) m"
  using rep unfolding writer_rep_def
proof (elim disjE exE conjE)
  assume "bs = []" "xs = []" "ch = h" "get_buf h s = Some None" "get_link h s = Some None"
  then show ?thesis by (rule serves_empty [where xs = xs, OF _ _ _ _ _ sp init n])
next
  fix cs bss b k
  assume "chain_seg s (Some h) (cs @ [(ch, b)])" "ch \<notin> fst ` set cs" "b \<notin> snd ` set cs"
    "chain_bytes s cs bss" "concat bss = bs" "full_buf s b k xs" "xs \<noteq> []"
  then show ?thesis by (rule serves_full [OF _ _ _ _ _ _ _ sp init n])
qed

section \<open>The pool writer keeps the contract\<close>

text \<open>
  A stream state is the C++ object with the shared state. \<open>budget\<close> keeps the counters within
  their C types: \<open>k\<close> further regions grow by 4096 bytes each.
\<close>

definition pool_region ::
  "slab_pick \<Rightarrow> (nat \<Rightarrow> byte) \<Rightarrow> chain_writer \<times> 'z tstate_scheme
    \<Rightarrow> ((cptr \<times> int) \<times> chain_writer \<times> 'z tstate_scheme) option" where
  "pool_region pick junk st = writer_next pick junk (fst st) (snd st)"

definition stream_store ::
  "cptr \<Rightarrow> byte list \<Rightarrow> chain_writer \<times> 'z tstate_scheme \<Rightarrow> (chain_writer \<times> 'z tstate_scheme) option" where
  "stream_store p xs st = map_option (Pair (fst st)) (write_bytes p xs (snd st))"

definition stream_backup ::
  "int \<Rightarrow> chain_writer \<times> 'z tstate_scheme \<Rightarrow> (chain_writer \<times> 'z tstate_scheme) option" where
  "stream_backup n st = writer_backup n (fst st) (snd st)"

definition budget :: "chain_writer \<Rightarrow> nat \<Rightarrow> bool" where
  "budget w k \<longleftrightarrow> 1 \<le> uint (wr_extends w) \<and>
     wr_totaly w + 4096 * int k * (uint (wr_extends w) + int k) < 2 ^ 31"

definition stream_holds ::
  "slab_pick \<Rightarrow> chaddr \<Rightarrow> chain_writer \<times> 'z tstate_scheme \<Rightarrow> nat \<Rightarrow> byte list \<Rightarrow> byte list \<Rightarrow> bool" where
  "stream_holds pick h st k bs xs \<longleftrightarrow> writer_rep h (wr_chain (fst st)) (snd st) bs xs
     \<and> spare pick (chunks (snd st)) (3 * k) \<and> wr_totaly (fst st) = int (length (bs @ xs)) \<and> budget (fst st) k"

definition stream_contents :: "chaddr \<Rightarrow> chain_writer \<times> 'z tstate_scheme \<Rightarrow> byte list \<Rightarrow> bool" where
  "stream_contents h st bs \<longleftrightarrow> writer_byte_count (fst st) = int (length bs)
     \<and> (\<exists>cs bss. chain_seg (snd st) (Some h) cs \<and> chain_bytes (snd st) cs bss \<and> concat bss = bs)"

lemma budget_size:
  assumes "budget w (Suc k)" and "0 \<le> wr_totaly w"
  shows "c_int (uint (default_size * wr_extends w)) = 4096 * uint (wr_extends w)"
    and "4096 \<le> 4096 * uint (wr_extends w)"
    and "c_int (wr_totaly w + 4096 * uint (wr_extends w)) = wr_totaly w + 4096 * uint (wr_extends w)"
    and "budget (w\<lparr>wr_chain := ch, wr_totaly := wr_totaly w + 4096 * uint (wr_extends w),
            wr_extends := wr_extends w + 1\<rparr>) k"
    and "uint (wr_extends w + 1) = uint (wr_extends w) + 1"
proof -
  let ?e = "uint (wr_extends w)"
  have e: "1 \<le> ?e" and b: "wr_totaly w + 4096 * (int k + 1) * (?e + int k + 1) < 2 ^ 31"
    using assms(1) by (simp_all add: budget_def ac_simps)
  have "4096 * (int k + 1) * (?e + int k + 1) = 4096 * ?e + 4096 * int k * (?e + 1 + int k) + 4096 * (int k + 1)"
    by (simp add: algebra_simps)
  then have sum: "wr_totaly w + 4096 * ?e + 4096 * int k * (?e + 1 + int k) < 2 ^ 31"
    using b by simp
  moreover have "0 \<le> 4096 * int k * (?e + 1 + int k)" using e by simp
  ultimately have small: "wr_totaly w + 4096 * ?e < 2 ^ 31" by linarith
  then have size: "4096 * ?e < 2 ^ 31" using assms(2) by linarith
  have "uint (default_size * wr_extends w) = 4096 * ?e"
    using size e by (simp add: default_size_def uint_word_ariths)
  then show "c_int (uint (default_size * wr_extends w)) = 4096 * ?e"
    using size e by (simp add: c_int_id)
  show "4096 \<le> 4096 * ?e" using e by simp
  show "c_int (wr_totaly w + 4096 * ?e) = wr_totaly w + 4096 * ?e"
    using small assms(2) e by (intro c_int_id) auto
  show "uint (wr_extends w + 1) = ?e + 1"
    using size e by (simp add: uint_word_ariths)
  then show "budget (w\<lparr>wr_chain := ch, wr_totaly := wr_totaly w + 4096 * ?e, wr_extends := wr_extends w + 1\<rparr>) k"
    using sum e by (simp add: budget_def)
qed

lemma stream_backup_ok:
  assumes h: "stream_holds pick h st k bs (xs @ ys)" and ne: "xs @ ys \<noteq> []"
  shows "\<exists>st'. stream_backup (int (length ys)) st = Some st' \<and> stream_contents h st' (bs @ xs)"
proof -
  obtain w s where st: "st = (w, s)" by force
  obtain cs bss b blk where r: "chain_seg s (Some h) (cs @ [(wr_chain w, b)])" "b \<notin> snd ` set cs"
    "chain_bytes s cs bss" "concat bss = bs" "full_buf s b blk (xs @ ys)"
    using h ne by (auto simp: stream_holds_def writer_rep_def st)
  have "chain_seg s p (cs @ [(wr_chain w, b)]) \<Longrightarrow> get_buf (wr_chain w) s = Some (Some b)" for p
    by (induction cs arbitrary: p) (auto split: option.splits)
  then have gb: "get_buf (wr_chain w) s = Some (Some b)" using r(1) by blast
  obtain bf where bf: "load s (bufs s) b = Some bf" "b_pos bf = (blk, 0)"
    "b_last bf = (blk, int (length (xs @ ys)))" "load s (data s) blk = Some (xs @ ys)"
    using r(5) by (auto simp: full_buf_def)
  have tot: "wr_totaly w = int (length (bs @ xs @ ys))" and small: "wr_totaly w < 2 ^ 31"
    using h by (auto simp: stream_holds_def st budget_def intro: le_less_trans [rotated])
  let ?bf = "bf\<lparr>b_last := (blk, int (length xs))\<rparr>"
  let ?s = "s\<lparr>bufs := (bufs s)(b \<mapsto> ?bf)\<rparr>"
  let ?w = "w\<lparr>wr_totaly := int (length (bs @ xs))\<rparr>"
  have "c_int (wr_totaly w - int (length ys)) = int (length (bs @ xs))"
    using tot small by (subst c_int_id) auto
  then have "stream_backup (int (length ys)) st = Some (?w, ?s)"
    using gb bf by (simp add: stream_backup_def st writer_backup_def ptr_diff_def)
  moreover have "buf_content ?s b = Some xs"
    using bf by (auto simp: buf_content_def load_def ptr_diff_def read_bytes_def split: if_splits)
  moreover have "chain_bytes ?s cs bss"
    using r(3)
  proof (rule list.rel_mono_strong)
    fix x bs'
    assume "x \<in> set cs" and c: "(case x of (c, b) \<Rightarrow> \<lambda>bs. buf_content s b = Some bs) bs'"
    then have "snd x \<noteq> b" using r(2) by force
    then show "(case x of (c, b) \<Rightarrow> \<lambda>bs. buf_content ?s b = Some bs) bs'"
      using c by (auto simp: buf_content_def load_def split: prod.splits if_splits)
  qed
  ultimately have "stream_backup (int (length ys)) st = Some (?w, ?s)"
    "chain_seg ?s (Some h) (cs @ [(wr_chain w, b)])" "chain_bytes ?s (cs @ [(wr_chain w, b)]) (bss @ [xs])"
    using r(1) by (simp_all add: list_all2_appendI)
  moreover have "concat (bss @ [xs]) = bs @ xs" using r(4) by simp
  ultimately have "stream_backup (int (length ys)) st = Some (?w, ?s) \<and> stream_contents h (?w, ?s) (bs @ xs)"
    unfolding stream_contents_def writer_byte_count_def fst_conv snd_conv
    by (intro conjI exI [of _ "cs @ [(wr_chain w, b)]"] exI [of _ "bss @ [xs]"]) simp_all
  then show ?thesis by blast
qed

lemma pool_next_ok:
  assumes "stream_holds pick h st (Suc k) bs xs"
  shows "\<exists>p n st1. pool_region pick junk st = Some ((p, n), st1) \<and> 4096 \<le> n
     \<and> (\<forall>ys. int (length ys) \<le> n \<longrightarrow> (\<exists>st2 rest. stream_store p ys st1 = Some st2
          \<and> int (length (ys @ rest)) = n \<and> stream_holds pick h st2 k (bs @ xs) (ys @ rest)))"
proof -
  obtain w s where st: "st = (w, s)" by force
  have rep: "writer_rep h (wr_chain w) s bs xs" and sp: "spare pick (chunks s) (Suc (Suc (Suc (3 * k))))"
    and tot: "wr_totaly w = int (length (bs @ xs))" and bud: "budget w (Suc k)"
    using assms by (simp_all add: stream_holds_def st numeral_3_eq_3)
  define n where "n = 4096 * uint (wr_extends w)"
  have tot0: "0 \<le> wr_totaly w" using tot by simp
  note bz = budget_size [OF bud tot0, folded n_def]
  have "serves Pool_mem pick junk (pool_buf_fields n) n h (wr_chain w) s (bs @ xs) (3 * k)"
    by (rule writer_step [OF rep sp]) (use bz(2) in \<open>simp_all add: pool_buf_fields_def\<close>)
  then obtain c1 s1 b s2 where c1: "add_cell Pool_mem pick (wr_chain w) s = Some (c1, s1)"
    "get_buf c1 s1 = Some None" "new_buf Pool_mem pick junk (pool_buf_fields n) c1 n s1 = Some (((b, 0), n), s2)"
    "spare pick (chunks s2) (3 * k)"
    "\<And>ys. int (length ys) \<le> n \<Longrightarrow> \<exists>s3 rest. write_bytes (b, 0) ys s2 = Some s3
       \<and> int (length (ys @ rest)) = n \<and> chunks s3 = chunks s2 \<and> writer_rep h c1 s3 (bs @ xs) (ys @ rest)"
    unfolding serves_def by blast
  let ?w = "w\<lparr>wr_chain := c1, wr_totaly := wr_totaly w + n, wr_extends := wr_extends w + 1\<rparr>"
  have "pool_region pick junk st = Some (((b, 0), n), (?w, s2))"
    using c1(1-3) bz(1,3) by (simp add: pool_region_def st writer_next_def)
  moreover have "\<exists>st2 rest. stream_store (b, 0) ys (?w, s2) = Some st2
      \<and> int (length (ys @ rest)) = n \<and> stream_holds pick h st2 k (bs @ xs) (ys @ rest)"
    if ys: "int (length ys) \<le> n" for ys
  proof -
    obtain s3 rest where s3: "write_bytes (b, 0) ys s2 = Some s3" "int (length (ys @ rest)) = n"
      "chunks s3 = chunks s2" "writer_rep h c1 s3 (bs @ xs) (ys @ rest)"
      using c1(5) [OF ys] by blast
    have "stream_holds pick h (?w, s3) k (bs @ xs) (ys @ rest)"
      using s3(2-4) c1(4) tot bz(4) by (simp add: stream_holds_def)
    then show ?thesis using s3(1,2) by (auto simp: stream_store_def)
  qed
  ultimately show ?thesis using bz(2) by blast
qed

interpretation pool_writer: output_stream "stream_holds pick h" "stream_contents h"
  "pool_region pick junk" stream_store stream_backup for pick h junk
  using pool_next_ok stream_backup_ok by unfold_locales blast+

lemma writer_create_holds:
  assumes "live s (chowner h)" and "spare pick (chunks s) (3 * k)"
    and "4096 * int k * (uint ex + int k) < 2 ^ 31" "1 \<le> uint ex"
  obtains w s' where "writer_create h ex s = Some (w, s')" and "stream_holds pick h (w, s') k [] []"
proof -
  let ?s = "s\<lparr>chain_buf := (chain_buf s)(h \<mapsto> None), chain_next := (chain_next s)(h \<mapsto> None)\<rparr>"
  have "writer_create h ex s = Some (\<lparr>wr_chain = h, wr_totaly = 0, wr_extends = ex\<rparr>, ?s)"
    using assms(1) by (simp add: writer_create_def chain_defs)
  then show thesis
    by (rule that) (use assms in \<open>simp add: stream_holds_def writer_rep_def chain_defs budget_def\<close>)
qed

text \<open>
  The pool writer's \<open>Next\<close> on a buffer with room left (after a \<open>BackUp\<close>) moves \<open>pos\<close> to the
  end of what was written: the bytes that the buffer held are no longer part of the chain.
\<close>

lemma writer_next_after_backup:
  assumes "get_buf (wr_chain w) s = Some (Some b)" and "load s (bufs s) b = Some bf"
    and "b_last bf = (k, i)" and "b_end bf = (k, j)" and "i < j" and "j - i < 2 ^ 31"
  shows "\<exists>w' s'. writer_next pick junk w s = Some (((k, i), j - i), w', s')
     \<and> s' = s\<lparr>bufs := (bufs s)(b \<mapsto> bf\<lparr>b_pos := (k, i), b_last := (k, j)\<rparr>)\<rparr>"
  using assms
  by (simp add: writer_next_def add_cell_def hand_out_rest_def ptr_diff_def c_int_id)

section \<open>The shared-memory writer\<close>

definition shm_region ::
  "slab_pick \<Rightarrow> (nat \<Rightarrow> byte) \<Rightarrow> bool \<Rightarrow> chain_writer \<times> 'z tstate_scheme
    \<Rightarrow> ((cptr \<times> int) \<times> chain_writer \<times> 'z tstate_scheme) option" where
  "shm_region pick junk old st = shm_writer_next pick junk old (fst st) (snd st)"

lemma shm_next_ok:
  assumes h: "stream_holds pick h (w, s) (Suc k) bs xs" and ch: "wr_chain w = h"
    and last: "get_link h s = Some None"
  defines "n \<equiv> 4096 * uint (wr_extends w)"
  shows "\<exists>c b w1 s2. shm_region pick junk old (w, s) = Some (((b, 0), n), (w1, s2)) \<and> 4096 \<le> n
     \<and> wr_chain w1 = h \<and> wr_extends w1 = wr_extends w + 1 \<and> (xs = [] \<longrightarrow> c = h)
     \<and> (\<forall>ys. int (length ys) \<le> n \<longrightarrow> (\<exists>s3 rest. stream_store (b, 0) ys (w1, s2) = Some (w1, s3)
          \<and> int (length (ys @ rest)) = n \<and> stream_holds pick h (w1\<lparr>wr_chain := c\<rparr>, s3) k (bs @ xs) (ys @ rest)))"
proof -
  have rep: "writer_rep h h s bs xs" and sp: "spare pick (chunks s) (Suc (Suc (Suc (3 * k))))"
    and tot: "wr_totaly w = int (length (bs @ xs))" and bud: "budget w (Suc k)"
    using h ch by (simp_all add: stream_holds_def numeral_3_eq_3)
  have tot0: "0 \<le> wr_totaly w" using tot by simp
  note bz = budget_size [OF bud tot0, folded n_def]
  have cl: "clear_last h s = Some (h, s)" using last by (subst clear_last.simps) simp
  have "serves (\<lambda>k. k) pick junk (shm_buf_fields old n) n h h s (bs @ xs) (3 * k)"
    by (rule writer_step [OF rep sp]) (use bz(2) in \<open>simp_all add: shm_buf_fields_def\<close>)
  then obtain c s1 b s2 where c: "add_cell (\<lambda>k. k) pick h s = Some (c, s1)"
    "get_buf c s1 = Some None" "new_buf (\<lambda>k. k) pick junk (shm_buf_fields old n) c n s1 = Some (((b, 0), n), s2)"
    "spare pick (chunks s2) (3 * k)"
    "\<And>ys. int (length ys) \<le> n \<Longrightarrow> \<exists>s3 rest. write_bytes (b, 0) ys s2 = Some s3
       \<and> int (length (ys @ rest)) = n \<and> chunks s3 = chunks s2 \<and> writer_rep h c s3 (bs @ xs) (ys @ rest)"
    unfolding serves_def by blast
  let ?w = "w\<lparr>wr_totaly := wr_totaly w + n, wr_extends := wr_extends w + 1\<rparr>"
  have "shm_region pick junk old (w, s) = Some (((b, 0), n), (?w, s2))"
    using c(1-3) cl ch bz(1,3) by (simp add: shm_region_def shm_writer_next_def)
  moreover have "\<exists>s3 rest. stream_store (b, 0) ys (?w, s2) = Some (?w, s3)
      \<and> int (length (ys @ rest)) = n \<and> stream_holds pick h (?w\<lparr>wr_chain := c\<rparr>, s3) k (bs @ xs) (ys @ rest)"
    if ys: "int (length ys) \<le> n" for ys
  proof -
    obtain s3 rest where s3: "write_bytes (b, 0) ys s2 = Some s3" "int (length (ys @ rest)) = n"
      "chunks s3 = chunks s2" "writer_rep h c s3 (bs @ xs) (ys @ rest)"
      using c(5) [OF ys] by blast
    have "stream_holds pick h (?w\<lparr>wr_chain := c\<rparr>, s3) k (bs @ xs) (ys @ rest)"
      using s3(2-4) c(4) tot bz(4) by (simp add: stream_holds_def budget_def)
    then show ?thesis using s3(1,2) by (auto simp: stream_store_def)
  qed
  moreover have "c = h" if "xs = []"
    using that rep c(1) by (auto simp: writer_rep_def add_cell_def)
  ultimately show ?thesis using bz(2) ch by (intro exI [of _ c] exI [of _ b] exI [of _ ?w] exI [of _ s2]) auto
qed

text \<open>A message that fits the first region is written as it should be.\<close>

lemma shm_put_small:
  assumes h: "stream_holds pick h (w, s) (Suc k) [] []" and ch: "wr_chain w = h"
    and fits: "int (length ys) \<le> 4096 * uint (wr_extends w)"
  shows "\<exists>st'. put_all (shm_region pick junk old) stream_store stream_backup (Suc k) ys (w, s) = Some st'
     \<and> stream_contents h st' ys"
proof -
  have "get_link h s = Some None" using h ch by (auto simp: stream_holds_def writer_rep_def)
  from shm_next_ok [OF h ch this] obtain b w1 s2 where r:
    "shm_region pick junk old (w, s) = Some (((b, 0), 4096 * uint (wr_extends w)), (w1, s2))" "wr_chain w1 = h"
    "\<forall>ys. int (length ys) \<le> 4096 * uint (wr_extends w) \<longrightarrow> (\<exists>s3 rest. stream_store (b, 0) ys (w1, s2) = Some (w1, s3)
       \<and> int (length (ys @ rest)) = 4096 * uint (wr_extends w)
       \<and> stream_holds pick h (w1\<lparr>wr_chain := h\<rparr>, s3) k ([] @ []) (ys @ rest))"
    "4096 \<le> 4096 * uint (wr_extends w)"
    by blast
  obtain s3 rest where s3: "stream_store (b, 0) ys (w1, s2) = Some (w1, s3)"
    "int (length (ys @ rest)) = 4096 * uint (wr_extends w)"
    "stream_holds pick h (w1\<lparr>wr_chain := h\<rparr>, s3) k ([] @ []) (ys @ rest)"
    using r(3) fits by blast
  have "w1\<lparr>wr_chain := h\<rparr> = w1" using r(2) by simp
  moreover have "ys @ rest \<noteq> []" using s3(2) r(4) by auto
  ultimately obtain st' where "stream_backup (int (length rest)) (w1, s3) = Some st'" "stream_contents h st' ([] @ [] @ ys)"
    using stream_backup_ok [OF s3(3)] by auto
  moreover have "4096 * uint (wr_extends w) - int (length ys) = int (length rest)" using s3(2) by simp
  ultimately show ?thesis using r(1) s3(1) fits by simp
qed

text \<open>
  \<open>BackUp\<close> of the shared-memory writer works on the head of the chain. With a second buffer
  in use it takes more bytes off the head than the head has, and its assertion fails.
\<close>

lemma backup_head_fails:
  assumes rep: "writer_rep h c s bs xs" and "bs \<noteq> []" and "wr_chain w = h" and n: "int (length bs) < n"
  shows "stream_backup n (w, s) = None"
proof -
  obtain cs bss b where r: "chain_seg s (Some h) (cs @ [(c, b)])" "chain_bytes s cs bss" "concat bss = bs"
    using rep assms(2) by (auto simp: writer_rep_def)
  obtain d e cs' xs1 bss' where cs: "cs = (d, e) # cs'" "bss = xs1 # bss'"
    using r(2,3) assms(2) by (cases cs; cases bss) auto
  then have d: "d = h" "get_buf h s = Some (Some e)" "buf_content s e = Some xs1"
    using r(1,2) by auto
  obtain bf where bf: "load s (bufs s) e = Some bf" "ptr_diff (b_last bf) (b_pos bf) = Some (int (length xs1))"
    using d(3) by (auto simp: load_Some_iff elim: buf_content_SomeE)
  have "int (length xs1) < n" using r(3) cs(2) n by auto
  then show ?thesis
    using d(2) bf assms(3)
    by (auto simp: stream_backup_def writer_backup_def ptr_diff_def bind_eq_None_conv split: if_splits)
qed

lemma shm_put_aborts:
  assumes h: "stream_holds pick h (w, s) (Suc (Suc k)) [] []" and ch: "wr_chain w = h"
    and big: "4096 * uint (wr_extends w) < int (length ys)"
      "int (length ys) < 4096 * (uint (wr_extends w) + 1)"
  shows "put_all (shm_region pick junk old) stream_store stream_backup (Suc (Suc k)) ys (w, s) = None"
proof -
  let ?n = "4096 * uint (wr_extends w)"
  let ?a = "take (nat ?n) ys" and ?b = "drop (nat ?n) ys"
  have "get_link h s = Some None" using h ch by (auto simp: stream_holds_def writer_rep_def)
  from shm_next_ok [OF h ch this] obtain b w1 s2 where r:
    "shm_region pick junk old (w, s) = Some (((b, 0), ?n), (w1, s2))" "4096 \<le> ?n"
    "wr_chain w1 = h" "wr_extends w1 = wr_extends w + 1"
    "\<forall>ys. int (length ys) \<le> ?n \<longrightarrow> (\<exists>s3 rest. stream_store (b, 0) ys (w1, s2) = Some (w1, s3)
       \<and> int (length (ys @ rest)) = ?n \<and> stream_holds pick h (w1\<lparr>wr_chain := h\<rparr>, s3) (Suc k) ([] @ []) (ys @ rest))"
    by blast
  have la: "int (length ?a) = ?n" using big(1) r(2) by simp
  then obtain s3 rest where s3: "stream_store (b, 0) ?a (w1, s2) = Some (w1, s3)"
    "int (length (?a @ rest)) = ?n" "stream_holds pick h (w1\<lparr>wr_chain := h\<rparr>, s3) (Suc k) ([] @ []) (?a @ rest)"
    using r(5) by (metis order_refl)
  have "rest = []" using s3(2) la by simp
  moreover have "w1\<lparr>wr_chain := h\<rparr> = w1" using r(3) by simp
  ultimately have h3: "stream_holds pick h (w1, s3) (Suc k) [] ?a" using s3(3) by simp
  have "?a \<noteq> []" using la r(2) by auto
  then obtain cs b1 where "chain_seg s3 (Some h) (cs @ [(h, b1)])" "h \<notin> fst ` set cs"
    using h3 r(3) by (auto simp: stream_holds_def writer_rep_def)
  then have "get_link h s3 = Some None" by (cases cs) (auto split: option.splits)
  from shm_next_ok [OF h3 r(3) this] obtain c b2 w2 s4 where q:
    "shm_region pick junk old (w1, s3) = Some (((b2, 0), 4096 * uint (wr_extends w1)), (w2, s4))"
    "wr_chain w2 = h"
    "\<forall>ys. int (length ys) \<le> 4096 * uint (wr_extends w1) \<longrightarrow> (\<exists>s5 rest.
       stream_store (b2, 0) ys (w2, s4) = Some (w2, s5) \<and> int (length (ys @ rest)) = 4096 * uint (wr_extends w1)
       \<and> stream_holds pick h (w2\<lparr>wr_chain := c\<rparr>, s5) k ([] @ ?a) (ys @ rest))"
    by blast
  have "budget w (Suc (Suc k))" "0 \<le> wr_totaly w" using h by (simp_all add: stream_holds_def)
  then have e: "uint (wr_extends w + 1) = uint (wr_extends w) + 1" by (rule budget_size(5))
  have lb: "int (length ?b) \<le> 4096 * uint (wr_extends w1)" using big r(2,4) e by simp
  then obtain s5 rest where s5: "stream_store (b2, 0) ?b (w2, s4) = Some (w2, s5)"
    "int (length (?b @ rest)) = 4096 * uint (wr_extends w1)"
    "stream_holds pick h (w2\<lparr>wr_chain := c\<rparr>, s5) k ([] @ ?a) (?b @ rest)"
    using q(3) by blast
  have "writer_rep h c s5 ?a (?b @ rest)" using s5(3) by (simp add: stream_holds_def)
  moreover have "int (length ?a) < 4096 * uint (wr_extends w1) - int (length ?b)"
    using la big r(4) e by simp
  ultimately have "stream_backup (4096 * uint (wr_extends w1) - int (length ?b)) (w2, s5) = None"
    using \<open>?a \<noteq> []\<close> q(2) by (intro backup_head_fails)
  then show ?thesis
    using r(1) s3(1) q(1) s5(1) lb big(1) by simp
qed

end
