(* ===== verification/Stream_Properties.thy ===== *)
theory Stream_Properties
  imports Rpc_Buffer Shm_Properties
begin

text \<open>
  The properties of the protobuf streams over buffer chains, each with a theorem that applies
  it to the concrete memories of Shm_Properties.
\<close>

lemma demo_spare: "k \<le> 9 \<Longrightarrow> spare (first_fit 20) (chunks (demo ids ts sig)) k"
proof (rule spare_first_fit)
  assume "k \<le> 9"
  have "{7, 8, 9, 10, 11, 12, 13, 14, 15} \<subseteq> {a \<in> {1..<20}. chunks (demo ids ts sig) a = None}"
    by (auto simp: demo_def)
  from card_mono [OF _ this] show "k \<le> card {a \<in> {1..<20}. chunks (demo ids ts sig) a = None}"
    using \<open>k \<le> 9\<close> by simp
qed

section \<open>Reading\<close>

text \<open>
  A caller that reads a request of one buffer to its end gets exactly the bytes of that
  buffer, and the stream's byte count is their number.
\<close>

theorem reader_reads_one_buffer:
  assumes "get_buf ch s = Some (Some b)" "get_link ch s = Some None" and "mem_buf s b bf bs"
  shows "\<exists>rd s'. read_all (reader_create ch) s = Some (bs, rd, s')
     \<and> reader_byte_count rd = int (length bs) \<and> buf_content s' b = Some []"
  using read_all_single [OF assms] mem_buf_content [OF consume_mem_buf(1) [OF assms(3)]] by auto

theorem reader_reads_one_buffer_witness:
  "\<exists>rd s'. read_all (reader_create (Chain_cell 7)) demo_body = Some ([2, 3], rd, s')
     \<and> reader_byte_count rd = 2 \<and> buf_content s' 8 = Some []"
proof -
  have "get_buf (Chain_cell 7) demo_body = Some (Some 8)" "get_link (Chain_cell 7) demo_body = Some None"
    "mem_buf demo_body 8 \<lparr>b_pos = (9, 1), b_last = (9, 3), b_start = (9, 0), b_end = (9, 4), b_in_file = False,
       b_last_buf = True, b_temporary = True, b_memory = False\<rparr> [2, 3]"
    by (simp_all add: mem_buf_def demo_body_def demo_def chain_defs live_def load_def ptr_diff_def
        read_bytes_def numeral_eq_Suc)
  from reader_reads_one_buffer [OF this] show ?thesis by simp
qed

text \<open>
  C28. A request whose body is in two or more buffers is never read to its end: the loop of
  \<open>Next\<close> looks for the next cell from the head of the chain each time and does not return once
  the second buffer is used up. The processor that runs the request hangs.
\<close>

theorem reader_never_ends_on_two_buffers:
  assumes "get_buf ch s = Some (Some b)" "get_link ch s = Some (Some c)" "get_buf c s = Some (Some b2)"
    and "mem_buf s b bf bs" "mem_buf s b2 bf2 bs2" and "b \<noteq> b2"
  shows "read_all (reader_create ch) s = None"
  using assms by (rule read_all_two)

theorem reader_never_ends_on_two_buffers_witness:
  "read_all (reader_create (Req_bufs 5)) demo_filled = None"
proof -
  have "get_buf (Req_bufs 5) demo_filled = Some (Some 20)"
    "get_link (Req_bufs 5) demo_filled = Some (Some (Chain_cell 30))"
    "get_buf (Chain_cell 30) demo_filled = Some (Some 31)"
    "mem_buf demo_filled 20 \<lparr>b_pos = (21, 0), b_last = (21, 1), b_start = (21, 0), b_end = (21, 1),
       b_in_file = False, b_last_buf = False, b_temporary = False, b_memory = True\<rparr> [7]"
    "mem_buf demo_filled 31 \<lparr>b_pos = (32, 0), b_last = (32, 1), b_start = (32, 0), b_end = (32, 1),
       b_in_file = False, b_last_buf = True, b_temporary = False, b_memory = True\<rparr> [8]"
    by (simp_all add: mem_buf_def demo_filled_def demo_def chain_defs live_def load_def ptr_diff_def
        read_bytes_def)
  from reader_never_ends_on_two_buffers [OF this] show ?thesis by simp
qed

lemma read_bytes_tail:
  assumes "read_bytes (k, i) (int (length (xs @ ys))) s = Some (xs @ ys)"
  shows "read_bytes (k, i + int (length xs)) (int (length ys)) s = Some ys"
proof -
  obtain d where d: "load s (data s) k = Some d" "0 \<le> i" "i + int (length (xs @ ys)) \<le> int (length d)"
    "take (length (xs @ ys)) (drop (nat i) d) = xs @ ys"
    using assms by (auto simp: read_bytes_def fault_simps simp del: length_append split: if_splits)
  have "drop (length xs) (take (length (xs @ ys)) (drop (nat i) d)) = ys" by (simp only: d(4)) simp
  then have "take (length ys) (drop (length xs) (drop (nat i) d)) = ys" by (simp only: drop_take) simp
  then have "take (length ys) (drop (nat (i + int (length xs))) d) = ys"
    using d(2) by (simp add: nat_add_distrib add.commute)
  then show ?thesis using d(1-3) by (simp add: read_bytes_def)
qed

text \<open>
  \<open>BackUp\<close> after \<open>Next\<close> on the stream's own buffer: the last \<open>k\<close> bytes are handed out
  again. The byte count is not corrected, so they are counted twice.
\<close>

theorem reader_backup_rereads:
  assumes "get_buf ch s = Some (Some b)" and "mem_buf s b bf (xs @ ys)" and "ys \<noteq> []"
    and "rd_chain rd = Some ch"
  shows "\<exists>p s1 rd1 s2 q rd2 s3. reader_next rd s = Some (Some (p, int (length (xs @ ys))), rd1, s1)
     \<and> reader_backup (int (length ys)) rd1 s1 = Some s2
     \<and> reader_next rd1 s2 = Some (Some (q, int (length ys)), rd2, s3)
     \<and> read_bytes q (int (length ys)) s2 = Some ys
     \<and> rd_totaly rd2 = rd_totaly rd + of_nat (length (xs @ ys) + length ys)"
proof -
  let ?n = "int (length (xs @ ys))"
  have b: "load s (bufs s) b = Some bf" "live s b" "bufs s b = Some bf" "\<not> b_in_file bf" "?n < 2 ^ 31"
    "ptr_diff (b_last bf) (b_pos bf) = Some ?n" "read_bytes (b_pos bf) ?n s = Some (xs @ ys)"
    using assms(2) by (simp_all add: mem_buf_def load_Some_iff)
  obtain k i where pos: "b_pos bf = (k, i)" "b_last bf = (k, i + ?n)"
    using b(6) by (cases "b_pos bf"; cases "b_last bf") (auto simp: ptr_diff_def split: if_splits)
  let ?rd1 = "rd\<lparr>rd_totaly := rd_totaly rd + word_of_int ?n\<rparr>"
  let ?bf2 = "bf\<lparr>b_pos := (k, i + int (length xs))\<rparr>"
  let ?s1 = "consume b bf s" and ?s2 = "s\<lparr>bufs := (bufs s)(b \<mapsto> ?bf2)\<rparr>"
  have n1: "reader_next rd s = Some (Some (b_pos bf, ?n), ?rd1, ?s1)"
    using scan_hit [OF assms(2), of ch rd] assms(1,3,4) by (simp add: reader_next_def)
  have bk: "reader_backup (int (length ys)) ?rd1 ?s1 = Some ?s2"
    using assms(1,4) b(2) pos
    by (simp add: reader_backup_def consume_def load_def)
  have rb: "read_bytes (k, i + int (length xs)) (int (length ys)) s = Some ys"
    using b(7) pos(1) by (intro read_bytes_tail) simp
  have "mem_buf ?s2 b ?bf2 ys"
    using b pos rb by (simp add: mem_buf_def load_def ptr_diff_def)
  from scan_hit [OF this assms(3), of ch ?rd1] have
    "reader_next ?rd1 ?s2 = Some (Some ((k, i + int (length xs)), int (length ys)),
       ?rd1\<lparr>rd_totaly := rd_totaly ?rd1 + word_of_int (int (length ys))\<rparr>, consume b ?bf2 ?s2)"
    using assms(1,4) by (simp add: reader_next_def)
  then show ?thesis using n1 bk rb by (auto simp: algebra_simps)
qed

theorem reader_backup_rereads_witness:
  "\<exists>p s1 rd1 s2 q rd2 s3. reader_next (reader_create (Chain_cell 7)) demo_body = Some (Some (p, 2), rd1, s1)
     \<and> reader_backup 1 rd1 s1 = Some s2 \<and> reader_next rd1 s2 = Some (Some (q, 1), rd2, s3)
     \<and> read_bytes q 1 s2 = Some [3] \<and> rd_totaly rd2 = 3"
proof -
  have "get_buf (Chain_cell 7) demo_body = Some (Some 8)"
    "mem_buf demo_body 8 \<lparr>b_pos = (9, 1), b_last = (9, 3), b_start = (9, 0), b_end = (9, 4), b_in_file = False,
       b_last_buf = True, b_temporary = True, b_memory = False\<rparr> ([2] @ [3])"
    by (simp_all add: mem_buf_def demo_body_def demo_def chain_defs live_def load_def ptr_diff_def
        read_bytes_def numeral_eq_Suc)
  from reader_backup_rereads [OF this, of "reader_create (Chain_cell 7)"] show ?thesis
    by (simp add: reader_create_def)
qed

text \<open>
  \<open>Skip\<close> works within the first buffer only, and it does not count what it skips there.
  A longer skip moves to the next cell and reports failure even when the bytes are there, since
  the test for the next cell is the wrong way round; on the last cell it has no defined result.
\<close>

theorem reader_skip_cases:
  assumes "get_buf ch s = Some (Some b)" and "mem_buf s b bf bs" and "rd_chain rd = Some ch" and "0 \<le> k"
  shows "(k \<le> int (length bs) \<longrightarrow> (\<exists>s'. reader_skip k rd s = Some (True, rd, s')
          \<and> buf_content s' b = Some (drop (nat k) bs)))
     \<and> (k > int (length bs) \<and> get_link ch s = Some (Some c) \<longrightarrow>
          (\<exists>rd'. reader_skip k rd s = Some (False, rd', s) \<and> rd_chain rd' = Some c))
     \<and> (k > int (length bs) \<and> get_link ch s = Some None \<longrightarrow> reader_skip k rd s = None)"
proof -
  have b: "load s (bufs s) b = Some bf" "\<not> b_in_file bf" "int (length bs) < 2 ^ 31"
    "ptr_diff (b_last bf) (b_pos bf) = Some (int (length bs))"
    "read_bytes (b_pos bf) (int (length bs)) s = Some bs"
    using assms(2) by (simp_all add: mem_buf_def)
  have ci: "c_int (int (length bs)) = int (length bs)" using b(3) by (intro c_int_id) auto
  have sk: "reader_skip k rd s = reader_skip_loop k (Some b) rd s"
    using assms(1,3) by (simp add: reader_skip_def)
  have short: "k \<le> int (length bs) \<longrightarrow> (\<exists>s'. reader_skip k rd s = Some (True, rd, s')
      \<and> buf_content s' b = Some (drop (nat k) bs))"
  proof
    assume k: "k \<le> int (length bs)"
    obtain a i where pos: "b_pos bf = (a, i)" "b_last bf = (a, i + int (length bs))"
      using b(4) by (cases "b_pos bf"; cases "b_last bf") (auto simp: ptr_diff_def split: if_splits)
    let ?s = "s\<lparr>bufs := (bufs s)(b \<mapsto> bf\<lparr>b_pos := (a, i + k)\<rparr>)\<rparr>"
    have "reader_skip k rd s = Some (True, rd, ?s)"
      unfolding sk using b(1,2,4) ci k assms(4) pos by (subst reader_skip_loop.simps) simp
    moreover have "read_bytes (a, i + k) (int (length bs) - k) s = Some (drop (nat k) bs)"
      using read_bytes_tail [of a i "take (nat k) bs" "drop (nat k) bs" s] b(5) pos k assms(4)
      by (simp add: min_absorb2 of_nat_diff nat_le_iff)
    then have "buf_content ?s b = Some (drop (nat k) bs)"
      using b(1) pos by (simp add: buf_content_def ptr_diff_def load_def split: if_splits)
    ultimately show "\<exists>s'. reader_skip k rd s = Some (True, rd, s') \<and> buf_content s' b = Some (drop (nat k) bs)"
      by blast
  qed
  have "reader_skip_loop j None rd' s = Some (False, rd', s)" for j and rd' :: chain_reader
    by (subst reader_skip_loop.simps) simp
  then have "k > int (length bs) \<and> get_link ch s = Some (Some c) \<longrightarrow>
      (\<exists>rd'. reader_skip k rd s = Some (False, rd', s) \<and> rd_chain rd' = Some c)"
    unfolding sk using b(1,2,4) ci assms(3,4) by (subst reader_skip_loop.simps) simp
  moreover have "k > int (length bs) \<and> get_link ch s = Some None \<longrightarrow> reader_skip k rd s = None"
    unfolding sk using b(1,2,4) ci assms(3,4) by (subst reader_skip_loop.simps) simp
  ultimately show ?thesis using short by blast
qed

theorem reader_skip_cases_witness:
  "(\<exists>s'. reader_skip 1 (reader_create (Chain_cell 7)) demo_body = Some (True, reader_create (Chain_cell 7), s')
      \<and> buf_content s' 8 = Some [3])
   \<and> reader_skip 3 (reader_create (Chain_cell 7)) demo_body = None"
proof -
  have "get_buf (Chain_cell 7) demo_body = Some (Some 8)"
    "mem_buf demo_body 8 \<lparr>b_pos = (9, 1), b_last = (9, 3), b_start = (9, 0), b_end = (9, 4), b_in_file = False,
       b_last_buf = True, b_temporary = True, b_memory = False\<rparr> [2, 3]"
    and "get_link (Chain_cell 7) demo_body = Some None"
    by (simp_all add: mem_buf_def demo_body_def demo_def chain_defs live_def load_def ptr_diff_def
        read_bytes_def numeral_eq_Suc)
  with reader_skip_cases [OF this(1,2), of "reader_create (Chain_cell 7)" 1 "Chain_cell 7"]
    reader_skip_cases [OF this(1,2), of "reader_create (Chain_cell 7)" 3 "Chain_cell 7"]
  show ?thesis by (simp add: reader_create_def)
qed

section \<open>Writing\<close>

text \<open>
  C17. The pool writer: on a chain head it was created on, with memory for \<open>k\<close> regions, a
  caller that follows the protocol can write any message of at most \<open>4096 * k\<close> bytes. The
  chain then holds exactly the message, and the byte count is its length.
\<close>

theorem pool_writer_writes_message:
  assumes "live s (chowner h)" and "spare pick (chunks s) (3 * Suc k)"
    and "4096 * int (Suc k) * (uint ex + int (Suc k)) < 2 ^ 31" "1 \<le> uint ex"
    and "length ys \<le> 4096 * Suc k"
  shows "\<exists>w s' w' s'' cs bss. writer_create h ex s = Some (w, s')
     \<and> put_all (pool_region pick junk) stream_store stream_backup (Suc k) ys (w, s') = Some (w', s'')
     \<and> chain_seg s'' (Some h) cs \<and> list_all2 (\<lambda>(c, b) bs. buf_content s'' b = Some bs) cs bss
     \<and> concat bss = ys \<and> writer_byte_count w' = int (length ys)"
proof -
  obtain w s' where w: "writer_create h ex s = Some (w, s')" "stream_holds pick h (w, s') (Suc k) [] []"
    using writer_create_holds [OF assms(1-4)] by blast
  from pool_writer.put_all_ok [OF w(2) assms(5), of junk] obtain st where
    "put_all (pool_region pick junk) stream_store stream_backup (Suc k) ys (w, s') = Some st"
    "stream_contents h st ys" by auto
  then show ?thesis
    using w(1) by (cases st) (auto simp: stream_contents_def)
qed

theorem pool_writer_writes_message_witness:
  "\<exists>w s' w' s'' cs bss. writer_create (Res_bufs 5) 1 (demo [3] [] 0) = Some (w, s')
     \<and> put_all (pool_region (first_fit 20) (\<lambda>_. 0)) stream_store stream_backup (Suc 1) (replicate 5000 7) (w, s')
         = Some (w', s'')
     \<and> chain_seg s'' (Some (Res_bufs 5)) cs \<and> list_all2 (\<lambda>(c, b) bs. buf_content s'' b = Some bs) cs bss
     \<and> concat bss = replicate 5000 7 \<and> writer_byte_count w' = int (length (replicate 5000 (7 :: byte)))"
proof (rule pool_writer_writes_message)
  show "live (demo [3] [] 0) (chowner (Res_bufs 5))" by (simp add: demo_def live_def)
  show "spare (first_fit 20) (chunks (demo [3] [] 0)) (3 * Suc 1)" by (rule demo_spare) simp
qed simp_all

text \<open>
  C29. A caller that goes on writing after a \<open>BackUp\<close> loses data: \<open>Next\<close> on a buffer with room
  left moves the start of the buffer's data to the end of what was written, so the bytes in
  front are no longer in the chain although they stay counted.
\<close>

theorem writer_drops_after_backup:
  assumes "get_buf (wr_chain w) s = Some (Some b)" and "load s (bufs s) b = Some bf"
    and "b_pos bf = (k, 0)" "b_last bf = (k, int (length xs))" "b_end bf = (k, int (length (xs @ ys)))"
    and "load s (data s) k = Some (xs @ ys)" and "ys \<noteq> []" "int (length ys) < 2 ^ 31"
  shows "buf_content s b = Some xs
     \<and> (\<exists>w' s'. writer_next pick junk w s = Some (((k, int (length xs)), int (length ys)), w', s')
          \<and> buf_content s' b = Some ys \<and> writer_byte_count w' = c_int (writer_byte_count w + int (length ys)))"
proof -
  have "buf_content s b = Some xs"
    using assms(2-4,6) by (simp add: buf_content_def ptr_diff_def read_bytes_def)
  moreover have "writer_next pick junk w s = Some (((k, int (length xs)), int (length ys)),
      w\<lparr>wr_totaly := c_int (wr_totaly w + int (length ys))\<rparr>,
      s\<lparr>bufs := (bufs s)(b \<mapsto> bf\<lparr>b_pos := (k, int (length xs)), b_last := (k, int (length (xs @ ys)))\<rparr>)\<rparr>)"
    using assms by (simp add: writer_next_def add_cell_def hand_out_rest_def ptr_diff_def c_int_id)
  moreover have "buf_content (s\<lparr>bufs := (bufs s)(b \<mapsto> bf\<lparr>b_pos := (k, int (length xs)),
      b_last := (k, int (length (xs @ ys)))\<rparr>)\<rparr>) b = Some ys"
    using assms(2,6) by (auto simp: buf_content_def ptr_diff_def read_bytes_def load_def split: if_splits)
  ultimately show ?thesis by (auto simp: writer_byte_count_def)
qed

theorem writer_drops_after_backup_witness:
  "\<exists>s w' s'. s = demo_filled\<lparr>bufs := [20 \<mapsto> \<lparr>b_pos = (21, 0), b_last = (21, 1), b_start = (21, 0), b_end = (21, 2),
        b_in_file = False, b_last_buf = False, b_temporary = False, b_memory = True\<rparr>], data := [21 \<mapsto> [7, 9]]\<rparr>
     \<and> buf_content s 20 = Some [7]
     \<and> writer_next (first_fit 40) (\<lambda>_. 0) \<lparr>wr_chain = Req_bufs 5, wr_totaly = 1, wr_extends = 1\<rparr> s = Some (((21, 1), 1), w', s')
     \<and> buf_content s' 20 = Some [9] \<and> writer_byte_count w' = 2"
proof -
  let ?w = "\<lparr>wr_chain = Req_bufs 5, wr_totaly = 1, wr_extends = 1\<rparr>"
  let ?bf = "\<lparr>b_pos = (21, 0), b_last = (21, 1), b_start = (21, 0), b_end = (21, 2),
        b_in_file = False, b_last_buf = False, b_temporary = False, b_memory = True\<rparr>"
  let ?s = "demo_filled\<lparr>bufs := [20 \<mapsto> ?bf], data := [21 \<mapsto> [7, 9]]\<rparr>"
  have "get_buf (wr_chain ?w) ?s = Some (Some 20)" "load ?s (bufs ?s) 20 = Some ?bf" "load ?s (data ?s) 21 = Some ([7] @ [9])"
    by (simp_all add: demo_filled_def demo_def chain_defs live_def load_def)
  from writer_drops_after_backup [OF this(1,2) _ _ _ this(3), of "first_fit 40" "\<lambda>_. 0"] show ?thesis
    by (auto simp: writer_byte_count_def c_int_id)
qed

text \<open>
  C27. The shared-memory writer, which every response goes through. A message that fits its
  first region of 4096 bytes is written as it should be. A longer one that ends within the
  first 4096 bytes of the second region fails the assertion of \<open>BackUp\<close>, which gives bytes of
  the first buffer back instead of the second's.
\<close>

theorem shm_writer_small_and_large:
  assumes "live s (chowner h)" and "spare pick (chunks s) (3 * Suc (Suc k))"
    and "4096 * int (Suc (Suc k)) * (1 + int (Suc (Suc k))) < 2 ^ 31"
  shows "\<exists>w s'. writer_create h 1 s = Some (w, s')
     \<and> (length ys \<le> 4096 \<longrightarrow> (\<exists>st. put_all (shm_region pick junk old) stream_store stream_backup
          (Suc (Suc k)) ys (w, s') = Some st \<and> stream_contents h st ys))
     \<and> (4096 < length ys \<and> length ys < 8192 \<longrightarrow>
          put_all (shm_region pick junk old) stream_store stream_backup (Suc (Suc k)) ys (w, s') = None)"
proof -
  have one: "4096 * int (Suc (Suc k)) * (uint (1 :: 32 word) + int (Suc (Suc k))) < 2 ^ 31" "1 \<le> uint (1 :: 32 word)"
    using assms(3) by simp_all
  obtain w s' where w: "writer_create h 1 s = Some (w, s')" "stream_holds pick h (w, s') (Suc (Suc k)) [] []"
    using writer_create_holds [OF assms(1,2) one] by blast
  have f: "wr_chain w = h" "wr_extends w = 1"
    using w(1) assms(1) by (auto simp: writer_create_def chain_defs)
  show ?thesis
    using w shm_put_small [OF w(2) f(1)] shm_put_aborts [OF w(2) f(1)] f(2)
    by (intro exI [of _ w] exI [of _ s']) auto
qed

theorem shm_writer_small_and_large_witness:
  "\<exists>w s'. writer_create (Res_bufs 5) 1 (demo [3] [] 0) = Some (w, s')
     \<and> put_all (shm_region (first_fit 20) (\<lambda>_. 0) False) stream_store stream_backup (Suc (Suc 0))
         (replicate 5000 7) (w, s') = None"
proof -
  have "live (demo [3] [] 0) (chowner (Res_bufs 5))" by (simp add: demo_def live_def)
  moreover have "spare (first_fit 20) (chunks (demo [3] [] 0)) (3 * Suc (Suc 0))" by (rule demo_spare) simp
  ultimately show ?thesis
    using shm_writer_small_and_large [of "demo [3] [] 0" "Res_bufs 5" "first_fit 20" 0 "replicate 5000 7" "\<lambda>_. 0" False]
    by auto
qed

end
