(* ===== verification/Http_Rpc.thy ===== *)
theory Http_Rpc
  imports Rpc_Process
begin

text \<open>
  The HTTP worker module: ngx_rpc_module/ngx_http_rpc.h and ngx_http_rpc.c. It finds the
  method of a request, hands the request to a processor as a task, and sends the response, or
  runs a subrequest, when the task comes back through the worker's own notify object.

  What nginx does for the module is recorded as a list of calls in the state (\<open>calls\<close>, last
  call first); the codes these calls return, and whether their allocations succeed, are in the
  record \<open>http_env\<close>.
\<close>

section \<open>State\<close>

text \<open>\<open>m_impl\<close> is the object that serves the method, \<open>m_log\<close> its log.\<close>

record method_conf =
  m_name :: "byte list"
  m_impl :: "addr option"
  m_handler :: "task_fn option"
  m_log :: "addr option"

definition NGX_HTTP_RPC_METHOD_MAX :: nat where
  "NGX_HTTP_RPC_METHOD_MAX = 256"

text \<open>
  A worker's configuration. The array of methods holds method numbers; \<open>hc_hash\<close> is the
  table that \<open>ngx_hash_init\<close> built, as the lookup it answers.
\<close>

record ngx_http_rpc_conf =
  hc_queue :: "addr option"
  hc_notify :: "addr option"
  hc_methods :: "method_conf list"
  hc_hash :: "(byte list \<Rightarrow> nat option) option"

text \<open>The context of a request, in shared memory. \<open>cx_r\<close> is the request's number.\<close>

record ngx_http_rpc_ctx =
  cx_conf :: addr
  cx_method :: nat
  cx_r :: nat
  cx_task :: "addr option"

record header_elt =
  h_hash :: nat
  h_key :: "byte list"
  h_value :: "byte list"

datatype cleanup_fn = Ctx_Destroy | Task_Destory

text \<open>
  A request. \<open>r_body\<close> is \<open>None\<close> for a \<open>NULL\<close> \<open>request_body\<close>; the headers are nginx's list
  of parts, and \<open>r_in_length_hdr\<close> is the header that \<open>headers_in.content_length\<close> points to.
  The cleanups are those of the connection's pool.
\<close>

record http_request =
  r_uri :: "byte list"
  r_ctx :: "addr option"
  r_body :: "chaddr option option"
  r_in_length :: int
  r_in_length_hdr :: "(nat \<times> nat) option"
  r_headers :: "header_elt list list"
  r_out_status :: int
  r_out_type :: "byte list"
  r_out_length :: "int option"
  r_buffered :: bool
  r_upstream_out :: "chaddr option option"
  r_postponed_out :: "chaddr option option"
  r_cleanups :: "(cleanup_fn \<times> addr) list"

datatype http_call =
    Read_Client_Body nat
  | Send_Header nat int "int option"
  | Output_Filter nat chaddr
  | Finalize_Request nat int
  | Subrequest nat "byte list" addr
  | Run_Posted nat

record http_env =
  en_pick :: slab_pick
  en_send :: int
  en_filter :: int
  en_cleanup :: bool

record wstate = pstate +
  hconfs :: "addr \<rightharpoonup> ngx_http_rpc_conf"
  ctxs :: "addr \<rightharpoonup> ngx_http_rpc_ctx"
  requests :: "nat \<rightharpoonup> http_request"
  calls :: "http_call list"

definition log_call :: "http_call \<Rightarrow> 'z wstate_scheme \<Rightarrow> 'z wstate_scheme" where
  "log_call c s = s\<lparr>calls := c # calls s\<rparr>"

definition put_request :: "nat \<Rightarrow> http_request \<Rightarrow> 'z wstate_scheme \<Rightarrow> 'z wstate_scheme" where
  "put_request r q s = s\<lparr>requests := (requests s)(r \<mapsto> q)\<rparr>"

definition put_task :: "addr \<Rightarrow> ngx_rpc_task \<Rightarrow> 'z tstate_scheme \<Rightarrow> 'z tstate_scheme" where
  "put_task t tk s = s\<lparr>tasks := (tasks s)(t \<mapsto> tk)\<rparr>"

section \<open>Configuration\<close>

text \<open>
  The pairs given to \<open>ngx_hash_init\<close>: the methods' names and numbers. \<open>hash_init\<close> stands for
  nginx's hash table and answers with its lookup, or \<open>None\<close> when it cannot be built;
  \<open>push_ok\<close> is whether the handler array could grow.
\<close>

definition hash_keys :: "method_conf list \<Rightarrow> (byte list \<times> nat) list" where
  "hash_keys ms = map (\<lambda>i. (m_name (ms ! i), i)) [0..<length ms]"

definition ngx_http_rpc_postconfiguration ::
  "((byte list \<times> nat) list \<Rightarrow> (byte list \<Rightarrow> nat option) option) \<Rightarrow> bool \<Rightarrow> addr
    \<Rightarrow> 'z wstate_scheme \<Rightarrow> (int \<times> bool \<times> 'z wstate_scheme) option" where
  "ngx_http_rpc_postconfiguration hash_init push_ok c s =
     do {
       cf \<leftarrow> hconfs s c;
       (case hash_init (hash_keys (hc_methods cf)) of
          None \<Rightarrow> Some (NGX_ERROR, False, s)
        | Some h \<Rightarrow>
            do {
              s \<leftarrow> Some (s\<lparr>hconfs := (hconfs s)(c \<mapsto> cf\<lparr>hc_hash := Some h\<rparr>)\<rparr>);
              Some (if push_ok then NGX_OK else NGX_ERROR, push_ok, s)
            })
     }"

definition ngx_http_rpc_create_main_conf ::
  "addr option \<Rightarrow> 'z wstate_scheme \<Rightarrow> addr option \<times> 'z wstate_scheme" where
  "ngx_http_rpc_create_main_conf mem s =
     (case mem of
        None \<Rightarrow> (None, s)
      | Some c \<Rightarrow> (Some c, s\<lparr>hconfs := (hconfs s)(c \<mapsto>
          \<lparr>hc_queue = None, hc_notify = None, hc_methods = [], hc_hash = None\<rparr>)\<rparr>))"

section \<open>Start and stop of a worker\<close>

definition ngx_http_rpc_init_process ::
  "int \<Rightarrow> int \<Rightarrow> nat option \<Rightarrow> bool \<Rightarrow> addr option \<Rightarrow> addr option
    \<Rightarrow> 'z wstate_scheme \<Rightarrow> (int \<times> 'z wstate_scheme) option" where
  "ngx_http_rpc_init_process pslot lastp conn add_ok rpc_conf proc_conf s =
     (case (rpc_conf, proc_conf) of
        (Some c, Some p) \<Rightarrow>
          do {
            cf \<leftarrow> hconfs s c;
            pf \<leftarrow> pconfs s p;
            q \<leftarrow> pc_queue pf;
            (n, s) \<leftarrow> ngx_rpc_queue_add_current_producer pslot lastp conn add_ok q (Http_Conf c) s;
            s \<leftarrow> Some (s\<lparr>hconfs := (hconfs s)(c \<mapsto> cf\<lparr>hc_queue := Some q, hc_notify := n\<rparr>)\<rparr>);
            n \<leftarrow> n;
            nt \<leftarrow> load s (notifies s) n;
            Some (NGX_OK, s\<lparr>notifies := (notifies s)(n \<mapsto> nt\<lparr>
                   read_hanlder := Some Http_Process_Notify_Task,
                   write_hanlder := Some Http_Process_Notify_Task\<rparr>)\<rparr>)
          }
      | _ \<Rightarrow> Some (NGX_OK, s))"

definition ngx_http_rpc_exit_process :: "addr option \<Rightarrow> 'z wstate_scheme \<Rightarrow> 'z wstate_scheme option" where
  "ngx_http_rpc_exit_process conf s =
     do {
       c \<leftarrow> conf;
       cf \<leftarrow> hconfs s c;
       n \<leftarrow> hc_notify cf;
       (r, s) \<leftarrow> ngx_rpc_notify_unregister n s;
       Some s
     }"

text \<open>After releasing the context its \<open>method\<close> field is read for the log.\<close>

definition ngx_http_rpc_ctx_destroy :: "addr \<Rightarrow> 'z wstate_scheme \<Rightarrow> 'z wstate_scheme option" where
  "ngx_http_rpc_ctx_destroy p s =
     do {
       cx \<leftarrow> load s (ctxs s) p;
       s \<leftarrow> ngx_slab_free p s;
       cx \<leftarrow> load s (ctxs s) p;
       Some s
     }"

section \<open>Finishing a request\<close>

definition protobuf_type :: "byte list" where
  "protobuf_type = map (\<lambda>c. of_nat (of_char c)) '' application/x-protobuf''"

definition ngx_http_rpc_request_finish ::
  "http_env \<Rightarrow> addr \<Rightarrow> nat \<Rightarrow> 'z wstate_scheme \<Rightarrow> 'z wstate_scheme option" where
  "ngx_http_rpc_request_finish env t r s =
     do {
       tk \<leftarrow> load s (tasks s) t;
       q \<leftarrow> requests s r;
       q \<leftarrow> Some (q\<lparr>r_out_type := protobuf_type, r_out_status := response_states tk\<rparr>);
       q \<leftarrow> Some (if res_length tk \<ge> 0
                  then q\<lparr>r_out_length := Some (res_length tk), r_buffered := True\<rparr> else q);
       s \<leftarrow> Some (log_call (Send_Header r (r_out_status q) (r_out_length q)) (put_request r q s));
       (rc, s) \<leftarrow> Some (if res_length tk > 0 then (en_filter env, log_call (Output_Filter r (Res_bufs t)) s)
                        else (en_send env, s));
       s \<leftarrow> (if en_cleanup env
             then Some (put_request r (q\<lparr>r_cleanups := (Task_Destory, t) # r_cleanups q\<rparr>) s) else None);
       Some (log_call (Finalize_Request r rc) s)
     }"

section \<open>Handing a request to a processor\<close>

definition ngx_http_rpc_post_async_handler ::
  "http_env \<Rightarrow> nat \<Rightarrow> 'z wstate_scheme \<Rightarrow> 'z wstate_scheme option" where
  "ngx_http_rpc_post_async_handler env r s =
     do {
       q \<leftarrow> requests s r;
       (case Option.bind (r_body q) (\<lambda>b. b) of
          None \<Rightarrow> Some (log_call (Finalize_Request r NGX_HTTP_BAD_REQUEST) s)
        | Some src \<Rightarrow>
            do {
              x \<leftarrow> r_ctx q;
              cx \<leftarrow> load s (ctxs s) x;
              cf \<leftarrow> hconfs s (cx_conf cx);
              m \<leftarrow> (if cx_method cx < length (hc_methods cf) then Some (hc_methods cf ! cx_method cx) else None);
              (t, s) \<leftarrow> (case cx_task cx of
                          None \<Rightarrow>
                            do {
                              (t, s) \<leftarrow> ngx_http_rpc_task_create (en_pick env) s;
                              Some (t, s\<lparr>ctxs := (ctxs s)(x \<mapsto> cx\<lparr>cx_task := t\<rparr>)\<rparr>)
                            }
                        | Some t \<Rightarrow> Some (Some t, s));
              t \<leftarrow> t;
              tk \<leftarrow> load s (tasks s) t;
              s \<leftarrow> Some (put_task t (tk\<lparr>done_notify := hc_notify cf\<rparr>) s);
              s \<leftarrow> ngx_http_rpc_task_set_bufs (en_pick env) (Req_bufs t) (Some src) s;
              tk \<leftarrow> load s (tasks s) t;
              s \<leftarrow> Some (put_task t (tk\<lparr>req_length := r_in_length q,
                      closure := \<lparr>handler = m_handler m, p1 = Some (Rpc_Ctx x)\<rparr>\<rparr>) s);
              qu \<leftarrow> hc_queue cf;
              (ret, s) \<leftarrow> ngx_rpc_queue_push_and_notify qu t s;
              (if ret \<noteq> NGX_OK then
                 do {
                   tk \<leftarrow> load s (tasks s) t;
                   s \<leftarrow> Some (put_task t (tk\<lparr>response_states := NGX_HTTP_INTERNAL_SERVER_ERROR,
                                            res_length := 0\<rparr>) s);
                   ngx_http_rpc_request_finish env t r s
                 }
               else Some s)
            })
     }"

text \<open>
  The content handler. It returns a status; nginx calls the handler above once the body has
  been read. (A lookup in a table that was never built dereferences \<open>NULL\<close>.)
\<close>

definition ngx_http_rpc_http_handler ::
  "http_env \<Rightarrow> addr option \<Rightarrow> nat \<Rightarrow> 'z wstate_scheme \<Rightarrow> (int \<times> 'z wstate_scheme) option" where
  "ngx_http_rpc_http_handler env rpc_conf r s =
     do {
       q \<leftarrow> requests s r;
       (case rpc_conf of
          None \<Rightarrow> Some (NGX_HTTP_INTERNAL_SERVER_ERROR, s)
        | Some c \<Rightarrow>
            do {
              cf \<leftarrow> hconfs s c;
              (case hc_queue cf of
                 None \<Rightarrow> Some (NGX_HTTP_INTERNAL_SERVER_ERROR, s)
               | Some qu \<Rightarrow>
                   do {
                     h \<leftarrow> hc_hash cf;
                     (case h (r_uri q) of
                        None \<Rightarrow> Some (NGX_DECLINED, s)
                      | Some mth \<Rightarrow>
                          (case r_ctx q of
                             Some x \<Rightarrow> Some (NGX_AGAIN, log_call (Read_Client_Body r) s)
                           | None \<Rightarrow>
                               do {
                                 qd \<leftarrow> load s (queues s) qu;
                                 (case ngx_slab_alloc (en_pick env) Ctx_t s of
                                    (None, s) \<Rightarrow> Some (NGX_HTTP_INTERNAL_SERVER_ERROR, s)
                                  | (Some x, s) \<Rightarrow>
                                      do {
                                        s \<leftarrow> Some (s\<lparr>ctxs := (ctxs s)(x \<mapsto> \<lparr>cx_conf = c,
                                               cx_method = mth, cx_r = r, cx_task = None\<rparr>)\<rparr>);
                                        s \<leftarrow> (if en_cleanup env
                                              then Some (put_request r (q\<lparr>r_cleanups := (Ctx_Destroy, x)
                                                     # r_cleanups q, r_ctx := Some x\<rparr>) s) else None);
                                        Some (NGX_AGAIN, log_call (Read_Client_Body r) s)
                                      })
                               }))
                   })
            })
     }"

section \<open>Tasks that come back to the worker\<close>

definition worker_pop ::
  "addr \<Rightarrow> 'z wstate_scheme \<Rightarrow> (qaddr option \<times> 'z wstate_scheme) option" where
  "worker_pop c s = do { cf \<leftarrow> hconfs s c; n \<leftarrow> hc_notify cf; pending_pop n s }"

definition worker_body ::
  "(task_fn \<Rightarrow> addr \<Rightarrow> closure_arg option \<Rightarrow> 'z wstate_scheme \<Rightarrow> 'z wstate_scheme option)
    \<Rightarrow> qaddr \<Rightarrow> 'z wstate_scheme \<Rightarrow> 'z wstate_scheme option" where
  "worker_body run node s =
     do {
       t \<leftarrow> data_task_node node;
       tk \<leftarrow> load s (tasks s) t;
       f \<leftarrow> handler (finish tk);
       run f t (p1 (finish tk)) s
     }"

definition ngx_http_rpc_process_notify_task ::
  "(task_fn \<Rightarrow> addr \<Rightarrow> closure_arg option \<Rightarrow> 'z wstate_scheme \<Rightarrow> 'z wstate_scheme option)
    \<Rightarrow> addr \<Rightarrow> 'z wstate_scheme \<Rightarrow> 'z wstate_scheme option" where
  "ngx_http_rpc_process_notify_task run c s = drain (worker_pop c) (worker_body run) s"

text \<open>
  The end of a subrequest. The log of the first branch is left out; \<open>rc\<close> is the code nginx
  passes. The buffers come from the upstream if there is one, else from \<open>postponed\<close>.
\<close>

definition ngx_http_rpc_subrequest_done_handler ::
  "http_env \<Rightarrow> nat \<Rightarrow> addr \<Rightarrow> int \<Rightarrow> 'z wstate_scheme \<Rightarrow> (int \<times> 'z wstate_scheme) option" where
  "ngx_http_rpc_subrequest_done_handler env r t rc s =
     (if rc = NGX_AGAIN then Some (NGX_OK, s)
      else do {
        q \<leftarrow> requests s r;
        tk \<leftarrow> load s (tasks s) t;
        s \<leftarrow> Some (put_task t (tk\<lparr>response_states := r_out_status q\<rparr>) s);
        s \<leftarrow> (if r_out_status q = NGX_HTTP_OK then
                do {
                  src \<leftarrow> (case r_upstream_out q of Some out \<Rightarrow> Some out | None \<Rightarrow> r_postponed_out q);
                  ngx_http_rpc_task_set_bufs (en_pick env) (Req_bufs t) src s
                }
              else Some s);
        tk \<leftarrow> load s (tasks s) t;
        n \<leftarrow> proc_notify tk;
        (ret, s) \<leftarrow> ngx_rpc_notify_push_task n (TaskNode t) s;
        Some (NGX_OK, s)
      })"

section \<open>Starting a subrequest\<close>

text \<open>
  \<open>snprintf (buf, 32, "%ld", value)\<close> into a new block of 32 bytes, all of which become the
  value of the header.
\<close>

fun dec_digits :: "nat \<Rightarrow> byte list" where
  "dec_digits n = (if n < 10 then [of_nat (48 + n)] else dec_digits (n div 10) @ [of_nat (48 + n mod 10)])"

declare dec_digits.simps [simp del]

definition dec_string :: "int \<Rightarrow> byte list" where
  "dec_string v = (if v < 0 then 45 # dec_digits (nat (- v)) else dec_digits (nat v))"

definition length_value :: "(nat \<Rightarrow> byte) \<Rightarrow> int \<Rightarrow> byte list" where
  "length_value junk v = dec_string v @ 0 # map junk [length (dec_string v) + 1..<32]"

text \<open>
  The walk over the list of headers: \<open>part\<close> and \<open>i\<close> are the loop's variables, \<open>cmp\<close> is nginx's
  \<open>ngx_strncasecmp\<close> against \<open>Content-Length:\<close> on the first \<open>key.len\<close> bytes. After moving to
  the next part the loop does not look at its length again.
\<close>

function scan_headers ::
  "(byte list \<Rightarrow> bool) \<Rightarrow> header_elt list list \<Rightarrow> nat \<Rightarrow> nat \<Rightarrow> (nat \<times> nat) option option" where
  "scan_headers cmp hs part i =
     (if part < length hs then
        (if i < length (hs ! part) then
           (if h_hash (hs ! part ! i) \<noteq> 0 \<and> cmp (h_key (hs ! part ! i)) then Some (Some (part, i))
            else scan_headers cmp hs part (Suc i))
         else if Suc part < length hs then
           (if hs ! Suc part = [] then None
            else if h_hash (hs ! Suc part ! 0) \<noteq> 0 \<and> cmp (h_key (hs ! Suc part ! 0)) then Some (Some (Suc part, 0))
            else scan_headers cmp hs (Suc part) 1)
         else Some None)
      else None)"
  by pat_completeness auto
termination
  by (relation "measures [\<lambda>(cmp, hs, part, i). length hs - part, \<lambda>(cmp, hs, part, i). length (hs ! part) - i]") auto

declare scan_headers.simps [simp del]

definition ngx_http_header_modify_content_length ::
  "(byte list \<Rightarrow> bool) \<Rightarrow> (nat \<Rightarrow> byte) \<Rightarrow> nat \<Rightarrow> int \<Rightarrow> 'z wstate_scheme \<Rightarrow> (int \<times> 'z wstate_scheme) option" where
  "ngx_http_header_modify_content_length cmp junk r v s =
     do {
       q \<leftarrow> requests s r;
       q \<leftarrow> Some (q\<lparr>r_in_length := v\<rparr>);
       found \<leftarrow> scan_headers cmp (r_headers q) 0 0;
       (case found of
          None \<Rightarrow> Some (NGX_ERROR, put_request r q s)
        | Some (a, i) \<Rightarrow>
            do {
              (b, j) \<leftarrow> r_in_length_hdr q;
              hs \<leftarrow> Some ((r_headers q)[a := (r_headers q ! a)[i := (r_headers q ! a ! i)\<lparr>h_value := length_value junk v\<rparr>]]);
              hs \<leftarrow> Some (hs[b := (hs ! b)[j := (hs ! b ! j)\<lparr>h_value := length_value junk v\<rparr>]]);
              Some (NGX_OK, put_request r (q\<lparr>r_headers := hs\<rparr>) s)
            })
     }"

text \<open>\<open>strlen\<close> of the path, defined when there is a zero byte in the array.\<close>

definition c_string :: "byte list \<Rightarrow> byte list option" where
  "c_string xs = (if 0 \<in> set xs then Some (takeWhile (\<lambda>b. b \<noteq> 0) xs) else None)"

text \<open>
  The allocation of the object for the end of the subrequest, which is written to without a check, and
  \<open>ngx_http_subrequest\<close>, whose result the code only logs, are taken to succeed.
\<close>

definition ngx_http_rpc_request_foward ::
  "(byte list \<Rightarrow> bool) \<Rightarrow> (nat \<Rightarrow> byte) \<Rightarrow> addr \<Rightarrow> nat \<Rightarrow> 'z wstate_scheme \<Rightarrow> 'z wstate_scheme option" where
  "ngx_http_rpc_request_foward cmp junk t r s =
     do {
       tk \<leftarrow> load s (tasks s) t;
       q \<leftarrow> requests s r;
       b \<leftarrow> r_body q;
       s \<leftarrow> Some (put_request r (q\<lparr>r_body := Some (Some (Req_bufs t))\<rparr>) s);
       (ret, s) \<leftarrow> ngx_http_header_modify_content_length cmp junk r (res_length tk) s;
       p \<leftarrow> c_string (path tk);
       s \<leftarrow> Some (log_call (Subrequest r p t) s);
       Some (log_call (Run_Posted r) s)
     }"

section \<open>Frames\<close>

lemma put_task_simps [simp]:
  "chunks (put_task t tk s) = chunks s" "live (put_task t tk s) a = live s a"
  "tasks (put_task t tk s) = (tasks s)(t \<mapsto> tk)"
  "qnext (put_task t tk s) = qnext s" "qprev (put_task t tk s) = qprev s"
  "notifies (put_task t tk s) = notifies s" "notify_slots (put_task t tk s) = notify_slots s"
  "conns (put_task t tk s) = conns s" "efds (put_task t tk s) = efds s"
  "bufs (put_task t tk s) = bufs s" "data (put_task t tk s) = data s"
  "chain_buf (put_task t tk s) = chain_buf s" "chain_next (put_task t tk s) = chain_next s"
  "tstate.more (put_task t tk s) = tstate.more s"
  "get_buf c (put_task t tk s) = get_buf c s" "get_link c (put_task t tk s) = get_link c s"
  by (simp_all add: put_task_def live_def chain_defs)

lemma ring_links_live:
  assumes "ring s q xs" and "qnext s' = qnext s" "qprev s' = qprev s"
    and "\<And>a. live s a \<Longrightarrow> live s' a"
  shows "ring s' q xs"
  using assms by (auto simp: ring_iff node_live_def)

lemma grows_ring: "grows D s s' \<Longrightarrow> ring s q xs \<Longrightarrow> ring s' q xs"
  using ring_links_live [of s q xs s'] grows_live [of D s s'] by (simp add: grows_def)

text \<open>What is live keeps its bytes and its chain links, apart from the links in \<open>D\<close>.\<close>

definition mem_kept_but :: "chaddr set \<Rightarrow> 'z tstate_scheme \<Rightarrow> 'z tstate_scheme \<Rightarrow> bool" where
  "mem_kept_but D s s' \<longleftrightarrow>
     (\<forall>a. live s a \<longrightarrow> chunks s' a = chunks s a \<and> bufs s' a = bufs s a \<and> data s' a = data s a)
     \<and> (\<forall>c. live s (chowner c) \<longrightarrow> c \<notin> D \<longrightarrow> chain_buf s' c = chain_buf s c \<and> chain_next s' c = chain_next s c)"

abbreviation mem_kept :: "'z tstate_scheme \<Rightarrow> 'z tstate_scheme \<Rightarrow> bool" where
  "mem_kept \<equiv> mem_kept_but {}"

lemma kept_same:
  assumes "chunks s' = chunks s" "bufs s' = bufs s" "data s' = data s" "chain_buf s' = chain_buf s"
    "chain_next s' = chain_next s"
  shows "mem_kept_but D s s'"
  by (simp add: mem_kept_but_def assms)

lemma grows_kept: "grows D s s' \<Longrightarrow> mem_kept_but D s s'"
  by (simp add: grows_def mem_kept_but_def)

lemma kept_trans: "mem_kept_but D s s1 \<Longrightarrow> mem_kept_but D s1 s2 \<Longrightarrow> mem_kept_but D s s2"
  unfolding mem_kept_but_def live_def by metis

lemma kept_live: "mem_kept_but D s s' \<Longrightarrow> live s a \<Longrightarrow> live s' a"
  by (simp add: mem_kept_but_def live_def)

lemma kept_content:
  assumes k: "mem_kept_but D s s'" and c: "buf_content s b = Some bs"
  shows "buf_content s' b = Some bs"
proof -
  obtain sb d where d: "live s b" "bufs s b = Some sb"
    "ptr_diff (b_last sb) (b_pos sb) = Some (int (length bs))"
    "live s (fst (b_pos sb))" "data s (fst (b_pos sb)) = Some d" "0 \<le> snd (b_pos sb)"
    "snd (b_pos sb) + int (length bs) \<le> int (length d)"
    "bs = take (length bs) (drop (nat (snd (b_pos sb))) d)"
    using c by (rule buf_content_SomeE)
  have "load s' (bufs s') b = Some sb" "load s' (data s') (fst (b_pos sb)) = Some d"
    using k d(1,2,4,5) kept_live [OF k] by (auto simp: load_Some_iff mem_kept_but_def)
  then show ?thesis using d(3,6-8) by (simp add: buf_content_def read_bytes_def)
qed

lemma kept_in_memory: "mem_kept_but D s s' \<Longrightarrow> in_memory s b \<Longrightarrow> in_memory s' b"
  unfolding in_memory_def load_Some_iff by (metis mem_kept_but_def kept_live)

lemma kept_chain_seg: "mem_kept s s' \<Longrightarrow> chain_seg s p cs \<Longrightarrow> chain_seg s' p cs"
proof (induction cs arbitrary: p)
  case (Cons x cs)
  obtain c b where x: "x = (c, b)" by force
  have l: "live s (chowner c)" using Cons.prems(2) x by (auto simp: get_buf_def split: if_splits)
  then have "get_buf c s' = get_buf c s" "get_link c s' = get_link c s"
    using Cons.prems(1) kept_live [OF Cons.prems(1) l] by (auto simp: mem_kept_but_def chain_defs)
  then show ?case using Cons x by (auto split: option.splits)
qed simp

section \<open>Creating the task of a request\<close>

lemma task_create_total:
  assumes "spare pick (chunks s) (Suc k)"
  obtains t s' where "ngx_http_rpc_task_create pick s = Some (Some t, s')" and "\<not> live s t"
    and "spare pick (chunks s') k" and "mem_kept s s'" and "tstate.more s' = tstate.more s"
    and "tasks s' = (tasks s)(t \<mapsto> zero_task)" and "cell_kind s' (Req_bufs t)"
    and "get_buf (Req_bufs t) s' = Some None" and "get_link (Req_bufs t) s' = Some None"
    and "live s' t" and "\<And>q xs. ring s q xs \<Longrightarrow> ring s' q xs" and "notifies s' = notifies s"
    and "efds s' = efds s" and "chunks s' = (chunks s)(t \<mapsto> Task_t)" and "ring s' (TaskNode t) []"
    and "idle_same s s'" and "conns s' = conns s"
proof -
  obtain t where al: "ngx_slab_alloc pick Task_t s = (Some t, s\<lparr>chunks := (chunks s)(t \<mapsto> Task_t)\<rparr>)"
    "\<not> live s t" "spare pick ((chunks s)(t \<mapsto> Task_t)) k"
    by (rule spare_alloc [OF assms])
  let ?s' = "s\<lparr>chunks := (chunks s)(t \<mapsto> Task_t), tasks := (tasks s)(t \<mapsto> zero_task),
        chain_buf := (chain_buf s)(Req_bufs t \<mapsto> None, Res_bufs t \<mapsto> None),
        chain_next := (chain_next s)(Req_bufs t \<mapsto> None, Res_bufs t \<mapsto> None),
        qprev := (qprev s)(TaskNode t := None, TaskParams t := None, TaskNode t \<mapsto> TaskNode t),
        qnext := (qnext s)(TaskNode t := None, TaskParams t := None, TaskNode t \<mapsto> TaskNode t)\<rparr>"
  have cr: "ngx_http_rpc_task_create pick s = Some (Some t, ?s')"
    by (simp add: ngx_http_rpc_task_create_def al(1) ngx_queue_init_def link_defs node_live_def live_def)
  note ok = task_create_ok [OF cr]
  have kept: "mem_kept s ?s'"
    unfolding mem_kept_but_def
  proof (intro conjI allI impI)
    fix c
    assume "live s (chowner c)"
    then have "c \<noteq> Req_bufs t" "c \<noteq> Res_bufs t" using al(2) by auto
    then show "chain_buf ?s' c = chain_buf s c" "chain_next ?s' c = chain_next s c" by simp_all
  qed (use al(2) in \<open>auto simp: live_def\<close>)
  have "idle_same s ?s'" by (auto simp: idle_same_def live_def)
  then show thesis
    by (intro that [OF cr al(2) _ kept _ ok(3) _ _ ok(7) _ ok(13) ok(11,12,2,4)])
      (use al(3) ok(5) in \<open>simp_all add: owned_chain_def live_def\<close>)
qed

lemma wstate_more:
  fixes s s' :: "'z wstate_scheme"
  assumes "tstate.more s' = tstate.more s"
  shows "queues s' = queues s" "pconfs s' = pconfs s" "hconfs s' = hconfs s" "ctxs s' = ctxs s"
    "requests s' = requests s" "calls s' = calls s"
  using assms by (cases s, cases s', simp)+

lemma wstate_more_more: "tstate.more s' = tstate.more s \<Longrightarrow> wstate.more s' = wstate.more s"
  by (cases s, cases s', simp)

lemma put_task_owned [simp]: "owned_chain (put_task t tk s) h ts = owned_chain s h ts"
proof -
  have "owned_seg (put_task t tk s) p us = owned_seg s p us" for p us
    by (induction us arbitrary: p) (auto simp: cell_kind_def owned_buf_def split: option.splits)
  then show ?thesis by (simp add: owned_chain_def cell_kind_def)
qed

text \<open>The handler on a request with a body and a context without a task, up to the push.\<close>

lemma post_async_prepares:
  assumes q: "requests s r = Some q" "r_body q = Some (Some c)" "r_ctx q = Some x"
    and cx: "load s (ctxs s) x = Some cx" "cx_task cx = None"
    and cf: "hconfs s (cx_conf cx) = Some cf" "hc_queue cf = Some qu"
    and m: "cx_method cx < length (hc_methods cf)" "m = hc_methods cf ! cx_method cx"
    and src: "chain_seg s (Some c) cs" "chain_bytes s cs bss"
    and sp: "spare (en_pick env) (chunks s) (3 * length cs + k)"
  obtains t s5 ts where "ngx_http_rpc_post_async_handler env r s =
      do {
        (ret, s) \<leftarrow> ngx_rpc_queue_push_and_notify qu t s5;
        (if ret \<noteq> NGX_OK then
           do {
             tk \<leftarrow> load s (tasks s) t;
             s \<leftarrow> Some (put_task t (tk\<lparr>response_states := NGX_HTTP_INTERNAL_SERVER_ERROR, res_length := 0\<rparr>) s);
             ngx_http_rpc_request_finish env t r s
           }
         else Some s)
      }"
    and "\<not> live s t" and "load s5 (tasks s5) t = Some (zero_task\<lparr>done_notify := hc_notify cf,
        req_length := r_in_length q, closure := \<lparr>handler = m_handler m, p1 = Some (Rpc_Ctx x)\<rparr>\<rparr>)"
    and "owned_chain s5 (Req_bufs t) ts" and "owned_bytes ts = bss"
    and "ctxs s5 = (ctxs s)(x \<mapsto> cx\<lparr>cx_task := Some t\<rparr>)" and "requests s5 = requests s" and "calls s5 = calls s"
    and "queues s5 = queues s" and "notifies s5 = notifies s" and "efds s5 = efds s"
    and "\<And>p ys. ring s p ys \<Longrightarrow> ring s5 p ys" and "\<And>a. live s a \<Longrightarrow> live s5 a"
    and "\<And>u. u \<noteq> t \<Longrightarrow> tasks s5 u = tasks s u"
    and "hconfs s5 = hconfs s" and "pconfs s5 = pconfs s" and "wstate.more s5 = wstate.more s"
    and "spare (en_pick env) (chunks s5) k" and "copied_in_memory s s5 cs ts"
    and "mem_kept s s5" and "idle_same s s5" and "conns s5 = conns s"
    and "\<forall>a \<in> set (owned_addrs ts). \<not> live s a"
proof -
  have "cs \<noteq> []" using src(1) by auto
  then have "Suc (3 * length cs - 1 + k) = 3 * length cs + k" by (cases cs) simp_all
  then have "spare (en_pick env) (chunks s) (Suc (3 * length cs - 1 + k))" using sp by metis
  then obtain t s1 where s1: "ngx_http_rpc_task_create (en_pick env) s = Some (Some t, s1)" "\<not> live s t"
    "spare (en_pick env) (chunks s1) (3 * length cs - 1 + k)" "mem_kept s s1" "tstate.more s1 = tstate.more s"
    "tasks s1 = (tasks s)(t \<mapsto> zero_task)" "cell_kind s1 (Req_bufs t)" "get_buf (Req_bufs t) s1 = Some None"
    "get_link (Req_bufs t) s1 = Some None" "live s1 t" "\<And>q xs. ring s q xs \<Longrightarrow> ring s1 q xs"
    "notifies s1 = notifies s" "efds s1 = efds s" "chunks s1 = (chunks s)(t \<mapsto> Task_t)" "ring s1 (TaskNode t) []"
    "idle_same s s1" "conns s1 = conns s"
    by (rule task_create_total) blast
  note w1 = wstate_more [OF s1(5)]
  let ?s2 = "s1\<lparr>ctxs := (ctxs s)(x \<mapsto> cx\<lparr>cx_task := Some t\<rparr>)\<rparr>"
  let ?tk3 = "zero_task\<lparr>done_notify := hc_notify cf\<rparr>"
  let ?s3 = "put_task t ?tk3 ?s2"
  have k3: "mem_kept s ?s3" using s1(4) by (simp add: mem_kept_but_def live_def)
  have "cell_kind ?s3 (Req_bufs t)" "get_buf (Req_bufs t) ?s3 = Some None" "get_link (Req_bufs t) ?s3 = Some None"
    "spare (en_pick env) (chunks ?s3) (3 * length cs - 1 + k)"
    using s1(3,7-9) by (simp_all add: cell_kind_def chain_defs live_def)
  moreover have "chain_seg ?s3 (Some c) cs" by (rule kept_chain_seg [OF k3 src(1)])
  moreover have "chain_bytes ?s3 cs bss"
    using src(2) by (rule list_all2_mono) (auto dest: kept_content [OF k3])
  ultimately obtain s4 ts where s4: "ngx_http_rpc_task_set_bufs (en_pick env) (Req_bufs t) (Some c) ?s3 = Some s4"
    "owned_chain s4 (Req_bufs t) ts" "owned_bytes ts = bss" "grows {Req_bufs t} ?s3 s4"
    "spare (en_pick env) (chunks s4) k" "copied_in_memory ?s3 s4 cs ts"
    "\<forall>a \<in> set (owned_addrs ts). \<not> live ?s3 a"
    using set_bufs_fresh [of ?s3 "Req_bufs t" c cs bss "en_pick env" k] by blast
  have f4: "tasks s4 = tasks ?s3" "tstate.more s4 = tstate.more ?s3" "notifies s4 = notifies ?s3"
    "efds s4 = efds ?s3" "conns s4 = conns ?s3" "qnext s4 = qnext ?s3" "qprev s4 = qprev ?s3"
    using s4(4) by (simp_all add: grows_def)
  note w4 = wstate_more [OF f4(2)]
  let ?tk5 = "?tk3\<lparr>req_length := r_in_length q, closure := \<lparr>handler = m_handler m, p1 = Some (Rpc_Ctx x)\<rparr>\<rparr>"
  let ?s5 = "put_task t ?tk5 s4"
  have l4: "live s4 t" using grows_live [OF s4(4)] s1(10) by (simp add: live_def)
  have ld: "load ?s2 (tasks ?s2) t = Some zero_task" "load s4 (tasks s4) t = Some ?tk3"
    using s1(6,10) f4(1) l4 by (simp_all add: load_def live_def)
  show thesis
  proof (rule that [OF _ s1(2) _ _ s4(3)])
    have ct: "ctxs s1 = ctxs s" by (rule w1(4))
    show "ngx_http_rpc_post_async_handler env r s =
      do {
        (ret, s) \<leftarrow> ngx_rpc_queue_push_and_notify qu t ?s5;
        (if ret \<noteq> NGX_OK then
           do {
             tk \<leftarrow> load s (tasks s) t;
             s \<leftarrow> Some (put_task t (tk\<lparr>response_states := NGX_HTTP_INTERNAL_SERVER_ERROR, res_length := 0\<rparr>) s);
             ngx_http_rpc_request_finish env t r s
           }
         else Some s)
      }"
      using q cx cf m s1(1) ct ld s4(1) by (simp add: ngx_http_rpc_post_async_handler_def)
    show "ctxs ?s5 = (ctxs s)(x \<mapsto> cx\<lparr>cx_task := Some t\<rparr>)" "requests ?s5 = requests s"
      "calls ?s5 = calls s" "queues ?s5 = queues s" "hconfs ?s5 = hconfs s" "pconfs ?s5 = pconfs s"
      using w1 w4 by (simp_all add: put_task_def)
    show "wstate.more ?s5 = wstate.more s"
      using wstate_more_more [OF s1(5)] wstate_more_more [OF f4(2)] by (simp add: put_task_def)
    show "copied_in_memory s ?s5 cs ts"
      by (rule list_all2_mono [OF s4(6)]) (use kept_in_memory [OF k3] in \<open>auto simp: in_memory_def put_task_def load_def\<close>)
    show "ring ?s5 p ys" if "ring s p ys" for p ys
    proof -
      have "ring ?s3 p ys" by (rule ring_same_links [OF s1(11) [OF that]]) simp_all
      then have "ring s4 p ys" by (rule grows_ring [OF s4(4)])
      then show ?thesis by (rule ring_same_links) simp_all
    qed
    show l5: "live ?s5 a" if "live s a" for a
      using kept_live [OF k3 that] grows_live [OF s4(4)] by simp
    show "idle_same s ?s5" using s1(16) l5 f4(6,7) by (simp add: idle_same_def)
    show "\<forall>a \<in> set (owned_addrs ts). \<not> live s a" using s4(7) kept_live [OF k3] by blast
    have "mem_kept s s4"
      unfolding mem_kept_but_def
    proof (intro conjI allI impI)
      fix c
      assume "live s (chowner c)"
      then have "c \<noteq> Req_bufs t" "live ?s3 (chowner c)" using s1(2) kept_live [OF k3] by auto
      then show "chain_buf s4 c = chain_buf s c" "chain_next s4 c = chain_next s c"
        using s4(4) k3 \<open>live s (chowner c)\<close> by (simp_all add: grows_def mem_kept_but_def)
    qed (use s4(4) k3 kept_live [OF k3] in \<open>simp_all add: grows_def mem_kept_but_def\<close>)
    then show "mem_kept s ?s5" by (rule kept_trans [OF _ kept_same]) simp_all
  qed (use l4 f4 s1(6,12,13,17) s4(2,5) in \<open>simp_all add: load_def\<close>)
qed

section \<open>What the handlers do\<close>

text \<open>The request and the calls after the answer with the task \<open>t\<close>.\<close>

definition answered :: "ngx_rpc_task \<Rightarrow> http_request \<Rightarrow> http_request" where
  "answered tk q = q\<lparr>r_out_type := protobuf_type, r_out_status := response_states tk,
     r_out_length := if 0 \<le> res_length tk then Some (res_length tk) else r_out_length q,
     r_buffered := 0 \<le> res_length tk \<or> r_buffered q\<rparr>"

definition answer_calls :: "http_env \<Rightarrow> addr \<Rightarrow> ngx_rpc_task \<Rightarrow> nat \<Rightarrow> http_request \<Rightarrow> http_call list" where
  "answer_calls env t tk r q =
     (if 0 < res_length tk
      then [Finalize_Request r (en_filter env), Output_Filter r (Res_bufs t)]
      else [Finalize_Request r (en_send env)])
     @ [Send_Header r (response_states tk) (r_out_length (answered tk q))]"

lemma request_finish_eq:
  assumes "load s (tasks s) t = Some tk" and "requests s r = Some q" and "en_cleanup env"
  shows "ngx_http_rpc_request_finish env t r s = Some (s\<lparr>
     requests := (requests s)(r \<mapsto> (answered tk q)\<lparr>r_cleanups := (Task_Destory, t) # r_cleanups q\<rparr>),
     calls := answer_calls env t tk r q @ calls s\<rparr>)"
  using assms
  by (cases q) (simp add: ngx_http_rpc_request_finish_def put_request_def log_call_def answered_def
      answer_calls_def)

lemma push_keeps_owned:
  fixes s :: "'z rstate_scheme"
  assumes "ngx_rpc_queue_push_and_notify q t s = Some (ret, s1)"
  shows "owned_chain s1 h ts = owned_chain s h ts" and "rstate.more s1 = rstate.more s"
    and "live s1 x = live s x"
proof -
  obtain m a b e where eq: "s1 = s\<lparr>tasks := m, qnext := a, qprev := b, efds := e\<rparr>"
    using push_and_notify_shape [OF assms] by blast
  have "owned_seg s1 p us = owned_seg s p us" for p us
    by (induction us arbitrary: p)
      (auto simp: eq cell_kind_def owned_buf_def chain_defs live_def split: option.splits)
  then show "owned_chain s1 h ts = owned_chain s h ts"
    by (simp add: owned_chain_def cell_kind_def chain_defs live_def eq)
  show "rstate.more s1 = rstate.more s" "live s1 x = live s x" by (simp_all add: eq live_def)
qed

section \<open>The worker's pending list\<close>

definition worker_pending :: "'z wstate_scheme \<Rightarrow> addr \<Rightarrow> addr \<Rightarrow> qaddr list \<Rightarrow> bool" where
  "worker_pending s c n xs \<longleftrightarrow> pending s n xs \<and> Option.bind (hconfs s c) hc_notify = Some n"

lemma worker_pop_eq: "Option.bind (hconfs s c) hc_notify = Some n \<Longrightarrow> worker_pop c s = pending_pop n s"
  by (auto simp: worker_pop_def fault_simps)

lemma links_frame_worker:
  fixes s s' :: "'z wstate_scheme"
  assumes "s' = s\<lparr>qnext := nx, qprev := pv\<rparr>"
  shows "chunks s' = chunks s" "notifies s' = notifies s" "efds s' = efds s" "tasks s' = tasks s"
    "hconfs s' = hconfs s" "requests s' = requests s" "calls s' = calls s" "load s' m = load s m"
  by (simp_all add: assms load_def live_def fun_eq_iff)

interpretation worker_pool: node_pool "\<lambda>s. worker_pending s c n" "worker_pop c" for c n
proof
  show "worker_pop c s = Some (None, s)" if "worker_pending s c n []" for s :: "'z wstate_scheme"
    using that notify_pool.pop_none [of s n] by (simp add: worker_pending_def worker_pop_eq)
  show "\<exists>s'. worker_pop c s = Some (Some x, s') \<and> worker_pending s' c n xs"
    if pp: "worker_pending s c n (x # xs)" for s :: "'z wstate_scheme" and x xs
  proof -
    obtain s' where s': "pending_pop n s = Some (Some x, s')" "pending s' n xs"
      using pp notify_pool.pop_some [of s n x xs] by (auto simp: worker_pending_def)
    have "hconfs s' = hconfs s" using links_frame_worker(5) [OF pending_pop_links [OF s'(1)]] .
    then show ?thesis using pp s' by (auto simp: worker_pending_def worker_pop_eq)
  qed
qed

text \<open>
  The functions that \<open>finish\<close> of a task on the worker's list may name, with the request they
  were stored with.
\<close>

definition worker_run ::
  "http_env \<Rightarrow> (byte list \<Rightarrow> bool) \<Rightarrow> (nat \<Rightarrow> byte) \<Rightarrow> task_fn \<Rightarrow> addr \<Rightarrow> closure_arg option
    \<Rightarrow> 'z wstate_scheme \<Rightarrow> 'z wstate_scheme option" where
  "worker_run env cmp junk f t a s =
     (case (f, a) of
        (Request_Finish, Some (Http_Request r)) \<Rightarrow> ngx_http_rpc_request_finish env t r s
      | (Request_Foward, Some (Http_Request r)) \<Rightarrow> ngx_http_rpc_request_foward cmp junk t r s
      | _ \<Rightarrow> None)"

definition finish_request_of :: "ngx_rpc_task \<Rightarrow> nat option" where
  "finish_request_of tk =
     (case (handler (finish tk), p1 (finish tk)) of
        (Some Request_Finish, Some (Http_Request r)) \<Rightarrow> Some r | _ \<Rightarrow> None)"

text \<open>The node \<open>x\<close> is a task that waits to be answered.\<close>

definition answerable :: "'z wstate_scheme \<Rightarrow> qaddr \<Rightarrow> bool" where
  "answerable s x \<longleftrightarrow> (\<exists>t tk r. x = TaskNode t \<and> load s (tasks s) t = Some tk \<and> 0 \<le> res_length tk
     \<and> finish_request_of tk = Some r \<and> requests s r \<noteq> None)"

definition task_answer :: "http_env \<Rightarrow> (addr \<rightharpoonup> ngx_rpc_task) \<Rightarrow> qaddr \<Rightarrow> http_call list" where
  "task_answer env m x =
     (case x of
        TaskNode t \<Rightarrow>
          (case Option.bind (m t) (\<lambda>tk. map_option (Pair tk) (finish_request_of tk)) of
             None \<Rightarrow> []
           | Some (tk, r) \<Rightarrow>
               (if 0 < res_length tk
                then [Finalize_Request r (en_filter env), Output_Filter r (Res_bufs t)]
                else [Finalize_Request r (en_send env)])
               @ [Send_Header r (response_states tk) (Some (res_length tk))])
      | _ \<Rightarrow> [])"

lemma answerable_frame:
  fixes s s' :: "'z wstate_scheme"
  assumes "chunks s' = chunks s" and "tasks s' = tasks s"
    and "\<And>r. requests s r \<noteq> None \<Longrightarrow> requests s' r \<noteq> None"
  shows "answerable s x \<Longrightarrow> answerable s' x"
  unfolding answerable_def load_cong [OF assms(1)] using assms(2,3) by metis

lemma worker_body_answers:
  assumes "answerable s x" and "en_cleanup env"
  shows "\<exists>r q. worker_body (worker_run env cmp junk) x s = Some (s\<lparr>
     requests := (requests s)(r \<mapsto> q), calls := task_answer env (tasks s) x @ calls s\<rparr>)"
proof -
  obtain t tk r q where x: "x = TaskNode t" "load s (tasks s) t = Some tk" "0 \<le> res_length tk"
    "finish_request_of tk = Some r" "requests s r = Some q"
    using assms(1) by (auto simp: answerable_def)
  have f: "handler (finish tk) = Some Request_Finish" "p1 (finish tk) = Some (Http_Request r)"
    using x(4) by (auto simp: finish_request_of_def split: option.splits task_fn.splits closure_arg.splits)
  have "worker_body (worker_run env cmp junk) x s = ngx_http_rpc_request_finish env t r s"
    using x(1,2) f by (simp add: worker_body_def worker_run_def)
  moreover have "task_answer env (tasks s) x = answer_calls env t tk r q"
    using x by (simp add: task_answer_def answer_calls_def answered_def load_Some_iff)
  ultimately show ?thesis
    using request_finish_eq [OF x(2,5) assms(2)] by auto
qed

lemma process_notify_drains:
  assumes p: "worker_pending s c n xs" and a: "\<forall>x \<in> set xs. answerable s x" and e: "en_cleanup env"
  shows "\<exists>s'. ngx_http_rpc_process_notify_task (worker_run env cmp junk) c s = Some s'
     \<and> worker_pending s' c n [] \<and> tasks s' = tasks s
     \<and> calls s' = fold (\<lambda>x cs. task_answer env (tasks s) x @ cs) xs (calls s)"
proof -
  let ?ok = "\<lambda>u ys. tasks u = tasks s \<and> (\<forall>x \<in> set ys. answerable u x)"
  have "\<exists>s'. drain (worker_pop c) (worker_body (worker_run env cmp junk)) s = Some s'
     \<and> worker_pending s' c n [] \<and> ?ok s' [] \<and> calls s' = fold (\<lambda>x cs. task_answer env (tasks s) x @ cs) xs (calls s)"
  proof (rule worker_pool.drain_empties [OF p])
    show "?ok s xs" using a by simp
    fix u u1 zs x ys
    assume pp: "worker_pending u c n (x # ys)" and ok: "?ok u (x # ys)"
      and pop: "worker_pop c u = Some (Some x, u1)" and p1: "worker_pending u1 c n ys"
    have "pending_pop n u = Some (Some x, u1)"
      using pp pop by (simp add: worker_pending_def worker_pop_eq)
    note fr = links_frame_worker [OF pending_pop_links [OF this]]
    have "answerable u1 y" if "answerable u y" for y
      by (rule answerable_frame [OF _ _ _ that]) (simp_all add: fr)
    then have an: "\<forall>y \<in> set (x # ys). answerable u1 y" using ok by simp
    then obtain r q where b: "worker_body (worker_run env cmp junk) x u1 = Some (u1\<lparr>
       requests := (requests u1)(r \<mapsto> q), calls := task_answer env (tasks u1) x @ calls u1\<rparr>)" (is "_ = Some ?u2")
      using worker_body_answers [OF _ e] by fastforce
    have "ring ?u2 p zs" if "ring u1 p zs" for p zs
      using that by (rule ring_same_links) simp_all
    then have "worker_pending ?u2 c n ys" using p1 by (auto simp: worker_pending_def pending_def)
    moreover have "answerable ?u2 y" if "answerable u1 y" for y
      by (rule answerable_frame [OF _ _ _ that]) simp_all
    ultimately show "\<exists>u2. worker_body (worker_run env cmp junk) x u1 = Some u2 \<and> worker_pending u2 c n ys
        \<and> ?ok u2 ys \<and> calls u2 = task_answer env (tasks s) x @ calls u"
      using b an ok fr by (intro exI [of _ ?u2]) simp
  qed
  then show ?thesis by (auto simp: ngx_http_rpc_process_notify_task_def)
qed

section \<open>Choosing the method\<close>

text \<open>
  What nginx documents of \<open>ngx_hash_init\<close> and \<open>ngx_hash_find\<close>: the table stores the keys in
  lower case, and finds a name exactly if it is one of the stored ones.
\<close>

definition lowered :: "byte list \<Rightarrow> byte list" where
  "lowered = map (\<lambda>b. if 65 \<le> b \<and> b \<le> 90 then b + 32 else b)"

definition hash_laws :: "((byte list \<times> nat) list \<Rightarrow> (byte list \<Rightarrow> nat option) option) \<Rightarrow> bool" where
  "hash_laws hash_init \<longleftrightarrow> (\<forall>ks h. hash_init ks = Some h \<and> distinct (map (lowered \<circ> fst) ks) \<longrightarrow>
     (\<forall>(k, v) \<in> set ks. h (lowered k) = Some v) \<and> (\<forall>u. u \<notin> set (map (lowered \<circ> fst) ks) \<longrightarrow> h u = None))"

lemma map_fst_hash_keys [simp]: "map (f \<circ> fst) (hash_keys ms) = map (f \<circ> m_name) ms"
  by (rule nth_equalityI) (simp_all add: hash_keys_def)

lemma hash_keys_found:
  assumes "hash_laws hash_init" and "hash_init (hash_keys ms) = Some h"
    and "distinct (map (lowered \<circ> m_name) ms)"
  shows "i < length ms \<Longrightarrow> h (lowered (m_name (ms ! i))) = Some i"
    and "u \<notin> set (map (lowered \<circ> m_name) ms) \<Longrightarrow> h u = None"
proof -
  have law: "\<forall>(k, v) \<in> set (hash_keys ms). h (lowered k) = Some v"
    "\<forall>u. u \<notin> set (map (lowered \<circ> m_name) ms) \<longrightarrow> h u = None"
    using assms unfolding hash_laws_def by (metis map_fst_hash_keys)+
  show "h (lowered (m_name (ms ! i))) = Some i" if "i < length ms"
  proof -
    have "(m_name (ms ! i), i) \<in> set (hash_keys ms)" using that by (auto simp: hash_keys_def)
    then show ?thesis using law(1) by auto
  qed
  show "h u = None" if "u \<notin> set (map (lowered \<circ> m_name) ms)"
    using that law(2) by blast
qed

text \<open>The value fits into its block: a number below \<open>10 ^ 20\<close> has at most 21 characters.\<close>

lemma dec_digits_length: "n < 10 ^ Suc k \<Longrightarrow> length (dec_digits n) \<le> Suc k"
proof (induction k arbitrary: n)
  case 0
  then show ?case by (subst dec_digits.simps) simp
next
  case (Suc k)
  have "n div 10 < 10 ^ Suc k" using Suc.prems by (simp add: div_less_iff_less_mult mult.commute)
  then show ?case using Suc.IH by (subst dec_digits.simps) simp
qed

lemma dec_string_length: "\<bar>v\<bar> < 10 ^ 20 \<Longrightarrow> length (dec_string v) \<le> 21"
proof -
  assume "\<bar>v\<bar> < 10 ^ 20"
  then have "nat v < 10 ^ Suc 19" "nat (- v) < 10 ^ Suc 19" by (simp_all add: nat_less_iff)
  then have "length (dec_digits (nat v)) \<le> 20" "length (dec_digits (nat (- v))) \<le> 20"
    using dec_digits_length [of _ 19] by auto
  then show ?thesis by (simp add: dec_string_def)
qed

text \<open>The state in which the handler has made the context \<open>x\<close> of a request.\<close>

definition context_made ::
  "addr \<Rightarrow> nat \<Rightarrow> nat \<Rightarrow> http_request \<Rightarrow> addr \<Rightarrow> 'z wstate_scheme \<Rightarrow> 'z wstate_scheme" where
  "context_made c i r q x s = s\<lparr>chunks := (chunks s)(x \<mapsto> Ctx_t),
     ctxs := (ctxs s)(x \<mapsto> \<lparr>cx_conf = c, cx_method = i, cx_r = r, cx_task = None\<rparr>),
     requests := (requests s)(r \<mapsto> q\<lparr>r_cleanups := (Ctx_Destroy, x) # r_cleanups q, r_ctx := Some x\<rparr>),
     calls := Read_Client_Body r # calls s\<rparr>"

lemma handler_finds:
  assumes "hconfs s c = Some cf" "hc_queue cf = Some qu" "hc_hash cf = Some h"
    and "requests s r = Some q" "r_ctx q = None" "load s (queues s) qu = Some qd"
    and "spare (en_pick env) (chunks s) (Suc k)" "en_cleanup env" and "h (r_uri q) = Some i"
  obtains x where "ngx_http_rpc_http_handler env (Some c) r s = Some (NGX_AGAIN, context_made c i r q x s)"
    and "\<not> live s x" and "spare (en_pick env) (chunks (context_made c i r q x s)) k"
proof -
  obtain x where x: "ngx_slab_alloc (en_pick env) Ctx_t s = (Some x, s\<lparr>chunks := (chunks s)(x \<mapsto> Ctx_t)\<rparr>)"
    "\<not> live s x" "spare (en_pick env) ((chunks s)(x \<mapsto> Ctx_t)) k"
    by (rule spare_alloc [OF assms(7)])
  have "ngx_http_rpc_http_handler env (Some c) r s = Some (NGX_AGAIN, context_made c i r q x s)"
    using assms x(1)
    by (simp add: ngx_http_rpc_http_handler_def context_made_def log_call_def put_request_def)
  then show thesis using that x(2,3) by (simp add: context_made_def)
qed

text \<open>What the handler does with a request, by the answer of the table.\<close>

lemma handler_lookup:
  assumes "hconfs s c = Some cf" "hc_queue cf = Some qu" "hc_hash cf = Some h"
    and "requests s r = Some q" "r_ctx q = None" "load s (queues s) qu = Some qd"
    and "spare (en_pick env) (chunks s) 1" "en_cleanup env"
  shows "h (r_uri q) = None \<Longrightarrow> ngx_http_rpc_http_handler env (Some c) r s = Some (NGX_DECLINED, s)"
    and "h (r_uri q) = Some i \<Longrightarrow>
       \<exists>s2 x. ngx_http_rpc_http_handler env (Some c) r s = Some (NGX_AGAIN, s2) \<and> \<not> live s x
          \<and> ctxs s2 x = Some \<lparr>cx_conf = c, cx_method = i, cx_r = r, cx_task = None\<rparr> \<and> live s2 x
          \<and> requests s2 = (requests s)(r \<mapsto> q\<lparr>r_cleanups := (Ctx_Destroy, x) # r_cleanups q, r_ctx := Some x\<rparr>)
          \<and> calls s2 = Read_Client_Body r # calls s"
proof -
  assume i: "h (r_uri q) = Some i"
  have "spare (en_pick env) (chunks s) (Suc 0)" using assms(7) by simp
  then obtain x where "ngx_http_rpc_http_handler env (Some c) r s = Some (NGX_AGAIN, context_made c i r q x s)"
    "\<not> live s x"
    by (rule handler_finds [OF assms(1-6) _ assms(8) i])
  then show "\<exists>s2 x. ngx_http_rpc_http_handler env (Some c) r s = Some (NGX_AGAIN, s2) \<and> \<not> live s x
          \<and> ctxs s2 x = Some \<lparr>cx_conf = c, cx_method = i, cx_r = r, cx_task = None\<rparr> \<and> live s2 x
          \<and> requests s2 = (requests s)(r \<mapsto> q\<lparr>r_cleanups := (Ctx_Destroy, x) # r_cleanups q, r_ctx := Some x\<rparr>)
          \<and> calls s2 = Read_Client_Body r # calls s"
    by (intro exI [of _ "context_made c i r q x s"] exI [of _ x]) (simp add: context_made_def live_def)
qed (use assms in \<open>simp add: ngx_http_rpc_http_handler_def\<close>)

section \<open>Starting a worker\<close>

lemma worker_init_eq:
  assumes "queue_ok s q a ns" and "pconfs s p = Some pf" "pc_queue pf = Some q" and "hconfs s c = Some cf"
    and "pslot < length ns" "int pslot \<le> lastp" and "notifies s (ns ! pslot) = Some nt"
  shows "ngx_http_rpc_init_process (int pslot) lastp (Some k) True (Some c) (Some p) s = Some (NGX_OK,
     s\<lparr>notifies := (notifies s)(ns ! pslot \<mapsto> nt\<lparr>notify_ctx := Some (Http_Conf c), notify_conn := Some k,
            read_hanlder := Some Http_Process_Notify_Task, write_hanlder := Some Http_Process_Notify_Task\<rparr>),
       conns := (conns s)(k \<mapsto> \<lparr>c_fd = event_fd nt, c_sockaddr = ns ! pslot,
            c_read_handler = Notify_Read_Handler, c_read_data = k,
            c_write_handler = Notify_Write_Handler, c_write_data = k,
            c_added = True, c_write_event = True\<rparr>),
       hconfs := (hconfs s)(c \<mapsto> cf\<lparr>hc_queue := Some q, hc_notify := Some (ns ! pslot)\<rparr>)\<rparr>)"
proof -
  have nin: "ns ! pslot \<in> set ns" using assms(5) by simp
  have ld: "load s (queues s) q = Some \<lparr>notify_slot = Some a, notify_num = int (length ns)\<rparr>"
    "load s (notify_slots s) a = Some (map Some ns)" "load s (notifies s) (ns ! pslot) = Some nt" "live s (ns ! pslot)"
    using assms(1,7) nin by (auto simp: queue_ok_def load_def live_def)
  have "map Some ns ! nat (int pslot) = Some (ns ! pslot)" "nat (int pslot) < length (map Some ns)"
    using assms(5) by simp_all
  then have reg: "ngx_rpc_notify_register (int pslot) lastp (Some k) True a (Http_Conf c) s =
     Some (Some (ns ! pslot),
       s\<lparr>notifies := (notifies s)(ns ! pslot \<mapsto> nt\<lparr>notify_ctx := Some (Http_Conf c), notify_conn := Some k,
            read_hanlder := Some Notify_Default_Hanlder, write_hanlder := Some Notify_Default_Hanlder\<rparr>),
         conns := (conns s)(k \<mapsto> \<lparr>c_fd = event_fd nt, c_sockaddr = ns ! pslot,
            c_read_handler = Notify_Read_Handler, c_read_data = k,
            c_write_handler = Notify_Write_Handler, c_write_data = k,
            c_added = True, c_write_event = True\<rparr>)\<rparr>)"
    using register_ok [of "int pslot" lastp s a "map Some ns" "ns ! pslot" nt k True "Http_Conf c"] assms(6) ld
    by simp
  show ?thesis
    using assms(2-4,6) ld reg
    by (simp add: ngx_http_rpc_init_process_def ngx_rpc_queue_add_current_producer_def load_def live_def)
qed

end
