(* ===== verification/Http_Properties.thy ===== *)
theory Http_Properties
  imports Http_Rpc Shm_Properties
begin

text \<open>
  The properties of the HTTP worker: choosing the method of a request, handing the request to
  a processor, and answering it when its task comes back. The witnesses run on the memory
  \<open>demo_http\<close>.
\<close>

section \<open>A concrete worker\<close>

text \<open>
  The memory \<open>demo\<close> with the worker's notify object at 7, on which the tasks \<open>ws\<close> have come
  back, the context of request 0 at 8, and a request body of one buffer in the blocks 40 to 42.
\<close>

definition demo_request :: http_request where
  "demo_request = \<lparr>r_uri = [47, 97], r_ctx = Some 8, r_body = Some (Some (Chain_cell 40)),
     r_in_length = 3, r_in_length_hdr = Some (0, 1),
     r_headers = [[\<lparr>h_hash = 1, h_key = [67, 79], h_value = [49]\<rparr>,
                   \<lparr>h_hash = 2, h_key = [88], h_value = [51]\<rparr>]],
     r_out_status = 0, r_out_type = [], r_out_length = None, r_buffered = False,
     r_upstream_out = None, r_postponed_out = None, r_cleanups = []\<rparr>"

definition demo_http :: "addr list \<Rightarrow> addr list \<Rightarrow> addr list \<Rightarrow> wstate" where
  "demo_http ids ts ws = \<lparr>
     chunks = [1 \<mapsto> Queue_t, 2 \<mapsto> Notify_slots 2, 3 \<mapsto> Notify_t, 4 \<mapsto> Notify_t, 5 \<mapsto> Task_t, 6 \<mapsto> Task_t,
               7 \<mapsto> Notify_t, 8 \<mapsto> Ctx_t, 40 \<mapsto> Pool_mem Chain_t, 41 \<mapsto> Pool_mem Buf_t, 42 \<mapsto> Pool_mem (Bytes 3)],
     qnext = next_links (NotifyHead 7) (map TaskNode ws) ++ next_links (QueueIdles 1) (map NotifyIdles ids)
             ++ next_links (NotifyHead 3) (map TaskNode ts),
     qprev = prev_links (NotifyHead 7) (map TaskNode ws) ++ prev_links (QueueIdles 1) (map NotifyIdles ids)
             ++ prev_links (NotifyHead 3) (map TaskNode ts),
     notifies = [3 \<mapsto> demo_notify 10 0, 7 \<mapsto> demo_notify 12 0],
     notify_slots = [2 \<mapsto> [Some 3, Some 7]],
     conns = Map.empty,
     efds = [10 \<mapsto> 0, 12 \<mapsto> 0],
     bufs = [41 \<mapsto> \<lparr>b_pos = (42, 0), b_last = (42, 3), b_start = (42, 0), b_end = (42, 3), b_in_file = False,
               b_last_buf = True, b_temporary = True, b_memory = False\<rparr>],
     chain_buf = [Chain_cell 40 \<mapsto> Some 41],
     chain_next = [Chain_cell 40 \<mapsto> None],
     data = [42 \<mapsto> [1, 2, 3]],
     tasks = [5 \<mapsto> zero_task\<lparr>finish := \<lparr>handler = Some Request_Finish, p1 = Some (Http_Request 0)\<rparr>,
                     proc_notify := Some 3, response_states := 200, res_length := 7\<rparr>,
              6 \<mapsto> zero_task\<lparr>finish := \<lparr>handler = Some Request_Finish, p1 = Some (Http_Request 1)\<rparr>,
                     response_states := 500, res_length := 0\<rparr>],
     queues = [1 \<mapsto> \<lparr>notify_slot = Some 2, notify_num = 2\<rparr>],
     pconfs = [0 \<mapsto> \<lparr>pc_shpool = Some 0, pc_queue = Some 1, pc_notify = None, shm_size = 0\<rparr>],
     zones = Map.empty,
     pool_data = Map.empty,
     hconfs = [0 \<mapsto> \<lparr>hc_queue = Some 1, hc_notify = Some 7,
                hc_methods = [\<lparr>m_name = [47, 97], m_impl = Some 1, m_handler = Some (Method_Handler 0), m_log = None\<rparr>],
                hc_hash = Some [[47, 97] \<mapsto> 0]\<rparr>],
     ctxs = [8 \<mapsto> \<lparr>cx_conf = 0, cx_method = 0, cx_r = 0, cx_task = None\<rparr>],
     requests = [0 \<mapsto> demo_request, 1 \<mapsto> demo_request],
     calls = []\<rparr>"

definition demo_env :: http_env where
  "demo_env = \<lparr>en_pick = first_fit 30, en_send = 0, en_filter = 0, en_cleanup = True\<rparr>"

lemmas http_simps = demo_http_def demo_env_def demo_request_def demo_notify_def next_links_def
  prev_links_def ring_def mring_def node_live_def live_def load_def pending_def idles_def

lemma demo_http_spare: "k \<le> 10 \<Longrightarrow> spare (en_pick demo_env) (chunks (demo_http ids ts ws)) k"
proof -
  assume "k \<le> 10"
  have "{9..<30} \<subseteq> {a \<in> {1..<30}. chunks (demo_http ids ts ws) a = None}"
    by (auto simp: demo_http_def)
  from card_mono [OF _ this] \<open>k \<le> 10\<close> show ?thesis
    unfolding demo_env_def by (simp add: spare_first_fit)
qed

lemma demo_http_body:
  "chain_seg (demo_http ids ts ws) (Some (Chain_cell 40)) [(Chain_cell 40, 41)]"
  "chain_bytes (demo_http ids ts ws) [(Chain_cell 40, 41)] [[1, 2, 3]]"
  by (simp_all add: demo_http_def chain_defs live_def buf_content_def load_def ptr_diff_def
      read_bytes_def numeral_eq_Suc)

section \<open>Handing a request over\<close>

lemma push_keeps_buffers:
  assumes "ngx_rpc_queue_push_and_notify q t s = Some (ret, s1)"
  shows "in_memory s1 b = in_memory s b"
proof -
  obtain m a c e where "s1 = s\<lparr>tasks := m, qnext := a, qprev := c, efds := e\<rparr>"
    using push_and_notify_shape [OF assms] by blast
  then show ?thesis by (simp add: in_memory_def load_def live_def)
qed

lemma ring_fresh_task: "ring s p ys \<Longrightarrow> \<not> live s t \<Longrightarrow> TaskNode t \<notin> set (p # ys)"
  using ring_liveD [of s p ys "TaskNode t"] by (auto simp: node_live_def)

lemma pending_ring: "pending s n xs \<Longrightarrow> ring s (NotifyHead n) xs"
  by (simp add: pending_def)

text \<open>The task that the handler submits, and what the submission leaves alone.\<close>

definition submitted_task :: "ngx_http_rpc_conf \<Rightarrow> http_request \<Rightarrow> nat \<Rightarrow> addr \<Rightarrow> addr \<Rightarrow> ngx_rpc_task" where
  "submitted_task cf q i x n = zero_task\<lparr>done_notify := hc_notify cf, req_length := r_in_length q,
     closure := \<lparr>handler = m_handler (hc_methods cf ! i), p1 = Some (Rpc_Ctx x)\<rparr>, proc_notify := Some n\<rparr>"

lemma post_async_submits:
  fixes s :: "'z wstate_scheme"
  assumes "requests s r = Some q" "r_body q = Some (Some c)" "r_ctx q = Some x"
    and "load s (ctxs s) x = Some cx" "cx_task cx = None"
    and "hconfs s (cx_conf cx) = Some cf" "hc_queue cf = Some qu"
    and "cx_method cx < length (hc_methods cf)"
    and "chain_seg s (Some c) cs" "chain_bytes s cs bss"
    and "spare (en_pick env) (chunks s) (3 * length cs + k)"
    and "load s (queues s) qu = Some qd" "idles s qu (n # ns)" "pending s n (map TaskNode ts)"
    and "notifies s n = Some nt"
  obtains s' t us where "ngx_http_rpc_post_async_handler env r s = Some s'"
    and "\<not> live s t" and "load s' (tasks s') t = Some (submitted_task cf q (cx_method cx) x n)"
    and "owned_chain s' (Req_bufs t) us" and "owned_bytes us = bss" and "copied_in_memory s s' cs us"
    and "idles s' qu ns" and "pending s' n (map TaskNode (ts @ [t]))"
    and "efds s' = efds (eventfd_write (event_fd nt) 1 s)"
    and "ctxs s' = (ctxs s)(x \<mapsto> cx\<lparr>cx_task := Some t\<rparr>)" and "requests s' = requests s" and "calls s' = calls s"
    and "\<And>u. u \<noteq> t \<Longrightarrow> tasks s' u = tasks s u" and "hconfs s' = hconfs s" and "pconfs s' = pconfs s"
    and "notifies s' = notifies s" and "wstate.more s' = wstate.more s"
    and "spare (en_pick env) (chunks s') k" and "\<And>a. live s a \<Longrightarrow> live s' a"
    and "\<And>p ys. ring s p ys \<Longrightarrow> set (p # ys) \<inter>
           (set (QueueIdles qu # map NotifyIdles ns) \<union> set (NotifyHead n # map TaskNode ts)) = {} \<Longrightarrow> ring s' p ys"
proof -
  let ?tk = "zero_task\<lparr>done_notify := hc_notify cf, req_length := r_in_length q,
        closure := \<lparr>handler = m_handler (hc_methods cf ! cx_method cx), p1 = Some (Rpc_Ctx x)\<rparr>\<rparr>"
  obtain t s5 us where s5: "ngx_http_rpc_post_async_handler env r s =
      do {
        (ret, s) \<leftarrow> ngx_rpc_queue_push_and_notify qu t s5;
        (if ret \<noteq> NGX_OK then
           do {
             tk \<leftarrow> load s (tasks s) t;
             s \<leftarrow> Some (put_task t (tk\<lparr>response_states := NGX_HTTP_INTERNAL_SERVER_ERROR, res_length := 0\<rparr>) s);
             ngx_http_rpc_request_finish env t r s
           }
         else Some s)
      }"
    "\<not> live s t" "load s5 (tasks s5) t = Some ?tk" "owned_chain s5 (Req_bufs t) us" "owned_bytes us = bss"
    "ctxs s5 = (ctxs s)(x \<mapsto> cx\<lparr>cx_task := Some t\<rparr>)" "requests s5 = requests s" "calls s5 = calls s"
    "queues s5 = queues s" "notifies s5 = notifies s" "efds s5 = efds s"
    "\<And>p ys. ring s p ys \<Longrightarrow> ring s5 p ys" "\<And>a. live s a \<Longrightarrow> live s5 a" "\<And>u. u \<noteq> t \<Longrightarrow> tasks s5 u = tasks s u"
    "hconfs s5 = hconfs s" "pconfs s5 = pconfs s" "wstate.more s5 = wstate.more s"
    "spare (en_pick env) (chunks s5) k" "copied_in_memory s s5 cs us"
    by (rule post_async_prepares [OF assms(1-8) refl assms(9-11)]) blast
  have pre: "load s5 (queues s5) qu = Some qd" "idles s5 qu (n # ns)" "pending s5 n (map TaskNode ts)"
    "notifies s5 n = Some nt"
    using assms(12-15) s5(9,10,12,13) by (simp_all add: load_Some_iff idles_def pending_def)
  have tn: "TaskNode t \<notin> set (map TaskNode ts)"
    using ring_fresh_task [OF pending_ring [OF assms(14)] s5(2)] by simp
  have dj: "set (NotifyHead n # map TaskNode ts) \<inter> set (QueueIdles qu # map NotifyIdles (n # ns)) = {}" by auto
  obtain s' where s': "ngx_rpc_queue_push_and_notify qu t s5 = Some (NGX_OK, s')" "idles s' qu ns"
    "pending s' n (map TaskNode ts @ [TaskNode t])" "chunks s' = chunks s5" "notifies s' = notifies s5"
    "tasks s' = (tasks s5)(t \<mapsto> ?tk\<lparr>proc_notify := Some n\<rparr>)"
    "efds s' = efds (eventfd_write (event_fd nt) 1 s5)"
    "\<And>p ys. ring s5 p ys \<Longrightarrow> set (p # ys) \<inter> (set (QueueIdles qu # map NotifyIdles ns)
        \<union> set (TaskNode t # NotifyHead n # map TaskNode ts)) = {} \<Longrightarrow> ring s' p ys"
    using push_and_notify_ok [OF pre(1-3) s5(3) tn pre(4) dj] by blast
  note kept = push_keeps_owned [OF s'(1)]
  have more: "ctxs s' = ctxs s5" "requests s' = requests s5" "calls s' = calls s5" "hconfs s' = hconfs s5"
    "pconfs s' = pconfs s5" "wstate.more s' = wstate.more s5"
    using kept(2) by (cases s', cases s5, simp)+
  show thesis
  proof (rule that)
    show "ngx_http_rpc_post_async_handler env r s = Some s'" using s5(1) s'(1) by simp
    show "\<not> live s t" by (rule s5(2))
    show "load s' (tasks s') t = Some (submitted_task cf q (cx_method cx) x n)"
      using s5(3) kept(3) s'(6) by (simp add: load_Some_iff submitted_task_def)
    show "owned_chain s' (Req_bufs t) us" using s5(4) kept(1) by simp
    show "copied_in_memory s s' cs us" using s5(19) push_keeps_buffers [OF s'(1)] by simp
    show "efds s' = efds (eventfd_write (event_fd nt) 1 s)"
      using s'(7) s5(11) by (simp add: eventfd_write_def split: option.splits)
    show "tasks s' u = tasks s u" if "u \<noteq> t" for u using that s5(14) s'(6) by simp
    show "live s' a" if "live s a" for a using that s5(13) kept(3) by simp
    show "ring s' p ys" if "ring s p ys" "set (p # ys) \<inter> (set (QueueIdles qu # map NotifyIdles ns)
        \<union> set (NotifyHead n # map TaskNode ts)) = {}" for p ys
      by (rule s'(8) [OF s5(12) [OF that(1)]]) (use that(2) ring_fresh_task [OF that(1) s5(2)] in auto)
  qed (use s5(5-8,10,15-18) s'(2-5) more in simp_all)
qed

text \<open>
  C8. The handler that nginx calls once the body has been read, when a processor is idle. It
  makes one new task, puts a deep copy of the body into it, together with the length of the
  body, the method's function with the request's context as its argument, and the worker's
  notify object as the place to come back to. It puts the task at the end of the list of the
  processor that became idle last, and takes that processor off the idle list. The request is
  not answered, and every other pending list and task stays as it is. Three allocations for each buffer of the
  body suffice.
\<close>

theorem post_async_hands_over:
  assumes "requests s r = Some q" "r_body q = Some (Some c)" "r_ctx q = Some x"
    and "load s (ctxs s) x = Some cx" "cx_task cx = None"
    and "hconfs s (cx_conf cx) = Some cf" "hc_queue cf = Some qu"
    and "cx_method cx < length (hc_methods cf)"
    and "chain_seg s (Some c) cs" "chain_bytes s cs bss"
    and "spare (en_pick env) (chunks s) (3 * length cs)"
    and "load s (queues s) qu = Some qd" "idles s qu (n # ns)" "pending s n (map TaskNode ts)"
    and "notifies s n = Some nt" "efds s (event_fd nt) = Some cnt" "cnt \<le> eventfd_max"
  shows "\<exists>s' t us tk. ngx_http_rpc_post_async_handler env r s = Some s'
     \<and> \<not> live s t \<and> load s' (tasks s') t = Some tk
     \<and> handler (closure tk) = m_handler (hc_methods cf ! cx_method cx) \<and> p1 (closure tk) = Some (Rpc_Ctx x)
     \<and> done_notify tk = hc_notify cf \<and> proc_notify tk = Some n \<and> req_length tk = r_in_length q
     \<and> owned_chain s' (Req_bufs t) us \<and> owned_bytes us = bss
     \<and> idles s' qu ns \<and> pending s' n (map TaskNode (ts @ [t]))
     \<and> (\<exists>cnt'. efds s' (event_fd nt) = Some cnt' \<and> 0 < cnt')
     \<and> ctxs s' = (ctxs s)(x \<mapsto> cx\<lparr>cx_task := Some t\<rparr>) \<and> requests s' = requests s \<and> calls s' = calls s
     \<and> (\<forall>u. live s u \<longrightarrow> tasks s' u = tasks s u)"
proof -
  have sp: "spare (en_pick env) (chunks s) (3 * length cs + 0)" using assms(11) by simp
  obtain s' t us where s': "ngx_http_rpc_post_async_handler env r s = Some s'" "\<not> live s t"
    "load s' (tasks s') t = Some (submitted_task cf q (cx_method cx) x n)"
    "owned_chain s' (Req_bufs t) us" "owned_bytes us = bss" "idles s' qu ns"
    "pending s' n (map TaskNode (ts @ [t]))" "efds s' = efds (eventfd_write (event_fd nt) 1 s)"
    "ctxs s' = (ctxs s)(x \<mapsto> cx\<lparr>cx_task := Some t\<rparr>)" "requests s' = requests s" "calls s' = calls s"
    "\<And>u. u \<noteq> t \<Longrightarrow> tasks s' u = tasks s u"
    by (rule post_async_submits [OF assms(1-10) sp assms(12-15)]) blast
  have "\<exists>cnt'. efds s' (event_fd nt) = Some cnt' \<and> 0 < cnt'"
    using eventfd_write_readable [of s "event_fd nt" cnt] assms(16,17) s'(8) by auto
  moreover have "tasks s' u = tasks s u" if "live s u" for u
    using s'(2,12) that by (cases "u = t") auto
  ultimately show ?thesis
    using s'(1-11) by (intro exI [of _ s'] exI [of _ t] exI [of _ us]) (auto simp: submitted_task_def)
qed

theorem post_async_hands_over_witness:
  "\<exists>s' t us tk. ngx_http_rpc_post_async_handler demo_env 0 (demo_http [3] [5] []) = Some s'
     \<and> load s' (tasks s') t = Some tk \<and> handler (closure tk) = Some (Method_Handler 0)
     \<and> done_notify tk = Some 7 \<and> owned_chain s' (Req_bufs t) us \<and> owned_bytes us = [[1, 2, 3]]
     \<and> idles s' 1 [] \<and> pending s' 3 [TaskNode 5, TaskNode t]"
proof -
  let ?s = "demo_http [3] [5] []"
  have "requests ?s 0 = Some demo_request" "r_body demo_request = Some (Some (Chain_cell 40))"
    "r_ctx demo_request = Some 8" "load ?s (ctxs ?s) 8 = Some \<lparr>cx_conf = 0, cx_method = 0, cx_r = 0, cx_task = None\<rparr>"
    "hconfs ?s 0 = Some \<lparr>hc_queue = Some 1, hc_notify = Some 7,
       hc_methods = [\<lparr>m_name = [47, 97], m_impl = Some 1, m_handler = Some (Method_Handler 0), m_log = None\<rparr>], hc_hash = Some [[47, 97] \<mapsto> 0]\<rparr>"
    "load ?s (queues ?s) 1 = Some \<lparr>notify_slot = Some 2, notify_num = 2\<rparr>" "idles ?s 1 [3]"
    "pending ?s 3 (map TaskNode [5])" "notifies ?s 3 = Some (demo_notify 10 0)"
    "efds ?s (event_fd (demo_notify 10 0)) = Some 0"
    by (simp_all add: http_simps)
  from post_async_hands_over [OF this(1-4) _ _ _ _ demo_http_body demo_http_spare this(6-10)] this(5)
  show ?thesis by fastforce
qed

text \<open>
  The same when no processor is idle: the request is answered at once with status 500 and
  an empty body, the destruction of its task is registered with the connection, and no list
  changes: the task is on none of them.
\<close>

theorem post_async_no_idle:
  assumes "requests s r = Some q" "r_body q = Some (Some c)" "r_ctx q = Some x"
    and "load s (ctxs s) x = Some cx" "cx_task cx = None"
    and "hconfs s (cx_conf cx) = Some cf" "hc_queue cf = Some qu"
    and "cx_method cx < length (hc_methods cf)"
    and "chain_seg s (Some c) cs" "chain_bytes s cs bss"
    and "spare (en_pick env) (chunks s) (3 * length cs)"
    and "load s (queues s) qu = Some qd" "idles s qu []" "en_cleanup env"
  shows "\<exists>s' t q'. ngx_http_rpc_post_async_handler env r s = Some s' \<and> \<not> live s t
     \<and> requests s' = (requests s)(r \<mapsto> q') \<and> r_out_status q' = 500 \<and> r_out_length q' = Some 0
     \<and> r_cleanups q' = (Task_Destory, t) # r_cleanups q
     \<and> calls s' = [Finalize_Request r (en_send env), Send_Header r 500 (Some 0)] @ calls s
     \<and> efds s' = efds s \<and> (\<forall>p ys. ring s p ys \<longrightarrow> ring s' p ys)"
proof -
  obtain t s5 us where s5: "ngx_http_rpc_post_async_handler env r s =
      do {
        (ret, s) \<leftarrow> ngx_rpc_queue_push_and_notify qu t s5;
        (if ret \<noteq> NGX_OK then
           do {
             tk \<leftarrow> load s (tasks s) t;
             s \<leftarrow> Some (put_task t (tk\<lparr>response_states := NGX_HTTP_INTERNAL_SERVER_ERROR, res_length := 0\<rparr>) s);
             ngx_http_rpc_request_finish env t r s
           }
         else Some s)
      }"
    "\<not> live s t" "load s5 (tasks s5) t = Some (zero_task\<lparr>done_notify := hc_notify cf, req_length := r_in_length q,
        closure := \<lparr>handler = m_handler (hc_methods cf ! cx_method cx), p1 = Some (Rpc_Ctx x)\<rparr>\<rparr>)"
    "owned_chain s5 (Req_bufs t) us" "owned_bytes us = bss"
    "ctxs s5 = (ctxs s)(x \<mapsto> cx\<lparr>cx_task := Some t\<rparr>)" "requests s5 = requests s" "calls s5 = calls s"
    "queues s5 = queues s" "notifies s5 = notifies s" "efds s5 = efds s"
    "\<And>p ys. ring s p ys \<Longrightarrow> ring s5 p ys" "\<And>a. live s a \<Longrightarrow> live s5 a" "\<And>u. u \<noteq> t \<Longrightarrow> tasks s5 u = tasks s u"
    by (rule post_async_prepares [OF assms(1-8) refl assms(9,10), where k = 0]) (use assms(11) in simp, blast)
  have pre: "load s5 (queues s5) qu = Some qd" "idles s5 qu []"
    using assms(12,13) s5(9,12,13) by (simp_all add: load_Some_iff idles_def)
  define tk where "tk = (zero_task\<lparr>done_notify := hc_notify cf, req_length := r_in_length q,
        closure := \<lparr>handler = m_handler (hc_methods cf ! cx_method cx), p1 = Some (Rpc_Ctx x)\<rparr>\<rparr>)
          \<lparr>response_states := NGX_HTTP_INTERNAL_SERVER_ERROR, res_length := 0\<rparr>"
  let ?s6 = "put_task t tk s5"
  have l: "load ?s6 (tasks ?s6) t = Some tk" "requests ?s6 r = Some q" "calls ?s6 = calls s"
    using s5(3,7,8) assms(1) by (simp_all add: load_Some_iff) (simp_all add: put_task_def)
  have fin: "ngx_http_rpc_post_async_handler env r s = Some (?s6\<lparr>
     requests := (requests ?s6)(r \<mapsto> (answered tk q)\<lparr>r_cleanups := (Task_Destory, t) # r_cleanups q\<rparr>),
     calls := answer_calls env t tk r q @ calls ?s6\<rparr>)" (is "_ = Some ?s'")
    using request_finish_eq [OF l(1,2) assms(14)] s5(1,3) push_and_notify_none [OF pre]
    by (simp add: tk_def)
  have req: "requests ?s6 = requests s" using s5(7) by (simp add: put_task_def)
  have tkf: "response_states tk = 500" "res_length tk = 0" by (simp_all add: tk_def)
  have "ring ?s' p ys" if "ring s p ys" for p ys
    using s5(12) [OF that] by (rule ring_same_links) simp_all
  then show ?thesis
    using s5(2,11) tkf req l(3)
    by (intro exI [of _ ?s'] exI [of _ t]
        exI [of _ "(answered tk q)\<lparr>r_cleanups := (Task_Destory, t) # r_cleanups q\<rparr>"] conjI fin)
      (simp_all add: answered_def answer_calls_def)
qed

theorem post_async_no_idle_witness:
  "\<exists>s' t q'. ngx_http_rpc_post_async_handler demo_env 0 (demo_http [] [5] []) = Some s'
     \<and> requests s' 0 = Some q' \<and> r_out_status q' = 500 \<and> r_cleanups q' = [(Task_Destory, t)]
     \<and> calls s' = [Finalize_Request 0 0, Send_Header 0 500 (Some 0)]"
proof -
  let ?s = "demo_http [] [5] []"
  have "requests ?s 0 = Some demo_request" "r_body demo_request = Some (Some (Chain_cell 40))"
    "r_ctx demo_request = Some 8" "load ?s (ctxs ?s) 8 = Some \<lparr>cx_conf = 0, cx_method = 0, cx_r = 0, cx_task = None\<rparr>"
    "hconfs ?s 0 = Some \<lparr>hc_queue = Some 1, hc_notify = Some 7,
       hc_methods = [\<lparr>m_name = [47, 97], m_impl = Some 1, m_handler = Some (Method_Handler 0), m_log = None\<rparr>], hc_hash = Some [[47, 97] \<mapsto> 0]\<rparr>"
    "load ?s (queues ?s) 1 = Some \<lparr>notify_slot = Some 2, notify_num = 2\<rparr>" "idles ?s 1 []" "en_cleanup demo_env"
    "calls ?s = []" "r_cleanups demo_request = []" "en_send demo_env = 0"
    by (simp_all add: http_simps)
  from post_async_no_idle [OF this(1-4) _ _ _ _ demo_http_body demo_http_spare this(6-8)] this(5,9-11)
  show ?thesis by fastforce
qed

text \<open>
  C30. What the handler does when something is missing. A request without a body is answered
  with status 400 and nothing else happens. When the shared memory has no room for a task, the
  result of the creation is used all the same: the handler has no defined result.
\<close>

theorem post_async_missing:
  assumes "requests s r = Some q"
  shows "(r_body q = None \<or> r_body q = Some None \<longrightarrow>
       ngx_http_rpc_post_async_handler env r s = Some (log_call (Finalize_Request r 400) s))
     \<and> (\<forall>c x cx. r_body q = Some (Some c) \<and> r_ctx q = Some x \<and> load s (ctxs s) x = Some cx
        \<and> cx_task cx = None \<and> en_pick env (chunks s) Task_t = None \<longrightarrow>
       ngx_http_rpc_post_async_handler env r s = None)"
proof (intro conjI impI allI)
  assume "r_body q = None \<or> r_body q = Some None"
  then show "ngx_http_rpc_post_async_handler env r s = Some (log_call (Finalize_Request r 400) s)"
    using assms by (auto simp: ngx_http_rpc_post_async_handler_def)
next
  fix c x cx
  assume a: "r_body q = Some (Some c) \<and> r_ctx q = Some x \<and> load s (ctxs s) x = Some cx
    \<and> cx_task cx = None \<and> en_pick env (chunks s) Task_t = None"
  then have "ngx_http_rpc_task_create (en_pick env) s = Some (None, s)"
    by (simp add: ngx_http_rpc_task_create_def ngx_slab_alloc_def)
  then show "ngx_http_rpc_post_async_handler env r s = None"
    using a assms by (auto simp: ngx_http_rpc_post_async_handler_def Option.bind_eq_None_conv)
qed

theorem post_async_missing_witness:
  "ngx_http_rpc_post_async_handler (demo_env\<lparr>en_pick := \<lambda>_ _. None\<rparr>) 0 (demo_http [3] [5] []) = None"
proof -
  have "requests (demo_http [3] [5] []) 0 = Some demo_request" by (simp add: demo_http_def)
  from post_async_missing [OF this, of "demo_env\<lparr>en_pick := \<lambda>_ _. None\<rparr>"]
  show ?thesis by (simp add: http_simps)
qed

section \<open>Choosing the method\<close>

text \<open>
  C15. The way from the configuration to the method. Let the table be built over methods whose
  names differ by more than their case. A request for a name in lower case is routed to that
  very method: it gets a context in shared memory with the number of the method, the
  destruction of the context is registered with the connection, and the reading of the body is
  started. A request for anything else is declined and changes nothing; so is one that spells
  a name with an upper-case letter.
\<close>

theorem handler_routes:
  assumes "hash_laws hash_init" and "hconfs s c = Some cf" "hc_queue cf = Some qu"
    and "distinct (map (lowered \<circ> m_name) (hc_methods cf))"
    and "ngx_http_rpc_postconfiguration hash_init ok c s = Some (NGX_OK, True, s1)"
    and "requests s r = Some q" "r_ctx q = None" "load s (queues s) qu = Some qd"
    and "spare (en_pick env) (chunks s) 1" "en_cleanup env"
  shows "(\<forall>i < length (hc_methods cf). r_uri q = lowered (m_name (hc_methods cf ! i)) \<longrightarrow>
       (\<exists>s2 x. ngx_http_rpc_http_handler env (Some c) r s1 = Some (NGX_AGAIN, s2) \<and> \<not> live s x
          \<and> ctxs s2 x = Some \<lparr>cx_conf = c, cx_method = i, cx_r = r, cx_task = None\<rparr> \<and> live s2 x
          \<and> requests s2 = (requests s)(r \<mapsto> q\<lparr>r_cleanups := (Ctx_Destroy, x) # r_cleanups q, r_ctx := Some x\<rparr>)
          \<and> calls s2 = Read_Client_Body r # calls s))
     \<and> (r_uri q \<notin> lowered ` m_name ` set (hc_methods cf) \<longrightarrow>
       ngx_http_rpc_http_handler env (Some c) r s1 = Some (NGX_DECLINED, s1))"
proof -
  obtain h where h: "hash_init (hash_keys (hc_methods cf)) = Some h"
    and s1: "s1 = s\<lparr>hconfs := (hconfs s)(c \<mapsto> cf\<lparr>hc_hash := Some h\<rparr>)\<rparr>"
    using assms(2,5) by (auto simp: ngx_http_rpc_postconfiguration_def split: option.splits if_splits)
  note found = hash_keys_found [OF assms(1) h assms(4)]
  have "hconfs s1 c = Some (cf\<lparr>hc_hash := Some h\<rparr>)" "hc_queue (cf\<lparr>hc_hash := Some h\<rparr>) = Some qu"
    "hc_hash (cf\<lparr>hc_hash := Some h\<rparr>) = Some h" "requests s1 r = Some q" "load s1 (queues s1) qu = Some qd"
    "spare (en_pick env) (chunks s1) 1"
    using assms by (simp_all add: s1 load_def live_def)
  note look = handler_lookup [OF this(1-4) assms(7) this(5,6) assms(10)]
  have same: "live s1 x = live s x" "requests s1 = requests s" "calls s1 = calls s" for x
    by (simp_all add: s1 live_def)
  show ?thesis
  proof (intro conjI allI impI)
    fix i
    assume i: "i < length (hc_methods cf)" "r_uri q = lowered (m_name (hc_methods cf ! i))"
    then show "\<exists>s2 x. ngx_http_rpc_http_handler env (Some c) r s1 = Some (NGX_AGAIN, s2) \<and> \<not> live s x
          \<and> ctxs s2 x = Some \<lparr>cx_conf = c, cx_method = i, cx_r = r, cx_task = None\<rparr> \<and> live s2 x
          \<and> requests s2 = (requests s)(r \<mapsto> q\<lparr>r_cleanups := (Ctx_Destroy, x) # r_cleanups q, r_ctx := Some x\<rparr>)
          \<and> calls s2 = Read_Client_Body r # calls s"
      using look(2) [of i] found(1) [OF i(1)] by (simp add: same)
  next
    assume "r_uri q \<notin> lowered ` m_name ` set (hc_methods cf)"
    then have "r_uri q \<notin> set (map (lowered \<circ> m_name) (hc_methods cf))" by auto
    then show "ngx_http_rpc_http_handler env (Some c) r s1 = Some (NGX_DECLINED, s1)"
      by (intro look(1) found(2))
  qed
qed

text \<open>The hash table of the witness: an association list over the lowered keys.\<close>

definition assoc_hash :: "(byte list \<times> nat) list \<Rightarrow> (byte list \<Rightarrow> nat option) option" where
  "assoc_hash ks = Some (map_of (map (\<lambda>(k, v). (lowered k, v)) ks))"

lemma assoc_hash_laws: "hash_laws assoc_hash"
proof -
  have m: "map fst (map (\<lambda>(k, v). (lowered k, v)) ks) = map (lowered \<circ> fst) ks" for ks :: "(byte list \<times> nat) list"
    by (induction ks) auto
  show ?thesis
    unfolding hash_laws_def assoc_hash_def
  proof (intro allI impI conjI ballI)
    fix ks :: "(byte list \<times> nat) list" and h u p
    assume a: "Some (map_of (map (\<lambda>(k, v). (lowered k, v)) ks)) = Some h \<and> distinct (map (lowered \<circ> fst) ks)"
    show "case p of (k, v) \<Rightarrow> h (lowered k) = Some v" if "p \<in> set ks"
    proof -
      obtain k v where p: "p = (k, v)" by force
      then have "(lowered k, v) \<in> set (map (\<lambda>(k, v). (lowered k, v)) ks)" using that by force
      moreover have "distinct (map fst (map (\<lambda>(k, v). (lowered k, v)) ks))" using a m [of ks] by metis
      ultimately have "map_of (map (\<lambda>(k, v). (lowered k, v)) ks) (lowered k) = Some v"
        by (intro map_of_is_SomeI)
      then show ?thesis using a p by simp
    qed
    show "h u = None" if "u \<notin> set (map (lowered \<circ> fst) ks)"
    proof -
      have "u \<notin> set (map fst (map (\<lambda>(k, v). (lowered k, v)) ks))" using that unfolding m .
      then have "map_of (map (\<lambda>(k, v). (lowered k, v)) ks) u = None"
        by (simp only: map_of_eq_None_iff set_map simp_thms)
      then show ?thesis using a by simp
    qed
  qed
qed

theorem handler_routes_witness:
  "\<exists>s1 s2 x. ngx_http_rpc_postconfiguration assoc_hash True 0
       ((demo_http [3] [5] [])\<lparr>requests := [0 \<mapsto> demo_request\<lparr>r_ctx := None\<rparr>]\<rparr>) = Some (NGX_OK, True, s1)
     \<and> ngx_http_rpc_http_handler demo_env (Some 0) 0 s1 = Some (NGX_AGAIN, s2)
     \<and> ctxs s2 x = Some \<lparr>cx_conf = 0, cx_method = 0, cx_r = 0, cx_task = None\<rparr>"
proof -
  let ?s = "(demo_http [3] [5] [])\<lparr>requests := [0 \<mapsto> demo_request\<lparr>r_ctx := None\<rparr>]\<rparr>"
  let ?cf = "\<lparr>hc_queue = Some 1, hc_notify = Some 7,
     hc_methods = [\<lparr>m_name = [47, 97], m_impl = Some 1, m_handler = Some (Method_Handler 0), m_log = None\<rparr>], hc_hash = Some [[47, 97] \<mapsto> 0]\<rparr>"
  have cf: "hconfs ?s 0 = Some ?cf" by (simp add: demo_http_def)
  obtain s1 where s1: "ngx_http_rpc_postconfiguration assoc_hash True 0 ?s = Some (NGX_OK, True, s1)"
    using cf by (simp add: ngx_http_rpc_postconfiguration_def assoc_hash_def)
  have "requests ?s 0 = Some (demo_request\<lparr>r_ctx := None\<rparr>)" "r_ctx (demo_request\<lparr>r_ctx := None\<rparr>) = None"
    "load ?s (queues ?s) 1 = Some \<lparr>notify_slot = Some 2, notify_num = 2\<rparr>" "en_cleanup demo_env"
    "spare (en_pick demo_env) (chunks ?s) 1"
    using demo_http_spare [of 1 "[3]" "[5]" "[]"] by (simp_all add: demo_http_def demo_env_def load_def live_def)
  from handler_routes [OF assoc_hash_laws cf _ _ s1 this(1,2,3,5,4)] show ?thesis
    using s1 by (fastforce simp: lowered_def demo_request_def)
qed

section \<open>Answering\<close>

text \<open>
  C14. The worker's loop over the tasks that come back empties the list, whatever its length,
  and answers every request, first come first served: for each task the header with the task's
  status and length is sent, then the response buffers when there is a body, then the request is finalized
  with the code of the last of the two calls. Each task's destruction is registered with its
  connection on the way.
\<close>

theorem notify_task_answers_all:
  assumes "worker_pending s c n xs" and "\<forall>x \<in> set xs. answerable s x" and "en_cleanup env"
  shows "\<exists>s'. ngx_http_rpc_process_notify_task (worker_run env cmp junk) c s = Some s'
     \<and> worker_pending s' c n [] \<and> tasks s' = tasks s
     \<and> calls s' = fold (\<lambda>x cs. task_answer env (tasks s) x @ cs) xs (calls s)"
  by (rule process_notify_drains [OF assms])

theorem notify_task_answers_all_witness:
  "\<exists>s'. ngx_http_rpc_process_notify_task (worker_run demo_env (\<lambda>_. False) (\<lambda>_. 0)) 0 (demo_http [] [] [5, 6]) = Some s'
     \<and> calls s' = [Finalize_Request 1 0, Send_Header 1 500 (Some 0),
                  Finalize_Request 0 0, Output_Filter 0 (Res_bufs 5), Send_Header 0 200 (Some 7)]"
proof -
  let ?s = "demo_http [] [] [5, 6]"
  have "worker_pending ?s 0 7 [TaskNode 5, TaskNode 6]"
    by (simp add: worker_pending_def http_simps)
  moreover have "\<forall>x \<in> set [TaskNode 5, TaskNode 6]. answerable ?s x"
    by (simp add: answerable_def demo_http_def load_def live_def finish_request_of_def)
  moreover have "en_cleanup demo_env" by (simp add: demo_env_def)
  ultimately obtain s' where s': "ngx_http_rpc_process_notify_task (worker_run demo_env (\<lambda>_. False) (\<lambda>_. 0)) 0 ?s = Some s'"
    "calls s' = fold (\<lambda>x cs. task_answer demo_env (tasks ?s) x @ cs) [TaskNode 5, TaskNode 6] (calls ?s)"
    using notify_task_answers_all [where s = ?s and c = 0 and n = 7 and xs = "[TaskNode 5, TaskNode 6]"
        and env = demo_env and cmp = "\<lambda>_. False" and junk = "\<lambda>_. 0"] by blast
  from s'(2) have "calls s' = [Finalize_Request 1 0, Send_Header 1 500 (Some 0),
                  Finalize_Request 0 0, Output_Filter 0 (Res_bufs 5), Send_Header 0 200 (Some 7)]"
    by (simp add: task_answer_def finish_request_of_def demo_http_def demo_env_def)
  then show ?thesis using s'(1) by blast
qed

section \<open>Subrequests\<close>

text \<open>
  C31. The end of a subrequest. Called with \<open>NGX_AGAIN\<close> the handler does nothing. When the
  subrequest failed, the task remembers its status and goes back to the end of the list of
  the processor it came from, which is signalled. When it succeeded and the task's
  request consists of two or more buffers, the handler has no defined result, because
  the old buffers are released by the loop that reads the link of a released cell.
\<close>

theorem subrequest_done_cases:
  assumes "requests s r = Some q" and "load s (tasks s) t = Some tk" and "proc_notify tk = Some n"
    and "pending s n (map TaskNode ts)" "t \<notin> set ts" and "notifies s n = Some nt"
    and "efds s (event_fd nt) = Some cnt" "cnt \<le> eventfd_max"
  shows "ngx_http_rpc_subrequest_done_handler env r t NGX_AGAIN s = Some (NGX_OK, s)
     \<and> (rc \<noteq> NGX_AGAIN \<and> r_out_status q \<noteq> 200 \<longrightarrow>
       (\<exists>s'. ngx_http_rpc_subrequest_done_handler env r t rc s = Some (NGX_OK, s')
          \<and> tasks s' = (tasks s)(t \<mapsto> tk\<lparr>response_states := r_out_status q\<rparr>)
          \<and> pending s' n (map TaskNode (ts @ [t]))
          \<and> (\<exists>cnt'. efds s' (event_fd nt) = Some cnt' \<and> 0 < cnt')
          \<and> calls s' = calls s \<and> requests s' = requests s))
     \<and> (\<forall>h us. rc \<noteq> NGX_AGAIN \<and> r_out_status q = 200 \<and> owned_chain s (Req_bufs t) us \<and> 2 \<le> length us \<longrightarrow>
          ngx_http_rpc_subrequest_done_handler env r t rc s = None)"
proof (intro conjI impI allI)
  show "ngx_http_rpc_subrequest_done_handler env r t NGX_AGAIN s = Some (NGX_OK, s)"
    by (simp add: ngx_http_rpc_subrequest_done_handler_def)
next
  let ?tk = "tk\<lparr>response_states := r_out_status q\<rparr>"
  let ?s1 = "put_task t ?tk s"
  assume a: "rc \<noteq> NGX_AGAIN \<and> r_out_status q \<noteq> 200"
  have l: "live s t" using assms(2) by (simp add: load_Some_iff)
  have "ring s (NotifyHead n) (map TaskNode ts)" using assms(4) by (simp add: pending_def)
  then have "ring ?s1 (NotifyHead n) (map TaskNode ts)" by (rule ring_same_links) simp_all
  then have p: "pending ?s1 n (map TaskNode ts)" using assms(4) by (simp add: pending_def)
  have x: "node_live ?s1 (TaskNode t)" "TaskNode t \<notin> set (NotifyHead n # map TaskNode ts)"
    using l assms(5) by (auto simp: node_live_def)
  have nt: "notifies ?s1 n = Some nt" using assms(6) by simp
  obtain s3 s' where s': "ngx_rpc_notify_push_task n (TaskNode t) ?s1 = Some (NGX_OK, s')"
    "pending s' n (map TaskNode ts @ [TaskNode t])" "s' = eventfd_write (event_fd nt) 1 s3"
    "efds s3 = efds ?s1"
    using push_task_ok [OF p x nt] by blast
  have sh: "s' = ?s1\<lparr>qnext := qnext s', qprev := qprev s', efds := efds s'\<rparr>"
    by (rule push_task_shape [OF s'(1)])
  have keep: "tasks s' = tasks ?s1" "calls s' = calls ?s1" "requests s' = requests ?s1"
    using arg_cong [where f = tasks, OF sh] arg_cong [where f = calls, OF sh]
      arg_cong [where f = requests, OF sh] by simp_all
  have "\<exists>cnt'. efds s' (event_fd nt) = Some cnt' \<and> 0 < cnt'"
    using eventfd_write_readable [of s3 "event_fd nt" cnt] assms(7,8) s'(3,4) by auto
  moreover have "load ?s1 (tasks ?s1) t = Some ?tk" using l by (simp add: load_def)
  ultimately show "\<exists>s'. ngx_http_rpc_subrequest_done_handler env r t rc s = Some (NGX_OK, s')
          \<and> tasks s' = (tasks s)(t \<mapsto> tk\<lparr>response_states := r_out_status q\<rparr>)
          \<and> pending s' n (map TaskNode (ts @ [t]))
          \<and> (\<exists>cnt'. efds s' (event_fd nt) = Some cnt' \<and> 0 < cnt')
          \<and> calls s' = calls s \<and> requests s' = requests s"
    using a assms(1-3) s'(1,2) keep
    by (intro exI [of _ s']) (simp add: ngx_http_rpc_subrequest_done_handler_def put_task_def)
next
  fix h us
  assume a: "rc \<noteq> NGX_AGAIN \<and> r_out_status q = 200 \<and> owned_chain s (Req_bufs t) us \<and> 2 \<le> length us"
  then obtain b k bs v vs where us: "us = (Req_bufs t, b, k, bs) # v # vs"
    by (cases us; cases "tl us") (auto simp: owned_chain_def)
  let ?s1 = "put_task t (tk\<lparr>response_states := r_out_status q\<rparr>) s"
  have "owned_chain s (Req_bufs t) ((Req_bufs t, b, k, bs) # v # vs)" using a us by simp
  then obtain c' where "get_link (Req_bufs t) s = Some (Some c')"
    by (cases v) (auto simp: owned_chain_def split: option.splits)
  then have "get_link (Req_bufs t) ?s1 = Some (Some c')" by simp
  then have "ngx_http_rpc_task_set_bufs (en_pick env) (Req_bufs t) src ?s1 = None" for src
    by (rule set_bufs_old_tail)
  then show "ngx_http_rpc_subrequest_done_handler env r t rc s = None"
    using a assms(1,2) by (simp add: ngx_http_rpc_subrequest_done_handler_def Option.bind_eq_None_conv)
qed

theorem subrequest_done_cases_witness:
  "\<exists>s'. ngx_http_rpc_subrequest_done_handler demo_env 0 5 0 (demo_http [] [6] []) = Some (NGX_OK, s')
     \<and> pending s' 3 [TaskNode 6, TaskNode 5] \<and> map_option response_states (tasks s' 5) = Some 0"
proof -
  let ?s = "demo_http [] [6] []" and ?tk = "zero_task\<lparr>finish := \<lparr>handler = Some Request_Finish,
      p1 = Some (Http_Request 0)\<rparr>, proc_notify := Some 3, response_states := 200, res_length := 7\<rparr>"
  have "requests ?s 0 = Some demo_request" "load ?s (tasks ?s) 5 = Some ?tk" "proc_notify ?tk = Some 3"
    "pending ?s 3 (map TaskNode [6])" "notifies ?s 3 = Some (demo_notify 10 0)"
    "efds ?s (event_fd (demo_notify 10 0)) = Some 0"
    by (simp_all add: http_simps)
  from subrequest_done_cases [OF this(1-4) _ this(5,6), where rc = 0 and env = demo_env] show ?thesis
    by (fastforce simp: demo_request_def)
qed

text \<open>
  The walk over the list of headers: \<open>names_length\<close> is the test of the loop's body, and \<open>skipped\<close> says that the loop gets
  past everything in front of position \<open>i\<close> of part \<open>p\<close>.
\<close>

definition names_length :: "(byte list \<Rightarrow> bool) \<Rightarrow> header_elt \<Rightarrow> bool" where
  "names_length cmp e \<longleftrightarrow> h_hash e \<noteq> 0 \<and> cmp (h_key e)"

definition skipped :: "(byte list \<Rightarrow> bool) \<Rightarrow> header_elt list list \<Rightarrow> nat \<Rightarrow> nat \<Rightarrow> bool" where
  "skipped cmp hs p i \<longleftrightarrow>
     (\<forall>a k. (a < p \<and> k < length (hs ! a) \<or> a = p \<and> k < i) \<longrightarrow> \<not> names_length cmp (hs ! a ! k))
     \<and> (\<forall>a. 0 < a \<and> a < p \<longrightarrow> hs ! a \<noteq> [])"

lemma skippedD:
  assumes "skipped cmp hs p i"
  shows "a < p \<Longrightarrow> k < length (hs ! a) \<Longrightarrow> \<not> names_length cmp (hs ! a ! k)" "k < i \<Longrightarrow> \<not> names_length cmp (hs ! p ! k)"
    "0 < a \<Longrightarrow> a < p \<Longrightarrow> hs ! a \<noteq> []"
  using assms by (auto simp: skipped_def)

lemma scan_headers_step:
  "scan_headers cmp hs part i =
     (if part < length hs then
        (if i < length (hs ! part) then
           (if names_length cmp (hs ! part ! i) then Some (Some (part, i)) else scan_headers cmp hs part (Suc i))
         else if Suc part < length hs then
           (if hs ! Suc part = [] then None else scan_headers cmp hs (Suc part) 0)
         else Some None)
      else None)"
  by (subst scan_headers.simps, subst (3) scan_headers.simps) (auto simp: names_length_def)

lemma scan_part:
  assumes "p < length hs" and "i \<le> length (hs ! p)" and "\<And>k. k < i \<Longrightarrow> \<not> names_length cmp (hs ! p ! k)"
  shows "scan_headers cmp hs p 0 = scan_headers cmp hs p i"
proof -
  have walk: "scan_headers cmp hs p j = scan_headers cmp hs p i" if "j \<le> i" for j
    using that
  proof (induction rule: inc_induct)
    case (step j)
    from step.hyps have "scan_headers cmp hs p j = scan_headers cmp hs p (Suc j)"
      using assms(1,2) assms(3) [of j] by (subst scan_headers_step) simp
    also note step.IH
    finally show ?case .
  qed simp
  show ?thesis by (rule walk) simp
qed

lemma scan_parts:
  assumes "skipped cmp hs p 0" and "p < length hs" and "0 < p \<Longrightarrow> hs ! p \<noteq> []"
  shows "scan_headers cmp hs 0 0 = scan_headers cmp hs p 0"
  using assms
proof (induction p)
  case (Suc p)
  then have "scan_headers cmp hs 0 0 = scan_headers cmp hs p 0" by (auto simp: skipped_def)
  also have "\<dots> = scan_headers cmp hs p (length (hs ! p))" by (rule scan_part) (use Suc.prems in \<open>auto simp: skipped_def\<close>)
  also have "\<dots> = scan_headers cmp hs (Suc p) 0" using Suc.prems(2,3) by (subst scan_headers_step) simp
  finally show ?case .
qed simp

lemma scan_headers_cases:
  shows scan_finds: "p < length hs \<Longrightarrow> i < length (hs ! p) \<Longrightarrow> names_length cmp (hs ! p ! i) \<Longrightarrow> skipped cmp hs p i
      \<Longrightarrow> scan_headers cmp hs 0 0 = Some (Some (p, i))"
    and scan_ends: "hs \<noteq> [] \<Longrightarrow> skipped cmp hs (length hs) 0 \<Longrightarrow> scan_headers cmp hs 0 0 = Some None"
    and scan_faults: "Suc p < length hs \<Longrightarrow> hs ! Suc p = [] \<Longrightarrow> skipped cmp hs (Suc p) 0 \<Longrightarrow> scan_headers cmp hs 0 0 = None"
proof -
  have part: "scan_headers cmp hs 0 0 = scan_headers cmp hs p i"
    if "skipped cmp hs p i" "p < length hs" "i \<le> length (hs ! p)" "0 < p \<Longrightarrow> hs ! p \<noteq> []" for p i
    using scan_parts [of cmp hs p] scan_part [of p hs i cmp] that by (auto simp: skipped_def)
  show "scan_headers cmp hs 0 0 = Some (Some (p, i))" if "p < length hs" "i < length (hs ! p)" "names_length cmp (hs ! p ! i)"
    "skipped cmp hs p i"
  proof -
    have "scan_headers cmp hs 0 0 = scan_headers cmp hs p i" by (rule part) (use that in auto)
    then show ?thesis using that(1-3) by (subst (asm) (2) scan_headers_step) simp
  qed
  have past: "skipped cmp hs p (length (hs ! p))" if "skipped cmp hs (Suc p) 0" for p using that by (auto simp: skipped_def)
  show "scan_headers cmp hs 0 0 = Some None" if "hs \<noteq> []" "skipped cmp hs (length hs) 0"
  proof -
    obtain p where p: "length hs = Suc p" using \<open>hs \<noteq> []\<close> by (cases hs) auto
    have "scan_headers cmp hs 0 0 = scan_headers cmp hs p (length (hs ! p))"
      by (rule part) (use past [of p] that(2) p in \<open>auto simp: skipped_def\<close>)
    then show ?thesis using p by (subst (asm) (2) scan_headers_step) simp
  qed
  show "scan_headers cmp hs 0 0 = None" if "Suc p < length hs" "hs ! Suc p = []" "skipped cmp hs (Suc p) 0" for p
  proof -
    have "scan_headers cmp hs 0 0 = scan_headers cmp hs p (length (hs ! p))"
      by (rule part) (use past [of p] that in \<open>auto simp: skipped_def\<close>)
    then show ?thesis using that(1,2) by (subst (asm) (2) scan_headers_step) simp
  qed
qed

text \<open>
  C32. Changing the length of a request that is passed on, for any list of parts of headers. The first header in the
  order of the parts whose hash is not zero and whose name is accepted by the comparison gets the new value, and so does the
  header that nginx found for the length, whatever part it is in; every other header, and the shape of the list, stays.
  The value is always 32 bytes long, whatever the number of digits, and begins with the decimal digits of the length and a
  zero byte. Without such a header only the number changes and the result is an error; when the walk reaches an empty
  later part, it reads behind that part's elements.
\<close>

theorem content_length_rewrites:
  assumes "requests s r = Some q" and "r_headers q = hs" and "r_in_length_hdr q = Some (b, j)"
    and "b < length hs" "j < length (hs ! b)" and "\<bar>v\<bar> < 10 ^ 20"
  shows "(\<forall>p i. p < length hs \<and> i < length (hs ! p) \<and> names_length cmp (hs ! p ! i) \<and> skipped cmp hs p i \<longrightarrow>
       (\<exists>hs'. ngx_http_header_modify_content_length cmp junk r v s
            = Some (NGX_OK, put_request r (q\<lparr>r_in_length := v, r_headers := hs'\<rparr>) s)
          \<and> map length hs' = map length hs
          \<and> (\<forall>a k. a < length hs \<and> k < length (hs ! a) \<longrightarrow> hs' ! a ! k =
               (if (a, k) = (p, i) \<or> (a, k) = (b, j) then (hs ! a ! k)\<lparr>h_value := length_value junk v\<rparr> else hs ! a ! k))))
     \<and> (skipped cmp hs (length hs) 0 \<longrightarrow> ngx_http_header_modify_content_length cmp junk r v s
            = Some (NGX_ERROR, put_request r (q\<lparr>r_in_length := v\<rparr>) s))
     \<and> (\<forall>p. Suc p < length hs \<and> hs ! Suc p = [] \<and> skipped cmp hs (Suc p) 0 \<longrightarrow>
          ngx_http_header_modify_content_length cmp junk r v s = None)
     \<and> length (length_value junk v) = 32 \<and> (\<exists>rest. length_value junk v = dec_string v @ 0 # rest)"
proof (intro conjI allI impI; (elim conjE)?)
  let ?w = "length_value junk v"
  fix p i
  assume p: "p < length hs" "i < length (hs ! p)" "names_length cmp (hs ! p ! i)" "skipped cmp hs p i"
  let ?g = "\<lambda>hs. hs[p := (hs ! p)[i := (hs ! p ! i)\<lparr>h_value := ?w\<rparr>]]" and ?h = "\<lambda>hs. hs[b := (hs ! b)[j := (hs ! b ! j)\<lparr>h_value := ?w\<rparr>]]"
  have "ngx_http_header_modify_content_length cmp junk r v s =
      Some (NGX_OK, put_request r (q\<lparr>r_in_length := v, r_headers := ?h (?g hs)\<rparr>) s)"
    using assms(1-3) scan_finds [OF p] by (simp add: ngx_http_header_modify_content_length_def)
  moreover have "map length (?h (?g hs)) = map length hs"
    using p assms(4,5) by (intro nth_equalityI) (auto simp: nth_list_update)
  moreover have "?h (?g hs) ! a ! k = (if (a, k) = (p, i) \<or> (a, k) = (b, j) then (hs ! a ! k)\<lparr>h_value := ?w\<rparr> else hs ! a ! k)"
    if "a < length hs \<and> k < length (hs ! a)" for a k
    using that p(1,2) assms(4,5) by (auto simp: nth_list_update)
  ultimately show "\<exists>hs'. ngx_http_header_modify_content_length cmp junk r v s
            = Some (NGX_OK, put_request r (q\<lparr>r_in_length := v, r_headers := hs'\<rparr>) s)
          \<and> map length hs' = map length hs
          \<and> (\<forall>a k. a < length hs \<and> k < length (hs ! a) \<longrightarrow> hs' ! a ! k =
               (if (a, k) = (p, i) \<or> (a, k) = (b, j) then (hs ! a ! k)\<lparr>h_value := ?w\<rparr> else hs ! a ! k))" by blast
next
  assume "skipped cmp hs (length hs) 0"
  moreover have "hs \<noteq> []" using assms(4) by auto
  ultimately show "ngx_http_header_modify_content_length cmp junk r v s = Some (NGX_ERROR, put_request r (q\<lparr>r_in_length := v\<rparr>) s)"
    using assms(1,2) scan_ends [of hs cmp] by (simp add: ngx_http_header_modify_content_length_def)
next
  fix p
  assume "Suc p < length hs" "hs ! Suc p = []" "skipped cmp hs (Suc p) 0"
  then show "ngx_http_header_modify_content_length cmp junk r v s = None"
    using assms(1,2) scan_faults [of p hs cmp] by (simp add: ngx_http_header_modify_content_length_def)
qed (use dec_string_length [OF assms(6)] in \<open>auto simp: length_value_def\<close>)

text \<open>Three headers in two parts; the comparison accepts the first of the second part, and nginx found the first of all.\<close>

theorem content_length_rewrites_witness:
  "\<exists>s' hs'. ngx_http_header_modify_content_length (\<lambda>k. k = [67, 79]) (\<lambda>_. 7) 0 12
       ((demo_http [] [] [])\<lparr>requests := [0 \<mapsto> demo_request\<lparr>r_in_length_hdr := Some (0, 0),
          r_headers := [[\<lparr>h_hash = 2, h_key = [88], h_value = [51]\<rparr>, \<lparr>h_hash = 0, h_key = [67, 79], h_value = [52]\<rparr>],
                        [\<lparr>h_hash = 1, h_key = [67, 79], h_value = [49]\<rparr>]]\<rparr>]\<rparr>) = Some (NGX_OK, s')
     \<and> map_option r_headers (requests s' 0) = Some hs' \<and> map (map (length \<circ> h_value)) hs' = [[32, 1], [32]]"
proof -
  let ?hs = "[[\<lparr>h_hash = 2, h_key = [88], h_value = [51]\<rparr>, \<lparr>h_hash = 0, h_key = [67, 79], h_value = [52]\<rparr>],
      [\<lparr>h_hash = 1, h_key = [67, 79], h_value = [49]\<rparr>]] :: header_elt list list"
  let ?q = "demo_request\<lparr>r_in_length_hdr := Some (0, 0), r_headers := ?hs\<rparr>" and ?cmp = "\<lambda>k :: byte list. k = [67, 79]"
  let ?s = "(demo_http [] [] [])\<lparr>requests := [0 \<mapsto> ?q]\<rparr>"
  have q: "requests ?s 0 = Some ?q" "r_headers ?q = ?hs" "r_in_length_hdr ?q = Some (0, 0)" "0 < length ?hs" "0 < length (?hs ! 0)"
    "\<bar>12\<bar> < (10 :: int) ^ 20" by simp_all
  have p: "1 < length ?hs" "0 < length (?hs ! 1)" "names_length ?cmp (?hs ! 1 ! 0)" "skipped ?cmp ?hs 1 0"
    by (auto simp: names_length_def skipped_def less_Suc_eq)
  note result = content_length_rewrites [OF q, where cmp = ?cmp and junk = "\<lambda>_. 7"]
  obtain hs' where hs': "ngx_http_header_modify_content_length ?cmp (\<lambda>_. 7) 0 12 ?s
      = Some (NGX_OK, put_request 0 (?q\<lparr>r_in_length := 12, r_headers := hs'\<rparr>) ?s)" "map length hs' = map length ?hs"
    and v: "\<And>a k. a < length ?hs \<Longrightarrow> k < length (?hs ! a) \<Longrightarrow> hs' ! a ! k =
      (if (a, k) = (1, 0) \<or> (a, k) = (0, 0) then (?hs ! a ! k)\<lparr>h_value := length_value (\<lambda>_. 7) 12\<rparr> else ?hs ! a ! k)"
    using conjunct1 [OF result] p by blast
  have w: "length (length_value (\<lambda>_. 7) 12) = 32" using result by blast
  obtain x y z where hh: "hs' = [[x, y], [z]]" using hs'(2) by (auto simp: map_eq_Cons_conv length_Suc_conv)
  have "length (h_value x) = 32" "length (h_value y) = 1" "length (h_value z) = 32"
    using v [of 0 0] v [of 0 1] v [of 1 0] w by (simp_all add: hh)
  then show ?thesis
    using hs'(1) by (intro exI [of _ "put_request 0 (?q\<lparr>r_in_length := 12, r_headers := hs'\<rparr>) ?s"] exI [of _ hs'])
      (simp add: put_request_def hh)
qed

section \<open>Start and stop\<close>

text \<open>
  A worker starts by taking the notify object of its process slot as the place where its
  tasks come back: the configuration points to it and to the processor's queue object, both
  of its handlers are the worker's loop on this configuration, and no list changes.
  Outside the range of slots there is no object to take, and the start has no defined
  result, because the missing object is written to.
\<close>

theorem worker_init_registers:
  assumes "queue_ok s q a ns" and "pconfs s p = Some pf" "pc_queue pf = Some q" and "hconfs s c = Some cf"
    and "pslot < length ns" "int pslot \<le> lastp" and "notifies s (ns ! pslot) = Some nt"
  shows "(\<exists>s'. ngx_http_rpc_init_process (int pslot) lastp (Some k) True (Some c) (Some p) s = Some (NGX_OK, s')
       \<and> hconfs s' = (hconfs s)(c \<mapsto> cf\<lparr>hc_queue := Some q, hc_notify := Some (ns ! pslot)\<rparr>)
       \<and> (\<exists>nt'. notifies s' (ns ! pslot) = Some nt' \<and> event_fd nt' = event_fd nt
            \<and> read_hanlder nt' = Some Http_Process_Notify_Task \<and> write_hanlder nt' = Some Http_Process_Notify_Task
            \<and> notify_ctx nt' = Some (Http_Conf c) \<and> notify_conn nt' = Some k)
       \<and> (\<exists>cn. conns s' k = Some cn \<and> c_fd cn = event_fd nt \<and> c_added cn)
       \<and> (\<forall>x ys. ring s x ys \<longrightarrow> ring s' x ys))
     \<and> ngx_http_rpc_init_process (lastp + 1) lastp (Some k) True (Some c) (Some p) s = None"
proof -
  have ld: "load s (queues s) q = Some \<lparr>notify_slot = Some a, notify_num = int (length ns)\<rparr>"
    using assms(1) by (auto simp: queue_ok_def load_def live_def)
  show ?thesis
    using assms(2-4) ld
    by (simp add: worker_init_eq [OF assms])
      (auto simp: ngx_http_rpc_init_process_def ngx_rpc_queue_add_current_producer_def intro: ring_same_links)
qed

theorem worker_init_registers_witness:
  "\<exists>s'. ngx_http_rpc_init_process 1 2 (Some 9) True (Some 0) (Some 0) (demo_http [3] [] []) = Some (NGX_OK, s')
     \<and> Option.bind (hconfs s' 0) hc_notify = Some 7"
proof -
  let ?s = "demo_http [3] [] []"
  have "queue_ok ?s 1 2 [3, 7]"
    "pconfs ?s 0 = Some \<lparr>pc_shpool = Some 0, pc_queue = Some 1, pc_notify = None, shm_size = 0\<rparr>"
    "hconfs ?s 0 = Some \<lparr>hc_queue = Some 1, hc_notify = Some 7,
       hc_methods = [\<lparr>m_name = [47, 97], m_impl = Some 1, m_handler = Some (Method_Handler 0), m_log = None\<rparr>], hc_hash = Some [[47, 97] \<mapsto> 0]\<rparr>"
    "notifies ?s ([3, 7] ! 1) = Some (demo_notify 12 0)"
    by (simp_all add: queue_ok_def demo_http_def)
  from worker_init_registers [OF this(1,2) _ this(3) _ _ this(4), of 2 9] show ?thesis by fastforce
qed

text \<open>
  The function that releases a request's context when the connection closes has no defined
  result on any state: it releases the context and then reads a field of it for its log.
\<close>

theorem ctx_destroy_reads_released:
  "ngx_http_rpc_ctx_destroy p s = None"
proof -
  have "load s' (ctxs s') p = None" if "ngx_slab_free p s = Some s'" for s'
    using free_Some_dead [OF that] by (simp add: load_def)
  then show ?thesis
    by (cases "ngx_slab_free p s") (simp_all add: ngx_http_rpc_ctx_destroy_def Option.bind_eq_None_conv)
qed

end
