(* ===== verification/Rpc_Channel.thy ===== *)
theory Rpc_Channel
  imports Http_Rpc Rpc_Buffer
begin

text \<open>
  The calls of user code: ngx_rpc_module/ngx_rpc_channel.h and ngx_rpc_channel.cpp, the function
  that the generator writes for each method (NGX_RPC_METHOD_PROCESS of
  ngx_rpc_plugin/ngx_rpc_module_template.h, as it stands in
  ngx_rpc_inspect_module/ngx_http_inspect_module.cpp) and the service of
  ngx_rpc_inspect_module/inspect_impl.h. All of it runs in a processor.

  Protobuf is a parameter (the record \<open>proto\<close>): what parsing a sequence of bytes gives and
  the bytes of a message. C++ objects have addresses of their own (\<open>next_obj\<close> is the next
  one; an address is never used twice, so that an access to a deleted object is \<open>None\<close>).
\<close>

section \<open>State\<close>

text \<open>A message of the service has one field, \<open>json\<close>, which may be absent.\<close>

type_synonym message = "byte list option"

text \<open>
  The functions stored as \<open>RpcCallHandler\<close>: \<open>RpcChannel::finish_request\<close>, and
  \<open>requeststatus_forward_done\<close> with its three bound arguments.
\<close>

datatype call_handler = Finish_Request_Cb | Forward_Done_Cb addr addr addr

record rpc_channel =
  ch_r :: nat
  ch_task :: "addr option"
  ch_req :: "addr option"
  ch_res :: "addr option"
  ch_pre :: "addr option"
  ch_done :: "call_handler option"

record cstate = wstate +
  channels :: "addr \<rightharpoonup> rpc_channel"
  messages :: "addr \<rightharpoonup> message"
  next_obj :: addr

text \<open>\<open>pb_parse bs\<close>: whether the bytes are a message, and what the message object holds afterwards.\<close>

record proto =
  pb_parse :: "byte list \<Rightarrow> bool \<times> message"
  pb_bytes :: "message \<Rightarrow> byte list"
  pb_pick :: slab_pick
  pb_junk :: "nat \<Rightarrow> byte"
  pb_old :: bool

definition put_channel :: "addr \<Rightarrow> rpc_channel \<Rightarrow> 'z cstate_scheme \<Rightarrow> 'z cstate_scheme" where
  "put_channel c v s = s\<lparr>channels := (channels s)(c \<mapsto> v)\<rparr>"

definition put_message :: "addr \<Rightarrow> message \<Rightarrow> 'z cstate_scheme \<Rightarrow> 'z cstate_scheme" where
  "put_message a m s = s\<lparr>messages := (messages s)(a \<mapsto> m)\<rparr>"

text \<open>The constructor leaves \<open>task\<close> and \<open>pre_cntl\<close> uninitialised.\<close>

definition new_channel :: "nat \<Rightarrow> 'z cstate_scheme \<Rightarrow> addr \<times> 'z cstate_scheme" where
  "new_channel r s =
     (next_obj s, s\<lparr>channels := (channels s)(next_obj s \<mapsto> \<lparr>ch_r = r, ch_task = None, ch_req = None,
        ch_res = None, ch_pre = None, ch_done = None\<rparr>), next_obj := Suc (next_obj s)\<rparr>)"

definition delete_channel :: "addr \<Rightarrow> 'z cstate_scheme \<Rightarrow> 'z cstate_scheme option" where
  "delete_channel c s =
     (if channels s c = None then None else Some (s\<lparr>channels := (channels s)(c := None)\<rparr>))"

definition new_message :: "message \<Rightarrow> 'z cstate_scheme \<Rightarrow> addr \<times> 'z cstate_scheme" where
  "new_message m s =
     (next_obj s, s\<lparr>messages := (messages s)(next_obj s \<mapsto> m), next_obj := Suc (next_obj s)\<rparr>)"

text \<open>\<open>delete\<close> of a message pointer; of \<open>NULL\<close> it does nothing.\<close>

definition delete_message :: "addr option \<Rightarrow> 'z cstate_scheme \<Rightarrow> 'z cstate_scheme option" where
  "delete_message p s =
     (case p of
        None \<Rightarrow> Some s
      | Some a \<Rightarrow> if messages s a = None then None else Some (s\<lparr>messages := (messages s)(a := None)\<rparr>))"

definition channel_destructor :: "addr \<Rightarrow> 'z cstate_scheme \<Rightarrow> 'z cstate_scheme option" where
  "channel_destructor c s =
     do {
       ch \<leftarrow> channels s c;
       s \<leftarrow> delete_message (ch_req ch) s;
       s \<leftarrow> delete_message (ch_res ch) s;
       delete_channel c s
     }"

section \<open>Serialising and parsing\<close>

text \<open>
  A message written through a new shared-memory writer over the chain \<open>h\<close>, with the writer's
  count afterwards. Every region has at least 4096 bytes, so the caller needs no more than the
  given number of regions.
\<close>

definition serialize ::
  "proto \<Rightarrow> chaddr \<Rightarrow> message \<Rightarrow> 'z tstate_scheme \<Rightarrow> (int \<times> 'z tstate_scheme) option" where
  "serialize pb h m s =
     do {
       (w, s) \<leftarrow> writer_create h 1 s;
       (w, s) \<leftarrow> put_all (shm_region (pb_pick pb) (pb_junk pb) (pb_old pb)) stream_store stream_backup
                   (Suc (length (pb_bytes pb m) div 4096)) (pb_bytes pb m) (w, s);
       Some (writer_byte_count w, s)
     }"

definition parse_chain ::
  "proto \<Rightarrow> chaddr \<Rightarrow> 'z tstate_scheme \<Rightarrow> ((bool \<times> message) \<times> 'z tstate_scheme) option" where
  "parse_chain pb h s = do { (bs, rd, s) \<leftarrow> read_all (reader_create h) s; Some (pb_parse pb bs, s) }"

section \<open>Finishing a call\<close>

definition finish_request ::
  "proto \<Rightarrow> addr \<Rightarrow> addr \<Rightarrow> int \<Rightarrow> 'z cstate_scheme \<Rightarrow> 'z cstate_scheme option" where
  "finish_request pb c res result s =
     do {
       ch \<leftarrow> channels s c;
       t \<leftarrow> ch_task ch;
       tk \<leftarrow> load s (tasks s) t;
       s \<leftarrow> Some (put_task t (tk\<lparr>response_states := result\<rparr>) s);
       m \<leftarrow> messages s res;
       (n, s) \<leftarrow> serialize pb (Res_bufs t) m s;
       tk \<leftarrow> load s (tasks s) t;
       s \<leftarrow> Some (put_task t (tk\<lparr>res_length := n\<rparr>) s);
       s \<leftarrow> (case done_notify tk of
               None \<Rightarrow> Some s
             | Some n \<Rightarrow>
                 do {
                   nt \<leftarrow> load s (notifies s) n;
                   tk \<leftarrow> load s (tasks s) t;
                   s \<leftarrow> Some (put_task t (tk\<lparr>finish := \<lparr>handler = Some Request_Finish,
                           p1 = Some (Http_Request (ch_r ch))\<rparr>\<rparr>) s);
                   (ret, s) \<leftarrow> ngx_rpc_notify_push_task n (TaskNode t) s;
                   Some s
                 });
       delete_channel c s
     }"

text \<open>
  \<open>strncpy (dst, path, path.size ())\<close> into the array of a task: no zero byte is written behind
  the path, and a path longer than the array leaves it.
\<close>

definition strncpy_path :: "byte list \<Rightarrow> byte list \<Rightarrow> byte list option" where
  "strncpy_path p old =
     (if length p \<le> length old then
        Some (takeWhile (\<lambda>b. b \<noteq> 0) p @ replicate (length p - length (takeWhile (\<lambda>b. b \<noteq> 0) p)) 0
              @ drop (length p) old)
      else None)"

definition forward_request ::
  "proto \<Rightarrow> addr \<Rightarrow> byte list \<Rightarrow> addr \<Rightarrow> addr \<Rightarrow> call_handler \<Rightarrow> 'z cstate_scheme \<Rightarrow> 'z cstate_scheme option" where
  "forward_request pb c pth req res dn s =
     do {
       ch \<leftarrow> channels s c;
       (nc, s) \<leftarrow> Some (new_channel (ch_r ch) s);
       v \<leftarrow> channels s nc;
       s \<leftarrow> Some (put_channel nc (v\<lparr>ch_pre := Some c, ch_req := Some req, ch_res := Some res,
               ch_done := Some dn\<rparr>) s);
       t \<leftarrow> ch_task ch;
       m \<leftarrow> messages s req;
       (n, s) \<leftarrow> serialize pb (Res_bufs t) m s;
       tk \<leftarrow> load s (tasks s) t;
       pth \<leftarrow> strncpy_path pth (path tk);
       s \<leftarrow> Some (put_task t (tk\<lparr>res_length := n,
               finish := \<lparr>handler = Some Request_Foward, p1 = Some (Http_Request (ch_r ch))\<rparr>,
               closure := \<lparr>handler = Some Foward_Done, p1 = Some (Rpc_Channel nc)\<rparr>,
               path := pth\<rparr>) s);
       (case done_notify tk of
          None \<Rightarrow> Some s
        | Some n \<Rightarrow> do { (ret, s) \<leftarrow> ngx_rpc_notify_push_task n (TaskNode t) s; Some s })
     }"

section \<open>The service\<close>

text \<open>
  Calling a stored handler. \<open>requeststatus_forward_done\<close> copies the field into the original
  response and goes on with the original channel's handler, which it gives the messages of the
  forwarded call.
\<close>

partial_function (option) call_done ::
  "proto \<Rightarrow> call_handler \<Rightarrow> addr \<Rightarrow> addr \<Rightarrow> addr \<Rightarrow> int \<Rightarrow> 'z cstate_scheme \<Rightarrow> 'z cstate_scheme option" where
  "call_done pb h c req res status s =
     (case h of
        Finish_Request_Cb \<Rightarrow> finish_request pb c res status s
      | Forward_Done_Cb oc oreq ores \<Rightarrow>
          do {
            m \<leftarrow> messages s res;
            om \<leftarrow> messages s ores;
            s \<leftarrow> Some (put_message ores (Some (case m of None \<Rightarrow> [] | Some j \<Rightarrow> j)) s);
            och \<leftarrow> channels s oc;
            h \<leftarrow> ch_done och;
            call_done pb h oc req res status s
          })"

definition foward_done :: "proto \<Rightarrow> addr \<Rightarrow> addr \<Rightarrow> 'z cstate_scheme \<Rightarrow> 'z cstate_scheme option" where
  "foward_done pb t nc s =
     do {
       tk \<leftarrow> load s (tasks s) t;
       ch \<leftarrow> channels s nc;
       res \<leftarrow> ch_res ch;
       old \<leftarrow> messages s res;
       ((ok, m), s) \<leftarrow> parse_chain pb (Req_bufs t) s;
       s \<leftarrow> Some (put_message res m s);
       h \<leftarrow> ch_done ch;
       pre \<leftarrow> ch_pre ch;
       req \<leftarrow> ch_req ch;
       s \<leftarrow> call_done pb h pre req res (response_states tk) s;
       delete_channel nc s
     }"

definition ascii :: "string \<Rightarrow> byte list" where
  "ascii = map (\<lambda>c. of_nat (of_char c))"

type_synonym 'z service = "addr \<Rightarrow> addr \<Rightarrow> addr \<Rightarrow> call_handler \<Rightarrow> 'z cstate_scheme \<Rightarrow> 'z cstate_scheme option"

definition service_interface :: "proto \<Rightarrow> 'z service" where
  "service_interface pb c req res dn s =
     do {
       m \<leftarrow> messages s res;
       s \<leftarrow> Some (put_message res (Some (ascii ''hehe'')) s);
       call_done pb dn c req res NGX_HTTP_OK s
     }"

definition forward_target :: "byte list" where
  "forward_target = ascii ''/ngxrpc/inspect/application/interface''"

definition service_requeststatus :: "proto \<Rightarrow> 'z service" where
  "service_requeststatus pb c req res dn s =
     do {
       ch \<leftarrow> channels s c;
       s \<leftarrow> Some (put_channel c (ch\<lparr>ch_done := Some dn\<rparr>) s);
       m \<leftarrow> messages s req;
       (nreq, s) \<leftarrow> Some (new_message m s);
       (nres, s) \<leftarrow> Some (new_message None s);
       forward_request pb c forward_target nreq nres (Forward_Done_Cb c req res) s
     }"

section \<open>The function of a method\<close>

definition method_process ::
  "proto \<Rightarrow> 'z service \<Rightarrow> addr \<Rightarrow> addr \<Rightarrow> 'z cstate_scheme \<Rightarrow> 'z cstate_scheme option" where
  "method_process pb impl t x s =
     do {
       cx \<leftarrow> load s (ctxs s) x;
       (c, s) \<leftarrow> Some (new_channel (cx_r cx) s);
       (req, s) \<leftarrow> Some (new_message None s);
       (res, s) \<leftarrow> Some (new_message None s);
       ch \<leftarrow> channels s c;
       s \<leftarrow> Some (put_channel c (ch\<lparr>ch_task := Some t, ch_req := Some req, ch_res := Some res,
               ch_done := Some Finish_Request_Cb\<rparr>) s);
       ((ok, m), s) \<leftarrow> parse_chain pb (Req_bufs t) s;
       s \<leftarrow> Some (put_message req m s);
       (if \<not> ok then
          do {
            b \<leftarrow> get_buf (Req_bufs t) s;
            b \<leftarrow> b;
            bf \<leftarrow> load s (bufs s) b;
            call_done pb Finish_Request_Cb c req res NGX_HTTP_INTERNAL_SERVER_ERROR s
          }
        else impl c req res Finish_Request_Cb s)
     }"

definition ngxrpc_inspect_application_interface ::
  "proto \<Rightarrow> addr \<Rightarrow> addr \<Rightarrow> 'z cstate_scheme \<Rightarrow> 'z cstate_scheme option" where
  "ngxrpc_inspect_application_interface pb t x s = method_process pb (service_interface pb) t x s"

definition ngxrpc_inspect_application_requeststatus ::
  "proto \<Rightarrow> addr \<Rightarrow> addr \<Rightarrow> 'z cstate_scheme \<Rightarrow> 'z cstate_scheme option" where
  "ngxrpc_inspect_application_requeststatus pb t x s = method_process pb (service_requeststatus pb) t x s"

text \<open>
  The functions that \<open>closure\<close> of a task on a processor's list may name. The methods are
  numbered in the order of the service.
\<close>

definition rpc_exec :: "proto \<Rightarrow> task_fn \<Rightarrow> addr \<Rightarrow> closure_arg option \<Rightarrow> 'z cstate_scheme \<Rightarrow> 'z cstate_scheme option" where
  "rpc_exec pb f t a s =
     (case (f, a) of
        (Method_Handler i, Some (Rpc_Ctx x)) \<Rightarrow>
          if i = 0 then ngxrpc_inspect_application_interface pb t x s
          else if i = 1 then ngxrpc_inspect_application_requeststatus pb t x s else None
      | (Foward_Done, Some (Rpc_Channel nc)) \<Rightarrow> foward_done pb t nc s
      | _ \<Rightarrow> None)"

section \<open>Writing a message\<close>

lemma kept_cell:
  "mem_kept_but D s s' \<Longrightarrow> h \<notin> D \<Longrightarrow> get_buf h s = Some x \<Longrightarrow> get_buf h s' = Some x"
  "mem_kept_but D s s' \<Longrightarrow> h \<notin> D \<Longrightarrow> get_link h s = Some y \<Longrightarrow> get_link h s' = Some y"
  using kept_live [of D s s' "chowner h"] by (auto simp: chain_defs mem_kept_but_def split: if_splits)

text \<open>The chain \<open>h\<close> of \<open>s'\<close> is one buffer with the bytes \<open>bs\<close>, whose structure was free in \<open>s\<close>.\<close>

definition new_cell :: "'z tstate_scheme \<Rightarrow> 'z tstate_scheme \<Rightarrow> chaddr \<Rightarrow> byte list \<Rightarrow> bool" where
  "new_cell s s' h bs \<longleftrightarrow> (\<exists>b. \<not> live s b \<and> get_buf h s' = Some (Some b) \<and> get_link h s' = Some None
     \<and> buf_content s' b = Some bs)"

lemma new_cell_kept: "new_cell s s1 h bs \<Longrightarrow> mem_kept s1 s2 \<Longrightarrow> new_cell s s2 h bs"
  unfolding new_cell_def by (blast intro: kept_cell kept_content)

text \<open>
  A message of at most one region is written into the chain \<open>h\<close> as one buffer. What was live
  is left alone, apart from the links of \<open>h\<close>: the buffers that the chain had before are not released.
\<close>

lemma serialize_region:
  assumes h: "live s (chowner h)" and sp: "spare (pb_pick pb) (chunks s) (Suc (Suc k))"
    and fits: "length (pb_bytes pb m) \<le> 4096"
  obtains s' where "serialize pb h m s = Some (int (length (pb_bytes pb m)), s')"
    and "new_cell s s' h (pb_bytes pb m)" and "grows {h} s s'" and "spare (pb_pick pb) (chunks s') k"
proof -
  let ?bs = "pb_bytes pb m" and ?I = "\<lambda>k :: chunk. k"
  let ?s1 = "s\<lparr>chain_buf := (chain_buf s)(h \<mapsto> None), chain_next := (chain_next s)(h \<mapsto> None)\<rparr>"
  let ?w = "\<lparr>wr_chain = h, wr_totaly = 0, wr_extends = 1\<rparr>"
  have w: "writer_create h 1 s = Some (?w, ?s1)" using h by (simp add: writer_create_def chain_defs)
  have s1: "get_buf h ?s1 = Some None" "get_link h ?s1 = Some None" using h by (simp_all add: chain_defs)
  have l1: "live ?s1 (chowner h)" "spare (pb_pick pb) (chunks ?s1) (Suc (Suc k))" using h sp by simp_all
  let ?init = "shm_buf_fields (pb_old pb) 4096" and ?junk = "junk_block (pb_junk pb) 4096"
  obtain b d where nb: "new_buf ?I (pb_pick pb) (pb_junk pb) ?init h 4096 ?s1 =
      Some (((d, 0), 4096), after_new ?I h b d (?init d) 4096 ?junk ?s1)"
    "\<not> live ?s1 b" "\<not> live ?s1 d" "b \<noteq> d"
    "\<And>e bf. spare (pb_pick pb) (chunks (after_new ?I h b d bf 4096 e ?s1)) k"
    using new_buf_ok [OF l1, of ?I "pb_junk pb" ?init 4096] by metis
  let ?w1 = "\<lparr>wr_chain = h, wr_totaly = 4096, wr_extends = 2\<rparr>"
  have "clear_last h ?s1 = Some (h, ?s1)" using s1(2) by (subst clear_last.simps) simp
  then have nx: "shm_region (pb_pick pb) (pb_junk pb) (pb_old pb) (?w, ?s1) =
      Some (((d, 0), 4096), (?w1, after_new ?I h b d (?init d) 4096 ?junk ?s1))"
    using s1(1) nb(1) by (simp add: shm_region_def shm_writer_next_def add_cell_def default_size_def c_int_id)
  let ?e = "?bs @ drop (length ?bs) ?junk"
  have st: "stream_store (d, 0) ?bs (?w1, after_new ?I h b d (?init d) 4096 ?junk ?s1) =
      Some (?w1, after_new ?I h b d (?init d) 4096 ?e ?s1)"
    using after_new_write [OF nb(4), of ?bs 4096] fits by (simp add: stream_store_def)
  let ?f = "(?init d)\<lparr>b_last := (d, int (length ?bs))\<rparr>"
  let ?s' = "after_new ?I h b d ?f 4096 ?e ?s1"
  have bk: "stream_backup (4096 - int (length ?bs)) (?w1, after_new ?I h b d (?init d) 4096 ?e ?s1) =
      Some (?w1\<lparr>wr_totaly := int (length ?bs)\<rparr>, ?s')"
    using h nb(4) fits
    by (auto simp: stream_backup_def writer_backup_def after_new_def chain_defs live_def load_def
        shm_buf_fields_def ptr_diff_def c_int_id)
  have run: "serialize pb h m s = Some (int (length ?bs), ?s')"
    using w nx st bk fits by (simp add: serialize_def writer_byte_count_def)
  have "get_buf h ?s' = Some (Some b)" "get_link h ?s' = Some None"
    using h by (simp_all add: after_new_def chain_defs live_def)
  moreover have "buf_content ?s' b = Some ?bs"
    using nb(4) by (simp add: buf_content_def after_new_def load_def live_def shm_buf_fields_def
        ptr_diff_def read_bytes_def)
  ultimately have "new_cell s ?s' h ?bs" using nb(2) by (auto simp: new_cell_def)
  moreover have "grows {h} s ?s'"
    using nb(2,3) by (auto simp: grows_def after_new_def live_def)
  ultimately show thesis using that [OF run] nb(5) by simp
qed

section \<open>What finishing a call does\<close>

lemma chain_seg_cong:
  assumes "chunks s' = chunks s" and "chain_buf s' = chain_buf s" and "chain_next s' = chain_next s"
  shows "chain_seg s' p cs = chain_seg s p cs"
proof -
  have "get_buf c s' = get_buf c s" "get_link c s' = get_link c s" for c
    using assms by (simp_all add: chain_defs live_def)
  then show ?thesis by (induction cs arbitrary: p) (auto split: option.splits)
qed

lemma chain_bytes_cong:
  assumes "chunks s' = chunks s" and "bufs s' = bufs s" and "data s' = data s"
  shows "chain_bytes s' cs bss = chain_bytes s cs bss"
proof -
  have "buf_content s' b = buf_content s b" for b
    using assms by (simp add: buf_content_def read_bytes_def load_def live_def)
  then show ?thesis by simp
qed

text \<open>The chain from \<open>h\<close> holds the bytes \<open>bs\<close>.\<close>

definition chain_holds :: "'z tstate_scheme \<Rightarrow> chaddr \<Rightarrow> byte list \<Rightarrow> bool" where
  "chain_holds s h bs \<longleftrightarrow> (\<exists>cs bss. chain_seg s (Some h) cs \<and> chain_bytes s cs bss \<and> concat bss = bs)"

lemma one_cell_holds:
  assumes "get_buf h s = Some (Some b)" "get_link h s = Some None" "buf_content s b = Some bs"
  shows "chain_holds s h bs"
  unfolding chain_holds_def using assms by (intro exI [of _ "[(h, b)]"] exI [of _ "[bs]"]) simp

lemma new_cell_holds: "new_cell s s' h bs \<Longrightarrow> chain_holds s' h bs"
  by (auto simp: new_cell_def intro: one_cell_holds)

lemma chain_holds_cong:
  assumes "chunks s' = chunks s" and "chain_buf s' = chain_buf s" and "chain_next s' = chain_next s"
    and "bufs s' = bufs s" and "data s' = data s"
  shows "chain_holds s' h bs = chain_holds s h bs"
  by (simp add: chain_holds_def chain_seg_cong [OF assms(1-3)] chain_bytes_cong [OF assms(1,4,5)])

lemma cstate_more:
  fixes s s' :: "'z cstate_scheme"
  assumes "tstate.more s' = tstate.more s"
  shows "queues s' = queues s" "pconfs s' = pconfs s" "hconfs s' = hconfs s" "ctxs s' = ctxs s"
    "requests s' = requests s" "calls s' = calls s" "channels s' = channels s" "messages s' = messages s"
    "next_obj s' = next_obj s"
  using assms by (cases s, cases s', simp)+

lemma pending_grows: "pending s n xs \<Longrightarrow> grows D s s' \<Longrightarrow> pending s' n xs"
  using grows_ring [of D s s' "NotifyHead n" xs] by (simp add: pending_def) (simp add: grows_def)

lemma pending_same:
  assumes "pending s n xs" and "qnext s' = qnext s" and "qprev s' = qprev s" and "chunks s' = chunks s"
    and "notifies s' = notifies s"
  shows "pending s' n xs"
proof -
  have "ring s (NotifyHead n) xs" using assms(1) by (simp add: pending_def)
  then have "ring s' (NotifyHead n) xs" by (rule ring_same_links) (simp_all add: assms(2-4))
  then show ?thesis using assms(1,5) by (simp add: pending_def)
qed

lemma pending_put_task: "pending s n xs \<Longrightarrow> pending (put_task t tk s) n xs"
  by (rule pending_same) simp_all

text \<open>Pushing a task that the operation has just prepared.\<close>

lemma push_prepared:
  fixes s :: "'z cstate_scheme"
  assumes p: "pending s n (map TaskNode ts)" and t: "live s t" "t \<notin> set ts" and nt: "notifies s n = Some nt"
  obtains s' where "ngx_rpc_notify_push_task n (TaskNode t) s = Some (NGX_OK, s')"
    and "pending s' n (map TaskNode (ts @ [t]))" and "tasks s' = tasks s" and "chunks s' = chunks s"
    and "tstate.more s' = tstate.more s" and "notifies s' = notifies s"
    and "efds s' = efds (eventfd_write (event_fd nt) 1 s)"
    and "\<And>q ys. ring s q ys \<Longrightarrow> set (q # ys) \<inter> set (TaskNode t # NotifyHead n # map TaskNode ts) = {} \<Longrightarrow> ring s' q ys"
    and "\<And>D. mem_kept_but D s s'" and "conns s' = conns s" and "idle_same s s'"
proof -
  have x: "node_live s (TaskNode t)" "TaskNode t \<notin> set (NotifyHead n # map TaskNode ts)"
    using t by (auto simp: node_live_def)
  obtain s1 s' where s': "s' = eventfd_write (event_fd nt) 1 s1" "efds s1 = efds s"
    "ngx_rpc_notify_push_task n (TaskNode t) s = Some (NGX_OK, s')"
    "pending s' n (map TaskNode ts @ [TaskNode t])"
    "\<And>q ys. ring s q ys \<Longrightarrow> set (q # ys) \<inter> set (TaskNode t # NotifyHead n # map TaskNode ts) = {} \<Longrightarrow> ring s' q ys"
    using push_task_ok [OF p x nt] by blast
  have sh: "s' = s\<lparr>qnext := qnext s', qprev := qprev s', efds := efds s'\<rparr>"
    by (rule push_task_shape [OF s'(3)])
  have f: "tasks s' = tasks s" "chunks s' = chunks s" "tstate.more s' = tstate.more s" "notifies s' = notifies s"
    "chain_buf s' = chain_buf s" "chain_next s' = chain_next s" "bufs s' = bufs s" "data s' = data s"
    "conns s' = conns s"
    by (subst sh, simp)+
  have "efds s' = efds (eventfd_write (event_fd nt) 1 s)"
    using s'(1,2) by (simp add: eventfd_write_def split: option.splits)
  then show thesis
    using that [OF s'(3) _ f(1-4) _ s'(5) kept_same [OF f(2,7,8,5,6)] f(9) push_idle_same [OF p t s'(3)]]
      s'(4) by auto
qed

text \<open>
  What every function of a task that sends the task back does to the rest: the task is at the end of the
  worker's list \<open>n\<close>, which is signalled; other lists, configurations, requests and calls stay.
\<close>

definition sent_back :: "addr \<Rightarrow> addr \<Rightarrow> addr list \<Rightarrow> ngx_rpc_notify \<Rightarrow> 'z cstate_scheme \<Rightarrow> 'z cstate_scheme \<Rightarrow> bool" where
  "sent_back t n ts nt s s' \<longleftrightarrow> pending s' n (map TaskNode (ts @ [t])) \<and> live s' t
     \<and> efds s' = efds (eventfd_write (event_fd nt) 1 s)
     \<and> requests s' = requests s \<and> calls s' = calls s \<and> hconfs s' = hconfs s \<and> pconfs s' = pconfs s
     \<and> notifies s' = notifies s \<and> ctxs s' = ctxs s \<and> conns s' = conns s \<and> queues s' = queues s \<and> idle_same s s'
     \<and> (\<forall>q ys. ring s q ys \<longrightarrow> set (q # ys) \<inter> set (TaskNode t # NotifyHead n # map TaskNode ts) = {}
          \<longrightarrow> ring s' q ys)"

lemma sent_backD:
  assumes "sent_back t n ts nt s s'"
  shows "pending s' n (map TaskNode (ts @ [t]))" "live s' t"
    "requests s' = requests s" "calls s' = calls s" "hconfs s' = hconfs s" "pconfs s' = pconfs s"
    "notifies s' = notifies s" "ctxs s' = ctxs s" "efds s' = efds (eventfd_write (event_fd nt) 1 s)"
    "ring s q ys \<Longrightarrow> set (q # ys) \<inter> set (TaskNode t # NotifyHead n # map TaskNode ts) = {} \<Longrightarrow> ring s' q ys"
    "conns s' = conns s" "queues s' = queues s" "idle_same s s'"
  using assms unfolding sent_back_def by blast+

lemma sent_back_signal:
  "sent_back t n ts nt s s' \<Longrightarrow> efds s (event_fd nt) = Some cnt \<Longrightarrow> cnt \<le> eventfd_max
    \<Longrightarrow> \<exists>cnt'. efds s' (event_fd nt) = Some cnt' \<and> 0 < cnt'"
  using eventfd_write_readable [of s "event_fd nt" cnt] by (auto simp: sent_back_def)

lemma sent_back_before:
  assumes "sent_back t n ts nt s1 s'"
    and "chunks s1 = chunks s" "qnext s1 = qnext s" "qprev s1 = qprev s" "efds s1 = efds s"
    and "requests s1 = requests s" "calls s1 = calls s" "hconfs s1 = hconfs s" "pconfs s1 = pconfs s"
    and "notifies s1 = notifies s" "ctxs s1 = ctxs s" "conns s1 = conns s" "queues s1 = queues s"
  shows "sent_back t n ts nt s s'"
proof -
  have "ring s1 q ys" if "ring s q ys" for q ys
    by (rule ring_same_links [OF that assms(3,4,2)])
  moreover have "efds (eventfd_write (event_fd nt) 1 s1) = efds (eventfd_write (event_fd nt) 1 s)"
    by (simp add: eventfd_write_def assms(5) split: option.splits)
  moreover have "idle_same s s1" by (rule idle_same_links [OF assms(3,4,2)])
  ultimately show ?thesis
    using assms(1) idle_same_trans [of s s1 s'] by (simp add: sent_back_def assms(6-13))
qed

lemma sent_back_after:
  assumes "sent_back t n ts nt s s'"
    and "chunks s2 = chunks s'" "qnext s2 = qnext s'" "qprev s2 = qprev s'" "efds s2 = efds s'"
    and "requests s2 = requests s'" "calls s2 = calls s'" "hconfs s2 = hconfs s'" "pconfs s2 = pconfs s'"
    and "notifies s2 = notifies s'" "ctxs s2 = ctxs s'" "conns s2 = conns s'" "queues s2 = queues s'"
  shows "sent_back t n ts nt s s2"
proof -
  have "ring s2 q ys" if "ring s' q ys" for q ys
    by (rule ring_same_links [OF that assms(3,4,2)])
  moreover have "idle_same s' s2" by (rule idle_same_links [OF assms(3,4,2)])
  ultimately show ?thesis
    using assms(1) idle_same_trans [of s s' s2] by (auto simp add: sent_back_def pending_def live_def assms(2-13))
qed

lemma finish_request_ok:
  fixes s :: "'z cstate_scheme"
  assumes ch: "channels s c = Some ch" "ch_task ch = Some t" and tk: "load s (tasks s) t = Some tk"
    and m: "messages s res = Some m" "length (pb_bytes pb m) \<le> 4096" "spare (pb_pick pb) (chunks s) (Suc (Suc k))"
    and n: "done_notify tk = Some n" "pending s n (map TaskNode ts)" "t \<notin> set ts" "notifies s n = Some nt"
  obtains s' where "finish_request pb c res st s = Some s'"
    and "tasks s' = (tasks s)(t \<mapsto> tk\<lparr>response_states := st, res_length := int (length (pb_bytes pb m)),
        finish := \<lparr>handler = Some Request_Finish, p1 = Some (Http_Request (ch_r ch))\<rparr>\<rparr>)"
    and "chain_holds s' (Res_bufs t) (pb_bytes pb m)"
    and "channels s' = (channels s)(c := None)" and "messages s' = messages s" and "sent_back t n ts nt s s'"
    and "mem_kept_but {Res_bufs t} s s'" and "spare (pb_pick pb) (chunks s') k"
    and "new_cell s s' (Res_bufs t) (pb_bytes pb m)"
proof -
  let ?tk1 = "tk\<lparr>response_states := st\<rparr>" and ?len = "int (length (pb_bytes pb m))"
  let ?s1 = "put_task t ?tk1 s"
  have l: "live s t" using tk by (simp add: load_Some_iff)
  have pre: "live ?s1 (chowner (Res_bufs t))" "spare (pb_pick pb) (chunks ?s1) (Suc (Suc k))" using l m(3) by simp_all
  obtain s2 where s2: "serialize pb (Res_bufs t) m ?s1 = Some (?len, s2)"
    "new_cell ?s1 s2 (Res_bufs t) (pb_bytes pb m)" "grows {Res_bufs t} ?s1 s2" "spare (pb_pick pb) (chunks s2) k"
    by (rule serialize_region [OF pre m(2)])
  have f2: "tasks s2 = (tasks s)(t \<mapsto> ?tk1)" "live s2 t" "notifies s2 = notifies s" "efds s2 = efds s"
    "tstate.more s2 = tstate.more s" "conns s2 = conns s" "qnext s2 = qnext s" "qprev s2 = qprev s"
    using s2(3) l grows_live [OF s2(3), of t] by (simp_all add: grows_def)
  let ?tk3 = "?tk1\<lparr>res_length := ?len\<rparr>"
  let ?tk4 = "?tk3\<lparr>finish := \<lparr>handler = Some Request_Finish, p1 = Some (Http_Request (ch_r ch))\<rparr>\<rparr>"
  let ?s4 = "put_task t ?tk4 (put_task t ?tk3 s2)"
  have p4: "pending ?s4 n (map TaskNode ts)"
    by (rule pending_put_task [OF pending_put_task [OF pending_grows [OF pending_put_task [OF n(2)] s2(3)]]])
  have l4: "live ?s4 t" "notifies ?s4 n = Some nt" using f2 n(4) by simp_all
  obtain s5 where s5: "ngx_rpc_notify_push_task n (TaskNode t) ?s4 = Some (NGX_OK, s5)"
    "pending s5 n (map TaskNode (ts @ [t]))" "tasks s5 = tasks ?s4" "chunks s5 = chunks ?s4"
    "tstate.more s5 = tstate.more ?s4" "notifies s5 = notifies ?s4"
    "efds s5 = efds (eventfd_write (event_fd nt) 1 ?s4)"
    "\<And>q ys. ring ?s4 q ys \<Longrightarrow> set (q # ys) \<inter> set (TaskNode t # NotifyHead n # map TaskNode ts) = {} \<Longrightarrow> ring s5 q ys"
    "\<And>D. mem_kept_but D ?s4 s5" "conns s5 = conns ?s4" "idle_same ?s4 s5"
    by (rule push_prepared [OF p4 l4(1) n(3) l4(2)]) blast
  have m5: "tstate.more s5 = tstate.more s" using s5(5) f2(5) by simp
  note c5 = cstate_more [OF m5]
  have ln: "live s2 n" using pending_live [OF pending_grows [OF pending_put_task [OF n(2)] s2(3)]] .
  have m1: "messages ?s1 res = Some m" using m(1) by (simp add: put_task_def)
  let ?s6 = "s5\<lparr>channels := (channels s5)(c := None)\<rparr>"
  have run: "finish_request pb c res st s = Some ?s6"
    using ch tk m1 s2(1) f2 ln n(1,4) s5(1) c5(7)
    by (simp add: finish_request_def load_def delete_channel_def)
  have kept: "mem_kept_but D s2 ?s6" for D
    by (rule kept_trans [OF kept_same kept_trans [OF s5(9) kept_same]]) simp_all
  have "new_cell s ?s6 (Res_bufs t) (pb_bytes pb m)"
    using new_cell_kept [OF s2(2) kept] by (simp add: new_cell_def)
  moreover have "efds ?s4 = efds s" using f2(4) by simp
  then have "efds (eventfd_write (event_fd nt) 1 ?s4) = efds (eventfd_write (event_fd nt) 1 s)"
    by (simp add: eventfd_write_def split: option.splits)
  moreover have "pending ?s6 n (map TaskNode (ts @ [t]))"
    using s5(2) by (rule pending_same) simp_all
  moreover have "mem_kept_but {Res_bufs t} s ?s6"
    by (rule kept_trans [OF kept_same kept_trans [OF grows_kept [OF s2(3)] kept]]) (simp_all add: put_task_def)
  moreover have "idle_same s ?s6"
    using s5(11) grows_live [OF s2(3)] f2(7,8) by (simp add: idle_same_def live_def)
  moreover have "ring ?s6 q ys" if "ring s q ys" "set (q # ys) \<inter> set (TaskNode t # NotifyHead n # map TaskNode ts) = {}" for q ys
  proof -
    have "ring ?s1 q ys" by (rule ring_same_links [OF that(1)]) simp_all
    then have "ring s2 q ys" by (rule grows_ring [OF s2(3)])
    then have "ring ?s4 q ys" by (rule ring_same_links) simp_all
    then have "ring s5 q ys" by (rule s5(8)) (rule that(2))
    then show ?thesis by (rule ring_same_links) simp_all
  qed
  moreover have "chain_holds ?s6 (Res_bufs t) (pb_bytes pb m)"
    by (rule new_cell_holds [OF new_cell_kept [OF s2(2) kept]])
  ultimately show thesis
    using that [OF run] s5(3-7,10) f2(1-3,6) c5 s2(4) by (simp add: sent_back_def live_def)
qed

section \<open>What a method does\<close>

text \<open>A task whose request is one buffer with the bytes \<open>bs\<close>.\<close>

definition one_buffer :: "'z tstate_scheme \<Rightarrow> chaddr \<Rightarrow> byte list \<Rightarrow> bool" where
  "one_buffer s h bs \<longleftrightarrow> (\<exists>b bf. get_buf h s = Some (Some b) \<and> get_link h s = Some None \<and> mem_buf s b bf bs)"

text \<open>A chain of one buffer that has been read to its end, which is not the start of its block.\<close>

definition drained :: "'z tstate_scheme \<Rightarrow> chaddr \<Rightarrow> bool" where
  "drained s h \<longleftrightarrow> (\<exists>b bf. get_buf h s = Some (Some b) \<and> get_link h s = Some None \<and> mem_buf s b bf []
     \<and> 0 < snd (b_pos bf))"

lemma drained_one_buffer: "drained s h \<Longrightarrow> one_buffer s h []"
  by (auto simp: drained_def one_buffer_def)

lemma kept_mem_buf: "mem_kept_but D s s' \<Longrightarrow> mem_buf s b bf bs \<Longrightarrow> mem_buf s' b bf bs"
proof -
  assume k: "mem_kept_but D s s'" and b: "mem_buf s b bf bs"
  have ld: "load s (bufs s) b = Some bf" using b by (simp add: mem_buf_def)
  then have "load s' (bufs s') b = Some bf"
    using k kept_live [OF k] by (auto simp: load_Some_iff mem_kept_but_def)
  then show ?thesis
    using kept_content [OF k mem_buf_content [OF b]] b by (simp add: buf_content_def mem_buf_def)
qed

lemma kept_one_buffer: "mem_kept_but D s s' \<Longrightarrow> h \<notin> D \<Longrightarrow> one_buffer s h bs \<Longrightarrow> one_buffer s' h bs"
  unfolding one_buffer_def by (blast intro: kept_cell kept_mem_buf)

lemma kept_drained: "mem_kept_but D s s' \<Longrightarrow> h \<notin> D \<Longrightarrow> drained s h \<Longrightarrow> drained s' h"
  unfolding drained_def by (blast intro: kept_cell kept_mem_buf)

lemma parse_one_buffer:
  assumes "one_buffer s h bs"
  obtains b v where "parse_chain pb h s = Some (pb_parse pb bs, s\<lparr>bufs := (bufs s)(b \<mapsto> v)\<rparr>)"
    and "get_buf h s = Some (Some b)" and "live s b"
    and "bs \<noteq> [] \<longrightarrow> drained (s\<lparr>bufs := (bufs s)(b \<mapsto> v)\<rparr>) h"
proof -
  obtain b bf where b: "get_buf h s = Some (Some b)" "get_link h s = Some None" "mem_buf s b bf bs"
    using assms by (auto simp: one_buffer_def)
  let ?v = "bf\<lparr>b_pos := b_last bf\<rparr>" and ?s = "s\<lparr>bufs := (bufs s)(b \<mapsto> bf\<lparr>b_pos := b_last bf\<rparr>)\<rparr>"
  obtain rd where rd: "read_all (reader_create h) s = Some (bs, rd, ?s)"
    using read_all_single [OF b] by (auto simp: consume_def)
  have mb: "mem_buf ?s b ?v []" using consume_mem_buf(1) [OF b(3)] by (simp add: consume_def)
  have "0 \<le> snd (b_pos bf)" "snd (b_last bf) = snd (b_pos bf) + int (length bs)"
    using b(3) by (auto simp: mem_buf_def ptr_diff_def read_bytes_def fault_simps split: if_splits)
  then have "0 < snd (b_last bf)" if "bs \<noteq> []"
    using that by (simp add: add_nonneg_pos)
  then have "drained ?s h" if "bs \<noteq> []"
    using that mb b(1,2) unfolding drained_def
    by (intro exI [of _ b] exI [of _ ?v]) (simp add: chain_defs live_def split: if_splits)
  moreover have "live s b" using b(3) by (simp add: mem_buf_def load_Some_iff)
  ultimately show thesis using that [of b ?v] rd b(1) by (auto simp: parse_chain_def)
qed

text \<open>The state when the function of a method has set up its channel and read the request.\<close>

definition method_ready :: "addr \<Rightarrow> nat \<Rightarrow> (addr \<rightharpoonup> ngx_buf) \<Rightarrow> message \<Rightarrow> 'z cstate_scheme \<Rightarrow> 'z cstate_scheme" where
  "method_ready t r f m s = s\<lparr>bufs := f,
     channels := (channels s)(next_obj s \<mapsto> \<lparr>ch_r = r, ch_task = Some t, ch_req = Some (Suc (next_obj s)),
        ch_res = Some (Suc (Suc (next_obj s))), ch_pre = None, ch_done = Some Finish_Request_Cb\<rparr>),
     messages := (messages s)(Suc (next_obj s) \<mapsto> m, Suc (Suc (next_obj s)) \<mapsto> None),
     next_obj := Suc (Suc (Suc (next_obj s)))\<rparr>"

lemma method_process_eq:
  fixes s :: "'z cstate_scheme"
  assumes cx: "load s (ctxs s) x = Some cx" and one: "one_buffer s (Req_bufs t) bs"
  obtains f b v where "pb_parse pb bs = (True, m) \<Longrightarrow> method_process pb impl t x s =
      impl (next_obj s) (Suc (next_obj s)) (Suc (Suc (next_obj s))) Finish_Request_Cb (method_ready t (cx_r cx) f m s)"
    and "pb_parse pb bs = (False, m) \<Longrightarrow> method_process pb impl t x s =
      finish_request pb (next_obj s) (Suc (Suc (next_obj s))) 500 (method_ready t (cx_r cx) f m s)"
    and "bs \<noteq> [] \<Longrightarrow> drained (method_ready t (cx_r cx) f m s) (Req_bufs t)"
    and "f = (bufs s)(b \<mapsto> v)" and "get_buf (Req_bufs t) s = Some (Some b)"
proof -
  let ?n = "next_obj s"
  let ?s0 = "s\<lparr>messages := (messages s)(Suc ?n \<mapsto> None, Suc (Suc ?n) \<mapsto> None), next_obj := Suc (Suc (Suc ?n)),
     channels := (channels s)(?n \<mapsto> \<lparr>ch_r = cx_r cx, ch_task = Some t, ch_req = Some (Suc ?n),
        ch_res = Some (Suc (Suc ?n)), ch_pre = None, ch_done = Some Finish_Request_Cb\<rparr>)\<rparr>"
  have "get_buf h ?s0 = get_buf h s" "get_link h ?s0 = get_link h s" for h
    by (simp_all add: chain_defs live_def)
  moreover have "mem_buf ?s0 b bf bs = mem_buf s b bf bs" for b bf
    by (simp add: mem_buf_def load_def read_bytes_def live_def)
  ultimately have "one_buffer ?s0 (Req_bufs t) bs"
    using one by (simp add: one_buffer_def)
  then obtain b v where f: "parse_chain pb (Req_bufs t) ?s0 = Some (pb_parse pb bs, ?s0\<lparr>bufs := (bufs ?s0)(b \<mapsto> v)\<rparr>)"
    "get_buf (Req_bufs t) ?s0 = Some (Some b)" "live ?s0 b"
    "bs \<noteq> [] \<longrightarrow> drained (?s0\<lparr>bufs := (bufs ?s0)(b \<mapsto> v)\<rparr>) (Req_bufs t)"
    by (rule parse_one_buffer)
  let ?f = "(bufs s)(b \<mapsto> v)"
  have ready: "put_message (Suc ?n) m (?s0\<lparr>bufs := ?f\<rparr>) = method_ready t (cx_r cx) ?f m s"
    by (simp add: put_message_def method_ready_def fun_upd_twist)
  have b': "get_buf (Req_bufs t) (method_ready t (cx_r cx) ?f m s) = Some (Some b)"
    "load (method_ready t (cx_r cx) ?f m s) (bufs (method_ready t (cx_r cx) ?f m s)) b = Some v"
    using f(2,3) unfolding method_ready_def by (auto simp: chain_defs live_def load_def split: if_splits)
  have "drained (method_ready t (cx_r cx) ?f m s) (Req_bufs t)" if "bs \<noteq> []"
    by (rule kept_drained [where D = "{}", OF kept_same _ f(4) [rule_format, OF that]]) (simp_all add: method_ready_def)
  moreover have "get_buf (Req_bufs t) s = Some (Some b)"
    using f(2) by (auto simp: chain_defs live_def split: if_splits)
  ultimately show thesis
    by (intro that [of ?f b v]) (use cx f(1) b' in \<open>simp_all add: method_process_def new_channel_def
      new_message_def put_channel_def ready call_done.simps\<close>)
qed

section \<open>What forwarding a call does\<close>

lemma strncpy_path_string:
  assumes "0 \<notin> set p"
  shows "strncpy_path p old = (if length p \<le> length old then Some (p @ drop (length p) old) else None)"
proof -
  have p: "takeWhile (\<lambda>b. b \<noteq> 0) p = p" using assms by (auto simp: takeWhile_eq_all_conv)
  show ?thesis unfolding strncpy_path_def p by simp
qed

lemma c_string_append:
  "0 \<notin> set p \<Longrightarrow> c_string (p @ old) = map_option (\<lambda>rest. p @ rest) (c_string old)"
  by (auto simp: c_string_def takeWhile_append)

lemma forward_request_ok:
  fixes s :: "'z cstate_scheme"
  assumes ch: "channels s c = Some ch" "ch_task ch = Some t" and tk: "load s (tasks s) t = Some tk"
    and m: "messages s req = Some m" "length (pb_bytes pb m) \<le> 4096" "spare (pb_pick pb) (chunks s) (Suc (Suc k))"
    and pth: "strncpy_path p (path tk) = Some p'"
    and n: "done_notify tk = Some n" "pending s n (map TaskNode ts)" "t \<notin> set ts" "notifies s n = Some nt"
  obtains s' where "forward_request pb c p req res dn s = Some s'"
    and "tasks s' = (tasks s)(t \<mapsto> tk\<lparr>res_length := int (length (pb_bytes pb m)),
        finish := \<lparr>handler = Some Request_Foward, p1 = Some (Http_Request (ch_r ch))\<rparr>,
        closure := \<lparr>handler = Some Foward_Done, p1 = Some (Rpc_Channel (next_obj s))\<rparr>, path := p'\<rparr>)"
    and "chain_holds s' (Res_bufs t) (pb_bytes pb m)"
    and "channels s' = (channels s)(next_obj s \<mapsto> \<lparr>ch_r = ch_r ch, ch_task = None, ch_req = Some req,
        ch_res = Some res, ch_pre = Some c, ch_done = Some dn\<rparr>)"
    and "messages s' = messages s" and "next_obj s' = Suc (next_obj s)" and "sent_back t n ts nt s s'"
    and "mem_kept_but {Res_bufs t} s s'" and "spare (pb_pick pb) (chunks s') k"
proof -
  let ?len = "int (length (pb_bytes pb m))"
  let ?v = "\<lparr>ch_r = ch_r ch, ch_task = None, ch_req = Some req, ch_res = Some res, ch_pre = Some c, ch_done = Some dn\<rparr>"
  let ?s1 = "s\<lparr>next_obj := Suc (next_obj s), channels := (channels s)(next_obj s \<mapsto> ?v)\<rparr>"
  have l: "live s t" using tk by (simp add: load_Some_iff)
  have pre: "live ?s1 (chowner (Res_bufs t))" "spare (pb_pick pb) (chunks ?s1) (Suc (Suc k))" using l m(3) by (simp_all add: live_def)
  obtain s2 where s2: "serialize pb (Res_bufs t) m ?s1 = Some (?len, s2)"
    "new_cell ?s1 s2 (Res_bufs t) (pb_bytes pb m)" "grows {Res_bufs t} ?s1 s2" "spare (pb_pick pb) (chunks s2) k"
    by (rule serialize_region [OF pre m(2)])
  have f2: "tasks s2 = tasks s" "live s2 t" "notifies s2 = notifies s" "efds s2 = efds s"
    "tstate.more s2 = tstate.more ?s1" "conns s2 = conns s" "qnext s2 = qnext s" "qprev s2 = qprev s"
    using s2(3) l grows_live [OF s2(3), of t] by (simp_all add: grows_def live_def)
  let ?tk = "tk\<lparr>res_length := ?len,
        finish := \<lparr>handler = Some Request_Foward, p1 = Some (Http_Request (ch_r ch))\<rparr>,
        closure := \<lparr>handler = Some Foward_Done, p1 = Some (Rpc_Channel (next_obj s))\<rparr>, path := p'\<rparr>"
  let ?s3 = "put_task t ?tk s2"
  have "pending ?s1 n (map TaskNode ts)" by (rule pending_same [OF n(2)]) simp_all
  then have p3: "pending ?s3 n (map TaskNode ts)"
    by (intro pending_put_task) (rule pending_grows [OF _ s2(3)])
  have l3: "live ?s3 t" "notifies ?s3 n = Some nt" using f2 n(4) by simp_all
  obtain s4 where s4: "ngx_rpc_notify_push_task n (TaskNode t) ?s3 = Some (NGX_OK, s4)"
    "pending s4 n (map TaskNode (ts @ [t]))" "tasks s4 = tasks ?s3" "chunks s4 = chunks ?s3"
    "tstate.more s4 = tstate.more ?s3" "notifies s4 = notifies ?s3"
    "efds s4 = efds (eventfd_write (event_fd nt) 1 ?s3)"
    "\<And>q ys. ring ?s3 q ys \<Longrightarrow> set (q # ys) \<inter> set (TaskNode t # NotifyHead n # map TaskNode ts) = {} \<Longrightarrow> ring s4 q ys"
    "\<And>D. mem_kept_but D ?s3 s4" "conns s4 = conns ?s3" "idle_same ?s3 s4"
    by (rule push_prepared [OF p3 l3(1) n(3) l3(2)]) blast
  have "tstate.more s4 = tstate.more ?s1" using s4(5) f2(5) by simp
  note c4 = cstate_more [OF this]
  have "load s2 (tasks s2) t = Some tk" using f2(1,2) tk by (simp add: load_Some_iff)
  then have run: "forward_request pb c p req res dn s = Some s4"
    using ch m(1) s2(1) pth n(1) s4(1)
    by (simp add: forward_request_def new_channel_def put_channel_def)
  have kept: "mem_kept_but D s2 s4" for D by (rule kept_trans [OF kept_same s4(9)]) simp_all
  have h4: "chain_holds s4 (Res_bufs t) (pb_bytes pb m)" by (rule new_cell_holds [OF new_cell_kept [OF s2(2) kept]])
  have "efds ?s3 = efds s" using f2(4) by simp
  then have "efds (eventfd_write (event_fd nt) 1 ?s3) = efds (eventfd_write (event_fd nt) 1 s)"
    by (simp add: eventfd_write_def split: option.splits)
  moreover have "live s4 t" using s4(4) f2(2) by (simp add: live_def)
  moreover have "mem_kept_but {Res_bufs t} s s4"
    by (rule kept_trans [OF kept_same kept_trans [OF grows_kept [OF s2(3)] kept]]) simp_all
  moreover have "idle_same s s4"
    using s4(11) grows_live [OF s2(3)] f2(7,8) by (simp add: idle_same_def live_def)
  moreover have "ring s4 q ys" if "ring s q ys" "set (q # ys) \<inter> set (TaskNode t # NotifyHead n # map TaskNode ts) = {}" for q ys
  proof -
    have "ring ?s1 q ys" by (rule ring_same_links [OF that(1)]) simp_all
    then have "ring s2 q ys" by (rule grows_ring [OF s2(3)])
    then have "ring ?s3 q ys" by (rule ring_same_links) simp_all
    then show ?thesis by (rule s4(8)) (rule that(2))
  qed
  ultimately show thesis
    using that [OF run] s4(2-4,6,7,10) f2(1,3,6) c4 h4 s2(4) by (simp add: sent_back_def)
qed

end
