(* ===== verification/Channel_Properties.thy ===== *)
theory Channel_Properties
  imports Rpc_Channel Http_Properties
begin

text \<open>
  The properties of the calls of user code: a method that answers, one that forwards, the path
  it forwards to, and the whole way of a call from a processor back to the client.
\<close>

section \<open>A concrete call\<close>

text \<open>The memory \<open>demo_http\<close> with task 5 waiting to be run: its request is the buffer 41.\<close>

definition demo_pb :: proto where
  "demo_pb = \<lparr>pb_parse = (\<lambda>bs. (bs = [1, 2, 3], Some bs)), pb_bytes = (\<lambda>m. 9 # (case m of None \<Rightarrow> [] | Some j \<Rightarrow> j)),
     pb_pick = first_fit 30, pb_junk = (\<lambda>_. 0), pb_old = False\<rparr>"

definition demo_call :: cstate where
  "demo_call = (wstate.extend (demo_http [3] [] []) (cstate.fields [0 \<mapsto> \<lparr>ch_r = 0, ch_task = Some 5,
       ch_req = Some 1, ch_res = Some 2, ch_pre = None, ch_done = Some Finish_Request_Cb\<rparr>,
       3 \<mapsto> \<lparr>ch_r = 0, ch_task = None, ch_req = Some 4, ch_res = Some 5, ch_pre = Some 0,
             ch_done = Some (Forward_Done_Cb 0 1 2)\<rparr>]
       [1 \<mapsto> Some [6], 2 \<mapsto> None, 4 \<mapsto> Some [6], 5 \<mapsto> None] 10))\<lparr>
     chain_buf := [Req_bufs 5 \<mapsto> Some 41, Res_bufs 5 \<mapsto> None],
     chain_next := [Req_bufs 5 \<mapsto> None, Res_bufs 5 \<mapsto> None],
     tasks := [5 \<mapsto> zero_task\<lparr>done_notify := Some 7, response_states := 200\<rparr>]\<rparr>"

lemmas call_simps = demo_call_def wstate.extend_def cstate.fields_def http_simps

lemma demo_call_spare: "spare (pb_pick demo_pb) (chunks demo_call) 2"
  using demo_http_spare [of 2 "[3]" "[]" "[]"]
  by (simp add: demo_pb_def demo_env_def demo_call_def wstate.extend_def cstate.fields_def demo_http_def)

lemma demo_call_ready:
  "load demo_call (ctxs demo_call) 8 = Some \<lparr>cx_conf = 0, cx_method = 0, cx_r = 0, cx_task = None\<rparr>"
  "one_buffer demo_call (Req_bufs 5) [1, 2, 3]"
  "load demo_call (tasks demo_call) 5 = Some (zero_task\<lparr>done_notify := Some 7, response_states := 200\<rparr>)"
  "pending demo_call 7 (map TaskNode [])" "notifies demo_call 7 = Some (demo_notify 12 0)"
  "hconfs demo_call 0 = Some \<lparr>hc_queue = Some 1, hc_notify = Some 7,
     hc_methods = [\<lparr>m_name = [47, 97], m_impl = Some 1, m_handler = Some (Method_Handler 0), m_log = None\<rparr>], hc_hash = Some [[47, 97] \<mapsto> 0]\<rparr>"
  "requests demo_call 0 = Some demo_request" "calls demo_call = []" "next_obj demo_call = 10"
  by (simp_all add: call_simps one_buffer_def chain_defs mem_buf_def ptr_diff_def read_bytes_def numeral_eq_Suc)

section \<open>Methods\<close>

lemma method_ready_same:
  "chunks (method_ready t r f m s) = chunks s" "tasks (method_ready t r f m s) = tasks s"
  "qnext (method_ready t r f m s) = qnext s" "qprev (method_ready t r f m s) = qprev s"
  "notifies (method_ready t r f m s) = notifies s" "efds (method_ready t r f m s) = efds s"
  "requests (method_ready t r f m s) = requests s" "calls (method_ready t r f m s) = calls s"
  "hconfs (method_ready t r f m s) = hconfs s" "pconfs (method_ready t r f m s) = pconfs s" "ctxs (method_ready t r f m s) = ctxs s"
  "conns (method_ready t r f m s) = conns s" "queues (method_ready t r f m s) = queues s"
  "live (method_ready t r f m s) a = live s a" "load (method_ready t r f m s) g = load s g"
  "channels (method_ready t r f m s) = (channels s)(next_obj s \<mapsto> \<lparr>ch_r = r, ch_task = Some t,
     ch_req = Some (Suc (next_obj s)), ch_res = Some (Suc (Suc (next_obj s))), ch_pre = None,
     ch_done = Some Finish_Request_Cb\<rparr>)"
  "messages (method_ready t r f m s) = (messages s)(Suc (next_obj s) \<mapsto> m, Suc (Suc (next_obj s)) \<mapsto> None)"
  "next_obj (method_ready t r f m s) = Suc (Suc (Suc (next_obj s)))"
  by (simp_all add: method_ready_def live_def load_def fun_eq_iff)

lemma interface_ok:
  fixes s :: "'z cstate_scheme"
  assumes "load s (ctxs s) x = Some cx" "one_buffer s (Req_bufs t) bs" "pb_parse pb bs = (ok, m)"
    and "load s (tasks s) t = Some tk" "done_notify tk = Some n"
    and "pending s n (map TaskNode ts)" "t \<notin> set ts" "notifies s n = Some nt"
    and "spare (pb_pick pb) (chunks s) (Suc (Suc k))"
    and "reply = (if ok then Some (ascii ''hehe'') else None)" "length (pb_bytes pb reply) \<le> 4096"
  shows "\<exists>s'. ngxrpc_inspect_application_interface pb t x s = Some s' \<and> sent_back t n ts nt s s'
     \<and> tasks s' = (tasks s)(t \<mapsto> tk\<lparr>response_states := (if ok then 200 else 500),
          res_length := int (length (pb_bytes pb reply)),
          finish := \<lparr>handler = Some Request_Finish, p1 = Some (Http_Request (cx_r cx))\<rparr>\<rparr>)
     \<and> chain_holds s' (Res_bufs t) (pb_bytes pb reply)
     \<and> channels s' = (channels s)(next_obj s := None)
     \<and> messages s' = (messages s)(Suc (next_obj s) \<mapsto> m, Suc (Suc (next_obj s)) \<mapsto> reply)
     \<and> new_cell s s' (Res_bufs t) (pb_bytes pb reply) \<and> spare (pb_pick pb) (chunks s') k
     \<and> (\<exists>b v. get_buf (Req_bufs t) s = Some (Some b) \<and> mem_kept_but {Res_bufs t} (s\<lparr>bufs := (bufs s)(b \<mapsto> v)\<rparr>) s')"
proof -
  let ?c = "next_obj s" and ?res = "Suc (Suc (next_obj s))" and ?st = "if ok then 200 else 500 :: int"
  obtain f b v where f:
    "pb_parse pb bs = (True, m) \<Longrightarrow> ngxrpc_inspect_application_interface pb t x s =
      service_interface pb ?c (Suc ?c) ?res Finish_Request_Cb (method_ready t (cx_r cx) f m s)"
    "pb_parse pb bs = (False, m) \<Longrightarrow> ngxrpc_inspect_application_interface pb t x s =
      finish_request pb ?c ?res 500 (method_ready t (cx_r cx) f m s)"
    "f = (bufs s)(b \<mapsto> v)" "get_buf (Req_bufs t) s = Some (Some b)"
    by (rule method_process_eq [where pb = pb and m = m and impl = "service_interface pb", OF assms(1,2),
        folded ngxrpc_inspect_application_interface_def]) blast
  define s1 where "s1 = put_message ?res reply (method_ready t (cx_r cx) f m s)"
  have "s1 = method_ready t (cx_r cx) f m s" if "\<not> ok"
    using that assms(10) by (simp add: s1_def put_message_def method_ready_def)
  then have run: "ngxrpc_inspect_application_interface pb t x s = finish_request pb ?c ?res ?st s1"
    using f(1,2) assms(3,10) by (cases ok) (simp_all add: s1_def service_interface_def method_ready_same call_done.simps)
  have same: "chunks s1 = chunks s" "qnext s1 = qnext s" "qprev s1 = qprev s" "efds s1 = efds s"
    "requests s1 = requests s" "calls s1 = calls s" "hconfs s1 = hconfs s" "pconfs s1 = pconfs s"
    "notifies s1 = notifies s" "ctxs s1 = ctxs s" "conns s1 = conns s" "queues s1 = queues s" and same': "tasks s1 = tasks s"
    "channels s1 = channels (method_ready t (cx_r cx) f m s)"
    "messages s1 = (messages s)(Suc ?c \<mapsto> m, ?res \<mapsto> reply)"
    by (simp_all add: s1_def put_message_def method_ready_same)
  have pre: "channels s1 ?c = Some \<lparr>ch_r = cx_r cx, ch_task = Some t, ch_req = Some (Suc ?c), ch_res = Some ?res,
      ch_pre = None, ch_done = Some Finish_Request_Cb\<rparr>" "messages s1 ?res = Some reply"
    "load s1 (tasks s1) t = Some tk" "spare (pb_pick pb) (chunks s1) (Suc (Suc k))" "notifies s1 n = Some nt"
    using assms(4,8,9) same same' by (simp_all add: method_ready_same load_def live_def)
  have p1: "pending s1 n (map TaskNode ts)"
    by (rule pending_same [OF assms(6)]) (simp_all add: same)
  obtain s' where s': "finish_request pb ?c ?res ?st s1 = Some s'"
    "tasks s' = (tasks s1)(t \<mapsto> tk\<lparr>response_states := ?st, res_length := int (length (pb_bytes pb reply)),
       finish := \<lparr>handler = Some Request_Finish, p1 = Some (Http_Request (cx_r cx))\<rparr>\<rparr>)"
    "chain_holds s' (Res_bufs t) (pb_bytes pb reply)"
    "channels s' = (channels s1)(?c := None)" "messages s' = messages s1" "mem_kept_but {Res_bufs t} s1 s'"
    "spare (pb_pick pb) (chunks s') k" "new_cell s1 s' (Res_bufs t) (pb_bytes pb reply)" and sb: "sent_back t n ts nt s s'"
    by (rule finish_request_ok [OF pre(1) _ pre(3,2) assms(11) pre(4) assms(5) p1 assms(7) pre(5), of ?st])
      (auto intro: sent_back_before [OF _ same])
  have "mem_kept_but {Res_bufs t} (s\<lparr>bufs := (bufs s)(b \<mapsto> v)\<rparr>) s1"
    by (rule kept_same) (simp_all add: s1_def put_message_def method_ready_def f(3))
  from kept_trans [OF this s'(6)] f(4)
  have "\<exists>b v. get_buf (Req_bufs t) s = Some (Some b) \<and> mem_kept_but {Res_bufs t} (s\<lparr>bufs := (bufs s)(b \<mapsto> v)\<rparr>) s'"
    by blast
  moreover have "new_cell s s' (Res_bufs t) (pb_bytes pb reply)"
    using s'(8) same(1) by (simp add: new_cell_def live_def)
  ultimately show ?thesis
    using run s' same' sb by (intro exI [of _ s']) (simp add: method_ready_same)
qed

text \<open>
  C20. The method \<open>interface\<close>, run on a task whose request is one buffer. If protobuf accepts the
  bytes, the task goes to the end of the worker's list with status 200 and the service's
  response; if it does not, with status 500 and an empty response. Either way the response
  chain holds exactly the bytes of the message, the length is their number, the task is set to
  answer the request that the context names, the worker is signalled and the channel is
  deleted. The two messages stay: nothing deletes them.
\<close>

theorem interface_answers:
  fixes s :: "'z cstate_scheme"
  assumes "load s (ctxs s) x = Some cx" "one_buffer s (Req_bufs t) bs" "pb_parse pb bs = (ok, m)"
    and "load s (tasks s) t = Some tk" "done_notify tk = Some n"
    and "pending s n (map TaskNode ts)" "t \<notin> set ts" "notifies s n = Some nt"
    and "efds s (event_fd nt) = Some cnt" "cnt \<le> eventfd_max"
    and "spare (pb_pick pb) (chunks s) 2"
    and "reply = (if ok then Some (ascii ''hehe'') else None)" "length (pb_bytes pb reply) \<le> 4096"
  shows "\<exists>s'. ngxrpc_inspect_application_interface pb t x s = Some s'
     \<and> tasks s' = (tasks s)(t \<mapsto> tk\<lparr>response_states := (if ok then 200 else 500),
          res_length := int (length (pb_bytes pb reply)),
          finish := \<lparr>handler = Some Request_Finish, p1 = Some (Http_Request (cx_r cx))\<rparr>\<rparr>)
     \<and> pending s' n (map TaskNode (ts @ [t])) \<and> live s' t
     \<and> chain_holds s' (Res_bufs t) (pb_bytes pb reply)
     \<and> (\<exists>cnt'. efds s' (event_fd nt) = Some cnt' \<and> 0 < cnt')
     \<and> channels s' = (channels s)(next_obj s := None)
     \<and> messages s' = (messages s)(Suc (next_obj s) \<mapsto> m, Suc (Suc (next_obj s)) \<mapsto> reply)
     \<and> requests s' = requests s \<and> calls s' = calls s \<and> hconfs s' = hconfs s"
proof -
  have sp: "spare (pb_pick pb) (chunks s) (Suc (Suc 0))" using assms(11) by (simp add: numeral_2_eq_2)
  obtain s' where s': "ngxrpc_inspect_application_interface pb t x s = Some s'" "sent_back t n ts nt s s'"
    "tasks s' = (tasks s)(t \<mapsto> tk\<lparr>response_states := (if ok then 200 else 500),
          res_length := int (length (pb_bytes pb reply)),
          finish := \<lparr>handler = Some Request_Finish, p1 = Some (Http_Request (cx_r cx))\<rparr>\<rparr>)"
    "chain_holds s' (Res_bufs t) (pb_bytes pb reply)" "channels s' = (channels s)(next_obj s := None)"
    "messages s' = (messages s)(Suc (next_obj s) \<mapsto> m, Suc (Suc (next_obj s)) \<mapsto> reply)"
    using interface_ok [OF assms(1-8) sp assms(12,13)] by blast
  show ?thesis
    by (rule exI [of _ s']) (use s' sent_backD [OF s'(2)] sent_back_signal [OF s'(2) assms(9,10)] in simp)
qed

theorem interface_answers_witness:
  "\<exists>s'. ngxrpc_inspect_application_interface demo_pb 5 8 demo_call = Some s'
     \<and> pending s' 7 [TaskNode 5] \<and> map_option response_states (tasks s' 5) = Some 200
     \<and> chain_holds s' (Res_bufs 5) (9 # ascii ''hehe'')"
proof -
  have "pb_parse demo_pb [1, 2, 3] = (True, Some [1, 2, 3])" by (simp add: demo_pb_def)
  moreover have "efds demo_call (event_fd (demo_notify 12 0)) = Some 0" by (simp add: call_simps)
  moreover have "pb_bytes demo_pb (Some (ascii ''hehe'')) = 9 # ascii ''hehe''" "length (ascii ''hehe'') = 4"
    by (simp_all add: demo_pb_def ascii_def)
  ultimately show ?thesis
    using interface_answers [OF demo_call_ready(1,2) _ demo_call_ready(3) _ demo_call_ready(4) _ demo_call_ready(5)
        _ _ demo_call_spare refl, of True "Some [1, 2, 3]" 0] by fastforce
qed

text \<open>
  The way back of a call. The processor runs \<open>interface\<close> on the task of a request, and the
  worker then runs its loop: the client gets the status of the call, the length of the
  response and the response chain, which holds exactly the bytes of the message, and the
  request is finalized. The worker's list is empty again.
\<close>

theorem call_is_answered:
  fixes s :: "'z cstate_scheme"
  assumes "load s (ctxs s) x = Some cx" "one_buffer s (Req_bufs t) bs" "pb_parse pb bs = (ok, m)"
    and "load s (tasks s) t = Some tk" "done_notify tk = Some n"
    and "worker_pending s c n []" "notifies s n = Some nt"
    and "efds s (event_fd nt) = Some cnt" "cnt \<le> eventfd_max"
    and "spare (pb_pick pb) (chunks s) 2" "requests s (cx_r cx) \<noteq> None" "en_cleanup env"
    and "reply = (if ok then Some (ascii ''hehe'') else None)"
    and "pb_bytes pb reply \<noteq> []" "length (pb_bytes pb reply) \<le> 4096"
  shows "\<exists>s1 s2. ngxrpc_inspect_application_interface pb t x s = Some s1
     \<and> chain_holds s1 (Res_bufs t) (pb_bytes pb reply)
     \<and> ngx_http_rpc_process_notify_task (worker_run env cmp junk) c s1 = Some s2 \<and> worker_pending s2 c n []
     \<and> calls s2 = [Finalize_Request (cx_r cx) (en_filter env), Output_Filter (cx_r cx) (Res_bufs t),
          Send_Header (cx_r cx) (if ok then 200 else 500) (Some (int (length (pb_bytes pb reply))))] @ calls s"
proof -
  have p: "pending s n (map TaskNode [])" and cf: "Option.bind (hconfs s c) hc_notify = Some n"
    using assms(6) by (simp_all add: worker_pending_def)
  have sp: "spare (pb_pick pb) (chunks s) (Suc (Suc 0))" using assms(10) by (simp add: numeral_2_eq_2)
  obtain s1 where s1: "ngxrpc_inspect_application_interface pb t x s = Some s1"
    "tasks s1 = (tasks s)(t \<mapsto> tk\<lparr>response_states := (if ok then 200 else 500),
       res_length := int (length (pb_bytes pb reply)),
       finish := \<lparr>handler = Some Request_Finish, p1 = Some (Http_Request (cx_r cx))\<rparr>\<rparr>)"
    "chain_holds s1 (Res_bufs t) (pb_bytes pb reply)" "sent_back t n [] nt s s1"
    using interface_ok [OF assms(1-5) p _ assms(7) sp assms(13,15)] by auto
  have k1: "pending s1 n [TaskNode t]" "live s1 t" "requests s1 = requests s" "calls s1 = calls s" "hconfs s1 = hconfs s"
    using sent_backD [OF s1(4)] by simp_all
  have "worker_pending s1 c n [TaskNode t]" using k1 cf by (simp add: worker_pending_def)
  moreover have "\<forall>y \<in> set [TaskNode t]. answerable s1 y"
    using s1(2) k1 assms(11) by (simp add: answerable_def load_def finish_request_of_def)
  ultimately obtain s2 where s2: "ngx_http_rpc_process_notify_task (worker_run env cmp junk) c s1 = Some s2"
    "worker_pending s2 c n []" "calls s2 = fold (\<lambda>y cs. task_answer env (tasks s1) y @ cs) [TaskNode t] (calls s1)"
    using process_notify_drains [OF _ _ assms(12)] by blast
  have "task_answer env (tasks s1) (TaskNode t) = [Finalize_Request (cx_r cx) (en_filter env),
      Output_Filter (cx_r cx) (Res_bufs t),
      Send_Header (cx_r cx) (if ok then 200 else 500) (Some (int (length (pb_bytes pb reply))))]"
    using s1(2) assms(14) by (simp add: task_answer_def finish_request_of_def)
  then show ?thesis using s1(1,3) k1 s2 by (intro exI [of _ s1] exI [of _ s2]) simp
qed

theorem call_is_answered_witness:
  "\<exists>s1 s2. ngxrpc_inspect_application_interface demo_pb 5 8 demo_call = Some s1
     \<and> chain_holds s1 (Res_bufs 5) (9 # ascii ''hehe'')
     \<and> ngx_http_rpc_process_notify_task (worker_run demo_env (\<lambda>_. False) (\<lambda>_. 0)) 0 s1 = Some s2
     \<and> calls s2 = [Finalize_Request 0 0, Output_Filter 0 (Res_bufs 5), Send_Header 0 200 (Some 5)]"
proof -
  have "pb_parse demo_pb [1, 2, 3] = (True, Some [1, 2, 3])" by (simp add: demo_pb_def)
  moreover have "efds demo_call (event_fd (demo_notify 12 0)) = Some 0" by (simp add: call_simps)
  moreover have "worker_pending demo_call 0 7 []"
    using demo_call_ready(4,6) by (simp add: worker_pending_def)
  moreover have "pb_bytes demo_pb (Some (ascii ''hehe'')) = 9 # ascii ''hehe''" "length (ascii ''hehe'') = 4"
    "en_cleanup demo_env" "en_filter demo_env = 0"
    by (simp_all add: demo_pb_def ascii_def demo_env_def)
  ultimately show ?thesis
    using call_is_answered [where cmp = "\<lambda>_. False" and junk = "\<lambda>_. 0" and env = demo_env, OF demo_call_ready(1,2) _ demo_call_ready(3) _ _ demo_call_ready(5)
        _ _ demo_call_spare _ _ refl, of True "Some [1, 2, 3]" 0 0] demo_call_ready(7,8) by fastforce
qed

section \<open>Forwarding\<close>

lemma requeststatus_ok:
  fixes s :: "'z cstate_scheme"
  assumes "load s (ctxs s) x = Some cx" "one_buffer s (Req_bufs t) bs" "pb_parse pb bs = (True, m)"
    and "load s (tasks s) t = Some tk" "done_notify tk = Some n" "length (path tk) = MAX_PATH_NAME"
    and "pending s n (map TaskNode ts)" "t \<notin> set ts" "notifies s n = Some nt"
    and "spare (pb_pick pb) (chunks s) (Suc (Suc k))" "length (pb_bytes pb m) \<le> 4096"
    and "c = next_obj s"
  shows "\<exists>s'. ngxrpc_inspect_application_requeststatus pb t x s = Some s' \<and> sent_back t n ts nt s s'
     \<and> tasks s' = (tasks s)(t \<mapsto> tk\<lparr>res_length := int (length (pb_bytes pb m)),
          finish := \<lparr>handler = Some Request_Foward, p1 = Some (Http_Request (cx_r cx))\<rparr>,
          closure := \<lparr>handler = Some Foward_Done, p1 = Some (Rpc_Channel (c + 5))\<rparr>,
          path := forward_target @ drop 37 (path tk)\<rparr>)
     \<and> chain_holds s' (Res_bufs t) (pb_bytes pb m)
     \<and> channels s' = (channels s)(c \<mapsto> \<lparr>ch_r = cx_r cx, ch_task = Some t, ch_req = Some (c + 1), ch_res = Some (c + 2),
            ch_pre = None, ch_done = Some Finish_Request_Cb\<rparr>,
          c + 5 \<mapsto> \<lparr>ch_r = cx_r cx, ch_task = None, ch_req = Some (c + 3), ch_res = Some (c + 4),
            ch_pre = Some c, ch_done = Some (Forward_Done_Cb c (c + 1) (c + 2))\<rparr>)
     \<and> messages s' = (messages s)(c + 1 \<mapsto> m, c + 2 \<mapsto> None, c + 3 \<mapsto> m, c + 4 \<mapsto> None)
     \<and> spare (pb_pick pb) (chunks s') k \<and> (bs \<noteq> [] \<longrightarrow> drained s' (Req_bufs t))"
proof -
  obtain f where f: "ngxrpc_inspect_application_requeststatus pb t x s =
      service_requeststatus pb c (Suc c) (Suc (Suc c)) Finish_Request_Cb (method_ready t (cx_r cx) f m s)"
    and dr: "bs \<noteq> [] \<Longrightarrow> drained (method_ready t (cx_r cx) f m s) (Req_bufs t)"
    using method_process_eq [where pb = pb and m = m and impl = "service_requeststatus pb", OF assms(1,2),
        folded ngxrpc_inspect_application_requeststatus_def] assms(3,12)
    by metis
  let ?ch = "\<lparr>ch_r = cx_r cx, ch_task = Some t, ch_req = Some (Suc c), ch_res = Some (Suc (Suc c)), ch_pre = None,
      ch_done = Some Finish_Request_Cb\<rparr>"
  define s1 where "s1 = snd (new_message None (snd (new_message m
      (put_channel c ?ch (method_ready t (cx_r cx) f m s)))))"
  have same: "chunks s1 = chunks s" "qnext s1 = qnext s" "qprev s1 = qprev s" "efds s1 = efds s"
    "requests s1 = requests s" "calls s1 = calls s" "hconfs s1 = hconfs s" "pconfs s1 = pconfs s"
    "notifies s1 = notifies s" "ctxs s1 = ctxs s" "conns s1 = conns s" "queues s1 = queues s" and same': "tasks s1 = tasks s" "next_obj s1 = c + 5"
    "channels s1 = (channels s)(c \<mapsto> ?ch)"
    "messages s1 = (messages s)(Suc c \<mapsto> m, Suc (Suc c) \<mapsto> None, c + 3 \<mapsto> m, c + 4 \<mapsto> None)"
    by (simp_all add: s1_def new_message_def put_channel_def method_ready_same assms(12) numeral_eq_Suc)
  have "mem_kept_but {Res_bufs t} (method_ready t (cx_r cx) f m s) s1"
    by (rule kept_same) (simp_all add: s1_def new_message_def put_channel_def)
  note k1 = kept_drained [OF this _ dr, simplified]
  have ch1: "channels s1 c = Some ?ch" and m1: "messages s1 (c + 3) = Some m" by (simp_all add: same' numeral_eq_Suc)
  have run: "ngxrpc_inspect_application_requeststatus pb t x s =
      forward_request pb c forward_target (c + 3) (c + 4) (Forward_Done_Cb c (c + 1) (c + 2)) s1"
    by (simp add: f service_requeststatus_def s1_def new_message_def put_channel_def method_ready_same
        assms(12) numeral_eq_Suc)
  have tgt: "0 \<notin> set forward_target" "length forward_target = 37" by (simp_all add: forward_target_def ascii_def)
  have sp: "strncpy_path forward_target (path tk) = Some (forward_target @ drop 37 (path tk))"
    using strncpy_path_string [OF tgt(1)] tgt(2) assms(6) by (simp add: MAX_PATH_NAME_def)
  have pre: "load s1 (tasks s1) t = Some tk" "spare (pb_pick pb) (chunks s1) (Suc (Suc k))" "notifies s1 n = Some nt"
    using assms(4,9,10) same same' by (simp_all add: load_def live_def)
  have p1: "pending s1 n (map TaskNode ts)"
    by (rule pending_same [OF assms(7)]) (simp_all add: same)
  obtain s' where s': "forward_request pb c forward_target (c + 3) (c + 4) (Forward_Done_Cb c (c + 1) (c + 2)) s1 = Some s'"
    "tasks s' = (tasks s1)(t \<mapsto> tk\<lparr>res_length := int (length (pb_bytes pb m)),
        finish := \<lparr>handler = Some Request_Foward, p1 = Some (Http_Request (cx_r cx))\<rparr>,
        closure := \<lparr>handler = Some Foward_Done, p1 = Some (Rpc_Channel (next_obj s1))\<rparr>,
        path := forward_target @ drop 37 (path tk)\<rparr>)"
    "chain_holds s' (Res_bufs t) (pb_bytes pb m)"
    "channels s' = (channels s1)(next_obj s1 \<mapsto> \<lparr>ch_r = cx_r cx, ch_task = None, ch_req = Some (c + 3),
        ch_res = Some (c + 4), ch_pre = Some c, ch_done = Some (Forward_Done_Cb c (c + 1) (c + 2))\<rparr>)"
    "messages s' = messages s1" "spare (pb_pick pb) (chunks s') k" "mem_kept_but {Res_bufs t} s1 s'"
    and sb: "sent_back t n ts nt s s'"
    by (rule forward_request_ok [OF ch1 _ pre(1) m1 assms(11) pre(2) sp assms(5) p1 assms(8) pre(3),
          where res = "c + 4" and dn = "Forward_Done_Cb c (c + 1) (c + 2)"]) (auto intro: sent_back_before [OF _ same])
  have "bs \<noteq> [] \<Longrightarrow> drained s' (Req_bufs t)" using kept_drained [OF s'(7) _ k1] by simp
  then show ?thesis
    using run s' same' sb by (intro exI [of _ s']) (simp add: numeral_eq_Suc)
qed

text \<open>
  C18. The method \<open>requeststatus\<close>, run on a task whose request is one buffer that protobuf
  accepts. The task goes back to the worker, this time to start a subrequest for the request of the
  context: the response chain holds exactly the bytes of the request message, and when the task comes
  back to a processor, that processor is to run \<open>foward_done\<close> on a new channel, which remembers the first
  one and its two messages. The path is the target with whatever the task's array held behind
  it.
\<close>

theorem requeststatus_forwards:
  fixes s :: "'z cstate_scheme"
  assumes "load s (ctxs s) x = Some cx" "one_buffer s (Req_bufs t) bs" "pb_parse pb bs = (True, m)"
    and "load s (tasks s) t = Some tk" "done_notify tk = Some n" "length (path tk) = MAX_PATH_NAME"
    and "pending s n (map TaskNode ts)" "t \<notin> set ts" "notifies s n = Some nt"
    and "spare (pb_pick pb) (chunks s) 2" "length (pb_bytes pb m) \<le> 4096"
    and "c = next_obj s"
  shows "\<exists>s' tk'. ngxrpc_inspect_application_requeststatus pb t x s = Some s'
     \<and> tasks s' = (tasks s)(t \<mapsto> tk') \<and> pending s' n (map TaskNode (ts @ [t]))
     \<and> finish tk' = \<lparr>handler = Some Request_Foward, p1 = Some (Http_Request (cx_r cx))\<rparr>
     \<and> closure tk' = \<lparr>handler = Some Foward_Done, p1 = Some (Rpc_Channel (c + 5))\<rparr>
     \<and> res_length tk' = int (length (pb_bytes pb m)) \<and> chain_holds s' (Res_bufs t) (pb_bytes pb m)
     \<and> c_string (path tk') = map_option (\<lambda>rest. forward_target @ rest) (c_string (drop 37 (path tk)))
     \<and> map_option ch_done (channels s' (c + 5)) = Some (Some (Forward_Done_Cb c (c + 1) (c + 2)))
     \<and> map_option ch_done (channels s' c) = Some (Some Finish_Request_Cb)
     \<and> messages s' (c + 3) = Some m \<and> messages s' (c + 4) = Some None \<and> calls s' = calls s"
proof -
  have sp: "spare (pb_pick pb) (chunks s) (Suc (Suc 0))" using assms(10) by (simp add: numeral_2_eq_2)
  have tgt: "0 \<notin> set forward_target" by (simp add: forward_target_def ascii_def)
  obtain s' where s': "ngxrpc_inspect_application_requeststatus pb t x s = Some s'" "sent_back t n ts nt s s'"
    "tasks s' = (tasks s)(t \<mapsto> tk\<lparr>res_length := int (length (pb_bytes pb m)),
          finish := \<lparr>handler = Some Request_Foward, p1 = Some (Http_Request (cx_r cx))\<rparr>,
          closure := \<lparr>handler = Some Foward_Done, p1 = Some (Rpc_Channel (c + 5))\<rparr>,
          path := forward_target @ drop 37 (path tk)\<rparr>)"
    "chain_holds s' (Res_bufs t) (pb_bytes pb m)"
    "channels s' = (channels s)(c \<mapsto> \<lparr>ch_r = cx_r cx, ch_task = Some t, ch_req = Some (c + 1), ch_res = Some (c + 2),
            ch_pre = None, ch_done = Some Finish_Request_Cb\<rparr>,
          c + 5 \<mapsto> \<lparr>ch_r = cx_r cx, ch_task = None, ch_req = Some (c + 3), ch_res = Some (c + 4),
            ch_pre = Some c, ch_done = Some (Forward_Done_Cb c (c + 1) (c + 2))\<rparr>)"
    "messages s' = (messages s)(c + 1 \<mapsto> m, c + 2 \<mapsto> None, c + 3 \<mapsto> m, c + 4 \<mapsto> None)"
    using requeststatus_ok [OF assms(1-9) sp assms(11,12)] by blast
  show ?thesis
    by (rule exI [of _ s'], rule exI [of _ "tk\<lparr>res_length := int (length (pb_bytes pb m)),
          finish := \<lparr>handler = Some Request_Foward, p1 = Some (Http_Request (cx_r cx))\<rparr>,
          closure := \<lparr>handler = Some Foward_Done, p1 = Some (Rpc_Channel (c + 5))\<rparr>,
          path := forward_target @ drop 37 (path tk)\<rparr>"])
      (use s' sent_backD [OF s'(2)] c_string_append [OF tgt] in simp)
qed

lemma demo_call_tail: "c_string (drop 37 (path zero_task)) = Some []"
  by (simp add: zero_task_def MAX_PATH_NAME_def c_string_def)

theorem requeststatus_forwards_witness:
  "\<exists>s' tk'. ngxrpc_inspect_application_requeststatus demo_pb 5 8 demo_call = Some s'
     \<and> tasks s' 5 = Some tk' \<and> pending s' 7 [TaskNode 5] \<and> c_string (path tk') = Some forward_target
     \<and> closure tk' = \<lparr>handler = Some Foward_Done, p1 = Some (Rpc_Channel 15)\<rparr>"
proof -
  have "pb_parse demo_pb [1, 2, 3] = (True, Some [1, 2, 3])" "length (pb_bytes demo_pb (Some [1, 2, 3])) \<le> 4096"
    "length (path (zero_task\<lparr>done_notify := Some 7, response_states := 200\<rparr>)) = MAX_PATH_NAME"
    by (simp_all add: demo_pb_def zero_task_def)
  from requeststatus_forwards [OF demo_call_ready(1,2) this(1) demo_call_ready(3) _ this(3) demo_call_ready(4) _
      demo_call_ready(5) demo_call_spare this(2), of 10]
  show ?thesis using demo_call_ready(9) by (auto simp: demo_call_tail)
qed

lemma call_done_simps:
  "call_done pb Finish_Request_Cb c req res st s = finish_request pb c res st s"
  "call_done pb (Forward_Done_Cb oc oreq ores) c req res st s =
     do {
       m \<leftarrow> messages s res;
       om \<leftarrow> messages s ores;
       s \<leftarrow> Some (put_message ores (Some (case m of None \<Rightarrow> [] | Some j \<Rightarrow> j)) s);
       och \<leftarrow> channels s oc;
       h \<leftarrow> ch_done och;
       call_done pb h oc req res st s
     }"
  by (subst call_done.simps, simp)+

lemma foward_done_ok:
  fixes s :: "'z cstate_scheme"
  assumes "load s (tasks s) t = Some tk" "done_notify tk = Some n"
    and "channels s nc = Some v" "ch_req v = Some req" "ch_res v = Some res" "ch_pre v = Some c"
    and "ch_done v = Some (Forward_Done_Cb c oreq ores)"
    and "channels s c = Some och" "ch_task och = Some t" "ch_done och = Some Finish_Request_Cb" "nc \<noteq> c"
    and "messages s res = Some old" "messages s ores = Some older" "res \<noteq> ores"
    and "one_buffer s (Req_bufs t) bs" "pb_parse pb bs = (ok, m)" "length (pb_bytes pb m) \<le> 4096"
    and "pending s n (map TaskNode ts)" "t \<notin> set ts" "notifies s n = Some nt"
    and "spare (pb_pick pb) (chunks s) (Suc (Suc k))"
  shows "\<exists>s'. foward_done pb t nc s = Some s' \<and> sent_back t n ts nt s s'
     \<and> tasks s' = (tasks s)(t \<mapsto> tk\<lparr>res_length := int (length (pb_bytes pb m)),
          finish := \<lparr>handler = Some Request_Finish, p1 = Some (Http_Request (ch_r och))\<rparr>\<rparr>)
     \<and> chain_holds s' (Res_bufs t) (pb_bytes pb m)
     \<and> channels s' = (channels s)(c := None, nc := None)
     \<and> messages s' = (messages s)(res \<mapsto> m, ores \<mapsto> Some (case m of None \<Rightarrow> [] | Some j \<Rightarrow> j))"
proof -
  obtain f where f: "parse_chain pb (Req_bufs t) s = Some ((ok, m), s\<lparr>bufs := f\<rparr>)"
    using parse_one_buffer [OF assms(15), of pb] assms(16) by (metis)
  define s1 where "s1 = put_message ores (Some (case m of None \<Rightarrow> [] | Some j \<Rightarrow> j)) (put_message res m (s\<lparr>bufs := f\<rparr>))"
  have same: "chunks s1 = chunks s" "qnext s1 = qnext s" "qprev s1 = qprev s" "efds s1 = efds s"
    "requests s1 = requests s" "calls s1 = calls s" "hconfs s1 = hconfs s" "pconfs s1 = pconfs s"
    "notifies s1 = notifies s" "ctxs s1 = ctxs s" "conns s1 = conns s" "queues s1 = queues s" and same': "tasks s1 = tasks s" "channels s1 = channels s"
    "messages s1 = (messages s)(res \<mapsto> m, ores \<mapsto> Some (case m of None \<Rightarrow> [] | Some j \<Rightarrow> j))"
    by (simp_all add: s1_def put_message_def)
  have run: "foward_done pb t nc s = Option.bind (finish_request pb c res (response_states tk) s1) (delete_channel nc)"
    using assms(1,3-8,10,12,13) f
    by (simp add: foward_done_def call_done_simps s1_def put_message_def)
  have pre: "channels s1 c = Some och" "load s1 (tasks s1) t = Some tk" "messages s1 res = Some m"
    "spare (pb_pick pb) (chunks s1) (Suc (Suc k))" "notifies s1 n = Some nt"
    using assms(1,8,14,20,21) same same' by (simp_all add: load_def live_def)
  have p1: "pending s1 n (map TaskNode ts)"
    by (rule pending_same [OF assms(18)]) (simp_all add: same)
  obtain s2 where s2: "finish_request pb c res (response_states tk) s1 = Some s2"
    "tasks s2 = (tasks s1)(t \<mapsto> tk\<lparr>response_states := response_states tk, res_length := int (length (pb_bytes pb m)),
       finish := \<lparr>handler = Some Request_Finish, p1 = Some (Http_Request (ch_r och))\<rparr>\<rparr>)"
    "chain_holds s2 (Res_bufs t) (pb_bytes pb m)"
    "channels s2 = (channels s1)(c := None)" "messages s2 = messages s1" and sb: "sent_back t n ts nt s s2"
    by (rule finish_request_ok [OF pre(1) assms(9) pre(2,3) assms(17) pre(4) assms(2) p1 assms(19) pre(5),
          of "response_states tk"]) (auto intro: sent_back_before [OF _ same])
  let ?s' = "s2\<lparr>channels := (channels s2)(nc := None)\<rparr>"
  have "foward_done pb t nc s = Some ?s'"
    using run s2(1,4) same'(2) assms(3,11) by (simp add: delete_channel_def)
  moreover have "sent_back t n ts nt s ?s'" by (rule sent_back_after [OF sb]) simp_all
  moreover have "chain_holds ?s' (Res_bufs t) (pb_bytes pb m)" using s2(3) chain_holds_cong [of ?s' s2] by simp
  moreover have "tk\<lparr>response_states := response_states tk, res_length := int (length (pb_bytes pb m)),
       finish := \<lparr>handler = Some Request_Finish, p1 = Some (Http_Request (ch_r och))\<rparr>\<rparr>
     = tk\<lparr>res_length := int (length (pb_bytes pb m)),
       finish := \<lparr>handler = Some Request_Finish, p1 = Some (Http_Request (ch_r och))\<rparr>\<rparr>" by simp
  ultimately show ?thesis
    using s2(2,4,5) same' by (intro exI [of _ ?s']) simp
qed

text \<open>
  C19. The end of a forwarded call: \<open>foward_done\<close> on a task that came back from a subrequest,
  with the subrequest's response in one buffer. The field of the response is copied into the
  original response, and the task goes to the end of the worker's list to answer the original
  request with the status of the subrequest and the message that was parsed, whether or not protobuf accepted the bytes.
  Both channels are deleted, and no message is.
\<close>

theorem foward_done_finishes:
  fixes s :: "'z cstate_scheme"
  assumes "load s (tasks s) t = Some tk" "done_notify tk = Some n"
    and "channels s nc = Some v" "ch_req v = Some req" "ch_res v = Some res" "ch_pre v = Some c"
    and "ch_done v = Some (Forward_Done_Cb c oreq ores)"
    and "channels s c = Some och" "ch_task och = Some t" "ch_done och = Some Finish_Request_Cb" "nc \<noteq> c"
    and "messages s res = Some old" "messages s ores = Some older" "res \<noteq> ores"
    and "one_buffer s (Req_bufs t) bs" "pb_parse pb bs = (ok, m)" "length (pb_bytes pb m) \<le> 4096"
    and "pending s n (map TaskNode ts)" "t \<notin> set ts" "notifies s n = Some nt"
    and "spare (pb_pick pb) (chunks s) 2"
  shows "\<exists>s'. foward_done pb t nc s = Some s'
     \<and> tasks s' = (tasks s)(t \<mapsto> tk\<lparr>res_length := int (length (pb_bytes pb m)),
          finish := \<lparr>handler = Some Request_Finish, p1 = Some (Http_Request (ch_r och))\<rparr>\<rparr>)
     \<and> pending s' n (map TaskNode (ts @ [t])) \<and> chain_holds s' (Res_bufs t) (pb_bytes pb m)
     \<and> channels s' = (channels s)(c := None, nc := None)
     \<and> messages s' = (messages s)(res \<mapsto> m, ores \<mapsto> Some (case m of None \<Rightarrow> [] | Some j \<Rightarrow> j))
     \<and> calls s' = calls s"
proof -
  have sp: "spare (pb_pick pb) (chunks s) (Suc (Suc 0))" using assms(21) by (simp add: numeral_2_eq_2)
  show ?thesis
    using foward_done_ok [OF assms(1-20) sp] sent_backD(1,4) by blast
qed

theorem foward_done_finishes_witness:
  "\<exists>s'. foward_done demo_pb 5 3 demo_call = Some s' \<and> pending s' 7 [TaskNode 5]
     \<and> chain_holds s' (Res_bufs 5) [9, 1, 2, 3] \<and> channels s' 0 = None \<and> channels s' 3 = None
     \<and> messages s' 2 = Some (Some [1, 2, 3])"
proof -
  let ?v = "\<lparr>ch_r = 0, ch_task = None, ch_req = Some 4, ch_res = Some 5, ch_pre = Some 0,
     ch_done = Some (Forward_Done_Cb 0 1 2)\<rparr>"
  let ?o = "\<lparr>ch_r = 0, ch_task = Some 5, ch_req = Some 1, ch_res = Some 2, ch_pre = None,
     ch_done = Some Finish_Request_Cb\<rparr>"
  have "channels demo_call 3 = Some ?v" "channels demo_call 0 = Some ?o" "messages demo_call 5 = Some None"
    "messages demo_call 2 = Some None"
    by (simp_all add: demo_call_def wstate.extend_def cstate.fields_def)
  moreover have "pb_parse demo_pb [1, 2, 3] = (True, Some [1, 2, 3])" "length (pb_bytes demo_pb (Some [1, 2, 3])) \<le> 4096"
    "pb_bytes demo_pb (Some [1, 2, 3]) = [9, 1, 2, 3]"
    by (simp_all add: demo_pb_def)
  ultimately show ?thesis
    using foward_done_finishes [OF demo_call_ready(3) _ _ _ _ _ _ _ _ _ _ _ _ _ demo_call_ready(2) _ _ demo_call_ready(4) _
        demo_call_ready(5) demo_call_spare, of 3 ?v 4 5 0 1 2 ?o None None True "Some [1, 2, 3]"] by fastforce
qed

end
