(* ===== verification/Whole_Call.thy ===== *)
theory Whole_Call
  imports Channel_Properties
begin

text \<open>
  The composition of the parts: a request's way from the HTTP handler of a worker over the queue, a
  processor and its method back to the worker and the client, and the way of a forwarded call.
\<close>

section \<open>One turn of each process\<close>

lemma pop_keeps_pending:
  assumes p: "proc_pending s c n (x # xs)" and w: "pending s w ys" and pop: "cycle_pop c s = Some (Some x, s1)"
    and dj: "w \<noteq> n" "set ys \<inter> set (x # xs) = {}" "x \<noteq> NotifyHead w" "NotifyHead w \<notin> set xs" "NotifyHead n \<notin> set ys"
  shows "pending s1 w ys"
proof -
  have pp: "pending s n (x # xs)" and pe: "pending_pop n s = Some (Some x, s1)"
    using p pop by (simp_all add: proc_pending_def cycle_pop_eq)
  obtain s' where s': "ngx_rpc_notify_pop_task n s = Some (NGX_OK, Some x, s')"
    "\<And>p ys. ring s p ys \<Longrightarrow> set (p # ys) \<inter> set (NotifyHead n # x # xs) = {} \<Longrightarrow> ring s' p ys"
    using pop_task_ok [OF pp] by blast
  have "s' = s1" using pe s'(1) by (simp add: pending_pop_def)
  then have "ring s1 (NotifyHead w) ys"
    using s'(2) [OF pending_ring [OF w]] dj by auto
  then show ?thesis using w links_frame(2) [OF pending_pop_links [OF pe]] by (simp add: pending_def)
qed

text \<open>\<open>relinked s s'\<close>: the states differ at most in the links of the lists.\<close>

definition relinked :: "'z qstate_scheme \<Rightarrow> 'z qstate_scheme \<Rightarrow> bool" where
  "relinked s s' \<longleftrightarrow> s' = s\<lparr>qnext := qnext s', qprev := qprev s'\<rparr>"

lemma relinked_same:
  fixes s s' :: "'z cstate_scheme"
  assumes "relinked s s'"
  shows "chunks s' = chunks s" "tasks s' = tasks s" "requests s' = requests s" "calls s' = calls s"
    "hconfs s' = hconfs s" "pconfs s' = pconfs s" "notifies s' = notifies s" "efds s' = efds s" "ctxs s' = ctxs s"
    "channels s' = channels s" "messages s' = messages s" "next_obj s' = next_obj s"
    "load s' f = load s f" "one_buffer s' h bs = one_buffer s h bs" "chain_holds s' h bs = chain_holds s h bs"
    "drained s' h = drained s h" "live s' a = live s a"
proof -
  have e: "s' = s\<lparr>qnext := qnext s', qprev := qprev s'\<rparr>" using assms by (simp add: relinked_def)
  show "chunks s' = chunks s" "tasks s' = tasks s" "requests s' = requests s" "calls s' = calls s"
    "hconfs s' = hconfs s" "pconfs s' = pconfs s" "notifies s' = notifies s" "efds s' = efds s" "ctxs s' = ctxs s"
    "channels s' = channels s" "messages s' = messages s" "next_obj s' = next_obj s"
    "load s' f = load s f" "one_buffer s' h bs = one_buffer s h bs" "drained s' h = drained s h" "live s' a = live s a"
    by (subst e, simp add: load_def live_def fun_eq_iff one_buffer_def drained_def chain_defs mem_buf_def read_bytes_def)+
  show "chain_holds s' h bs = chain_holds s h bs"
    by (rule chain_holds_cong; subst e, simp)
qed

text \<open>The task is back on the worker's list \<open>w\<close>, and what is not a list, a task or memory is as before.\<close>

definition task_back :: "addr \<Rightarrow> addr \<Rightarrow> addr list \<Rightarrow> ngx_rpc_notify \<Rightarrow> 'z cstate_scheme \<Rightarrow> 'z cstate_scheme \<Rightarrow> bool" where
  "task_back t w ts wt s s' \<longleftrightarrow> pending s' w (map TaskNode (ts @ [t])) \<and> live s' t
     \<and> efds s' = efds (eventfd_write (event_fd wt) 1 s)
     \<and> requests s' = requests s \<and> calls s' = calls s \<and> hconfs s' = hconfs s \<and> pconfs s' = pconfs s
     \<and> notifies s' = notifies s \<and> ctxs s' = ctxs s"

lemma task_back_signal:
  "task_back t w ts wt s s' \<Longrightarrow> efds s (event_fd wt) = Some cnt \<Longrightarrow> cnt \<le> eventfd_max
    \<Longrightarrow> \<exists>cnt'. efds s' (event_fd wt) = Some cnt' \<and> 0 < cnt'"
  using eventfd_write_readable [of s "event_fd wt" cnt] by (auto simp: task_back_def)

lemma sent_back_task_back:
  assumes r: "relinked s s1" and "sent_back t w ts wt s1 s2"
  shows "task_back t w ts wt s s2"
  using assms(2)
  by (simp add: task_back_def sent_back_def eventfd_write_def relinked_same [OF r] split: option.splits)

lemma task_back_relinked:
  assumes "task_back t w ts wt s s1" and r: "relinked s1 s2" and "pending s2 w (map TaskNode (ts @ [t]))"
  shows "task_back t w ts wt s s2"
  using assms(1,3) by (simp add: task_back_def relinked_same [OF r])

text \<open>
  The loop of a processor with one task on its list, whose function sends the task back. \<open>R\<close> is
  what the function establishes.
\<close>

lemma drain_single:
  fixes s :: "'z cstate_scheme"
  assumes p: "proc_pending s c n [TaskNode t]" and i: "idles s q ns"
    and tk: "load s (tasks s) t = Some tk" "closure tk = \<lparr>handler = Some f, p1 = a\<rparr>"
    and w: "pending s w (map TaskNode ts)" "t \<notin> set ts" "w \<noteq> n"
    and run: "\<And>s1. relinked s s1 \<Longrightarrow> pending s1 w (map TaskNode ts) \<Longrightarrow>
        \<exists>s2. exec f t a s1 = Some s2 \<and> sent_back t w ts wt s1 s2 \<and> R s2"
  shows "\<exists>s2. drain (cycle_pop c) (cycle_body exec) s = Some s2 \<and> proc_pending s2 c n [] \<and> idles s2 q ns
     \<and> task_back t w ts wt s s2 \<and> R s2"
proof -
  obtain s1 where s1: "cycle_pop c s = Some (Some (TaskNode t), s1)" "proc_pending s1 c n []"
    using proc_pool.pop_some [OF p] by blast
  have "pending_pop n s = Some (Some (TaskNode t), s1)"
    using p s1(1) by (simp add: proc_pending_def cycle_pop_eq)
  then have l1: "relinked s s1" unfolding relinked_def by (rule pending_pop_links)
  have i1: "idles s1 q ns" by (rule pop_keeps_idles [OF p i s1(1)]) simp_all
  have w1: "pending s1 w (map TaskNode ts)"
    by (rule pop_keeps_pending [OF p w(1) s1(1)]) (use w(2,3) in auto)
  obtain s2 where s2: "exec f t a s1 = Some s2" "sent_back t w ts wt s1 s2" "R s2"
    using run [OF l1 w1] by blast
  note b = sent_backD [OF s2(2)]
  have i2: "idles s2 q ns" using b(10) [of "QueueIdles q" "map NotifyIdles ns"] i1 by (auto simp: idles_def)
  have "pending s1 n []" using s1(2) by (simp add: proc_pending_def)
  then have "pending s2 n []"
    using b(7) b(10) [OF pending_ring [of s1 n "[]"]] w(3) by (auto simp: pending_def)
  then have n2: "proc_pending s2 c n []" using s1(2) b(6) by (simp add: proc_pending_def)
  have "cycle_body exec (TaskNode t) s1 = Some s2"
    using tk s2(1) by (simp add: cycle_body_def relinked_same [OF l1])
  moreover have "drain (cycle_pop c) (cycle_body exec) s2 = Some s2"
    using proc_pool.pop_none [OF n2] by (subst drain_unfold) simp
  ultimately have "drain (cycle_pop c) (cycle_body exec) s = Some s2"
    by (subst drain_unfold) (simp add: s1(1))
  then show ?thesis using n2 i2 s2(3) sent_back_task_back [OF l1 s2(2)] by blast
qed

text \<open>The whole cycle, for a processor that was taken from the idle list.\<close>

lemma cycle_single:
  fixes s :: "'z cstate_scheme"
  assumes p: "proc_pending s c n [TaskNode t]" and i: "idles s q ns" and n: "n \<notin> set ns"
    and cf: "pconfs s c = Some cf" "pc_queue cf = Some q"
    and tk: "load s (tasks s) t = Some tk" "closure tk = \<lparr>handler = Some f, p1 = a\<rparr>"
    and w: "pending s w (map TaskNode ts)" "t \<notin> set ts" "w \<noteq> n"
    and run: "\<And>s1. relinked s s1 \<Longrightarrow> pending s1 w (map TaskNode ts) \<Longrightarrow>
        \<exists>s2. exec f t a s1 = Some s2 \<and> sent_back t w ts wt s1 s2 \<and> R s2"
  shows "\<exists>s2 s'. ngx_proc_rpc_process_one_cycle exec c s = Some s' \<and> R s2 \<and> relinked s2 s'
     \<and> proc_pending s' c n [] \<and> idles s' q (n # ns) \<and> task_back t w ts wt s s'"
proof -
  obtain s2 where s2: "drain (cycle_pop c) (cycle_body exec) s = Some s2" "proc_pending s2 c n []" "idles s2 q ns"
    "task_back t w ts wt s s2" "R s2"
    using drain_single [where exec = exec and R = R, OF p i tk w run] by blast
  have pc: "pconfs s2 c = Some cf" "pc_notify cf = Some n" and w2: "pending s2 w (map TaskNode (ts @ [t]))"
    using s2(2,4) cf(1) by (simp_all add: proc_pending_def task_back_def)
  have "live s2 n" using s2(2) by (auto simp: proc_pending_def dest: pending_live)
  then obtain s3 where s3: "put_idle q n s2 = Some s3" "idles s3 q (n # ns)" "relinked s2 s3"
    "\<And>p ys. ring s2 p ys \<Longrightarrow> set (p # ys) \<inter> set (QueueIdles q # map NotifyIdles (n # ns)) = {} \<Longrightarrow> ring s3 p ys"
    using put_idle_ok [OF s2(3) _ n] unfolding relinked_def by blast
  have "ring s3 (NotifyHead n) []" "ring s3 (NotifyHead w) (map TaskNode (ts @ [t]))"
    using s3(4) [OF pending_ring [of s2 n "[]"]] s3(4) [OF pending_ring [OF w2]] s2(2)
    by (auto simp: proc_pending_def)
  then have "proc_pending s3 c n []" "pending s3 w (map TaskNode (ts @ [t]))"
    using s2(2) w2 relinked_same(6,7) [OF s3(3)] by (auto simp: proc_pending_def pending_def)
  moreover have "ngx_proc_rpc_process_one_cycle exec c s = Some s3"
    using s2(1) pc cf(2) s3(1) by (simp add: one_cycle_code)
  ultimately show ?thesis using s2(5) s3(2,3) task_back_relinked [OF s2(4) s3(3)] by blast
qed

text \<open>The cycle of a processor that is the first of the idle list already: it ties the list into a loop.\<close>

lemma cycle_single_idle:
  fixes s :: "'z cstate_scheme"
  assumes p: "proc_pending s c n [TaskNode t]" and i: "idles s q (n # ns)"
    and cf: "pconfs s c = Some cf" "pc_queue cf = Some q"
    and tk: "load s (tasks s) t = Some tk" "closure tk = \<lparr>handler = Some f, p1 = a\<rparr>"
    and w: "pending s w (map TaskNode ts)" "t \<notin> set ts" "w \<noteq> n"
    and run: "\<And>s1. relinked s s1 \<Longrightarrow> pending s1 w (map TaskNode ts) \<Longrightarrow>
        \<exists>s2. exec f t a s1 = Some s2 \<and> sent_back t w ts wt s1 s2 \<and> R s2"
  shows "\<exists>s2 s'. ngx_proc_rpc_process_one_cycle exec c s = Some s' \<and> R s2 \<and> relinked s2 s'
     \<and> idle_loop s' q n \<and> (\<forall>ms. \<not> idles s' q ms) \<and> task_back t w ts wt s s'"
proof -
  obtain s2 where s2: "drain (cycle_pop c) (cycle_body exec) s = Some s2" "proc_pending s2 c n []" "idles s2 q (n # ns)"
    "task_back t w ts wt s s2" "R s2"
    using drain_single [where exec = exec and R = R, OF p i tk w run] by blast
  have pc: "pconfs s2 c = Some cf" "pc_notify cf = Some n" and w2: "pending s2 w (map TaskNode (ts @ [t]))"
    using s2(2,4) cf(1) by (simp_all add: proc_pending_def task_back_def)
  obtain s3 where s3: "put_idle q n s2 = Some s3" "idle_loop s3 q n" "\<forall>ms. \<not> idles s3 q ms" "relinked s2 s3"
    "\<And>p ys. ring s2 p ys \<Longrightarrow> {QueueIdles q, NotifyIdles n} \<inter> set (p # ys) = {} \<Longrightarrow> ring s3 p ys"
    using put_idle_again [OF s2(3)] unfolding relinked_def by blast
  have "ring s3 (NotifyHead w) (map TaskNode (ts @ [t]))"
    by (rule s3(5) [OF pending_ring [OF w2]]) auto
  then have "pending s3 w (map TaskNode (ts @ [t]))"
    using w2 relinked_same(7) [OF s3(4)] by (simp add: pending_def)
  moreover have "ngx_proc_rpc_process_one_cycle exec c s = Some s3"
    using s2(1) pc cf(2) s3(1) by (simp add: one_cycle_code)
  ultimately show ?thesis using s2(5) s3(2-4) task_back_relinked [OF s2(4) s3(4)] by blast
qed

text \<open>A processor with one task, the method \<open>interface\<close>, on its list.\<close>

lemma cycle_answers:
  fixes s :: "'z cstate_scheme"
  assumes p: "proc_pending s c n [TaskNode t]" and i: "idles s q ns" "n \<notin> set ns"
    and cf: "pconfs s c = Some cf" "pc_queue cf = Some q"
    and tk: "load s (tasks s) t = Some tk" "closure tk = \<lparr>handler = Some (Method_Handler 0), p1 = Some (Rpc_Ctx x)\<rparr>"
    and cx: "load s (ctxs s) x = Some cx" "one_buffer s (Req_bufs t) bs" "pb_parse pb bs = (ok, m)"
    and w: "done_notify tk = Some w" "pending s w (map TaskNode ts)" "t \<notin> set ts" "notifies s w = Some wt" "w \<noteq> n"
    and sp: "spare (pb_pick pb) (chunks s) 2"
    and reply: "reply = (if ok then Some (ascii ''hehe'') else None)" "length (pb_bytes pb reply) \<le> 4096"
  shows "\<exists>s'. ngx_proc_rpc_process_one_cycle (rpc_exec pb) c s = Some s'
     \<and> tasks s' = (tasks s)(t \<mapsto> tk\<lparr>response_states := (if ok then 200 else 500),
          res_length := int (length (pb_bytes pb reply)),
          finish := \<lparr>handler = Some Request_Finish, p1 = Some (Http_Request (cx_r cx))\<rparr>\<rparr>)
     \<and> proc_pending s' c n [] \<and> idles s' q (n # ns) \<and> task_back t w ts wt s s'
     \<and> chain_holds s' (Res_bufs t) (pb_bytes pb reply)"
proof -
  let ?R = "\<lambda>u :: 'z cstate_scheme. tasks u = (tasks s)(t \<mapsto> tk\<lparr>response_states := (if ok then 200 else 500),
        res_length := int (length (pb_bytes pb reply)),
        finish := \<lparr>handler = Some Request_Finish, p1 = Some (Http_Request (cx_r cx))\<rparr>\<rparr>)
     \<and> chain_holds u (Res_bufs t) (pb_bytes pb reply)"
  have run: "\<exists>s2. rpc_exec pb (Method_Handler 0) t (Some (Rpc_Ctx x)) s1 = Some s2 \<and> sent_back t w ts wt s1 s2 \<and> ?R s2"
    if r: "relinked s s1" and w1: "pending s1 w (map TaskNode ts)" for s1
  proof -
    have pre: "load s1 (ctxs s1) x = Some cx" "one_buffer s1 (Req_bufs t) bs" "load s1 (tasks s1) t = Some tk"
      "notifies s1 w = Some wt" "spare (pb_pick pb) (chunks s1) (Suc (Suc 0))"
      using cx(1,2) tk(1) w(4) sp by (simp_all add: relinked_same [OF r] numeral_2_eq_2)
    show ?thesis
      using interface_ok [OF pre(1,2) cx(3) pre(3) w(1) w1 w(3) pre(4,5) reply]
      by (auto simp: rpc_exec_def relinked_same [OF r])
  qed
  obtain s2 s' where s': "ngx_proc_rpc_process_one_cycle (rpc_exec pb) c s = Some s'" "?R s2" "relinked s2 s'"
    "proc_pending s' c n []" "idles s' q (n # ns)" "task_back t w ts wt s s'"
    using cycle_single [where exec = "rpc_exec pb" and R = ?R, OF p i cf tk w(2,3,5) run] by blast
  show ?thesis
    using s'(1,2,4-6) by (intro exI [of _ s']) (simp add: relinked_same [OF s'(3)])
qed

lemma owned_one_buffer:
  assumes o: "owned_chain s (Req_bufs t) us" "owned_bytes us = [bs]" and f: "copied_in_memory s0 s [(c, b)] us"
    and src: "mem_buf s0 b bf bs"
  shows "one_buffer s (Req_bufs t) bs"
proof -
  obtain c' nb k where us: "us = [(c', nb, k, bs)]"
    using o(2) f by (cases us) (auto simp: owned_bytes_def list_all2_Cons1)
  have seg: "owned_seg s (Some (Req_bufs t)) us" using o(1) us by (simp add: owned_chain_def)
  have "in_memory s0 b" using src by (auto simp: mem_buf_def in_memory_def)
  then obtain nf where nf: "load s (bufs s) nb = Some nf" "\<not> b_in_file nf"
    using f us by (auto simp: in_memory_def)
  have "get_buf (Req_bufs t) s = Some (Some nb)" "get_link (Req_bufs t) s = Some None" "owned_buf s nb k bs"
    using seg us by (auto split: option.splits)
  moreover have "mem_buf s nb nf bs"
    using \<open>owned_buf s nb k bs\<close> nf src owned_buf_content [of s nb k bs]
    by (auto simp: owned_buf_def mem_buf_def load_Some_iff ptr_diff_def read_bytes_def load_def live_def)
  ultimately show ?thesis by (auto simp: one_buffer_def)
qed

lemma idles_distinct: "idles s q ns \<Longrightarrow> distinct ns"
  unfolding idles_def by (drule ring_distinct) (simp add: distinct_map)

lemma eventfd_bounded:
  assumes "efds s fd = Some c" "c \<le> eventfd_max"
  shows "\<exists>c'. efds (eventfd_write fd' 1 s) fd = Some c' \<and> c' \<le> eventfd_max"
  using assms by (auto simp: eventfd_write_def split: option.splits)

section \<open>The whole call\<close>

lemma posted_is_answered:
  fixes s :: "'z cstate_scheme"
  assumes "requests s r = Some q" "r_body q = Some (Some c)" "r_ctx q = Some x"
    and "load s (ctxs s) x = Some cx" "cx_task cx = None" "cx_r cx = r"
    and "hconfs s (cx_conf cx) = Some cf" "hc_queue cf = Some qu" "hc_notify cf = Some w"
    and "cx_method cx < length (hc_methods cf)" "m_handler (hc_methods cf ! cx_method cx) = Some (Method_Handler 0)"
    and "one_buffer s c bs" "pb_parse pb bs = (ok, m)"
    and "load s (queues s) qu = Some qd" "idles s qu (n # ns)" "proc_pending s p n []"
    and "pconfs s p = Some pcf" "pc_queue pcf = Some qu"
    and "pending s w []" "w \<noteq> n" "notifies s n = Some nt" "notifies s w = Some wt"
    and "efds s (event_fd nt) = Some cn" "cn \<le> eventfd_max" "efds s (event_fd wt) = Some cw" "cw \<le> eventfd_max"
    and "spare (en_pick env) (chunks s) 5" "pb_pick pb = en_pick env" "en_cleanup env"
    and "reply = (if ok then Some (ascii ''hehe'') else None)"
    and "pb_bytes pb reply \<noteq> []" "length (pb_bytes pb reply) \<le> 4096"
  shows "\<exists>s1 s2 s3 t. ngx_http_rpc_post_async_handler env r s = Some s1
     \<and> (\<exists>k. efds s1 (event_fd nt) = Some k \<and> 0 < k)
     \<and> ngx_proc_rpc_process_one_cycle (rpc_exec pb) p s1 = Some s2
     \<and> (\<exists>k. efds s2 (event_fd wt) = Some k \<and> 0 < k) \<and> chain_holds s2 (Res_bufs t) (pb_bytes pb reply)
     \<and> idles s2 qu (n # ns) \<and> proc_pending s2 p n []
     \<and> ngx_http_rpc_process_notify_task (worker_run env cmp junk) (cx_conf cx) s2 = Some s3
     \<and> worker_pending s3 (cx_conf cx) w []
     \<and> calls s3 = [Finalize_Request r (en_filter env), Output_Filter r (Res_bufs t),
          Send_Header r (if ok then 200 else 500) (Some (int (length (pb_bytes pb reply))))] @ calls s"
proof -
  obtain b bf where b: "get_buf c s = Some (Some b)" "get_link c s = Some None" "mem_buf s b bf bs"
    using assms(12) by (auto simp: one_buffer_def)
  have src: "chain_seg s (Some c) [(c, b)]" "chain_bytes s [(c, b)] [bs]"
    "spare (en_pick env) (chunks s) (3 * length [(c, b)] + 2)"
    using b(1,2) mem_buf_content [OF b(3)] assms(27) by simp_all
  have pn: "pending s n (map TaskNode [])" using assms(16) by (simp add: proc_pending_def)
  obtain s1 t us where s1: "ngx_http_rpc_post_async_handler env r s = Some s1"
    "load s1 (tasks s1) t = Some (submitted_task cf q (cx_method cx) x n)" "owned_chain s1 (Req_bufs t) us"
    "owned_bytes us = [bs]" "copied_in_memory s s1 [(c, b)] us" "idles s1 qu ns" "pending s1 n [TaskNode t]"
    "efds s1 = efds (eventfd_write (event_fd nt) 1 s)" "ctxs s1 = (ctxs s)(x \<mapsto> cx\<lparr>cx_task := Some t\<rparr>)"
    "requests s1 = requests s" "calls s1 = calls s" "hconfs s1 = hconfs s" "pconfs s1 = pconfs s"
    "notifies s1 = notifies s" "spare (en_pick env) (chunks s1) 2" "\<And>a. live s a \<Longrightarrow> live s1 a"
    "\<And>p ys. ring s p ys \<Longrightarrow> set (p # ys) \<inter>
       (set (QueueIdles qu # map NotifyIdles ns) \<union> set (NotifyHead n # map TaskNode [])) = {} \<Longrightarrow> ring s1 p ys"
    by (rule post_async_submits [OF assms(1-5,7,8,10) src assms(14,15) pn assms(21)]) auto
  let ?tk = "submitted_task cf q (cx_method cx) x n"
  have tk: "closure ?tk = \<lparr>handler = Some (Method_Handler 0), p1 = Some (Rpc_Ctx x)\<rparr>" "done_notify ?tk = Some w"
    using assms(9,11) by (simp_all add: submitted_task_def)
  have cx1: "load s1 (ctxs s1) x = Some (cx\<lparr>cx_task := Some t\<rparr>)"
    using assms(4) s1(9,16) by (simp add: load_Some_iff)
  have w1: "pending s1 w (map TaskNode [])"
    using s1(17) [OF pending_ring [OF assms(19)]] assms(19,20) s1(14) by (auto simp: pending_def)
  have p1: "proc_pending s1 p n [TaskNode t]" using assms(16) s1(7,13) by (simp add: proc_pending_def)
  have n1: "n \<notin> set ns" using idles_distinct [OF assms(15)] by simp
  obtain ew where ew: "efds s1 (event_fd wt) = Some ew" "ew \<le> eventfd_max"
    using eventfd_bounded [OF assms(25,26)] s1(8) by metis
  have k1: "pconfs s1 p = Some pcf" "notifies s1 w = Some wt" "spare (pb_pick pb) (chunks s1) 2"
    using assms(17,22,28) s1(13-15) by simp_all
  obtain s2 where s2: "ngx_proc_rpc_process_one_cycle (rpc_exec pb) p s1 = Some s2"
    "tasks s2 = (tasks s1)(t \<mapsto> ?tk\<lparr>response_states := (if ok then 200 else 500),
       res_length := int (length (pb_bytes pb reply)),
       finish := \<lparr>handler = Some Request_Finish, p1 = Some (Http_Request r)\<rparr>\<rparr>)"
    "proc_pending s2 p n []" "idles s2 qu (n # ns)" "task_back t w [] wt s1 s2"
    "chain_holds s2 (Res_bufs t) (pb_bytes pb reply)"
    using cycle_answers [OF p1 s1(6) n1 k1(1) assms(18) s1(2) tk(1) cx1 owned_one_buffer [OF s1(3-5) b(3)]
        assms(13) tk(2) w1 _ k1(2) assms(20) k1(3) assms(30,32)] assms(6) by auto
  have k2: "pending s2 w [TaskNode t]" "live s2 t" "requests s2 = requests s1" "calls s2 = calls s1" "hconfs s2 = hconfs s1"
    "\<exists>k. efds s2 (event_fd wt) = Some k \<and> 0 < k"
    using s2(5) task_back_signal [OF s2(5) ew] by (simp_all add: task_back_def)
  have "worker_pending s2 (cx_conf cx) w [TaskNode t]"
    using k2 s1(12) assms(7,9) by (simp add: worker_pending_def)
  moreover have "\<forall>y \<in> set [TaskNode t]. answerable s2 y"
    using s2(2) k2 s1(10) assms(1) by (simp add: answerable_def load_def finish_request_of_def)
  ultimately obtain s3 where s3: "ngx_http_rpc_process_notify_task (worker_run env cmp junk) (cx_conf cx) s2 = Some s3"
    "worker_pending s3 (cx_conf cx) w []" "calls s3 = fold (\<lambda>y cs. task_answer env (tasks s2) y @ cs) [TaskNode t] (calls s2)"
    using process_notify_drains [OF _ _ assms(29)] by blast
  have "task_answer env (tasks s2) (TaskNode t) = [Finalize_Request r (en_filter env), Output_Filter r (Res_bufs t),
      Send_Header r (if ok then 200 else 500) (Some (int (length (pb_bytes pb reply))))]"
    using s2(2) assms(31) by (simp add: task_answer_def finish_request_of_def)
  moreover have "\<exists>k. efds s1 (event_fd nt) = Some k \<and> 0 < k"
    using eventfd_write_readable [of s "event_fd nt" cn] assms(23,24) s1(8) by auto
  ultimately show ?thesis
    using s1(1,11) s2(1,3,4,6) k2 s3
    by (intro exI [of _ s1] exI [of _ s2] exI [of _ s3] exI [of _ t]) simp
qed

text \<open>
  What nginx does between the handler and the callback it was given: it hangs the body it has read
  into the request.
\<close>

definition body_read :: "nat \<Rightarrow> chaddr \<Rightarrow> 'z wstate_scheme \<Rightarrow> 'z wstate_scheme" where
  "body_read r c s = (case requests s r of
     None \<Rightarrow> s | Some q \<Rightarrow> put_request r (q\<lparr>r_body := Some (Some c)\<rparr>) s)"

lemma context_made_kept:
  assumes "\<not> live s x" and "s' = body_read r b (context_made c i r q x s)"
  shows "mem_kept s s'" "live s a \<Longrightarrow> live s' a" "live s' x"
    "ctxs s' x = Some \<lparr>cx_conf = c, cx_method = i, cx_r = r, cx_task = None\<rparr>"
    "requests s' r = Some (q\<lparr>r_cleanups := (Ctx_Destroy, x) # r_cleanups q, r_ctx := Some x, r_body := Some (Some b)\<rparr>)"
    "hconfs s' = hconfs s" "pconfs s' = pconfs s" "queues s' = queues s" "notifies s' = notifies s" "efds s' = efds s"
    "chunks s' = chunks (context_made c i r q x s)" "calls s' = Read_Client_Body r # calls s"
    "ring s p ys \<Longrightarrow> ring s' p ys"
proof -
  have l: "chowner ch \<noteq> x" if "live s (chowner ch)" for ch using that assms(1) by auto
  show "mem_kept s s'"
    using assms(1) by (auto simp: assms(2) body_read_def context_made_def put_request_def mem_kept_but_def live_def)
  show lv: "live s' a" if "live s a" for a
    using that by (simp add: assms(2) body_read_def context_made_def put_request_def live_def)
  show "ring s' p ys" if "ring s p ys"
    by (rule ring_links_live [OF that]) (use lv in \<open>simp_all add: assms(2) body_read_def context_made_def put_request_def\<close>)
qed (simp_all add: assms(2) body_read_def context_made_def put_request_def live_def)

text \<open>
  A service that waits for requests: the queue object \<open>qu\<close> with the idle processors \<open>n # ns\<close>, the
  configuration \<open>p\<close> of the processor \<open>n\<close>, whose list is empty, and the worker's notify object \<open>w\<close>, whose list is
  empty too; \<open>fn\<close> and \<open>fw\<close> are the two eventfds.
\<close>

definition service_ready ::
  "'z pstate_scheme \<Rightarrow> addr \<Rightarrow> addr \<Rightarrow> addr \<Rightarrow> addr list \<Rightarrow> addr \<Rightarrow> int \<Rightarrow> int \<Rightarrow> bool" where
  "service_ready s qu p n ns w fn fw \<longleftrightarrow>
     load s (queues s) qu \<noteq> None \<and> idles s qu (n # ns) \<and> proc_pending s p n []
     \<and> Option.bind (pconfs s p) pc_queue = Some qu \<and> pending s w [] \<and> w \<noteq> n
     \<and> map_option event_fd (notifies s n) = Some fn \<and> (\<exists>k. efds s fn = Some k \<and> k \<le> eventfd_max)
     \<and> map_option event_fd (notifies s w) = Some fw \<and> (\<exists>k. efds s fw = Some k \<and> k \<le> eventfd_max)"

lemma service_readyE:
  assumes "service_ready s qu p n ns w fn fw"
  obtains qd pcf nt wt cn cw where "load s (queues s) qu = Some qd" "idles s qu (n # ns)" "proc_pending s p n []"
    "pconfs s p = Some pcf" "pc_queue pcf = Some qu" "pending s w []" "w \<noteq> n" "notifies s n = Some nt" "notifies s w = Some wt"
    "efds s fn = Some cn" "cn \<le> eventfd_max" "efds s fw = Some cw" "cw \<le> eventfd_max"
    "fn = event_fd nt" "fw = event_fd wt"
proof -
  note r = assms [unfolded service_ready_def]
  obtain pcf where "pconfs s p = Some pcf" "pc_queue pcf = Some qu"
    using r by (auto simp: fault_simps)
  moreover obtain nt wt where "notifies s n = Some nt" "fn = event_fd nt" "notifies s w = Some wt" "fw = event_fd wt"
    using r by auto
  ultimately show thesis using r that by blast
qed

lemma ready_answers:
  fixes s :: "'z cstate_scheme"
  assumes "hconfs s hc = Some cf" "hc_queue cf = Some qu" "hc_notify cf = Some w" "hc_hash cf = Some h"
    and "requests s r = Some q" "r_ctx q = None" "h (r_uri q) = Some i"
    and "i < length (hc_methods cf)" "m_handler (hc_methods cf ! i) = Some (Method_Handler 0)"
    and "one_buffer s c bs" "pb_parse pb bs = (ok, m)"
    and "service_ready s qu p n ns w fn fw"
    and "spare (en_pick env) (chunks s) 6" "pb_pick pb = en_pick env" "en_cleanup env"
    and "reply = (if ok then Some (ascii ''hehe'') else None)"
    and "pb_bytes pb reply \<noteq> []" "length (pb_bytes pb reply) \<le> 4096"
  shows "\<exists>s0 s1 s2 s3 t. ngx_http_rpc_http_handler env (Some hc) r s = Some (NGX_AGAIN, s0)
     \<and> ngx_http_rpc_post_async_handler env r (body_read r c s0) = Some s1
     \<and> (\<exists>k. efds s1 fn = Some k \<and> 0 < k)
     \<and> ngx_proc_rpc_process_one_cycle (rpc_exec pb) p s1 = Some s2
     \<and> (\<exists>k. efds s2 fw = Some k \<and> 0 < k) \<and> chain_holds s2 (Res_bufs t) (pb_bytes pb reply)
     \<and> idles s2 qu (n # ns) \<and> proc_pending s2 p n []
     \<and> ngx_http_rpc_process_notify_task (worker_run env cmp junk) hc s2 = Some s3
     \<and> worker_pending s3 hc w []
     \<and> calls s3 = [Finalize_Request r (en_filter env), Output_Filter r (Res_bufs t),
          Send_Header r (if ok then 200 else 500) (Some (int (length (pb_bytes pb reply)))),
          Read_Client_Body r] @ calls s"
proof -
  obtain qd pcf nt wt cn cw where rd: "load s (queues s) qu = Some qd" "idles s qu (n # ns)" "proc_pending s p n []"
    "pconfs s p = Some pcf" "pc_queue pcf = Some qu" "pending s w []" "w \<noteq> n" "notifies s n = Some nt" "notifies s w = Some wt"
    "efds s fn = Some cn" "cn \<le> eventfd_max" "efds s fw = Some cw" "cw \<le> eventfd_max"
    "fn = event_fd nt" "fw = event_fd wt"
    using assms(12) by (rule service_readyE)
  have "spare (en_pick env) (chunks s) (Suc 5)" using assms(13) by simp
  then obtain x where x: "ngx_http_rpc_http_handler env (Some hc) r s = Some (NGX_AGAIN, context_made hc i r q x s)"
    "\<not> live s x" "spare (en_pick env) (chunks (context_made hc i r q x s)) 5"
    by (rule handler_finds [OF assms(1,2,4,5,6) rd(1) _ assms(15,7)])
  define s' where "s' = body_read r c (context_made hc i r q x s)"
  note k = context_made_kept [OF x(2) s'_def]
  have cx: "load s' (ctxs s') x = Some \<lparr>cx_conf = hc, cx_method = i, cx_r = r, cx_task = None\<rparr>"
    using k(3,4) by (simp add: load_Some_iff)
  have pre: "load s' (queues s') qu = Some qd" "idles s' qu (n # ns)" "proc_pending s' p n []" "pending s' w []"
    using rd(1-3,6) k(2,6-9,13) by (simp_all add: load_Some_iff idles_def proc_pending_def pending_def)
  have answer: "\<exists>s1 s2 s3 t. ngx_http_rpc_post_async_handler env r s' = Some s1
     \<and> (\<exists>k. efds s1 (event_fd nt) = Some k \<and> 0 < k)
     \<and> ngx_proc_rpc_process_one_cycle (rpc_exec pb) p s1 = Some s2
     \<and> (\<exists>k. efds s2 (event_fd wt) = Some k \<and> 0 < k) \<and> chain_holds s2 (Res_bufs t) (pb_bytes pb reply)
     \<and> idles s2 qu (n # ns) \<and> proc_pending s2 p n []
     \<and> ngx_http_rpc_process_notify_task (worker_run env cmp junk) hc s2 = Some s3
     \<and> worker_pending s3 hc w []
     \<and> calls s3 = [Finalize_Request r (en_filter env), Output_Filter r (Res_bufs t),
          Send_Header r (if ok then 200 else 500) (Some (int (length (pb_bytes pb reply))))] @ calls s'"
    using posted_is_answered [OF k(5) _ _ cx, where cmp = cmp and junk = junk and p = p and pb = pb and env = env
        and bs = bs and ok = ok and m = m and qu = qu and n = n and w = w and nt = nt and wt = wt and reply = reply
        and c = c and cf = cf and qd = qd and ns = ns and pcf = pcf and cn = cn and cw = cw]
      kept_one_buffer [OF k(1) _ assms(10)] pre x(3) assms(1-11,13-18) rd(4,5,7-9) rd(10-13) [unfolded rd(14,15)] k(6-11) by simp
  show ?thesis
    by (rule exI [of _ "context_made hc i r q x s"]) (use answer x(1) k(12) in \<open>simp add: s'_def [symmetric] rd(14,15)\<close>)
qed

text \<open>
  C5. A call of the method \<open>interface\<close>, from the request to the answer. The worker's handler finds
  the method by the request's URI and makes a context; when nginx has read the body, which is one buffer,
  the worker's second handler puts a task with a copy of it on the list of the first idle processor \<open>n\<close> and
  signals that processor. One cycle of the processor runs the method, puts the task on the worker's
  list, signals the worker, and makes the processor the first idle one again. The worker's loop then sends the
  client the status, 200 if protobuf accepted the body and 500 otherwise, the length of the response
  and the response chain, which holds exactly the bytes of the response, and finalizes the
  request. The calls are all that nginx is asked to do for the request. Six allocations suffice.
\<close>

theorem request_is_answered:
  fixes s :: "'z cstate_scheme"
  assumes "hconfs s hc = Some cf" "hc_queue cf = Some qu" "hc_notify cf = Some w" "hc_hash cf = Some h"
    and "requests s r = Some q" "r_ctx q = None" "h (r_uri q) = Some i"
    and "i < length (hc_methods cf)" "m_handler (hc_methods cf ! i) = Some (Method_Handler 0)"
    and "one_buffer s c bs" "pb_parse pb bs = (ok, m)"
    and "load s (queues s) qu = Some qd" "idles s qu (n # ns)" "proc_pending s p n []"
    and "pconfs s p = Some pcf" "pc_queue pcf = Some qu"
    and "pending s w []" "w \<noteq> n" "notifies s n = Some nt" "notifies s w = Some wt"
    and "efds s (event_fd nt) = Some cn" "cn \<le> eventfd_max" "efds s (event_fd wt) = Some cw" "cw \<le> eventfd_max"
    and "spare (en_pick env) (chunks s) 6" "pb_pick pb = en_pick env" "en_cleanup env"
    and "reply = (if ok then Some (ascii ''hehe'') else None)"
    and "pb_bytes pb reply \<noteq> []" "length (pb_bytes pb reply) \<le> 4096"
  shows "\<exists>s0 s1 s2 s3 t. ngx_http_rpc_http_handler env (Some hc) r s = Some (NGX_AGAIN, s0)
     \<and> ngx_http_rpc_post_async_handler env r (body_read r c s0) = Some s1
     \<and> (\<exists>k. efds s1 (event_fd nt) = Some k \<and> 0 < k)
     \<and> ngx_proc_rpc_process_one_cycle (rpc_exec pb) p s1 = Some s2
     \<and> (\<exists>k. efds s2 (event_fd wt) = Some k \<and> 0 < k) \<and> chain_holds s2 (Res_bufs t) (pb_bytes pb reply)
     \<and> idles s2 qu (n # ns) \<and> proc_pending s2 p n []
     \<and> ngx_http_rpc_process_notify_task (worker_run env cmp junk) hc s2 = Some s3
     \<and> worker_pending s3 hc w []
     \<and> calls s3 = [Finalize_Request r (en_filter env), Output_Filter r (Res_bufs t),
          Send_Header r (if ok then 200 else 500) (Some (int (length (pb_bytes pb reply)))),
          Read_Client_Body r] @ calls s"
proof -
  have "service_ready s qu p n ns w (event_fd nt) (event_fd wt)"
    using assms(12-24) by (simp add: service_ready_def)
  then show ?thesis by (rule ready_answers [OF assms(1-11) _ assms(25-30)])
qed

text \<open>The memory of one worker and one idle processor, before the request.\<close>

definition demo_idle :: cstate where
  "demo_idle = (wstate.extend (demo_http [3] [] []) (cstate.fields Map.empty Map.empty 10))\<lparr>
     pconfs := [0 \<mapsto> \<lparr>pc_shpool = Some 0, pc_queue = Some 1, pc_notify = Some 3, shm_size = 0\<rparr>],
     requests := [0 \<mapsto> demo_request\<lparr>r_ctx := None, r_body := None\<rparr>]\<rparr>"

lemma demo_idle_ready:
  "hconfs demo_idle 0 = Some \<lparr>hc_queue = Some 1, hc_notify = Some 7,
     hc_methods = [\<lparr>m_name = [47, 97], m_impl = Some 1, m_handler = Some (Method_Handler 0), m_log = None\<rparr>], hc_hash = Some [[47, 97] \<mapsto> 0]\<rparr>"
  "requests demo_idle 0 = Some (demo_request\<lparr>r_ctx := None, r_body := None\<rparr>)"
  "load demo_idle (queues demo_idle) 1 = Some \<lparr>notify_slot = Some 2, notify_num = 2\<rparr>" "idles demo_idle 1 [3]"
  "pconfs demo_idle 0 = Some \<lparr>pc_shpool = Some 0, pc_queue = Some 1, pc_notify = Some 3, shm_size = 0\<rparr>"
  "proc_pending demo_idle 0 3 []" "pending demo_idle 7 []"
  "notifies demo_idle 3 = Some (demo_notify 10 0)" "notifies demo_idle 7 = Some (demo_notify 12 0)"
  "efds demo_idle 10 = Some 0" "efds demo_idle 12 = Some 0" "calls demo_idle = []"
  by (simp_all add: demo_idle_def wstate.extend_def cstate.fields_def proc_pending_def http_simps)

lemma demo_idle_body: "one_buffer demo_idle (Chain_cell 40) [1, 2, 3]"
  by (simp add: demo_idle_def wstate.extend_def cstate.fields_def demo_http_def load_def live_def
      one_buffer_def chain_defs mem_buf_def ptr_diff_def read_bytes_def numeral_eq_Suc)

lemma demo_idle_spare: "spare (en_pick demo_env) (chunks demo_idle) 6"
  using demo_http_spare [of 6 "[3]" "[]" "[]"]
  by (simp add: demo_idle_def wstate.extend_def cstate.fields_def demo_http_def)

theorem request_is_answered_witness:
  "\<exists>s0 s1 s2 s3 t. ngx_http_rpc_http_handler demo_env (Some 0) 0 demo_idle = Some (NGX_AGAIN, s0)
     \<and> ngx_http_rpc_post_async_handler demo_env 0 (body_read 0 (Chain_cell 40) s0) = Some s1
     \<and> ngx_proc_rpc_process_one_cycle (rpc_exec demo_pb) 0 s1 = Some s2
     \<and> chain_holds s2 (Res_bufs t) (9 # ascii ''hehe'')
     \<and> ngx_http_rpc_process_notify_task (worker_run demo_env (\<lambda>_. False) (\<lambda>_. 0)) 0 s2 = Some s3
     \<and> calls s3 = [Finalize_Request 0 0, Output_Filter 0 (Res_bufs t), Send_Header 0 200 (Some 5), Read_Client_Body 0]"
proof -
  have e: "event_fd (demo_notify 10 0) = 10" "event_fd (demo_notify 12 0) = 12" by (simp_all add: demo_notify_def)
  have pb: "pb_parse demo_pb [1, 2, 3] = (True, Some [1, 2, 3])" "pb_pick demo_pb = en_pick demo_env"
    "pb_bytes demo_pb (Some (ascii ''hehe'')) = 9 # ascii ''hehe''" "length (ascii ''hehe'') = 4"
    "en_cleanup demo_env" "en_filter demo_env = 0"
    by (simp_all add: demo_pb_def demo_env_def ascii_def)
  have q: "r_uri (demo_request\<lparr>r_ctx := None, r_body := None\<rparr>) = [47, 97]" by (simp add: demo_request_def)
  show ?thesis
    using request_is_answered [where cmp = "\<lambda>_. False" and junk = "\<lambda>_. 0" and i = 0 and cn = 0 and cw = 0,
        OF demo_idle_ready(1) _ _ _ demo_idle_ready(2) _ _ _ _ demo_idle_body pb(1) demo_idle_ready(3,4,6,5) _
          demo_idle_ready(7) _ demo_idle_ready(8,9) _ _ _ _ demo_idle_spare pb(2,5) refl]
      demo_idle_ready(10-12) e pb q by fastforce
qed

end
