(* ===== verification/Forwarded_Call.thy ===== *)
theory Forwarded_Call
  imports Whole_Call
begin

text \<open>
  A call that is forwarded: from the processor over the worker to a subrequest, and back from the end of the
  subrequest to the answer of the client.
\<close>

section \<open>The way out and the way back\<close>

lemma request_foward_ok:
  assumes "load s (tasks s) t = Some tk" "requests s r = Some q" "r_body q \<noteq> None"
    and "scan_headers cmp (r_headers q) 0 0 = Some found" "found = None \<or> r_in_length_hdr q \<noteq> None"
    and "c_string (path tk) = Some p"
  shows "\<exists>q'. ngx_http_rpc_request_foward cmp junk t r s = Some (s\<lparr>requests := (requests s)(r \<mapsto> q'),
     calls := Run_Posted r # Subrequest r p t # calls s\<rparr>)"
  using assms
  by (cases found)
    (auto simp: ngx_http_rpc_request_foward_def ngx_http_header_modify_content_length_def put_request_def log_call_def)

text \<open>The worker's loop over a list with one task that is to start a subrequest.\<close>

lemma worker_forwards:
  fixes s :: "'z cstate_scheme"
  assumes p: "worker_pending s c w [TaskNode t]"
    and tk: "load s (tasks s) t = Some tk" "finish tk = \<lparr>handler = Some Request_Foward, p1 = Some (Http_Request r)\<rparr>"
    and q: "requests s r = Some q" "r_body q \<noteq> None" "scan_headers cmp (r_headers q) 0 0 = Some found"
      "found = None \<or> r_in_length_hdr q \<noteq> None" "c_string (path tk) = Some p"
  shows "\<exists>s1 q'. ngx_http_rpc_process_notify_task (worker_run env cmp junk) c s = Some (s1\<lparr>requests := (requests s)(r \<mapsto> q'),
       calls := Run_Posted r # Subrequest r p t # calls s\<rparr>)
     \<and> relinked s s1 \<and> worker_pending s1 c w []
     \<and> (\<forall>p ys. ring s p ys \<longrightarrow> {NotifyHead w, TaskNode t} \<inter> set (p # ys) = {} \<longrightarrow> ring s1 p ys)"
proof -
  obtain s1 where s1: "worker_pop c s = Some (Some (TaskNode t), s1)" "worker_pending s1 c w []"
    using worker_pool.pop_some [OF p] by blast
  have pe: "pending_pop w s = Some (Some (TaskNode t), s1)" and pw: "pending s w [TaskNode t]"
    using p s1(1) by (simp_all add: worker_pending_def worker_pop_eq)
  have l1: "relinked s s1" unfolding relinked_def by (rule pending_pop_links [OF pe])
  obtain s' where s': "ngx_rpc_notify_pop_task w s = Some (NGX_OK, Some (TaskNode t), s')"
    "\<And>p ys. ring s p ys \<Longrightarrow> set (p # ys) \<inter> set [NotifyHead w, TaskNode t] = {} \<Longrightarrow> ring s' p ys"
    using pop_task_ok [OF pw] by auto
  have "s' = s1" using pe s'(1) by (simp add: pending_pop_def)
  then have rings: "\<forall>p ys. ring s p ys \<longrightarrow> {NotifyHead w, TaskNode t} \<inter> set (p # ys) = {} \<longrightarrow> ring s1 p ys"
    using s'(2) by fastforce
  have pre: "load s1 (tasks s1) t = Some tk" "requests s1 r = Some q"
    using tk(1) q(1) by (simp_all add: relinked_same [OF l1])
  obtain q' where q': "ngx_http_rpc_request_foward cmp junk t r s1 = Some (s1\<lparr>requests := (requests s1)(r \<mapsto> q'),
     calls := Run_Posted r # Subrequest r p t # calls s1\<rparr>)" (is "_ = Some ?s2")
    using request_foward_ok [OF pre q(2-5)] by blast
  have body: "worker_body (worker_run env cmp junk) (TaskNode t) s1 = Some ?s2"
    using pre(1) tk(2) q' by (simp add: worker_body_def worker_run_def)
  have pn: "worker_pending ?s2 c w []"
    using s1(2) pending_same [of s1 w "[]" ?s2] by (simp add: worker_pending_def)
  have "drain (worker_pop c) (worker_body (worker_run env cmp junk)) ?s2 = Some ?s2"
    by (subst drain_unfold) (simp add: worker_pool.pop_none [OF pn])
  then have "ngx_http_rpc_process_notify_task (worker_run env cmp junk) c s = Some ?s2"
    unfolding ngx_http_rpc_process_notify_task_def by (subst drain_unfold) (simp add: s1(1) body)
  then show ?thesis
    using s1(2) l1 rings by (intro exI [of _ s1] exI [of _ q']) (simp add: relinked_same [OF l1])
qed

text \<open>
  The end of a subrequest that succeeded, for a task whose request was read to its end: the handler releases the
  pointer \<open>pos\<close> of the old buffer, which is not the start of a block any more.
\<close>

lemma subrequest_success_faults:
  assumes "requests s sr = Some sq" "r_out_status sq = 200" "rc \<noteq> NGX_AGAIN" and d: "drained s (Req_bufs t)"
  shows "ngx_http_rpc_subrequest_done_handler env sr t rc s = None"
proof -
  obtain b bf where b: "get_buf (Req_bufs t) s = Some (Some b)" "load s (bufs s) b = Some bf" "0 < snd (b_pos bf)"
    using d by (auto simp: drained_def mem_buf_def)
  have "ngx_http_rpc_task_set_bufs pick (Req_bufs t) src (put_task t tk s) = None" for pick src tk
  proof -
    have "load (put_task t tk s) (bufs s) b = Some bf" using b(2) by (simp add: load_def)
    then show ?thesis using b(1,3) by (simp add: ngx_http_rpc_task_set_bufs_def free_ptr_def)
  qed
  then show ?thesis
    using assms(1-3) by (simp add: ngx_http_rpc_subrequest_done_handler_def Option.bind_eq_None_conv)
qed

text \<open>The end of a subrequest that failed.\<close>

lemma subrequest_failure_ok:
  fixes s :: "'z cstate_scheme"
  assumes "requests s sr = Some sq" "r_out_status sq \<noteq> 200" "rc \<noteq> NGX_AGAIN"
    and tk: "load s (tasks s) t = Some tk" "proc_notify tk = Some n"
    and n: "pending s n (map TaskNode ts)" "t \<notin> set ts" "notifies s n = Some nt"
  shows "\<exists>s'. ngx_http_rpc_subrequest_done_handler env sr t rc s = Some (NGX_OK, s')
     \<and> tasks s' = (tasks s)(t \<mapsto> tk\<lparr>response_states := r_out_status sq\<rparr>)
     \<and> pending s' n (map TaskNode (ts @ [t])) \<and> chunks s' = chunks s \<and> tstate.more s' = tstate.more s
     \<and> notifies s' = notifies s \<and> efds s' = efds (eventfd_write (event_fd nt) 1 s) \<and> mem_kept s s'
     \<and> (\<forall>q ys. ring s q ys \<longrightarrow> set (q # ys) \<inter> set (TaskNode t # NotifyHead n # map TaskNode ts) = {}
          \<longrightarrow> ring s' q ys)"
proof -
  let ?s1 = "put_task t (tk\<lparr>response_states := r_out_status sq\<rparr>) s"
  have l: "live ?s1 t" "notifies ?s1 n = Some nt" using tk(1) n(3) by (simp_all add: load_Some_iff)
  obtain s' where s': "ngx_rpc_notify_push_task n (TaskNode t) ?s1 = Some (NGX_OK, s')"
    "pending s' n (map TaskNode (ts @ [t]))" "tasks s' = tasks ?s1" "chunks s' = chunks ?s1"
    "tstate.more s' = tstate.more ?s1" "notifies s' = notifies ?s1"
    "efds s' = efds (eventfd_write (event_fd nt) 1 ?s1)" "mem_kept ?s1 s'"
    "\<And>q ys. ring ?s1 q ys \<Longrightarrow> set (q # ys) \<inter> set (TaskNode t # NotifyHead n # map TaskNode ts) = {} \<Longrightarrow> ring s' q ys"
    by (rule push_prepared [OF pending_put_task [OF n(1)] l(1) n(2) l(2)]) blast
  have "ngx_http_rpc_subrequest_done_handler env sr t rc s = Some (NGX_OK, s')"
    using assms(1-3) tk l(1) s'(1) by (simp add: ngx_http_rpc_subrequest_done_handler_def load_def)
  moreover have "mem_kept s s'"
    by (rule kept_trans [OF kept_same s'(8)]) (simp_all add: put_task_def)
  moreover have "ring ?s1 q ys" if "ring s q ys" for q ys by (rule ring_same_links [OF that]) simp_all
  moreover have "efds (eventfd_write (event_fd nt) 1 ?s1) = efds (eventfd_write (event_fd nt) 1 s)"
    by (simp add: eventfd_write_def split: option.splits)
  ultimately show ?thesis using s' by (intro exI [of _ s']) simp
qed

text \<open>The channels, messages and the task of a call that has been forwarded; \<open>c0\<close> is its first object.\<close>

definition forwarded_task :: "proto \<Rightarrow> nat \<Rightarrow> addr \<Rightarrow> message \<Rightarrow> ngx_rpc_task \<Rightarrow> ngx_rpc_task" where
  "forwarded_task pb r c0 m tk = tk\<lparr>res_length := int (length (pb_bytes pb m)),
     finish := \<lparr>handler = Some Request_Foward, p1 = Some (Http_Request r)\<rparr>,
     closure := \<lparr>handler = Some Foward_Done, p1 = Some (Rpc_Channel (c0 + 5))\<rparr>,
     path := forward_target @ drop 37 (path tk)\<rparr>"

definition forwarding :: "proto \<Rightarrow> nat \<Rightarrow> addr \<Rightarrow> addr \<Rightarrow> 'z cstate_scheme \<Rightarrow> bool" where
  "forwarding pb r t c0 s \<longleftrightarrow> drained s (Req_bufs t) \<and> spare (pb_pick pb) (chunks s) 2
     \<and> channels s c0 = Some \<lparr>ch_r = r, ch_task = Some t, ch_req = Some (c0 + 1), ch_res = Some (c0 + 2),
          ch_pre = None, ch_done = Some Finish_Request_Cb\<rparr>
     \<and> channels s (c0 + 5) = Some \<lparr>ch_r = r, ch_task = None, ch_req = Some (c0 + 3), ch_res = Some (c0 + 4),
          ch_pre = Some c0, ch_done = Some (Forward_Done_Cb c0 (c0 + 1) (c0 + 2))\<rparr>
     \<and> messages s (c0 + 2) = Some None \<and> messages s (c0 + 4) = Some None"

lemma forwarding_same:
  assumes "forwarding pb r t c0 s" and "mem_kept s s'" and "chunks s' = chunks s"
    and "channels s' = channels s" and "messages s' = messages s"
  shows "forwarding pb r t c0 s'"
  using assms kept_drained [of "{}" s s' "Req_bufs t"] by (simp add: forwarding_def)

lemma relinked_kept:
  fixes s s' :: "'z cstate_scheme"
  assumes r: "relinked s s'" shows "mem_kept_but D s s'"
proof -
  have e: "s' = s\<lparr>qnext := qnext s', qprev := qprev s'\<rparr>" using r by (simp add: relinked_def)
  show ?thesis by (rule kept_same; subst e, simp)
qed

lemma forwarding_relinked: "relinked s s' \<Longrightarrow> forwarding pb r t c0 s \<Longrightarrow> forwarding pb r t c0 s'"
  by (rule forwarding_same) (simp_all add: relinked_kept relinked_same)

text \<open>The processor's cycle with the method \<open>requeststatus\<close>.\<close>

lemma cycle_forwards:
  fixes s :: "'z cstate_scheme"
  assumes p: "proc_pending s c n [TaskNode t]" and i: "idles s q ns" "n \<notin> set ns"
    and cf: "pconfs s c = Some cf" "pc_queue cf = Some q"
    and tk: "load s (tasks s) t = Some tk" "closure tk = \<lparr>handler = Some (Method_Handler 1), p1 = Some (Rpc_Ctx x)\<rparr>"
      "length (path tk) = MAX_PATH_NAME"
    and cx: "load s (ctxs s) x = Some cx" "one_buffer s (Req_bufs t) bs" "bs \<noteq> []" "pb_parse pb bs = (True, m)"
    and w: "done_notify tk = Some w" "pending s w (map TaskNode ts)" "t \<notin> set ts" "notifies s w = Some wt" "w \<noteq> n"
    and sp: "spare (pb_pick pb) (chunks s) 4" and len: "length (pb_bytes pb m) \<le> 4096"
  shows "\<exists>s'. ngx_proc_rpc_process_one_cycle (rpc_exec pb) c s = Some s'
     \<and> tasks s' = (tasks s)(t \<mapsto> forwarded_task pb (cx_r cx) (next_obj s) m tk)
     \<and> proc_pending s' c n [] \<and> idles s' q (n # ns) \<and> task_back t w ts wt s s'
     \<and> forwarding pb (cx_r cx) t (next_obj s) s'"
proof -
  let ?R = "\<lambda>u :: 'z cstate_scheme. tasks u = (tasks s)(t \<mapsto> forwarded_task pb (cx_r cx) (next_obj s) m tk)
     \<and> forwarding pb (cx_r cx) t (next_obj s) u"
  have run: "\<exists>s2. rpc_exec pb (Method_Handler 1) t (Some (Rpc_Ctx x)) s1 = Some s2 \<and> sent_back t w ts wt s1 s2 \<and> ?R s2"
    if r: "relinked s s1" and w1: "pending s1 w (map TaskNode ts)" for s1
  proof -
    have pre: "load s1 (ctxs s1) x = Some cx" "one_buffer s1 (Req_bufs t) bs" "load s1 (tasks s1) t = Some tk"
      "notifies s1 w = Some wt" "spare (pb_pick pb) (chunks s1) (Suc (Suc 2))" "next_obj s = next_obj s1"
      using cx(1,2) tk(1) w(4) sp by (simp_all add: relinked_same [OF r])
    show ?thesis
      using requeststatus_ok [OF pre(1,2) cx(4) pre(3) w(1) tk(3) w1 w(3) pre(4,5) len pre(6)] cx(3)
      by (auto simp: rpc_exec_def relinked_same [OF r] forwarding_def forwarded_task_def)
  qed
  obtain s2 s' where s': "ngx_proc_rpc_process_one_cycle (rpc_exec pb) c s = Some s'" "?R s2" "relinked s2 s'"
    "proc_pending s' c n []" "idles s' q (n # ns)" "task_back t w ts wt s s'"
    using cycle_single [where exec = "rpc_exec pb" and R = ?R, OF p i cf tk(1,2) w(2,3,5) run] by blast
  show ?thesis
    using s'(1,2,4-6) forwarding_relinked [OF s'(3)] by (intro exI [of _ s']) (simp add: relinked_same [OF s'(3)])
qed

text \<open>
  The processor's cycle with \<open>foward_done\<close>. The processor is idle already, because the task came to it without
  the queue.
\<close>

lemma cycle_finishes_forward:
  fixes s :: "'z cstate_scheme"
  assumes p: "proc_pending s c n [TaskNode t]" and i: "idles s q (n # ns)"
    and cf: "pconfs s c = Some cf" "pc_queue cf = Some q"
    and tk: "load s (tasks s) t = Some tk" "closure tk = \<lparr>handler = Some Foward_Done, p1 = Some (Rpc_Channel (c0 + 5))\<rparr>"
    and fw: "forwarding pb r t c0 s" and pb: "pb_parse pb [] = (ok, m)" "length (pb_bytes pb m) \<le> 4096"
    and w: "done_notify tk = Some w" "pending s w (map TaskNode ts)" "t \<notin> set ts" "notifies s w = Some wt" "w \<noteq> n"
  shows "\<exists>s'. ngx_proc_rpc_process_one_cycle (rpc_exec pb) c s = Some s'
     \<and> tasks s' = (tasks s)(t \<mapsto> tk\<lparr>res_length := int (length (pb_bytes pb m)),
          finish := \<lparr>handler = Some Request_Finish, p1 = Some (Http_Request r)\<rparr>\<rparr>)
     \<and> idle_loop s' q n \<and> (\<forall>ms. \<not> idles s' q ms) \<and> task_back t w ts wt s s'
     \<and> chain_holds s' (Res_bufs t) (pb_bytes pb m)"
proof -
  let ?R = "\<lambda>u :: 'z cstate_scheme. tasks u = (tasks s)(t \<mapsto> tk\<lparr>res_length := int (length (pb_bytes pb m)),
          finish := \<lparr>handler = Some Request_Finish, p1 = Some (Http_Request r)\<rparr>\<rparr>)
     \<and> chain_holds u (Res_bufs t) (pb_bytes pb m)"
  have run: "\<exists>s2. rpc_exec pb Foward_Done t (Some (Rpc_Channel (c0 + 5))) s1 = Some s2 \<and> sent_back t w ts wt s1 s2 \<and> ?R s2"
    if rl: "relinked s s1" and w1: "pending s1 w (map TaskNode ts)" for s1
  proof -
    have f1: "forwarding pb r t c0 s1" by (rule forwarding_relinked [OF rl fw])
    have pre: "load s1 (tasks s1) t = Some tk" "notifies s1 w = Some wt" "spare (pb_pick pb) (chunks s1) (Suc (Suc 0))"
      "one_buffer s1 (Req_bufs t) []"
      using tk(1) w(4) f1 drained_one_buffer [of s1 "Req_bufs t"]
      by (simp_all add: relinked_same [OF rl] forwarding_def numeral_2_eq_2)
    have ch: "channels s1 (c0 + 5) = Some \<lparr>ch_r = r, ch_task = None, ch_req = Some (c0 + 3), ch_res = Some (c0 + 4),
          ch_pre = Some c0, ch_done = Some (Forward_Done_Cb c0 (c0 + 1) (c0 + 2))\<rparr>"
      "channels s1 c0 = Some \<lparr>ch_r = r, ch_task = Some t, ch_req = Some (c0 + 1), ch_res = Some (c0 + 2),
          ch_pre = None, ch_done = Some Finish_Request_Cb\<rparr>"
      "messages s1 (c0 + 4) = Some None" "messages s1 (c0 + 2) = Some None"
      using f1 by (simp_all add: forwarding_def)
    show ?thesis
      using foward_done_ok [OF pre(1) w(1) ch(1) _ _ _ _ ch(2) _ _ _ ch(3,4) _ pre(4) pb w1 w(3) pre(2,3)]
      by (auto simp: rpc_exec_def relinked_same [OF rl])
  qed
  obtain s2 s' where s': "ngx_proc_rpc_process_one_cycle (rpc_exec pb) c s = Some s'" "?R s2" "relinked s2 s'"
    "idle_loop s' q n" "\<forall>ms. \<not> idles s' q ms" "task_back t w ts wt s s'"
    using cycle_single_idle [where exec = "rpc_exec pb" and R = ?R, OF p i cf tk w(2,3,5) run] by blast
  show ?thesis
    using s'(1,2,4-6) by (intro exI [of _ s']) (simp add: relinked_same [OF s'(3)])
qed

text \<open>
  The way back from a subrequest that failed: the worker's handler, the processor's cycle and the worker's
  loop, from a state in which the processor is the first idle one.
\<close>

lemma failed_forward_answered:
  fixes s :: "'z cstate_scheme"
  assumes fw: "forwarding pb r t c0 s" and tk: "load s (tasks s) t = Some tk" "proc_notify tk = Some n"
      "closure tk = \<lparr>handler = Some Foward_Done, p1 = Some (Rpc_Channel (c0 + 5))\<rparr>" "done_notify tk = Some w"
    and p: "proc_pending s c n []" "idles s q (n # ns)" "pconfs s c = Some cf" "pc_queue cf = Some q"
    and w: "worker_pending s hc w []" "w \<noteq> n" "notifies s w = Some wt" "notifies s n = Some nt"
    and req: "requests s r \<noteq> None" "requests s sr = Some sq" "r_out_status sq \<noteq> 200" "rc \<noteq> NGX_AGAIN"
    and pb: "pb_parse pb [] = (ok, m)" "pb_bytes pb m \<noteq> []" "length (pb_bytes pb m) \<le> 4096" and env: "en_cleanup env"
  shows "\<exists>s3 s4 s5. ngx_http_rpc_subrequest_done_handler env sr t rc s = Some (NGX_OK, s3)
     \<and> ngx_proc_rpc_process_one_cycle (rpc_exec pb) c s3 = Some s4
     \<and> idle_loop s4 q n \<and> (\<forall>ms. \<not> idles s4 q ms) \<and> chain_holds s4 (Res_bufs t) (pb_bytes pb m)
     \<and> ngx_http_rpc_process_notify_task (worker_run env cmp junk) hc s4 = Some s5
     \<and> calls s5 = [Finalize_Request r (en_filter env), Output_Filter r (Res_bufs t),
          Send_Header r (r_out_status sq) (Some (int (length (pb_bytes pb m))))] @ calls s"
proof -
  have pn: "pending s n (map TaskNode [])" and pw: "pending s w []" and pc: "Option.bind (hconfs s hc) hc_notify = Some w"
    using p(1) w(1) by (simp_all add: proc_pending_def worker_pending_def)
  obtain s3 where s3: "ngx_http_rpc_subrequest_done_handler env sr t rc s = Some (NGX_OK, s3)"
    "tasks s3 = (tasks s)(t \<mapsto> tk\<lparr>response_states := r_out_status sq\<rparr>)"
    "pending s3 n (map TaskNode ([] @ [t]))" "chunks s3 = chunks s" "tstate.more s3 = tstate.more s"
    "notifies s3 = notifies s" "mem_kept s s3"
    "\<And>q ys. ring s q ys \<Longrightarrow> set (q # ys) \<inter> set (TaskNode t # NotifyHead n # map TaskNode []) = {} \<Longrightarrow> ring s3 q ys"
    using subrequest_failure_ok [where env = env, OF req(2-4) tk(1,2) pn _ w(4)] by (metis empty_iff empty_set)
  note k3 = cstate_more [OF s3(5)]
  have pre: "proc_pending s3 c n [TaskNode t]" "idles s3 q (n # ns)" "pconfs s3 c = Some cf"
    "load s3 (tasks s3) t = Some (tk\<lparr>response_states := r_out_status sq\<rparr>)" "forwarding pb r t c0 s3"
    "pending s3 w (map TaskNode [])" "notifies s3 w = Some wt"
  proof -
    show "proc_pending s3 c n [TaskNode t]" using p(1) s3(3) k3(2) by (simp add: proc_pending_def)
    show "idles s3 q (n # ns)"
      using s3(8) [of "QueueIdles q" "map NotifyIdles (n # ns)"] p(2) by (auto simp: idles_def)
    show "pending s3 w (map TaskNode [])"
      using s3(8) [OF pending_ring [OF pw]] pw w(2) s3(6) by (simp add: pending_def)
    show "load s3 (tasks s3) t = Some (tk\<lparr>response_states := r_out_status sq\<rparr>)"
      using tk(1) s3(2,4) by (simp add: load_def live_def split: if_splits)
  qed (use p(3) w(3) k3 s3(6) forwarding_same [OF fw s3(7,4) k3(7,8)] in simp_all)
  obtain s4 where s4: "ngx_proc_rpc_process_one_cycle (rpc_exec pb) c s3 = Some s4"
    "tasks s4 = (tasks s3)(t \<mapsto> tk\<lparr>response_states := r_out_status sq, res_length := int (length (pb_bytes pb m)),
        finish := \<lparr>handler = Some Request_Finish, p1 = Some (Http_Request r)\<rparr>\<rparr>)"
    "idle_loop s4 q n" "\<forall>ms. \<not> idles s4 q ms" "task_back t w [] wt s3 s4"
    "chain_holds s4 (Res_bufs t) (pb_bytes pb m)"
    using cycle_finishes_forward [OF pre(1-3) p(4) pre(4) _ pre(5) pb(1,3) _ pre(6) _ pre(7) w(2)] tk(3,4) by auto
  have k4: "pending s4 w [TaskNode t]" "live s4 t" "requests s4 = requests s" "calls s4 = calls s" "hconfs s4 = hconfs s"
    using s4(5) k3 by (simp_all add: task_back_def)
  have "worker_pending s4 hc w [TaskNode t]" using k4 pc by (simp add: worker_pending_def)
  moreover have "\<forall>y \<in> set [TaskNode t]. answerable s4 y"
    using s4(2) k4 req(1) by (simp add: answerable_def load_def finish_request_of_def)
  ultimately obtain s5 where s5: "ngx_http_rpc_process_notify_task (worker_run env cmp junk) hc s4 = Some s5"
    "calls s5 = fold (\<lambda>y cs. task_answer env (tasks s4) y @ cs) [TaskNode t] (calls s4)"
    using process_notify_drains [OF _ _ env] by blast
  have "task_answer env (tasks s4) (TaskNode t) = [Finalize_Request r (en_filter env), Output_Filter r (Res_bufs t),
      Send_Header r (r_out_status sq) (Some (int (length (pb_bytes pb m))))]"
    using s4(2) pb(2) by (simp add: task_answer_def finish_request_of_def)
  then show ?thesis
    using s3(1) s4(1,3,4,6) s5 k4(4) by (intro exI [of _ s3] exI [of _ s4] exI [of _ s5]) simp
qed

section \<open>The whole call\<close>

text \<open>
  C6. A call of the method \<open>requeststatus\<close>, which forwards, from the processor \<open>n\<close> that was given its task.
  One cycle of the processor and the worker's loop start a subrequest for the service's other
  method, and the processor is idle again. When the subrequest \<open>sr\<close> succeeds, its end has no defined result: the old
  request of the task was read to its end, so that the pointer the handler releases is not the start of a
  block (nginx's allocator then refuses with an alert or releases the block behind it). When it fails, the task goes straight to the processor; the processor's next cycle finishes the
  call, and the client is sent the status of the subrequest, with what protobuf makes of an empty message. But the
  processor, which had not been taken off the idle list, puts itself there a second time, and the list is
  a loop from then on.
\<close>

theorem forwarded_call:
  fixes s :: "'z cstate_scheme"
  assumes "load s (tasks s) t = Some tk" "closure tk = \<lparr>handler = Some (Method_Handler 1), p1 = Some (Rpc_Ctx x)\<rparr>"
    and "path tk = path zero_task" "done_notify tk = Some w" "proc_notify tk = Some n"
    and "load s (ctxs s) x = Some cx" "cx_r cx = r" "one_buffer s (Req_bufs t) bs" "bs \<noteq> []"
    and "pb_parse pb bs = (True, m)" "length (pb_bytes pb m) \<le> 4096"
    and "proc_pending s c n [TaskNode t]" "idles s q ns" "n \<notin> set ns" "pconfs s c = Some cf" "pc_queue cf = Some q"
    and "worker_pending s hc w []" "w \<noteq> n" "notifies s w = Some wt" "notifies s n = Some nt"
    and "requests s r = Some rq" "r_body rq \<noteq> None" "scan_headers cmp (r_headers rq) 0 0 = Some found"
    and "spare (pb_pick pb) (chunks s) 4" "en_cleanup env"
    and "pb_parse pb [] = (ok, m')" "pb_bytes pb m' \<noteq> []" "length (pb_bytes pb m') \<le> 4096"
    and "sr \<noteq> r" "rc \<noteq> NGX_AGAIN" "found = None \<or> r_in_length_hdr rq \<noteq> None"
  shows "\<exists>s1 s2. ngx_proc_rpc_process_one_cycle (rpc_exec pb) c s = Some s1 \<and> idles s1 q (n # ns)
     \<and> ngx_http_rpc_process_notify_task (worker_run env cmp junk) hc s1 = Some s2
     \<and> calls s2 = [Run_Posted r, Subrequest r forward_target t] @ calls s
     \<and> (r_out_status sq = 200 \<longrightarrow>
          ngx_http_rpc_subrequest_done_handler env sr t rc (put_request sr sq s2) = None)
     \<and> (r_out_status sq \<noteq> 200 \<longrightarrow> (\<exists>s3 s4 s5.
          ngx_http_rpc_subrequest_done_handler env sr t rc (put_request sr sq s2) = Some (NGX_OK, s3)
          \<and> ngx_proc_rpc_process_one_cycle (rpc_exec pb) c s3 = Some s4
          \<and> idle_loop s4 q n \<and> (\<forall>ms. \<not> idles s4 q ms) \<and> chain_holds s4 (Res_bufs t) (pb_bytes pb m')
          \<and> ngx_http_rpc_process_notify_task (worker_run env cmp junk) hc s4 = Some s5
          \<and> calls s5 = [Finalize_Request r (en_filter env), Output_Filter r (Res_bufs t),
               Send_Header r (r_out_status sq) (Some (int (length (pb_bytes pb m'))))] @ calls s2))"
proof -
  have lp: "length (path tk) = MAX_PATH_NAME" using assms(3) by (simp add: zero_task_def)
  have pw: "pending s w (map TaskNode [])" and pc: "Option.bind (hconfs s hc) hc_notify = Some w"
    using assms(17) by (simp_all add: worker_pending_def)
  let ?tk = "forwarded_task pb r (next_obj s) m tk"
  obtain s1 where s1: "ngx_proc_rpc_process_one_cycle (rpc_exec pb) c s = Some s1"
    "tasks s1 = (tasks s)(t \<mapsto> ?tk)" "proc_pending s1 c n []" "idles s1 q (n # ns)" "task_back t w [] wt s s1"
    "forwarding pb r t (next_obj s) s1"
    using cycle_forwards [OF assms(12-16,1,2) lp assms(6,8-10,4) pw _ assms(19,18,24,11)] assms(7) by auto
  have k1: "pending s1 w [TaskNode t]" "live s1 t" "requests s1 = requests s" "calls s1 = calls s" "hconfs s1 = hconfs s"
    "pconfs s1 = pconfs s" "notifies s1 = notifies s"
    using s1(5) by (simp_all add: task_back_def)
  have wp: "worker_pending s1 hc w [TaskNode t]" using k1 pc by (simp add: worker_pending_def)
  have tk1: "load s1 (tasks s1) t = Some ?tk" using s1(2) k1(2) by (simp add: load_def)
  have f: "finish ?tk = \<lparr>handler = Some Request_Foward, p1 = Some (Http_Request r)\<rparr>"
    "closure ?tk = \<lparr>handler = Some Foward_Done, p1 = Some (Rpc_Channel (next_obj s + 5))\<rparr>"
    "c_string (path ?tk) = Some forward_target" "proc_notify ?tk = Some n" "done_notify ?tk = Some w"
    using assms(3-5) c_string_append [of forward_target "drop 37 (path zero_task)"] demo_call_tail
    by (simp_all add: forwarded_task_def forward_target_def ascii_def)
  have r1: "requests s1 r = Some rq" using assms(21) k1(3) by simp
  obtain u q' where u: "ngx_http_rpc_process_notify_task (worker_run env cmp junk) hc s1 = Some (u\<lparr>requests := (requests s1)(r \<mapsto> q'),
       calls := Run_Posted r # Subrequest r forward_target t # calls s1\<rparr>)" (is "_ = Some ?s2")
    "relinked s1 u" "worker_pending u hc w []"
    "\<And>p ys. ring s1 p ys \<Longrightarrow> {NotifyHead w, TaskNode t} \<inter> set (p # ys) = {} \<Longrightarrow> ring u p ys"
    using worker_forwards [where env = env and junk = junk, OF wp tk1 f(1) r1 assms(22,23,31) f(3)] by blast
  let ?s = "put_request sr sq ?s2"
  have fu: "forwarding pb r t (next_obj s) u" by (rule forwarding_relinked [OF u(2) s1(6)])
  have "mem_kept u ?s" by (rule kept_same) (simp_all add: put_request_def)
  then have fs: "forwarding pb r t (next_obj s) ?s"
    by (rule forwarding_same [OF fu]) (simp_all add: put_request_def)
  have rings: "ring ?s p ys" if "ring u p ys" for p ys
    by (rule ring_same_links [OF that]) (simp_all add: put_request_def)
  have pre: "load ?s (tasks ?s) t = Some ?tk" "proc_pending ?s c n []" "idles ?s q (n # ns)" "pconfs ?s c = Some cf"
    "worker_pending ?s hc w []" "notifies ?s w = Some wt" "notifies ?s n = Some nt" "requests ?s r \<noteq> None"
    "requests ?s sr = Some sq"
  proof -
    show "load ?s (tasks ?s) t = Some ?tk"
      using tk1 relinked_same(2) [OF u(2)] relinked_same(17) [OF u(2)] by (simp add: load_Some_iff put_request_def live_def)
    have "ring u (NotifyHead n) []" "ring u (QueueIdles q) (map NotifyIdles (n # ns))"
      using u(4) [of "NotifyHead n" "[]"] u(4) [of "QueueIdles q" "map NotifyIdles (n # ns)"] s1(3,4) assms(18)
      by (auto simp: proc_pending_def pending_def idles_def)
    then show "proc_pending ?s c n []" "idles ?s q (n # ns)"
      using rings s1(3) relinked_same(6,7) [OF u(2)] by (auto simp: proc_pending_def pending_def idles_def put_request_def)
    show "worker_pending ?s hc w []"
      using u(3) rings by (auto simp: worker_pending_def pending_def put_request_def)
  qed (use assms(15,19,20) k1 relinked_same [OF u(2)] in \<open>simp_all add: put_request_def\<close>)
  have fault: "ngx_http_rpc_subrequest_done_handler env sr t rc ?s = None" if "r_out_status sq = 200"
    by (rule subrequest_success_faults [OF pre(9) that assms(30)]) (use fs in \<open>simp add: forwarding_def\<close>)
  have "calls ?s = calls ?s2" by (simp add: put_request_def)
  then show ?thesis
    using s1(1,4) u(1) k1(4) fault
      failed_forward_answered [OF fs pre(1) f(4,2,5) pre(2-4) assms(16) pre(5) assms(18) pre(6-9) _ assms(30,26-28,25)]
    by (intro exI [of _ s1] exI [of _ ?s2]) simp
qed

definition demo_forward :: cstate where
  "demo_forward = (wstate.extend (demo_http [] [5] []) (cstate.fields Map.empty Map.empty 10))\<lparr>
     pconfs := [0 \<mapsto> \<lparr>pc_shpool = Some 0, pc_queue = Some 1, pc_notify = Some 3, shm_size = 0\<rparr>],
     chain_buf := [Req_bufs 5 \<mapsto> Some 41, Res_bufs 5 \<mapsto> None],
     chain_next := [Req_bufs 5 \<mapsto> None, Res_bufs 5 \<mapsto> None],
     tasks := [5 \<mapsto> zero_task\<lparr>done_notify := Some 7, proc_notify := Some 3,
       closure := \<lparr>handler = Some (Method_Handler 1), p1 = Some (Rpc_Ctx 8)\<rparr>\<rparr>]\<rparr>"

lemma demo_forward_ready:
  "load demo_forward (tasks demo_forward) 5 = Some (zero_task\<lparr>done_notify := Some 7, proc_notify := Some 3,
     closure := \<lparr>handler = Some (Method_Handler 1), p1 = Some (Rpc_Ctx 8)\<rparr>\<rparr>)"
  "load demo_forward (ctxs demo_forward) 8 = Some \<lparr>cx_conf = 0, cx_method = 0, cx_r = 0, cx_task = None\<rparr>"
  "one_buffer demo_forward (Req_bufs 5) [1, 2, 3]" "proc_pending demo_forward 0 3 [TaskNode 5]" "idles demo_forward 1 []"
  "pconfs demo_forward 0 = Some \<lparr>pc_shpool = Some 0, pc_queue = Some 1, pc_notify = Some 3, shm_size = 0\<rparr>"
  "worker_pending demo_forward 0 7 []" "notifies demo_forward 7 = Some (demo_notify 12 0)"
  "notifies demo_forward 3 = Some (demo_notify 10 0)" "requests demo_forward 0 = Some demo_request"
  "calls demo_forward = []"
  by (simp_all add: demo_forward_def call_simps proc_pending_def worker_pending_def one_buffer_def chain_defs
      mem_buf_def ptr_diff_def read_bytes_def numeral_eq_Suc)

lemma demo_forward_spare: "spare (pb_pick demo_pb) (chunks demo_forward) 4"
  using demo_http_spare [of 4 "[]" "[5]" "[]"]
  by (simp add: demo_pb_def demo_env_def demo_forward_def wstate.extend_def cstate.fields_def demo_http_def)

lemma demo_headers: "scan_headers (\<lambda>_. False) (r_headers demo_request) 0 0 = Some None"
  by (simp add: demo_request_def scan_headers.simps)

theorem forwarded_call_witness:
  "\<exists>s1 s2 s3 s4 s5. ngx_proc_rpc_process_one_cycle (rpc_exec demo_pb) 0 demo_forward = Some s1
     \<and> ngx_http_rpc_process_notify_task (worker_run demo_env (\<lambda>_. False) (\<lambda>_. 0)) 0 s1 = Some s2
     \<and> ngx_http_rpc_subrequest_done_handler demo_env 1 5 0
          (put_request 1 (demo_request\<lparr>r_out_status := 404\<rparr>) s2) = Some (NGX_OK, s3)
     \<and> ngx_proc_rpc_process_one_cycle (rpc_exec demo_pb) 0 s3 = Some s4 \<and> idle_loop s4 1 3
     \<and> ngx_http_rpc_process_notify_task (worker_run demo_env (\<lambda>_. False) (\<lambda>_. 0)) 0 s4 = Some s5
     \<and> calls s5 = [Finalize_Request 0 0, Output_Filter 0 (Res_bufs 5), Send_Header 0 404 (Some 1),
          Run_Posted 0, Subrequest 0 forward_target 5]"
proof -
  have pb: "pb_parse demo_pb [1, 2, 3] = (True, Some [1, 2, 3])" "length (pb_bytes demo_pb (Some [1, 2, 3])) \<le> 4096"
    "pb_parse demo_pb [] = (False, Some [])" "pb_bytes demo_pb (Some []) = [9]" "en_cleanup demo_env" "en_filter demo_env = 0"
    by (simp_all add: demo_pb_def demo_env_def)
  have rq: "r_body demo_request \<noteq> None" by (simp add: demo_request_def)
  have sq: "r_out_status (demo_request\<lparr>r_out_status := 404\<rparr>) = 404" by simp
  show ?thesis
    using forwarded_call [where sr = 1 and rc = 0 and junk = "\<lambda>_. 0" and sq = "demo_request\<lparr>r_out_status := 404\<rparr>",
        OF demo_forward_ready(1) _ _ _ _ demo_forward_ready(2) _ demo_forward_ready(3) _ pb(1,2) demo_forward_ready(4,5) _
          demo_forward_ready(6) _ demo_forward_ready(7) _ demo_forward_ready(8-10) rq demo_headers demo_forward_spare pb(5,3)]
      demo_forward_ready(11) pb(4,6) sq by fastforce
qed

end
