(* ===== verification/Notify_Wakeup.thy ===== *)
theory Notify_Wakeup
  imports Http_Properties "HOL-Library.Multiset"
begin

text \<open>
  Pushes and the owner of a notify object interleaved. Any number of processes push on the object
  (\<open>ngx_rpc_notify_push_task\<close>) while its owner sleeps in epoll or is somewhere in
  \<open>ngx_rpc_notify_read_handler\<close> and the function this calls (ngx_rpc_module/ngx_rpc_notify.c); only the
  regions under the lock and the system calls are atomic. The steps are the pieces of which these functions are
  made: \<open>push_piece\<close> and \<open>read_piece\<close> of Rpc_Notify, with \<open>cycle_piece\<close> of Rpc_Process or the loop of
  \<open>ngx_http_rpc_process_notify_task\<close> inside. Nothing of the functions' text is repeated here; what this theory adds is
  who moves next.
\<close>

section \<open>The owner's places\<close>

text \<open>
  Where the owner can be inside the function that \<open>read_hanlder\<close> names: in the processor's cycle, in the
  worker's loop, or in the default handler, which only returns. A function called on the other module's
  configuration would read foreign memory, which is the place without a next piece.
\<close>

datatype handler_pc = Cycle_Pc addr cycle_pc | Worker_Pc addr "qaddr drain_pc" | Return_Pc | Wild_Pc

fun handler_entry :: "notify_fn \<Rightarrow> notify_ctx \<Rightarrow> handler_pc" where
  "handler_entry Notify_Default_Hanlder _ = Return_Pc"
| "handler_entry Proc_Process_One_Cycle (Proc_Conf c) = Cycle_Pc c (Cycle_Loop Drain_Pop)"
| "handler_entry Http_Process_Notify_Task (Http_Conf c) = Worker_Pc c Drain_Pop"
| "handler_entry _ _ = Wild_Pc"

text \<open>The functions that closures name, for either module.\<close>

type_synonym 'z task_run =
  "task_fn \<Rightarrow> addr \<Rightarrow> closure_arg option \<Rightarrow> 'z wstate_scheme \<Rightarrow> 'z wstate_scheme option"

primrec handler_piece :: "'z task_run \<Rightarrow> 'z task_run \<Rightarrow> (handler_pc, 'z wstate_scheme) pieces" where
  "handler_piece exec run (Cycle_Pc c pc) = (\<lambda>s.
     do { (next, s) \<leftarrow> cycle_piece exec c pc s; Some (map_option (Cycle_Pc c) next, s) })"
| "handler_piece exec run (Worker_Pc c pc) = (\<lambda>s.
     do { (next, s) \<leftarrow> drain_piece (worker_pop c) (worker_body run) pc s; Some (map_option (Worker_Pc c) next, s) })"
| "handler_piece exec run Return_Pc = (\<lambda>s. Some (None, s))"
| "handler_piece exec run Wild_Pc = (\<lambda>s. None)"

text \<open>The same call without interruption.\<close>

fun handler_call :: "'z task_run \<Rightarrow> 'z task_run \<Rightarrow> notify_fn \<Rightarrow> notify_ctx \<Rightarrow> 'z wstate_scheme \<Rightarrow> 'z wstate_scheme option" where
  "handler_call exec run Notify_Default_Hanlder _ s = Some s"
| "handler_call exec run Proc_Process_One_Cycle (Proc_Conf c) s = ngx_proc_rpc_process_one_cycle exec c s"
| "handler_call exec run Http_Process_Notify_Task (Http_Conf c) s = ngx_http_rpc_process_notify_task run c s"
| "handler_call exec run _ _ s = None"

lemma handler_call_pieces:
  "handler_call exec run f ctx s = run_pieces (handler_piece exec run) (handler_entry f ctx) s"
proof -
  have c: "run_pieces (handler_piece exec run) (Cycle_Pc c pc) s = run_pieces (cycle_piece exec c) pc s" for c pc
    using run_pieces_then [of "handler_piece exec run" "Cycle_Pc c" "cycle_piece exec c" None pc s]
    by (simp add: map_option_case)
  have w: "run_pieces (handler_piece exec run) (Worker_Pc c pc) s = run_pieces (drain_piece (worker_pop c) (worker_body run)) pc s" for c pc
    using run_pieces_then [of "handler_piece exec run" "Worker_Pc c" "drain_piece (worker_pop c) (worker_body run)" None pc s]
    by (simp add: map_option_case)
  have r: "run_pieces (handler_piece exec run) Return_Pc s = Some s" "run_pieces (handler_piece exec run) Wild_Pc s = None"
    by (subst run_pieces.simps; simp)+
  show ?thesis
    by (cases "(exec, run, f, ctx, s)" rule: handler_call.cases)
      (simp_all add: c w r ngx_proc_rpc_process_one_cycle_def ngx_http_rpc_process_notify_task_def drain_def)
qed

text \<open>The owner's pieces, one after the other, are the read callback.\<close>

abbreviation owner_piece :: "'z task_run \<Rightarrow> 'z task_run \<Rightarrow> addr \<Rightarrow> (handler_pc read_pc, 'z wstate_scheme) pieces" where
  "owner_piece exec run \<equiv> read_piece handler_entry (handler_piece exec run)"

lemma owner_uninterrupted:
  assumes "conns s k = Some cn" and "c_sockaddr cn = n"
  shows "ngx_rpc_notify_read_handler (handler_call exec run) k s = run_pieces (owner_piece exec run n) Read_Fd s"
  using read_loop_pieces [where call = "handler_call exec run" and entry = handler_entry, OF handler_call_pieces] assms
  by (simp add: ngx_rpc_notify_read_handler_def)

section \<open>Interleavings\<close>

text \<open>
  A configuration: the shared state, the pushes that are going on, each with its task and the place it has reached,
  and the owner's place, \<open>None\<close> while it sleeps in epoll.
\<close>

type_synonym 'z config = "'z wstate_scheme \<times> (addr \<times> push_pc) list \<times> handler_pc read_pc option"

text \<open>The task that the owner has taken from the list and is about to run.\<close>

primrec drain_node :: "'x drain_pc \<Rightarrow> 'x option" where
  "drain_node Drain_Pop = None"
| "drain_node (Drain_Body x) = Some x"

primrec cycle_node :: "cycle_pc \<Rightarrow> qaddr option" where
  "cycle_node (Cycle_Loop pc) = drain_node pc"
| "cycle_node Cycle_Idle = None"

primrec handler_node :: "handler_pc \<Rightarrow> qaddr option" where
  "handler_node (Cycle_Pc c pc) = cycle_node pc"
| "handler_node (Worker_Pc c pc) = drain_node pc"
| "handler_node Return_Pc = None"
| "handler_node Wild_Pc = None"

primrec read_node :: "handler_pc read_pc \<Rightarrow> qaddr option" where
  "read_node Read_Fd = None"
| "read_node (Read_Call again) = None"
| "read_node (Read_In again h) = handler_node h"

definition held :: "handler_pc read_pc option \<Rightarrow> addr option" where
  "held p = Option.bind (Option.bind p read_node) data_task_node"

text \<open>A task is on its way from the call of the push to the call of its function.\<close>

definition on_way :: "addr \<Rightarrow> 'z config \<Rightarrow> addr \<Rightarrow> bool" where
  "on_way n a t \<longleftrightarrow> (case a of (s, ps, p) \<Rightarrow>
     (t, Push_Region) \<in> set ps \<or> (\<exists>xs. pending s n xs \<and> TaskNode t \<in> set xs) \<or> held p = Some t)"

text \<open>What a step does: a push is called, its task is linked at the end of the list, the owner takes one, or none of these.\<close>

datatype wake_event = Called addr | Linked addr | Taken addr | Silent

definition push_event :: "addr \<Rightarrow> push_pc \<Rightarrow> wake_event" where
  "push_event t pc = (case pc of Push_Region \<Rightarrow> Linked t | Push_Signal \<Rightarrow> Silent)"

definition owner_event :: "handler_pc read_pc option \<Rightarrow> wake_event" where
  "owner_event p = (case held p of Some t \<Rightarrow> Taken t | None \<Rightarrow> Silent)"

text \<open>
  One step: a process calls \<open>ngx_rpc_notify_push_task\<close> with a task (a task that \<open>ok\<close> allows here and that is not on
  its way already); a push executes its next piece, and is gone when it returns; epoll wakes the owner because the
  eventfd is readable; the owner executes its next piece, and sleeps again when the callback returns.
\<close>

inductive wake_step ::
  "'z task_run \<Rightarrow> 'z task_run \<Rightarrow> ('z wstate_scheme \<Rightarrow> addr \<Rightarrow> bool) \<Rightarrow> addr \<Rightarrow> 'z config \<Rightarrow> wake_event \<Rightarrow> 'z config \<Rightarrow> bool"
  for exec run ok n where
  call: "\<lbrakk> ok s t; \<not> on_way n (s, ps, p) t \<rbrakk>
    \<Longrightarrow> wake_step exec run ok n (s, ps, p) (Called t) (s, ps @ [(t, Push_Region)], p)"
| push: "push_piece n (TaskNode t) pc s = Some (r, s')
    \<Longrightarrow> wake_step exec run ok n (s, ps @ (t, pc) # qs, p) (push_event t pc)
          (s', ps @ (case r of None \<Rightarrow> [] | Some pc \<Rightarrow> [(t, pc)]) @ qs, p)"
| wake: "\<lbrakk> notifies s n = Some nt; efds s (event_fd nt) = Some c; 0 < c \<rbrakk>
    \<Longrightarrow> wake_step exec run ok n (s, ps, None) Silent (s, ps, Some Read_Fd)"
| owner: "owner_piece exec run n pc s = Some (r, s')
    \<Longrightarrow> wake_step exec run ok n (s, ps, Some pc) (owner_event r) (s', ps, r)"

text \<open>\<open>wake_steps a es b\<close>: the steps with the events \<open>es\<close> lead from \<open>a\<close> to \<open>b\<close>.\<close>

inductive wake_steps ::
  "'z task_run \<Rightarrow> 'z task_run \<Rightarrow> ('z wstate_scheme \<Rightarrow> addr \<Rightarrow> bool) \<Rightarrow> addr \<Rightarrow> 'z config \<Rightarrow> wake_event list \<Rightarrow> 'z config \<Rightarrow> bool"
  for exec run ok n a where
  start: "wake_steps exec run ok n a [] a"
| step: "wake_steps exec run ok n a es b \<Longrightarrow> wake_step exec run ok n b e c \<Longrightarrow> wake_steps exec run ok n a (es @ [e]) c"

fun called :: "wake_event list \<Rightarrow> addr list" where
  "called [] = []"
| "called (Called t # es) = t # called es"
| "called (_ # es) = called es"

fun linked :: "wake_event list \<Rightarrow> addr list" where
  "linked [] = []"
| "linked (Linked t # es) = t # linked es"
| "linked (_ # es) = linked es"

fun taken :: "wake_event list \<Rightarrow> addr list" where
  "taken [] = []"
| "taken (Taken t # es) = t # taken es"
| "taken (_ # es) = taken es"

lemma events_append [simp]:
  "called (es @ fs) = called es @ called fs" "linked (es @ fs) = linked es @ linked fs" "taken (es @ fs) = taken es @ taken fs"
proof -
  show "called (es @ fs) = called es @ called fs" by (induction es rule: called.induct) simp_all
  show "linked (es @ fs) = linked es @ linked fs" by (induction es rule: linked.induct) simp_all
  show "taken (es @ fs) = taken es @ taken fs" by (induction es rule: taken.induct) simp_all
qed

text \<open>Steps in which nobody may call a push.\<close>

definition quiet_step :: "'z task_run \<Rightarrow> 'z task_run \<Rightarrow> addr \<Rightarrow> 'z config \<Rightarrow> wake_event \<Rightarrow> 'z config \<Rightarrow> bool" where
  "quiet_step exec run n = wake_step exec run (\<lambda>s t. False) n"

definition quiet_run :: "'z task_run \<Rightarrow> 'z task_run \<Rightarrow> addr \<Rightarrow> 'z config \<Rightarrow> wake_event list \<Rightarrow> 'z config \<Rightarrow> bool" where
  "quiet_run exec run n = wake_steps exec run (\<lambda>s t. False) n"

section \<open>What the owner relies on\<close>

text \<open>
  The owner's configuration names the notify object; for a processor the head of the idle list leads to a node of an
  idle list, so that the region at the end of the cycle can link the object in.
\<close>

definition idle_head :: "'z qstate_scheme \<Rightarrow> addr \<Rightarrow> bool" where
  "idle_head s q \<longleftrightarrow> node_live s (QueueIdles q)
     \<and> (\<exists>f. qnext s (QueueIdles q) = Some f \<and> node_live s f \<and> idle_node f)"

fun home :: "notify_fn \<Rightarrow> notify_ctx \<Rightarrow> addr \<Rightarrow> 'z wstate_scheme \<Rightarrow> bool" where
  "home Proc_Process_One_Cycle (Proc_Conf c) n s =
     (case pconfs s c of
        None \<Rightarrow> False
      | Some cf \<Rightarrow> pc_notify cf = Some n \<and> (case pc_queue cf of None \<Rightarrow> False | Some q \<Rightarrow> idle_head s q))"
| "home Http_Process_Notify_Task (Http_Conf c) n s =
     (case hconfs s c of None \<Rightarrow> False | Some cf \<Rightarrow> hc_notify cf = Some n)"
| "home _ _ n s = False"

text \<open>The turn of the loop that runs a task.\<close>

fun task_body :: "'z task_run \<Rightarrow> 'z task_run \<Rightarrow> notify_fn \<Rightarrow> qaddr \<Rightarrow> 'z wstate_scheme \<Rightarrow> 'z wstate_scheme option" where
  "task_body exec run Proc_Process_One_Cycle = cycle_body exec"
| "task_body exec run Http_Process_Notify_Task = worker_body run"
| "task_body exec run Notify_Default_Hanlder = (\<lambda>x s. None)"

text \<open>
  The contract of the tasks' functions: \<open>ok\<close> looks at the task and not at links and eventfds, and a task that
  is \<open>ok\<close> can be run; its function returns and leaves the list, the object, its eventfd, the owner's configuration and the
  other tasks as they are. To other lists it may do what it wants.
\<close>

definition serves ::
  "(qaddr \<Rightarrow> 'z wstate_scheme \<Rightarrow> 'z wstate_scheme option) \<Rightarrow> addr \<Rightarrow> int \<Rightarrow> notify_fn \<Rightarrow> notify_ctx
    \<Rightarrow> ('z wstate_scheme \<Rightarrow> addr \<Rightarrow> bool) \<Rightarrow> bool" where
  "serves body n fd f ctx ok \<longleftrightarrow>
     (\<forall>s t nx pv es. ok (s\<lparr>qnext := nx, qprev := pv, efds := es\<rparr>) t = ok s t)
     \<and> (\<forall>s t. ok s t \<longrightarrow> live s t)
     \<and> (\<forall>s t ts. ok s t \<and> t \<notin> set ts \<and> pending s n (map TaskNode ts) \<and> home f ctx n s \<longrightarrow>
          (\<exists>s'. body (TaskNode t) s = Some s' \<and> pending s' n (map TaskNode ts) \<and> home f ctx n s'
             \<and> notifies s' n = notifies s n \<and> efds s' fd = efds s fd \<and> (\<forall>u. u \<noteq> t \<and> ok s u \<longrightarrow> ok s' u)))"

text \<open>The start: an idle notify object with its owner's function, an empty list and no signal.\<close>

definition rests :: "addr \<Rightarrow> int \<Rightarrow> notify_fn \<Rightarrow> notify_ctx \<Rightarrow> 'z wstate_scheme \<Rightarrow> bool" where
  "rests n fd f ctx s \<longleftrightarrow> pending s n [] \<and> efds s fd = Some 0 \<and> home f ctx n s
     \<and> (case notifies s n of
          None \<Rightarrow> False
        | Some nt \<Rightarrow> event_fd nt = fd \<and> read_hanlder nt = Some f \<and> notify_ctx nt = Some ctx)"

section \<open>The owner's function, piece by piece\<close>

text \<open>The places inside the function: at the list, in front of a task, and in front of the idle list.\<close>

fun body_pc :: "notify_fn \<Rightarrow> notify_ctx \<Rightarrow> qaddr \<Rightarrow> handler_pc" where
  "body_pc Proc_Process_One_Cycle (Proc_Conf c) x = Cycle_Pc c (Cycle_Loop (Drain_Body x))"
| "body_pc Http_Process_Notify_Task (Http_Conf c) x = Worker_Pc c (Drain_Body x)"
| "body_pc _ _ x = Wild_Pc"

fun idle_pc :: "notify_fn \<Rightarrow> notify_ctx \<Rightarrow> handler_pc option" where
  "idle_pc Proc_Process_One_Cycle (Proc_Conf c) = Some (Cycle_Pc c Cycle_Idle)"
| "idle_pc _ _ = None"

definition inside :: "notify_fn \<Rightarrow> notify_ctx \<Rightarrow> handler_pc \<Rightarrow> bool" where
  "inside f ctx h \<longleftrightarrow> h = handler_entry f ctx \<or> (\<exists>t. h = body_pc f ctx (TaskNode t)) \<or> idle_pc f ctx = Some h"

definition core :: "addr \<Rightarrow> int \<Rightarrow> notify_fn \<Rightarrow> notify_ctx \<Rightarrow> 'z wstate_scheme \<Rightarrow> nat \<Rightarrow> addr list \<Rightarrow> bool" where
  "core n fd f ctx s c ts \<longleftrightarrow> pending s n (map TaskNode ts) \<and> home f ctx n s \<and> efds s fd = Some c \<and> c \<le> eventfd_max
     \<and> (\<exists>nt. notifies s n = Some nt \<and> event_fd nt = fd \<and> read_hanlder nt = Some f \<and> notify_ctx nt = Some ctx)"

lemma pending_efds: "pending (s\<lparr>efds := e\<rparr>) n xs = pending s n xs"
  by (simp add: pending_def)

lemma pending_write: "pending (eventfd_write fd v s) n xs = pending s n xs"
  by (auto simp: eventfd_write_def pending_efds)

lemma home_cases:
  assumes "home f ctx n s"
  obtains (cycle) c where "f = Proc_Process_One_Cycle" and "ctx = Proc_Conf c"
  | (worker) c where "f = Http_Process_Notify_Task" and "ctx = Http_Conf c"
  using assms by (cases "(f, ctx, n, s)" rule: home.cases) auto

lemma places:
  assumes "home f ctx n s"
  shows "handler_node (handler_entry f ctx) = None" "handler_node (body_pc f ctx x) = Some x"
    "idle_pc f ctx = Some h \<Longrightarrow> handler_node h = None" "idle_pc f ctx \<noteq> Some (handler_entry f ctx)"
    "idle_pc f ctx \<noteq> Some (body_pc f ctx x)"
  by (rule home_cases [OF assms]; auto)+

lemma home_links:
  assumes "home f ctx n s" and "\<And>q. nx (QueueIdles q) = qnext s (QueueIdles q)"
  shows "home f ctx n (s\<lparr>qnext := nx, qprev := pv\<rparr>)"
  by (rule home_cases [OF assms(1)]) (use assms in \<open>auto simp: idle_head_def split: option.splits\<close>)

lemma home_efds: "home f ctx n (s\<lparr>efds := e\<rparr>) = home f ctx n s"
  by (cases "(f, ctx, n, s)" rule: home.cases) (auto simp: idle_head_def split: option.splits)

lemma handler_pop:
  assumes h: "home f ctx n s" and p: "pending s n (map TaskNode ts)"
  obtains (none) "ts = []" and "handler_piece exec run (handler_entry f ctx) s = Some (idle_pc f ctx, s)"
  | (some) t us nx pv where "ts = t # us" and "pending (s\<lparr>qnext := nx, qprev := pv\<rparr>) n (map TaskNode us)"
    and "home f ctx n (s\<lparr>qnext := nx, qprev := pv\<rparr>)"
    and "handler_piece exec run (handler_entry f ctx) s
        = Some (Some (body_pc f ctx (TaskNode t)), s\<lparr>qnext := nx, qprev := pv\<rparr>)"
proof -
  have e: "handler_piece exec run (handler_entry f ctx) s = do { (r, s) \<leftarrow> pending_pop n s;
      Some (case r of None \<Rightarrow> idle_pc f ctx | Some x \<Rightarrow> Some (body_pc f ctx x), s) }"
    by (rule home_cases [OF h])
      (use h in \<open>auto simp: cycle_pop_def worker_pop_def map_option_case split: option.splits bind_splits\<close>)
  show thesis
  proof (cases ts)
    case Nil
    then have "pending_pop n s = Some (None, s)" using p notify_pool.pop_none by simp
    then show thesis using none Nil by (simp add: e)
  next
    case (Cons t us)
    have r: "ring s (NotifyHead n) (TaskNode t # map TaskNode us)" using p Cons by (simp add: pending_def)
    define nx where "nx = (qnext s)(NotifyHead n \<mapsto> qfirst (NotifyHead n) (map TaskNode us))"
    define pv where "pv = (qprev s)(qfirst (NotifyHead n) (map TaskNode us) \<mapsto> NotifyHead n)"
    have pt: "ngx_rpc_notify_pop_task n s = Some (NGX_OK, Some (TaskNode t), s\<lparr>qnext := nx, qprev := pv\<rparr>)"
      unfolding nx_def pv_def by (rule pop_task_eq [OF r])
    then have pop: "pending_pop n s = Some (Some (TaskNode t), s\<lparr>qnext := nx, qprev := pv\<rparr>)"
      by (simp add: pending_pop_def)
    obtain s' where "ngx_rpc_notify_pop_task n s = Some (NGX_OK, Some (TaskNode t), s')" "pending s' n (map TaskNode us)"
      using pop_task_ok [of s n "TaskNode t" "map TaskNode us"] p Cons by auto
    then have "pending (s\<lparr>qnext := nx, qprev := pv\<rparr>) n (map TaskNode us)"
      using pt by simp
    moreover have "home f ctx n (s\<lparr>qnext := nx, qprev := pv\<rparr>)" by (rule home_links [OF h]) (simp add: nx_def)
    ultimately show thesis using some Cons pop by (simp add: e)
  qed
qed

lemma handler_body:
  assumes "home f ctx n s"
  shows "handler_piece exec run (body_pc f ctx x) s =
     do { s \<leftarrow> task_body exec run f x s; Some (Some (handler_entry f ctx), s) }"
  by (rule home_cases [OF assms]) (auto split: bind_splits)

lemma handler_idle:
  assumes h: "home f ctx n s" and p: "pending s n (map TaskNode ts)" and i: "idle_pc f ctx = Some h"
  obtains nx pv where "handler_piece exec run h s = Some (None, s\<lparr>qnext := nx, qprev := pv\<rparr>)"
    and "pending (s\<lparr>qnext := nx, qprev := pv\<rparr>) n (map TaskNode ts)" and "home f ctx n (s\<lparr>qnext := nx, qprev := pv\<rparr>)"
  using h
proof (cases rule: home_cases)
  case (cycle c)
  then obtain cf q x where cf: "pconfs s c = Some cf" "pc_notify cf = Some n" "pc_queue cf = Some q"
    and x: "qnext s (QueueIdles q) = Some x" "node_live s x" "idle_node x" "node_live s (QueueIdles q)"
    using h by (auto simp: idle_head_def split: option.splits)
  have n: "node_live s (NotifyIdles n)" using pending_live [OF p] by (simp add: node_live_def)
  define nx where "nx = (qnext s)(NotifyIdles n \<mapsto> x, QueueIdles q \<mapsto> NotifyIdles n)"
  define pv where "pv = (qprev s)(x \<mapsto> NotifyIdles n, NotifyIdles n \<mapsto> QueueIdles q)"
  have "handler_piece exec run h s = Some (None, s\<lparr>qnext := nx, qprev := pv\<rparr>)"
    using cycle i cf x n by (auto simp: put_idle_def link_defs nx_def pv_def)
  moreover have "ring (s\<lparr>qnext := nx, qprev := pv\<rparr>) (NotifyHead n) (map TaskNode ts)"
    by (rule ring_frame [of s]) (use p x(3) in \<open>auto simp: pending_def nx_def pv_def\<close>)
  then have "pending (s\<lparr>qnext := nx, qprev := pv\<rparr>) n (map TaskNode ts)" using p by (simp add: pending_def)
  moreover have "home f ctx n (s\<lparr>qnext := nx, qprev := pv\<rparr>)"
    using cycle cf x n by (simp add: idle_head_def nx_def)
  ultimately show thesis by (rule that)
qed (use i in auto)

section \<open>The invariant\<close>

text \<open>
  A task that waits has somebody to look after it: a push that has yet to signal, a signal, or an owner that looks at
  the list once more before it sleeps.
\<close>

definition looks :: "notify_fn \<Rightarrow> notify_ctx \<Rightarrow> handler_pc read_pc option \<Rightarrow> bool" where
  "looks f ctx p \<longleftrightarrow> p \<noteq> None \<and> (\<forall>h. p = Some (Read_In False h) \<longrightarrow> idle_pc f ctx \<noteq> Some h)"

definition waiting :: "(addr \<times> push_pc) list \<Rightarrow> addr list" where
  "waiting ps = map fst (filter (\<lambda>(t, pc). pc = Push_Region) ps)"

definition going :: "(addr \<times> push_pc) list \<Rightarrow> addr list \<Rightarrow> handler_pc read_pc option \<Rightarrow> addr list" where
  "going ps ts p = waiting ps @ ts @ (case held p of None \<Rightarrow> [] | Some t \<Rightarrow> [t])"

definition looked_after ::
  "('z wstate_scheme \<Rightarrow> addr \<Rightarrow> bool) \<Rightarrow> addr \<Rightarrow> int \<Rightarrow> notify_fn \<Rightarrow> notify_ctx \<Rightarrow> addr list \<Rightarrow> 'z config \<Rightarrow> bool" where
  "looked_after ok n fd f ctx ts a \<longleftrightarrow>
     (case a of (s, ps, p) \<Rightarrow>
        (\<exists>c. core n fd f ctx s c ts \<and> (ts \<noteq> [] \<longrightarrow> Push_Signal \<in> snd ` set ps \<or> 0 < c \<or> looks f ctx p))
      \<and> (\<forall>b h. p = Some (Read_In b h) \<longrightarrow> inside f ctx h)
      \<and> distinct (going ps ts p) \<and> (\<forall>t \<in> set (going ps ts p). ok s t))"

text \<open>The measure that every step without a new call decreases.\<close>

definition work :: "(addr \<times> push_pc) list \<Rightarrow> nat" where
  "work ps = sum_list (map (\<lambda>(t, pc). case pc of Push_Region \<Rightarrow> 2 | Push_Signal \<Rightarrow> 1) ps)"

fun phase :: "bool \<Rightarrow> handler_pc read_pc option \<Rightarrow> nat" where
  "phase False None = 0"
| "phase False (Some Read_Fd) = 2"
| "phase False (Some (Read_Call again)) = (if again then 3 else 1)"
| "phase False (Some (Read_In again h)) = (if again then 3 else 1)"
| "phase True None = 5"
| "phase True (Some Read_Fd) = 4"
| "phase True (Some (Read_Call again)) = (if again then 5 else 6)"
| "phase True (Some (Read_In again h)) = (if again then 5 else 6)"

lemma phase_in: "phase w (Some (Read_In b h)) = phase w (Some (Read_Call b))"
  by (cases w) simp_all

lemma phase_return:
  "phase w (Some Read_Fd) < phase w (Some (Read_Call True))" "phase w None < phase w (Some (Read_Call False))"
  by (cases w; simp)+

fun turn :: "notify_fn \<Rightarrow> notify_ctx \<Rightarrow> handler_pc read_pc option \<Rightarrow> nat" where
  "turn f ctx (Some (Read_In again h)) =
     (if idle_pc f ctx = Some h then 0 else case handler_node h of None \<Rightarrow> 1 | Some x \<Rightarrow> 2)"
| "turn f ctx (Some (Read_Call again)) = 3"
| "turn f ctx _ = 0"

definition wake_rank :: "int \<Rightarrow> notify_fn \<Rightarrow> notify_ctx \<Rightarrow> addr list \<Rightarrow> 'z config \<Rightarrow> nat \<times> nat \<times> nat \<times> nat" where
  "wake_rank fd f ctx ts a =
     (case a of (s, ps, p) \<Rightarrow> (work ps, phase (efds s fd \<noteq> Some 0) p, length ts, turn f ctx p))"

definition wake_less :: "((nat \<times> nat \<times> nat \<times> nat) \<times> (nat \<times> nat \<times> nat \<times> nat)) set" where
  "wake_less = less_than <*lex*> less_than <*lex*> less_than <*lex*> less_than"

lemma wf_wake_less: "wf wake_less"
  unfolding wake_less_def by (intro wf_lex_prod wf_less_than)

lemma waiting_simps [simp]:
  "waiting [] = []" "waiting (x # ps) = (case x of (t, pc) \<Rightarrow> if pc = Push_Region then t # waiting ps else waiting ps)"
  "waiting (ps @ qs) = waiting ps @ waiting qs"
  by (auto simp: waiting_def split: prod.splits)

lemma work_simps [simp]:
  "work [] = 0" "work ((t, pc) # ps) = (case pc of Push_Region \<Rightarrow> 2 | Push_Signal \<Rightarrow> 1) + work ps"
  "work (ps @ qs) = work ps + work qs"
  by (simp_all add: work_def split: push_pc.splits)

lemma held_simps [simp]:
  "held None = None" "held (Some Read_Fd) = None" "held (Some (Read_Call b)) = None"
  "held (Some (Read_In b h)) = Option.bind (handler_node h) data_task_node"
  by (simp_all add: held_def)

lemma core_pending: "core n fd f ctx s c ts \<Longrightarrow> pending s n (map TaskNode ts)"
  by (simp add: core_def)

lemma core_links:
  assumes "core n fd f ctx s c ts" and "pending (s\<lparr>qnext := nx, qprev := pv\<rparr>) n (map TaskNode us)"
    and "home f ctx n (s\<lparr>qnext := nx, qprev := pv\<rparr>)"
  shows "core n fd f ctx (s\<lparr>qnext := nx, qprev := pv\<rparr>) c us"
  using assms by (simp add: core_def)

lemma core_efds:
  assumes "core n fd f ctx s c ts" and "e fd = Some d" and "d \<le> eventfd_max"
  shows "core n fd f ctx (s\<lparr>efds := e\<rparr>) d ts"
  using assms by (simp add: core_def pending_efds home_efds)

lemma core_loads:
  assumes "core n fd f ctx s c ts"
  obtains nt where "load s (notifies s) n = Some nt" and "notifies s n = Some nt" and "event_fd nt = fd"
    and "read_hanlder nt = Some f" and "notify_ctx nt = Some ctx" and "efds s fd = Some c" and "c \<le> eventfd_max"
    and "home f ctx n s"
proof -
  obtain nt where nt: "notifies s n = Some nt" "event_fd nt = fd" "read_hanlder nt = Some f" "notify_ctx nt = Some ctx"
    using assms by (auto simp: core_def)
  moreover have "load s (notifies s) n = Some nt"
    using pending_live [OF core_pending [OF assms]] nt(1) by (simp add: load_live)
  ultimately show thesis using that assms by (auto simp: core_def)
qed

lemma serves_ok_links:
  assumes "serves body n fd f ctx ok"
  shows "ok (s\<lparr>qnext := nx, qprev := pv\<rparr>) t = ok s t" "ok (s\<lparr>efds := e\<rparr>) t = ok s t"
proof -
  have a: "ok (s\<lparr>qnext := nx, qprev := pv, efds := e\<rparr>) t = ok s t" for nx pv e using assms by (simp add: serves_def)
  show "ok (s\<lparr>qnext := nx, qprev := pv\<rparr>) t = ok s t" using a [where nx = nx and pv = pv and e = "efds s"] by simp
  show "ok (s\<lparr>efds := e\<rparr>) t = ok s t" using a [where nx = "qnext s" and pv = "qprev s" and e = e] by simp
qed

lemma serves_live: "serves body n fd f ctx ok \<Longrightarrow> ok s t \<Longrightarrow> live s t"
  by (simp add: serves_def)

text \<open>One piece of the owner's function.\<close>

lemma handler_ok:
  assumes k: "core n fd f ctx s c ts" and h: "inside f ctx h" and sv: "serves (task_body exec run f) n fd f ctx ok"
    and t: "\<And>t. handler_node h = Some (TaskNode t) \<Longrightarrow> ok s t \<and> t \<notin> set ts"
  obtains (none) "h = handler_entry f ctx" and "ts = []" and "handler_piece exec run h s = Some (idle_pc f ctx, s)"
  | (some) t us s' where "h = handler_entry f ctx" and "ts = t # us" and "core n fd f ctx s' c us" and "\<And>u. ok s' u = ok s u"
    and "handler_piece exec run h s = Some (Some (body_pc f ctx (TaskNode t)), s')"
  | (body) t s' where "h = body_pc f ctx (TaskNode t)" and "core n fd f ctx s' c ts" and "\<And>u. u \<noteq> t \<Longrightarrow> ok s u \<Longrightarrow> ok s' u"
    and "handler_piece exec run h s = Some (Some (handler_entry f ctx), s')"
  | (idle) s' where "idle_pc f ctx = Some h" and "core n fd f ctx s' c ts" and "\<And>u. ok s' u = ok s u"
    and "handler_piece exec run h s = Some (None, s')"
proof -
  have hm: "home f ctx n s" and p: "pending s n (map TaskNode ts)" using k by (auto simp: core_def)
  note okl = serves_ok_links(1) [OF sv]
  consider "h = handler_entry f ctx" | t where "h = body_pc f ctx (TaskNode t)" | "idle_pc f ctx = Some h"
    using h by (auto simp: inside_def)
  then show thesis
  proof cases
    case 1
    show thesis
    proof (rule handler_pop [OF hm p, of exec run])
      assume "ts = []" "handler_piece exec run (handler_entry f ctx) s = Some (idle_pc f ctx, s)"
      then show thesis using none 1 by simp
    next
      fix t us nx pv
      assume "ts = t # us" "pending (s\<lparr>qnext := nx, qprev := pv\<rparr>) n (map TaskNode us)"
        "home f ctx n (s\<lparr>qnext := nx, qprev := pv\<rparr>)" "handler_piece exec run (handler_entry f ctx) s
        = Some (Some (body_pc f ctx (TaskNode t)), s\<lparr>qnext := nx, qprev := pv\<rparr>)"
      then show thesis using some [OF 1 _ core_links [OF k]] okl 1 by blast
    qed
  next
    case (2 t)
    have "ok s t \<and> t \<notin> set ts" using t 2 places(2) [OF hm] by simp
    then obtain s' where s': "task_body exec run f (TaskNode t) s = Some s'" "pending s' n (map TaskNode ts)" "home f ctx n s'"
      "notifies s' n = notifies s n" "efds s' fd = efds s fd" "\<And>u. u \<noteq> t \<Longrightarrow> ok s u \<Longrightarrow> ok s' u"
      using sv hm p unfolding serves_def by blast
    have "handler_piece exec run h s = Some (Some (handler_entry f ctx), s')"
      using handler_body [OF hm] s'(1) 2 by simp
    moreover have "core n fd f ctx s' c ts" using k s'(2-5) by (simp add: core_def)
    ultimately show thesis using body [OF 2] s'(6) by blast
  next
    case 3
    show thesis
      by (rule handler_idle [OF hm p 3, of exec run]) (use idle [OF 3 core_links [OF k]] okl in blast)
  qed
qed

text \<open>
  Every piece of a push or of the owner can be executed, keeps the invariant, does to the list what its event
  says, and brings the measure down.
\<close>

definition moves :: "('z wstate_scheme \<Rightarrow> addr \<Rightarrow> bool) \<Rightarrow> addr \<Rightarrow> int \<Rightarrow> notify_fn \<Rightarrow> notify_ctx
    \<Rightarrow> addr list \<Rightarrow> 'z config \<Rightarrow> wake_event \<Rightarrow> 'z config \<Rightarrow> bool" where
  "moves ok n fd f ctx ts a e b \<longleftrightarrow>
     (\<exists>us. looked_after ok n fd f ctx us b \<and> ts @ linked [e] = taken [e] @ us
        \<and> (wake_rank fd f ctx us b, wake_rank fd f ctx ts a) \<in> wake_less)"

lemma moves_intro:
  assumes "looked_after ok n fd f ctx us b" and "ts @ linked [e] = taken [e] @ us"
    and "(wake_rank fd f ctx us b, wake_rank fd f ctx ts a) \<in> wake_less"
  shows "moves ok n fd f ctx ts a e b"
  using assms by (auto simp: moves_def)

lemma push_moves:
  assumes la: "looked_after ok n fd f ctx ts (s, ps @ (t, pc) # qs, p)" and sv: "serves body n fd f ctx ok"
  obtains r s' where "push_piece n (TaskNode t) pc s = Some (r, s')"
    and "moves ok n fd f ctx ts (s, ps @ (t, pc) # qs, p) (push_event t pc)
        (s', ps @ (case r of None \<Rightarrow> [] | Some pc \<Rightarrow> [(t, pc)]) @ qs, p)"
proof -
  obtain c where k: "core n fd f ctx s c ts" and lk: "ts \<noteq> [] \<longrightarrow> Push_Signal \<in> snd ` set (ps @ (t, pc) # qs) \<or> 0 < c \<or> looks f ctx p"
    using la by (auto simp: looked_after_def)
  note p = core_pending [OF k]
  show thesis
  proof (cases pc)
    case Push_Region
    then have t: "ok s t" "t \<notin> set ts" using la by (auto simp: looked_after_def going_def)
    let ?x = "TaskNode t" and ?l = "qlast (NotifyHead n) (map TaskNode ts)"
    have x: "node_live s ?x" "?x \<notin> set (NotifyHead n # map TaskNode ts)"
      using serves_live [OF sv t(1)] t(2) by (auto simp: node_live_def)
    have l: "?l \<noteq> QueueIdles q" for q using qlast_in [of "NotifyHead n" "map TaskNode ts"] by auto
    define nx where "nx = (qnext s)(?l \<mapsto> ?x, ?x \<mapsto> NotifyHead n)"
    define pv where "pv = (qprev s)(?x \<mapsto> ?l, NotifyHead n \<mapsto> ?x)"
    have link: "notify_link_tail n ?x s = Some (s\<lparr>qnext := nx, qprev := pv\<rparr>)"
      unfolding nx_def pv_def by (rule link_tail_eq) (use p x in \<open>auto simp: pending_def\<close>)
    obtain nt where nt: "notifies s n = Some nt" by (rule core_loads [OF k])
    from push_task_ok [OF p x nt] link have "pending (s\<lparr>qnext := nx, qprev := pv\<rparr>) n (map TaskNode (ts @ [t]))"
      by (auto simp: pending_write)
    moreover have "home f ctx n (s\<lparr>qnext := nx, qprev := pv\<rparr>)"
      by (rule home_links) (use k l [symmetric] in \<open>auto simp: core_def nx_def\<close>)
    ultimately have k': "core n fd f ctx (s\<lparr>qnext := nx, qprev := pv\<rparr>) c (ts @ [t])" by (rule core_links [OF k])
    have "looked_after ok n fd f ctx (ts @ [t]) (s\<lparr>qnext := nx, qprev := pv\<rparr>, ps @ (t, Push_Signal) # qs, p)"
      using la k' serves_ok_links(1) [OF sv] Push_Region
      by (auto simp: looked_after_def going_def simp del: map_append)
    then show thesis
      by (intro that [where r = "Some Push_Signal" and s' = "s\<lparr>qnext := nx, qprev := pv\<rparr>"] moves_intro)
        (simp_all add: link Push_Region push_event_def wake_rank_def wake_less_def)
  next
    case Push_Signal
    obtain nt where nt: "load s (notifies s) n = Some nt" "event_fd nt = fd" "efds s fd = Some c" "c \<le> eventfd_max"
      by (rule core_loads [OF k])
    obtain d e where d: "eventfd_write fd 1 s = s\<lparr>efds := e\<rparr>" "e fd = Some d" "0 < d" "d \<le> eventfd_max"
      using eventfd_write_readable [OF nt(3,4)] that [of "efds (eventfd_write fd 1 s)"] by (auto simp: eventfd_write_def)
    have "looked_after ok n fd f ctx ts (s\<lparr>efds := e\<rparr>, ps @ qs, p)"
      using la core_efds [where e = e, OF k d(2,4)] d(3) serves_ok_links(2) [OF sv] Push_Signal
      by (auto simp: looked_after_def going_def)
    then show thesis
      by (intro that [where r = None and s' = "s\<lparr>efds := e\<rparr>"] moves_intro)
        (simp_all add: nt(1,2) d(1) [unfolded One_nat_def] Push_Signal push_event_def wake_rank_def wake_less_def)
  qed
qed

lemma owner_moves:
  assumes la: "looked_after ok n fd f ctx ts (s, ps, Some pc)" and sv: "serves (task_body exec run f) n fd f ctx ok"
  obtains r s' where "owner_piece exec run n pc s = Some (r, s')"
    and "moves ok n fd f ctx ts (s, ps, Some pc) (owner_event r) (s', ps, r)"
proof -
  obtain c where k: "core n fd f ctx s c ts" and ins: "\<And>b h. pc = Read_In b h \<Longrightarrow> inside f ctx h"
    and lk: "ts \<noteq> [] \<longrightarrow> Push_Signal \<in> snd ` set ps \<or> 0 < c \<or> looks f ctx (Some pc)"
    and dk: "distinct (going ps ts (Some pc))" "\<And>t. t \<in> set (going ps ts (Some pc)) \<Longrightarrow> ok s t"
    using la by (auto simp: looked_after_def)
  obtain nt where nt: "load s (notifies s) n = Some nt" "event_fd nt = fd" "read_hanlder nt = Some f" "notify_ctx nt = Some ctx"
    "efds s fd = Some c" "home f ctx n s" by (rule core_loads [OF k])
  note pl = places [OF nt(6)]
  show thesis
  proof (cases pc)
    case Read_Fd
    define e where "e = (efds s)(fd \<mapsto> 0)"
    have rd: "eventfd_read fd s = (if c = 0 then (-1, s) else (8, s\<lparr>efds := e\<rparr>))"
      using nt(5) by (simp add: eventfd_read_def e_def)
    have k0: "core n fd f ctx (s\<lparr>efds := e\<rparr>) 0 ts" by (rule core_efds [OF k]) (simp_all add: e_def)
    let ?s' = "if c = 0 then s else s\<lparr>efds := e\<rparr>"
    have "looked_after ok n fd f ctx ts (?s', ps, Some (Read_Call (c \<noteq> 0)))"
      using k k0 dk serves_ok_links(2) [OF sv] Read_Fd by (auto simp: looked_after_def going_def looks_def)
    then show thesis
      by (intro that [where r = "Some (Read_Call (c \<noteq> 0))" and s' = ?s'] moves_intro)
        (use nt rd in \<open>auto simp: Read_Fd owner_event_def wake_rank_def wake_less_def e_def\<close>)
  next
    case (Read_Call b)
    have "looked_after ok n fd f ctx ts (s, ps, Some (Read_In b (handler_entry f ctx)))"
      using k dk lk pl(1,4) Read_Call by (auto simp: looked_after_def going_def looks_def inside_def)
    then show thesis
      by (intro that [where r = "Some (Read_In b (handler_entry f ctx))" and s' = s] moves_intro)
        (use nt pl(1,4) in \<open>auto simp: Read_Call phase_in owner_event_def wake_rank_def wake_less_def\<close>)
  next
    case (Read_In b h)
    note h = ins [OF this]
    have t: "ok s t \<and> t \<notin> set ts" if "handler_node h = Some (TaskNode t)" for t
      using dk that Read_In by (auto simp: going_def)
    show thesis
    proof (rule handler_ok [OF k h sv t])
      assume none: "h = handler_entry f ctx" "ts = []" "handler_piece exec run h s = Some (idle_pc f ctx, s)"
      let ?r = "case idle_pc f ctx of Some h \<Rightarrow> Some (Read_In b h) | None \<Rightarrow> if b then Some Read_Fd else None"
      have hd: "held ?r = None" using pl(3) by (cases "idle_pc f ctx"; cases b) auto
      have "looked_after ok n fd f ctx ts (s, ps, ?r)"
        using k dk none hd pl(1) Read_In by (auto simp: looked_after_def going_def inside_def split: option.splits if_splits)
      then show thesis
        by (intro that [where r = ?r and s' = s] moves_intro)
          (use none hd pl(1,4) in \<open>auto simp: Read_In phase_in phase_return owner_event_def wake_rank_def wake_less_def split: option.splits\<close>)
    next
      fix t us s'
      assume some: "h = handler_entry f ctx" "ts = t # us" "core n fd f ctx s' c us" "\<And>u. ok s' u = ok s u"
        "handler_piece exec run h s = Some (Some (body_pc f ctx (TaskNode t)), s')"
      let ?r = "Some (Read_In b (body_pc f ctx (TaskNode t)))"
      have "looked_after ok n fd f ctx us (s', ps, ?r)"
        using some dk pl Read_In by (auto simp: looked_after_def going_def looks_def inside_def)
      moreover have "efds s' fd = efds s fd" using some(3) nt(5) by (simp add: core_def)
      ultimately show thesis
        by (intro that [where r = ?r and s' = s'] moves_intro)
          (use some pl in \<open>auto simp: Read_In phase_in owner_event_def wake_rank_def wake_less_def\<close>)
    next
      fix t s'
      assume body: "h = body_pc f ctx (TaskNode t)" "core n fd f ctx s' c ts" "\<And>u. u \<noteq> t \<Longrightarrow> ok s u \<Longrightarrow> ok s' u"
        "handler_piece exec run h s = Some (Some (handler_entry f ctx), s')"
      let ?r = "Some (Read_In b (handler_entry f ctx))"
      have "t \<notin> set (waiting ps) \<union> set ts" using dk(1) body(1) pl(2) Read_In by (auto simp: going_def)
      then have "ok s' u" if "u \<in> set (waiting ps) \<union> set ts" for u
        using that body(3) [of u] dk(2) [of u] by (auto simp: going_def)
      then have "looked_after ok n fd f ctx ts (s', ps, ?r)"
        using body(1,2) dk(1) pl Read_In by (auto simp: looked_after_def going_def looks_def inside_def)
      moreover have "efds s' fd = efds s fd" using body(2) nt(5) by (simp add: core_def)
      ultimately show thesis
        by (intro that [where r = ?r and s' = s'] moves_intro)
          (use body pl in \<open>auto simp: Read_In phase_in owner_event_def wake_rank_def wake_less_def\<close>)
    next
      fix s'
      assume idle: "idle_pc f ctx = Some h" "core n fd f ctx s' c ts" "\<And>u. ok s' u = ok s u"
        "handler_piece exec run h s = Some (None, s')"
      let ?r = "if b then Some Read_Fd else None"
      have "looked_after ok n fd f ctx ts (s', ps, ?r)"
        using idle dk lk pl(3) Read_In by (auto simp: looked_after_def going_def looks_def)
      moreover have "efds s' fd = efds s fd" using idle(2) nt(5) by (simp add: core_def)
      ultimately show thesis
        by (intro that [where r = ?r and s' = s'] moves_intro)
          (use idle in \<open>auto simp: Read_In phase_in phase_return owner_event_def wake_rank_def wake_less_def\<close>)
    qed
  qed
qed

section \<open>Steps and runs\<close>

lemma quiet_moves:
  assumes st: "quiet_step exec run n a e b" and la: "looked_after ok n fd f ctx ts a"
    and sv: "serves (task_body exec run f) n fd f ctx ok"
  shows "moves ok n fd f ctx ts a e b"
  using st unfolding quiet_step_def
proof (cases rule: wake_step.cases)
  case (push t pc s r s' ps qs p)
  show ?thesis
    by (rule push_moves [OF la [unfolded push(1)] sv]) (use push in auto)
next
  case (wake s nt c ps)
  obtain d where k: "core n fd f ctx s d ts" using la wake(1) by (auto simp: looked_after_def)
  have "efds s fd = Some c" by (rule core_loads [OF k]) (use wake in auto)
  then show ?thesis
    using la wake by (intro moves_intro [where us = ts])
      (auto simp: looked_after_def going_def looks_def wake_rank_def wake_less_def)
next
  case (owner pc s r s' ps)
  show ?thesis
    by (rule owner_moves [OF la [unfolded owner(1)] sv]) (use owner in auto)
qed simp

lemma call_keeps:
  assumes la: "looked_after ok n fd f ctx ts (s, ps, p)" and t: "ok s t" "\<not> on_way n (s, ps, p) t"
  shows "looked_after ok n fd f ctx ts (s, ps @ [(t, Push_Region)], p)"
proof -
  obtain c where "core n fd f ctx s c ts" using la by (auto simp: looked_after_def)
  then have "pending s n (map TaskNode ts)" by (rule core_pending)
  then have "t \<notin> set (going ps ts p)"
    using t(2) by (force simp: on_way_def going_def waiting_def split: option.splits)
  then show ?thesis using la t(1) by (auto simp: looked_after_def going_def)
qed

lemma wake_step_keeps:
  assumes "wake_step exec run ok n a e b" and la: "looked_after ok n fd f ctx ts a"
    and sv: "serves (task_body exec run f) n fd f ctx ok"
  shows "\<exists>us. looked_after ok n fd f ctx us b \<and> ts @ linked [e] = taken [e] @ us"
proof -
  have "quiet_step exec run n a e b \<or> (\<exists>s ps p t. a = (s, ps, p) \<and> b = (s, ps @ [(t, Push_Region)], p)
      \<and> e = Called t \<and> ok s t \<and> \<not> on_way n (s, ps, p) t)"
    using assms(1) unfolding quiet_step_def by (cases rule: wake_step.cases) (auto intro: wake_step.intros)
  then show ?thesis
  proof (elim disjE exE conjE)
    assume "quiet_step exec run n a e b"
    from quiet_moves [OF this la sv] show ?thesis unfolding moves_def by blast
  next
    fix s ps p t
    assume "a = (s, ps, p)" "b = (s, ps @ [(t, Push_Region)], p)" "e = Called t" "ok s t" "\<not> on_way n (s, ps, p) t"
    then show ?thesis using call_keeps [of ok n fd f ctx ts s ps p t] la by auto
  qed
qed

lemma wake_steps_keep:
  assumes "wake_steps exec run ok' n a es b" and "\<And>s t. ok' s t \<Longrightarrow> ok s t" and "looked_after ok n fd f ctx ts a"
    and "serves (task_body exec run f) n fd f ctx ok"
  shows "\<exists>us. looked_after ok n fd f ctx us b \<and> ts @ linked es = taken es @ us"
  using assms(1)
proof (induction rule: wake_steps.induct)
  case start
  then show ?case using assms(3) by auto
next
  case (step es b e c)
  then obtain us where us: "looked_after ok n fd f ctx us b" "ts @ linked es = taken es @ us" by blast
  have "wake_step exec run ok n b e c" using step.hyps(2) assms(2) by (cases rule: wake_step.cases) (auto intro: wake_step.intros)
  then obtain vs where "looked_after ok n fd f ctx vs c" "us @ linked [e] = taken [e] @ vs"
    using wake_step_keeps us(1) assms(4) by blast
  then show ?case using us(2) by (metis append.assoc events_append(2,3))
qed

text \<open>What is called is linked or still waits for the lock.\<close>

lemma wake_step_called:
  "wake_step exec run ok n (s, ps, p) e (s', ps', p')
    \<Longrightarrow> mset (called [e]) + mset (waiting ps) = mset (linked [e]) + mset (waiting ps')"
proof (induction "(s, ps, p)" e "(s', ps', p')" rule: wake_step.induct)
  case (push t pc r ps qs)
  then show ?case by (cases pc) (auto simp: push_event_def fault_simps)
next
  case (owner pc)
  then show ?case by (auto simp: owner_event_def split: option.splits)
qed auto

lemma wake_steps_called:
  "wake_steps exec run ok n a es b
    \<Longrightarrow> mset (called es) + mset (waiting (fst (snd a))) = mset (linked es) + mset (waiting (fst (snd b)))"
proof (induction rule: wake_steps.induct)
  case (step es b e c)
  have "mset (called [e]) + mset (waiting (fst (snd b))) = mset (linked [e]) + mset (waiting (fst (snd c)))"
    by (rule wake_step_called [of exec run ok n "fst b" _ "snd (snd b)" _ "fst c" _ "snd (snd c)"]) (use step.hyps(2) in simp)
  moreover have "mset (called (es @ [e])) + mset (waiting (fst (snd a)))
      = (mset (called es) + mset (waiting (fst (snd a)))) + mset (called [e])" by (simp add: ac_simps)
  ultimately show ?case unfolding step.IH by (simp add: ac_simps)
qed simp

lemma rests_looked_after:
  assumes "rests n fd f ctx s"
  shows "looked_after ok n fd f ctx [] (s, [], None)"
  using assms by (auto simp: rests_def looked_after_def core_def going_def eventfd_max_def split: option.splits)

text \<open>A configuration in which no quiet step is possible has come to rest.\<close>

lemma stuck_rests:
  assumes la: "looked_after ok n fd f ctx ts (s, ps, p)" and sv: "serves (task_body exec run f) n fd f ctx ok"
    and no: "\<And>e b. \<not> quiet_step exec run n (s, ps, p) e b"
  shows "ts = [] \<and> ps = [] \<and> p = None"
proof -
  have ps: "ps = []"
  proof (rule ccontr)
    assume "ps \<noteq> []"
    then obtain t pc qs where e: "ps = [] @ (t, pc) # qs" by (cases ps) auto
    obtain r s' where "push_piece n (TaskNode t) pc s = Some (r, s')" by (rule push_moves [OF la [unfolded e] sv])
    from wake_step.push [OF this, of exec run "\<lambda>s t. False" "[]" qs p] show False
      using no e by (auto simp: quiet_step_def)
  qed
  have p: "p = None"
  proof (rule ccontr)
    assume "p \<noteq> None"
    then obtain pc where e: "p = Some pc" by auto
    obtain r s' where "owner_piece exec run n pc s = Some (r, s')" by (rule owner_moves [OF la [unfolded e] sv])
    from wake_step.owner [OF this, of "\<lambda>s t. False" ps] show False
      using no e by (auto simp: quiet_step_def)
  qed
  obtain c where k: "core n fd f ctx s c ts" "ts \<noteq> [] \<longrightarrow> 0 < c" using la ps p by (auto simp: looked_after_def looks_def)
  have "\<not> 0 < c"
  proof (rule core_loads [OF k(1)])
    fix nt
    assume "notifies s n = Some nt" "event_fd nt = fd" "efds s fd = Some c"
    then show ?thesis
      using wake_step.wake [of s n nt c exec run "\<lambda>s t. False" ps] no p by (auto simp: quiet_step_def)
  qed
  then show ?thesis using k(2) ps p by simp
qed

lemma quiet_runs_end:
  assumes "looked_after ok n fd f ctx ts (g (0::nat))" and sv: "serves (task_body exec run f) n fd f ctx ok"
  shows "\<exists>i. \<not> (\<exists>e. quiet_step exec run n (g i) e (g (Suc i)))"
proof -
  have "\<forall>g ts. looked_after ok n fd f ctx ts (g (0::nat)) \<and> wake_rank fd f ctx ts (g 0) = k \<longrightarrow>
      (\<exists>i. \<not> (\<exists>e. quiet_step exec run n (g i) e (g (Suc i))))" for k
  proof (induction k rule: wf_induct_rule [OF wf_wake_less])
    case (1 k)
    show ?case
    proof (intro allI impI)
      fix g ts
      assume g: "looked_after ok n fd f ctx ts (g (0::nat)) \<and> wake_rank fd f ctx ts (g 0) = k"
      show "\<exists>i. \<not> (\<exists>e. quiet_step exec run n (g i) e (g (Suc i)))"
      proof (cases "\<exists>e. quiet_step exec run n (g 0) e (g (Suc 0))")
        case True
        then obtain e where "quiet_step exec run n (g 0) e (g (Suc 0))" by blast
        from quiet_moves [OF this conjunct1 [OF g] sv] obtain us where us: "looked_after ok n fd f ctx us (g (Suc 0))"
          "(wake_rank fd f ctx us (g (Suc 0)), k) \<in> wake_less" using g unfolding moves_def by blast
        from 1 [OF us(2), rule_format, of us "\<lambda>i. g (Suc i)"] us(1) show ?thesis by auto
      qed auto
    qed
  qed
  then show ?thesis using assms(1) by blast
qed

lemma quiet_run_step:
  "quiet_step exec run n a e b \<Longrightarrow> quiet_run exec run n b es c \<Longrightarrow> quiet_run exec run n a (e # es) c"
  unfolding quiet_step_def quiet_run_def
proof (rotate_tac 1, induction rule: wake_steps.induct)
  case start
  then show ?case using wake_steps.step [OF wake_steps.start] by fastforce
next
  case (step es c e' d)
  then show ?case using wake_steps.step [of exec run "\<lambda>s t. False" n a "e # es"] by simp
qed

lemma maximal_run:
  assumes "looked_after ok n fd f ctx ts a" and sv: "serves (task_body exec run f) n fd f ctx ok"
  shows "\<exists>es b. quiet_run exec run n a es b \<and> (\<forall>e c. \<not> quiet_step exec run n b e c)"
proof -
  have "\<forall>a ts. looked_after ok n fd f ctx ts a \<and> wake_rank fd f ctx ts a = k \<longrightarrow>
      (\<exists>es b. quiet_run exec run n a es b \<and> (\<forall>e c. \<not> quiet_step exec run n b e c))" for k
  proof (induction k rule: wf_induct_rule [OF wf_wake_less])
    case (1 k)
    show ?case
    proof (intro allI impI)
      fix a ts
      assume a: "looked_after ok n fd f ctx ts a \<and> wake_rank fd f ctx ts a = k"
      show "\<exists>es b. quiet_run exec run n a es b \<and> (\<forall>e c. \<not> quiet_step exec run n b e c)"
      proof (cases "\<exists>e b. quiet_step exec run n a e b")
        case True
        then obtain e b where st: "quiet_step exec run n a e b" by blast
        from quiet_moves [OF this conjunct1 [OF a] sv] obtain us where "looked_after ok n fd f ctx us b"
          "(wake_rank fd f ctx us b, k) \<in> wake_less" using a unfolding moves_def by blast
        then obtain es c where "quiet_run exec run n b es c" "\<forall>e d. \<not> quiet_step exec run n c e d" using 1 by blast
        then show ?thesis using quiet_run_step [OF st] by blast
      next
        case False
        moreover have "quiet_run exec run n a [] a" by (simp add: quiet_run_def wake_steps.start)
        ultimately show ?thesis by blast
      qed
    qed
  qed
  then show ?thesis using assms(1) by blast
qed

section \<open>Properties\<close>

text \<open>
  The tasks that come back to a worker satisfy the contract: their functions are the module's own, and what they do to
  requests and calls does not touch the list.
\<close>

lemma worker_serves:
  assumes "en_cleanup env"
  shows "serves (task_body exec (worker_run env cmp junk) Http_Process_Notify_Task) n fd Http_Process_Notify_Task
     (Http_Conf c) (\<lambda>s t. answerable s (TaskNode t))"
proof -
  have "\<exists>s'. worker_body (worker_run env cmp junk) (TaskNode t) s = Some s' \<and> pending s' n (map TaskNode ts)
     \<and> home Http_Process_Notify_Task (Http_Conf c) n s' \<and> notifies s' n = notifies s n \<and> efds s' fd = efds s fd
     \<and> (\<forall>u. u \<noteq> t \<and> answerable s (TaskNode u) \<longrightarrow> answerable s' (TaskNode u))"
    if an: "answerable s (TaskNode t)" and p: "pending s n (map TaskNode ts)"
      and h: "home Http_Process_Notify_Task (Http_Conf c) n s" for s t ts
  proof -
    obtain r q where b: "worker_body (worker_run env cmp junk) (TaskNode t) s = Some (s\<lparr>requests := (requests s)(r \<mapsto> q),
        calls := task_answer env (tasks s) (TaskNode t) @ calls s\<rparr>)" (is "_ = Some ?s'")
      using worker_body_answers [OF an assms] by blast
    have "ring ?s' (NotifyHead n) (map TaskNode ts)"
      by (rule ring_same_links [of s]) (use p in \<open>simp_all add: pending_def\<close>)
    moreover have "answerable ?s' x" if "answerable s x" for x by (rule answerable_frame [OF _ _ _ that]) auto
    ultimately show ?thesis using b p h by (simp add: pending_def)
  qed
  moreover have "answerable (s\<lparr>qnext := nx, qprev := pv, efds := es\<rparr>) (TaskNode t) = answerable s (TaskNode t)" for s nx pv es t
    by (simp add: answerable_def load_def)
  moreover have "live s t" if "answerable s (TaskNode t)" for s t
    using that by (auto simp: answerable_def load_Some_iff)
  ultimately show ?thesis unfolding serves_def task_body.simps by blast
qed

text \<open>
  C9. No wake-up and no task is lost, however many processes push and however the pieces of
  \<open>ngx_rpc_notify_push_task\<close> interleave with those of \<open>ngx_rpc_notify_read_handler\<close> and of the processor's cycle or the
  worker's loop that it calls. At every moment the tasks that were linked are the ones the owner has taken, in the same
  order, followed by the ones on the list; and no process is ever at a piece that faults. Whenever the owner sleeps, the
  eventfd is not readable and every push that has linked its task has also signalled, the list is empty and every
  linked task has been taken exactly once: a task never waits for an owner that nobody will wake. The pieces
  are those of the functions: run without interruption they are the push and the read callback.
\<close>

theorem no_lost_wakeup:
  assumes "rests n fd f ctx s0" and "serves (task_body exec run f) n fd f ctx ok"
    and "wake_steps exec run ok n (s0, [], None) es (s, ps, p)"
  shows "(\<exists>ts. pending s n (map TaskNode ts) \<and> linked es = taken es @ ts)
     \<and> (\<forall>(t, pc) \<in> set ps. push_piece n (TaskNode t) pc s \<noteq> None)
     \<and> (\<forall>pc. p = Some pc \<longrightarrow> owner_piece exec run n pc s \<noteq> None)
     \<and> (p = None \<and> efds s fd = Some 0 \<and> Push_Signal \<notin> snd ` set ps \<longrightarrow> pending s n [] \<and> taken es = linked es)
     \<and> (\<forall>t u. ngx_rpc_notify_push_task n (TaskNode t) u
          = do { u \<leftarrow> run_pieces (push_piece n (TaskNode t)) Push_Region u; Some (NGX_OK, u) })
     \<and> (\<forall>k cn u. conns u k = Some cn \<and> c_sockaddr cn = n \<longrightarrow>
          ngx_rpc_notify_read_handler (handler_call exec run) k u = run_pieces (owner_piece exec run n) Read_Fd u)"
proof -
  obtain ts where la: "looked_after ok n fd f ctx ts (s, ps, p)" "linked es = taken es @ ts"
    using wake_steps_keep [OF assms(3) _ rests_looked_after [OF assms(1)] assms(2)] by auto
  obtain c where c: "core n fd f ctx s c ts" "ts \<noteq> [] \<longrightarrow> Push_Signal \<in> snd ` set ps \<or> 0 < c \<or> looks f ctx p"
    using la(1) by (auto simp: looked_after_def)
  have "push_piece n (TaskNode t) pc s \<noteq> None" if m: "(t, pc) \<in> set ps" for t pc
  proof -
    obtain as bs where e: "ps = as @ (t, pc) # bs" using split_list [OF m] by blast
    show ?thesis by (rule push_moves [OF la(1) [unfolded e] assms(2)]) auto
  qed
  moreover have "owner_piece exec run n pc s \<noteq> None" if e: "p = Some pc" for pc
    by (rule owner_moves [OF la(1) [unfolded e] assms(2)]) auto
  moreover have "ts = []" if "p = None" "efds s fd = Some 0" "Push_Signal \<notin> snd ` set ps"
    using c that by (auto simp: core_def looks_def)
  ultimately show ?thesis
    using core_pending [OF c(1)] la(2) owner_uninterrupted [where exec = exec and run = run and n = n]
    by (auto simp: ngx_rpc_notify_push_task_def)
qed

text \<open>The memory with the worker asleep: its notify object is 7, and task 5 is about to come back.\<close>

definition demo_wake :: wstate where
  "demo_wake = (demo_http [] [] [])\<lparr>notifies := [7 \<mapsto> \<lparr>event_fd = 12, read_hanlder = Some Http_Process_Notify_Task,
     write_hanlder = Some Http_Process_Notify_Task, notify_ctx = Some (Http_Conf 0), notify_conn = Some 0\<rparr>]\<rparr>"

lemma demo_wake_rests: "rests 7 12 Http_Process_Notify_Task (Http_Conf 0) demo_wake"
  by (simp add: rests_def demo_wake_def http_simps)

abbreviation demo_run :: "unit task_run" where
  "demo_run \<equiv> worker_run demo_env (\<lambda>_. False) (\<lambda>_. 0)"

lemma steps_push:
  assumes "wake_steps exec run ok n a es (s, [(t, pc)], p)" and "push_piece n (TaskNode t) pc s = Some (r, s')"
  shows "wake_steps exec run ok n a (es @ [push_event t pc]) (s', case r of None \<Rightarrow> [] | Some pc \<Rightarrow> [(t, pc)], p)"
  using wake_steps.step [OF assms(1) wake_step.push [OF assms(2), of exec run ok "[]" "[]", simplified]] .

lemma steps_owner:
  assumes "wake_steps exec run ok n a es (s, ps, Some pc)" and "owner_piece exec run n pc s = Some (r, s')"
  shows "wake_steps exec run ok n a (es @ [owner_event r]) (s', ps, r)"
  by (rule wake_steps.step [OF assms(1) wake_step.owner [OF assms(2)]])

lemma demo_cleanup: "en_cleanup demo_env"
  by (simp add: demo_env_def)

definition demo_linked :: wstate where
  "demo_linked = demo_wake\<lparr>qnext := (qnext demo_wake)(NotifyHead 7 \<mapsto> TaskNode 5, TaskNode 5 \<mapsto> NotifyHead 7),
     qprev := (qprev demo_wake)(TaskNode 5 \<mapsto> NotifyHead 7, NotifyHead 7 \<mapsto> TaskNode 5)\<rparr>"

definition demo_signalled :: wstate where
  "demo_signalled = demo_linked\<lparr>efds := (efds demo_linked)(12 \<mapsto> 1)\<rparr>"

lemmas demo_wake_simps = demo_linked_def demo_signalled_def demo_wake_def http_simps link_defs push_event_def owner_event_def

abbreviation (input) demo_exec :: "unit task_run" where
  "demo_exec \<equiv> \<lambda>f t p s. None"

abbreviation demo_steps :: "wake_event list \<Rightarrow> unit config \<Rightarrow> bool" where
  "demo_steps \<equiv> wake_steps demo_exec demo_run (\<lambda>s t. answerable s (TaskNode t)) 7 (demo_wake, [], None)"

text \<open>The task is submitted, and then the owner goes twice through the read callback.\<close>

lemma demo_wake_pushed: "demo_steps [Called 5, Linked 5, Silent] (demo_signalled, [], None)"
proof -
  let ?P = "push_piece 7 (TaskNode 5)" and ?ok = "\<lambda>s t. answerable s (TaskNode t)"
  have a: "answerable demo_wake (TaskNode 5)" by (simp add: answerable_def demo_wake_def http_simps finish_request_of_def)
  have "pending demo_wake 7 []" by (simp add: demo_wake_def http_simps)
  then have "\<not> on_way 7 (demo_wake, [], None) 5" by (auto simp: on_way_def dest: pending_unique)
  from wake_steps.step [OF wake_steps.start wake_step.call [where ok = ?ok, OF a this]]
  have r0: "demo_steps [Called 5] (demo_wake, [(5, Push_Region)], None)" by simp
  have "?P Push_Region demo_wake = Some (Some Push_Signal, demo_linked)" by (simp add: notify_link_tail_def demo_wake_simps)
  from steps_push [OF r0 this] have r1: "demo_steps [Called 5, Linked 5] (demo_linked, [(5, Push_Signal)], None)"
    by (simp add: push_event_def)
  have "?P Push_Signal demo_linked = Some (None, demo_signalled)" by (simp add: eventfd_write_def eventfd_max_def demo_wake_simps)
  from steps_push [OF r1 this] show ?thesis by (simp add: push_event_def)
qed

lemma demo_wake_round:
  obtains s where "demo_steps [Called 5, Linked 5, Silent, Silent, Silent, Silent, Taken 5, Silent, Silent, Silent, Silent, Silent]
       (s, [], None)"
    and "efds s 12 = Some 0" and "calls s = [Finalize_Request 0 0, Output_Filter 0 (Res_bufs 5), Send_Header 0 200 (Some 7)]"
proof -
  let ?O = "owner_piece demo_exec demo_run 7"
  let ?pop = "Worker_Pc 0 Drain_Pop" and ?body = "Worker_Pc 0 (Drain_Body (TaskNode 5))"
  define s3 where "s3 = demo_signalled\<lparr>efds := (efds demo_signalled)(12 \<mapsto> 0)\<rparr>"
  define s4 where "s4 = s3\<lparr>qnext := (qnext s3)(NotifyHead 7 \<mapsto> NotifyHead 7), qprev := (qprev s3)(NotifyHead 7 \<mapsto> NotifyHead 7)\<rparr>"
  note ss = s3_def s4_def demo_wake_simps
  obtain nt where "notifies demo_signalled 7 = Some nt" "efds demo_signalled (event_fd nt) = Some 1" by (simp add: ss)
  note r3 = wake_steps.step [OF demo_wake_pushed wake_step.wake [OF this zero_less_one]]
  have "?O Read_Fd demo_signalled = Some (Some (Read_Call True), s3)" by (simp add: eventfd_read_def ss)
  note r4 = steps_owner [OF r3 this]
  have "?O (Read_Call True) s3 = Some (Some (Read_In True ?pop), s3)" by (simp add: ss)
  note r5 = steps_owner [OF r4 this]
  have "?O (Read_In True ?pop) s3 = Some (Some (Read_In True ?body), s4)"
    by (simp add: worker_pop_def pending_pop_def ngx_rpc_notify_pop_task_def ngx_queue_empty_def ss)
  note r6 = steps_owner [OF r5 this]
  have "answerable s4 (TaskNode 5)" by (simp add: answerable_def finish_request_of_def ss)
  then obtain r q where b: "worker_body demo_run (TaskNode 5) s4 = Some (s4\<lparr>requests := (requests s4)(r \<mapsto> q),
      calls := task_answer demo_env (tasks s4) (TaskNode 5) @ calls s4\<rparr>)" (is "_ = Some ?s5")
    using worker_body_answers [of s4 "TaskNode 5" demo_env] demo_cleanup by blast
  have "?O (Read_In True ?body) s4 = Some (Some (Read_In True ?pop), ?s5)" by (simp add: b)
  note r7 = steps_owner [OF r6 this]
  have pop: "worker_pop 0 ?s5 = Some (None, ?s5)"
    by (simp add: worker_pop_def pending_pop_def ngx_rpc_notify_pop_task_def ngx_queue_empty_def ss)
  then have "?O (Read_In True ?pop) ?s5 = Some (Some Read_Fd, ?s5)" by simp
  note r8 = steps_owner [OF r7 this]
  have "?O Read_Fd ?s5 = Some (Some (Read_Call False), ?s5)" by (simp add: eventfd_read_def ss)
  note r9 = steps_owner [OF r8 this]
  have "?O (Read_Call False) ?s5 = Some (Some (Read_In False ?pop), ?s5)" by (simp add: ss)
  note r10 = steps_owner [OF r9 this]
  have "?O (Read_In False ?pop) ?s5 = Some (None, ?s5)" using pop by simp
  note r11 = steps_owner [OF r10 this]
  have "calls ?s5 = [Finalize_Request 0 0, Output_Filter 0 (Res_bufs 5), Send_Header 0 200 (Some 7)]"
    by (simp add: task_answer_def finish_request_of_def ss)
  moreover have "efds ?s5 12 = Some 0" by (simp add: ss)
  ultimately show thesis using that [OF _ _ _] r11 by (simp add: owner_event_def)
qed

theorem no_lost_wakeup_witness:
  "\<exists>es s. demo_steps es (s, [], None) \<and> efds s 12 = Some 0 \<and> pending s 7 [] \<and> linked es = [5] \<and> taken es = [5]
     \<and> calls s = [Finalize_Request 0 0, Output_Filter 0 (Res_bufs 5), Send_Header 0 200 (Some 7)]"
proof -
  let ?es = "[Called 5, Linked 5, Silent, Silent, Silent, Silent, Taken 5, Silent, Silent, Silent, Silent, Silent]"
  obtain s where s: "demo_steps ?es (s, [], None)" "efds s 12 = Some 0"
    "calls s = [Finalize_Request 0 0, Output_Filter 0 (Res_bufs 5), Send_Header 0 200 (Some 7)]" by (rule demo_wake_round)
  have "pending s 7 []" using no_lost_wakeup [OF demo_wake_rests worker_serves [OF demo_cleanup] s(1)] s(2) by auto
  moreover have "linked ?es = [5]" "taken ?es = [5]" by simp_all
  ultimately show ?thesis using s by blast
qed

lemma quiet_called: "quiet_run exec run n a es b \<Longrightarrow> called es = []"
  unfolding quiet_run_def
proof (induction rule: wake_steps.induct)
  case (step es b e c)
  have "called [e] = []" using step.hyps(2)
    by (cases rule: wake_step.cases) (auto simp: push_event_def owner_event_def split: push_pc.splits option.splits)
  then show ?case using step.IH by simp
qed simp

text \<open>
  C16. The pending tasks are taken. From any reachable configuration, with any number of pushes half way, every run in
  which nobody calls a further push is finite, and it can only stop where the list is empty, every push has
  returned and the owner is asleep again; then every task that was ever submitted has been taken, each as
  often as it was submitted, in the order in which the pushes linked them.
\<close>

theorem pending_tasks_are_taken:
  assumes "rests n fd f ctx s0" and "serves (task_body exec run f) n fd f ctx ok"
    and "wake_steps exec run ok n (s0, [], None) es a"
  shows "(\<forall>g. g 0 = a \<longrightarrow> (\<exists>i. \<not> (\<exists>e. quiet_step exec run n (g i) e (g (Suc i)))))
     \<and> (\<forall>es' s ps p. quiet_run exec run n a es' (s, ps, p) \<and> (\<forall>e b. \<not> quiet_step exec run n (s, ps, p) e b) \<longrightarrow>
          pending s n [] \<and> ps = [] \<and> p = None
          \<and> taken (es @ es') = linked (es @ es') \<and> mset (taken (es @ es')) = mset (called es))"
proof (intro conjI allI impI)
  obtain ts where la: "looked_after ok n fd f ctx ts a" "linked es = taken es @ ts"
    using wake_steps_keep [OF assms(3) _ rests_looked_after [OF assms(1)] assms(2)] by auto
  show "\<exists>i. \<not> (\<exists>e. quiet_step exec run n (g i) e (g (Suc i)))" if "g 0 = a" for g
    by (rule quiet_runs_end [OF _ assms(2)]) (use that la(1) in simp)
  fix es' s ps p
  assume r: "quiet_run exec run n a es' (s, ps, p) \<and> (\<forall>e b. \<not> quiet_step exec run n (s, ps, p) e b)"
  then obtain us where us: "looked_after ok n fd f ctx us (s, ps, p)" "ts @ linked es' = taken es' @ us"
    using wake_steps_keep [OF _ _ la(1) assms(2)] unfolding quiet_run_def by blast
  have e: "us = []" "ps = []" "p = None" using stuck_rests [OF us(1) assms(2)] r by blast+
  then show "ps = []" "p = None" by simp_all
  show "pending s n []" using us(1) e(1) by (auto simp: looked_after_def dest: core_pending)
  show l: "taken (es @ es') = linked (es @ es')" using la(2) us(2) e(1) by simp
  have "mset (called es) = mset (linked es) + mset (waiting (fst (snd a)))"
    using wake_steps_called [OF assms(3)] by simp
  moreover have "mset (waiting (fst (snd a))) = mset (linked es')"
    using wake_steps_called [OF conjunct1 [OF r, unfolded quiet_run_def]] quiet_called [OF conjunct1 [OF r]] e(2) by simp
  ultimately show "mset (taken (es @ es')) = mset (called es)" unfolding l by simp
qed

text \<open>A processor that is asleep, with the tasks 5 and 6 submitted and nothing linked yet.\<close>

definition demo_cycle :: wstate where
  "demo_cycle = (demo_http [] [] [])\<lparr>notifies := [3 \<mapsto> demo_notify 10 0], tasks := [5 \<mapsto> demo_task, 6 \<mapsto> demo_task],
     pconfs := [0 \<mapsto> \<lparr>pc_shpool = Some 0, pc_queue = Some 1, pc_notify = Some 3, shm_size = 0\<rparr>]\<rparr>"

lemma processor_serves:
  "serves (task_body (\<lambda>f t p s. Some s) run Proc_Process_One_Cycle) n fd Proc_Process_One_Cycle (Proc_Conf c)
     (\<lambda>s t. runnable s (TaskNode t))"
proof -
  have "cycle_body (\<lambda>f t p s. Some s) (TaskNode t) s = Some s" if "runnable s (TaskNode t)" for s t
    using that by (auto simp: runnable_def cycle_body_def)
  moreover have "live s t" if "runnable s (TaskNode t)" for s t
    using that by (auto simp: runnable_def load_Some_iff)
  moreover have "runnable (s\<lparr>qnext := nx, qprev := pv, efds := es\<rparr>) (TaskNode t) = runnable s (TaskNode t)" for s nx pv es t
    by (simp add: runnable_def load_def)
  ultimately show ?thesis unfolding serves_def task_body.simps by blast
qed

theorem pending_tasks_are_taken_witness:
  "\<exists>es s. wake_steps (\<lambda>f t p s. Some s) (\<lambda>f t p s. None) (\<lambda>s t. runnable s (TaskNode t)) 3 (demo_cycle, [], None) [Called 5, Called 6]
       (demo_cycle, [(5, Push_Region), (6, Push_Region)], None)
     \<and> quiet_run (\<lambda>f t p s. Some s) (\<lambda>f t p s. None) 3 (demo_cycle, [(5, Push_Region), (6, Push_Region)], None) es (s, [], None)
     \<and> pending s 3 [] \<and> mset (taken es) = {#5, 6#}"
proof -
  let ?run = "(\<lambda>f t p s. None) :: unit task_run" and ?exec = "(\<lambda>f t p s. Some s) :: unit task_run"
  let ?ok = "\<lambda>s t. runnable s (TaskNode t)" and ?a = "(demo_cycle, [(5, Push_Region), (6, Push_Region)], None)"
  have rs: "rests 3 10 Proc_Process_One_Cycle (Proc_Conf 0) demo_cycle"
    by (simp add: rests_def demo_cycle_def http_simps idle_head_def)
  have p: "pending demo_cycle 3 []" by (simp add: demo_cycle_def http_simps)
  have ok: "runnable demo_cycle (TaskNode 5)" "runnable demo_cycle (TaskNode 6)"
    by (simp_all add: runnable_def demo_cycle_def http_simps demo_task_def)
  have "\<not> on_way 3 (demo_cycle, [], None) 5" "\<not> on_way 3 (demo_cycle, [(5, Push_Region)], None) 6"
    using p by (auto simp: on_way_def dest: pending_unique)
  note calls = wake_step.call [where ok = ?ok, OF ok(1) this(1)] wake_step.call [where ok = ?ok, OF ok(2) this(2)]
  have st: "wake_steps ?exec ?run ?ok 3 (demo_cycle, [], None) [Called 5, Called 6] ?a"
    using wake_steps.step [OF wake_steps.step [OF wake_steps.start calls(1)], where e = "Called 6" and c = ?a] calls(2) by simp
  obtain ts where "looked_after ?ok 3 10 Proc_Process_One_Cycle (Proc_Conf 0) ts ?a"
    using wake_steps_keep [OF st _ rests_looked_after [OF rs] processor_serves] by blast
  from maximal_run [OF this processor_serves] obtain es s ps q where r: "quiet_run ?exec ?run 3 ?a es (s, ps, q)"
    "\<forall>e b. \<not> quiet_step ?exec ?run 3 (s, ps, q) e b" by (metis prod_cases3)
  have "pending s 3 [] \<and> ps = [] \<and> q = None \<and> taken ([Called 5, Called 6] @ es) = linked ([Called 5, Called 6] @ es)
      \<and> mset (taken ([Called 5, Called 6] @ es)) = mset (called [Called 5, Called 6])"
    using conjunct2 [OF pending_tasks_are_taken [OF rs processor_serves st]] r by blast
  then have "pending s 3 [] \<and> ps = [] \<and> q = None \<and> mset (taken es) = {#5, 6#}" by auto
  then show ?thesis using st r(1) by blast
qed

end
