(* ===== verification/Rpc_Generator.thy ===== *)
theory Rpc_Generator
  imports Rpc_Templates "HOL-Library.Sublist" "HOL-Library.Monad_Syntax"
begin

text \<open>
  The code generator (ngx_rpc_plugin/ngx_rpc_generator.cpp): the plugin of the protobuf
  compiler that writes the header of a service, the nginx module that serves it and the module's
  build file.

  The descriptor of the proto file is a record with the fields the generator reads. The printer
  of protobuf is a parameter: \<open>pr d vars t\<close> is what a printer with delimiter \<open>d\<close> writes for one
  request with the variables \<open>vars\<close> and the text \<open>t\<close>. What a printer was asked for is kept as a
  list, so that a property can speak of every single request. The files of the generator context are
  a list of names and contents, in the order they are opened.
\<close>

section \<open>Strings\<close>

text \<open>\<open>find\<close> from a position and \<open>rfind\<close> of \<open>std::string\<close>; \<open>None\<close> is \<open>npos\<close>.\<close>

definition occurs_at :: "string \<Rightarrow> string \<Rightarrow> nat \<Rightarrow> bool" where
  "occurs_at s pat i \<longleftrightarrow> pat = take (length pat) (drop i s)"

definition str_find :: "string \<Rightarrow> string \<Rightarrow> nat \<Rightarrow> nat option" where
  "str_find s pat pos = List.find (occurs_at s pat) [pos ..< Suc (length s)]"

definition str_rfind :: "string \<Rightarrow> string \<Rightarrow> nat option" where
  "str_rfind s pat = List.find (occurs_at s pat) (rev [0 ..< Suc (length s)])"

text \<open>\<open>tolower\<close> and \<open>toupper\<close> of the C locale.\<close>

definition to_lower :: "char \<Rightarrow> char" where
  "to_lower c = (if 65 \<le> (of_char c :: nat) \<and> (of_char c :: nat) \<le> 90 then char_of (of_char c + 32 :: nat) else c)"

definition to_upper :: "char \<Rightarrow> char" where
  "to_upper c = (if 97 \<le> (of_char c :: nat) \<and> (of_char c :: nat) \<le> 122 then char_of (of_char c - 32 :: nat) else c)"

definition Lower :: "string \<Rightarrow> string" where
  "Lower input = map to_lower input"

definition Upper :: "string \<Rightarrow> string" where
  "Upper input = map to_upper input"

definition StripSuffix :: "string \<Rightarrow> string \<Rightarrow> bool \<times> string" where
  "StripSuffix filename suffx =
     (if length filename \<ge> length suffx then
        let suffix_pos = length filename - length suffx in
          if drop suffix_pos filename = suffx
          then (True, take (length filename - length suffx) filename)
          else (False, filename)
      else (False, filename))"

definition StripProto :: "string \<Rightarrow> string" where
  "StripProto filename =
     (let filename = (case str_rfind filename ''/'' of
                        Some pos \<Rightarrow> drop (pos + 1) filename
                      | None \<Rightarrow> filename);
          (r, filename) = StripSuffix filename ''.protodevel''
      in if \<not> r then snd (StripSuffix filename ''.proto'') else filename)"

text \<open>The loop of \<open>Replace\<close>: nothing says that it ends.\<close>

partial_function (option) replace_loop :: "string \<Rightarrow> string \<Rightarrow> string \<Rightarrow> nat \<Rightarrow> string option" where
  "replace_loop subject search rep pos =
     (case str_find subject search pos of
        None \<Rightarrow> Some subject
      | Some pos \<Rightarrow>
          replace_loop (take pos subject @ rep @ drop (pos + length search) subject)
            search rep (pos + length rep))"

definition Replace :: "string \<Rightarrow> string \<Rightarrow> string \<Rightarrow> string option" where
  "Replace input search rep = replace_loop input search rep 0"

section \<open>Descriptors and printers\<close>

record method_desc =
  md_name :: string
  md_input :: string
  md_output :: string

record service_desc =
  sd_name :: string
  sd_methods :: "method_desc list"

record file_desc =
  fd_name :: string
  fd_package :: string
  fd_generic_services :: bool
  fd_services :: "service_desc list"

type_synonym vars = "string \<rightharpoonup> string"

type_synonym print_fn = "char \<Rightarrow> vars \<Rightarrow> string \<Rightarrow> string"

record printer =
  delim :: char
  asked :: "(vars \<times> string) list"

definition Print :: "vars \<Rightarrow> string \<Rightarrow> printer \<Rightarrow> printer" where
  "Print vs t p = p\<lparr>asked := asked p @ [(vs, t)]\<rparr>"

definition newline :: string where
  "newline = [CHR 0x0A]"

definition Format :: "vars \<Rightarrow> string list \<Rightarrow> nat \<Rightarrow> nat \<Rightarrow> printer \<Rightarrow> printer" where
  "Format vs start startnum lt p =
     fold (\<lambda>i p. Print vs newline p) [0..<lt]
       (fold (\<lambda>i p. Print vs newline (Print vs (start ! i) p)) [0..<startnum] p)"

definition P_MARGIN :: nat where
  "P_MARGIN = 3"

text \<open>\<open>sizeof(x)/sizeof(x[0])\<close> is the length of the array.\<close>

abbreviation Format_all :: "vars \<Rightarrow> string list \<Rightarrow> nat \<Rightarrow> printer \<Rightarrow> printer" where
  "Format_all vs start lt \<equiv> Format vs start (length start) lt"

definition written :: "print_fn \<Rightarrow> printer \<Rightarrow> string" where
  "written pr p = concat (map (\<lambda>(vs, t). pr (delim p) vs t) (asked p))"

section \<open>Variables\<close>

definition file_vars :: "file_desc \<Rightarrow> string \<Rightarrow> vars option" where
  "file_vars file sep =
     do {
       vs \<leftarrow> Some (Map.empty(PROTO_NAME \<mapsto> Lower (StripProto (fd_name file))));
       vs \<leftarrow> Some (vs(PROTO_NAME_UPPER \<mapsto> Upper (the (vs PROTO_NAME))));
       vs \<leftarrow> Some (vs(PROTO_PACKAGE \<mapsto> fd_package file));
       ns \<leftarrow> Replace (fd_package file) ''.'' sep;
       vs \<leftarrow> Some (vs(PROTO_NAMESPACE \<mapsto> ns));
       path \<leftarrow> Replace (fd_package file) ''.'' ''/'';
       Some (vs(PROTO_NAMEPATH \<mapsto> path))
     }"

definition service_vars :: "service_desc \<Rightarrow> vars \<Rightarrow> vars" where
  "service_vars srv vs = vs(PROTO_SERVER_NAME \<mapsto> sd_name srv, PROTO_SERVER_NAME_LOWER \<mapsto> Lower (sd_name srv))"

definition method_vars :: "method_desc \<Rightarrow> vars \<Rightarrow> vars" where
  "method_vars m vs =
     vs(PROTO_SERVER_METHOD_NAME \<mapsto> md_name m,
        PROTO_SERVER_METHOD_REQUEST_NAME \<mapsto> md_input m,
        PROTO_SERVER_METHOD_RESPONSE_NAME \<mapsto> md_output m)"

text \<open>
  A piece of the output: it may set variables, which then stay set, and prints. The generators are
  such pieces in a row.
\<close>

type_synonym emit = "vars \<times> printer \<Rightarrow> vars \<times> printer"

definition in_order :: "emit list \<Rightarrow> emit" where
  "in_order es x = fold (\<lambda>e x. e x) es x"

definition emit_text :: "string list \<Rightarrow> nat \<Rightarrow> emit" where
  "emit_text txt lt = (\<lambda>(vs, p). (vs, Format_all vs txt lt p))"

definition set_service :: "service_desc \<Rightarrow> emit" where
  "set_service srv = (\<lambda>(vs, p). (service_vars srv vs, p))"

definition set_method :: "method_desc \<Rightarrow> emit" where
  "set_method m = (\<lambda>(vs, p). (method_vars m vs, p))"

definition set_namespace :: "string \<Rightarrow> emit" where
  "set_namespace ns = (\<lambda>(vs, p). (vs(PROTO_NAMESPACE \<mapsto> ns), p))"

text \<open>The loops over the services and over the methods of one.\<close>

definition for_services :: "file_desc \<Rightarrow> (service_desc \<Rightarrow> emit list) \<Rightarrow> emit" where
  "for_services file body = in_order (map (\<lambda>srv. in_order (set_service srv # body srv)) (fd_services file))"

definition for_methods :: "service_desc \<Rightarrow> emit list \<Rightarrow> emit" where
  "for_methods srv body = in_order (map (\<lambda>m. in_order (set_method m # body)) (sd_methods srv))"

definition start_printer :: "char \<Rightarrow> printer" where
  "start_printer d = \<lparr>delim = d, asked = []\<rparr>"

section \<open>The header of the services\<close>

definition server_impl_body :: "file_desc \<Rightarrow> string \<Rightarrow> emit" where
  "server_impl_body file ns = in_order
     [emit_text NGX_RPC_SERVER_HEADER_START P_MARGIN,
      emit_text NGX_RPC_SERVER_INCLUDE P_MARGIN,
      emit_text NGX_RPC_SERVER_NAMESPACE_START P_MARGIN,
      for_services file (\<lambda>srv.
        [emit_text NGX_RPC_SERVER_CLASS_START P_MARGIN,
         for_methods srv [emit_text NGX_RPC_SERVER_METHOD P_MARGIN],
         emit_text NGX_RPC_SERVER_CLASS_END P_MARGIN]),
      set_namespace ns,
      emit_text NGX_RPC_SERVER_NAMESPACE_END P_MARGIN,
      emit_text NGX_RPC_SERVER_HEADER_END P_MARGIN]"

definition server_impl_printer :: "file_desc \<Rightarrow> printer option" where
  "server_impl_printer file =
     do {
       vs \<leftarrow> file_vars file ('' {'' @ newline @ ''namespace '');
       ns \<leftarrow> Replace (fd_package file) ''.'' ('' '' @ newline @ ''} //for '');
       Some (snd (server_impl_body file ns (vs, start_printer (CHR ''$''))))
     }"

definition GetServerImplHeader :: "print_fn \<Rightarrow> file_desc \<Rightarrow> string option" where
  "GetServerImplHeader pr file = map_option (written pr) (server_impl_printer file)"

section \<open>The nginx module\<close>

definition module_body :: "file_desc \<Rightarrow> emit" where
  "module_body file = in_order
     [emit_text NGX_RPC_MODULE_INLUCDE P_MARGIN,
      emit_text NGX_PRC_MODULE_CONF_START 0,
      for_services file (\<lambda>srv. [emit_text NGX_RPC_MODULE_CONF_SERVERS 1]),
      emit_text NGX_PRC_MODULE_CONF_END P_MARGIN,
      for_services file (\<lambda>srv. [emit_text NGX_RPC_SERVER_SET_CONF 1]),
      emit_text NGX_RPC_COMMANDS_START 0,
      for_services file (\<lambda>srv. [emit_text NGX_RPC_COMMANDS_ITEMS 0]),
      emit_text NGX_RPC_COMMANDS_END P_MARGIN,
      emit_text NGX_RPC_HTTP_MODULE_DECALRES 1,
      emit_text NGX_RPC_HTTP_MODULE_DEFINE P_MARGIN,
      emit_text NGX_RPC_MOUDLE_DECARLES 1,
      emit_text NGX_RPC_MOUDLE_DEFINE P_MARGIN,
      emit_text NGX_RPC_CREATE_LOC_START 0,
      for_services file (\<lambda>srv. [emit_text NGX_RPC_CREATE_LOC_ITEMS 2]),
      emit_text NGX_RPC_CREATE_LOC_END P_MARGIN,
      for_services file (\<lambda>srv. [for_methods srv [emit_text NGX_RPC_METHOD_PROCESS P_MARGIN]]),
      for_services file (\<lambda>srv.
        [emit_text NGX_RPC_SET_SERVER_METHOD_START 0,
         for_methods srv [emit_text NGX_RPC_SET_SERVER_METHOD_ITEM 0],
         emit_text NGX_RPC_SET_SERVER_METHOD_END P_MARGIN]),
      emit_text NGX_RPC_EXIT_START 0,
      for_services file (\<lambda>srv. [emit_text NGX_RPC_EXIT_ITEM 0]),
      emit_text NGX_RPC_EXIT_END 0]"

definition module_printer :: "file_desc \<Rightarrow> printer option" where
  "module_printer file =
     do {
       vs \<leftarrow> file_vars file ''::'';
       Some (snd (module_body file (vs, start_printer (CHR ''$''))))
     }"

definition GetNgxModuleHeader :: "print_fn \<Rightarrow> file_desc \<Rightarrow> string option" where
  "GetNgxModuleHeader pr file = map_option (written pr) (module_printer file)"

section \<open>The build file\<close>

definition config_printer :: "file_desc \<Rightarrow> printer" where
  "config_printer file =
     Format_all (Map.empty(PROTO_NAME \<mapsto> Lower (StripProto (fd_name file)))) NGX_RPC_CONFIG P_MARGIN
       (start_printer (CHR ''%''))"

definition GetNgxConfig :: "print_fn \<Rightarrow> file_desc \<Rightarrow> string" where
  "GetNgxConfig pr file = written pr (config_printer file)"

section \<open>The plugin\<close>

text \<open>\<open>Insert\<close> opens a file of the context and writes the whole text to it.\<close>

type_synonym gen_context = "(string \<times> string) list"

definition Insert :: "gen_context \<Rightarrow> string \<Rightarrow> string \<Rightarrow> gen_context" where
  "Insert ctx filename code = ctx @ [(filename, code)]"

definition generic_error :: string where
  "generic_error =
     ''Nginx rpc proto compiler plugin does not work with generic ''
     @ ''services. To generate Nginx rpc APIs, please set \"''
     @ ''cc_generic_service = true.''"

text \<open>
  \<open>Generate\<close> returns its result, the context and the error text. \<open>parameter\<close> is what the user gave
  to the plugin; it is not used.
\<close>

definition Generate ::
  "print_fn \<Rightarrow> file_desc \<Rightarrow> string \<Rightarrow> gen_context \<Rightarrow> string \<Rightarrow> (bool \<times> gen_context \<times> string) option" where
  "Generate pr file parameter ctx err =
     (if \<not> fd_generic_services file then Some (False, ctx, generic_error)
      else do {
        file_name \<leftarrow> Some (StripProto (fd_name file));
        code \<leftarrow> GetServerImplHeader pr file;
        ctx \<leftarrow> Some (Insert ctx (''ngx_rpc_'' @ file_name @ ''_module/'' @ file_name @ ''_impl.h'') code);
        code \<leftarrow> GetNgxModuleHeader pr file;
        ctx \<leftarrow> Some (Insert ctx (''ngx_rpc_'' @ file_name @ ''_module/ngx_http_'' @ file_name @ ''_module.cpp'') code);
        code \<leftarrow> Some (GetNgxConfig pr file);
        ctx \<leftarrow> Some (Insert ctx (''ngx_rpc_'' @ file_name @ ''_module/config'') code);
        Some (True, ctx, err)
      })"

section \<open>What the string functions compute\<close>

text \<open>
  The reference for \<open>Replace\<close>: from left to right, every occurrence that does not overlap the
  one before it is replaced.
\<close>

function replaced :: "string \<Rightarrow> string \<Rightarrow> string \<Rightarrow> string" where
  "replaced search rep s =
     (if search \<noteq> [] \<and> prefix search s then rep @ replaced search rep (drop (length search) s)
      else case s of [] \<Rightarrow> [] | c # cs \<Rightarrow> c # replaced search rep cs)"
  by pat_completeness auto
termination
  by (relation "measure (\<lambda>(_, _, s). length s)") (auto simp: prefix_def)

declare replaced.simps [simp del]

lemma occurs_at_prefix: "occurs_at s pat i \<longleftrightarrow> prefix pat (drop i s)"
  by (auto simp: occurs_at_def prefix_def) (metis append_take_drop_id)

lemma find_Some_upt:
  assumes "List.find P [a..<b] = Some i"
  shows "P i" "a \<le> i" "i < b" "\<And>j. a \<le> j \<Longrightarrow> j < i \<Longrightarrow> \<not> P j"
proof -
  obtain k where k: "k < length [a..<b]" "i = [a..<b] ! k" "P i" "\<And>j. j < k \<Longrightarrow> \<not> P ([a..<b] ! j)"
    using assms by (auto simp: find_Some_iff)
  show "P i" "a \<le> i" "i < b" using k by auto
  show "\<not> P j" if "a \<le> j" "j < i" for j
    using k(1,2) k(4) [of "j - a"] that by auto
qed

lemma str_find_SomeD:
  assumes "str_find s pat pos = Some i"
  shows "pos \<le> i" "i \<le> length s" "prefix pat (drop i s)" "\<And>j. pos \<le> j \<Longrightarrow> j < i \<Longrightarrow> \<not> prefix pat (drop j s)"
  using find_Some_upt [OF assms [unfolded str_find_def]] by (auto simp: occurs_at_prefix)

lemma str_find_NoneD:
  assumes "str_find s pat pos = None" "pos \<le> j" "j \<le> length s"
  shows "\<not> prefix pat (drop j s)"
  using assms by (auto simp: str_find_def find_None_iff occurs_at_prefix)

lemma replaced_skip:
  "(\<And>j. j < i \<Longrightarrow> \<not> prefix search (drop j s)) \<Longrightarrow> i \<le> length s
    \<Longrightarrow> replaced search rep s = take i s @ replaced search rep (drop i s)"
proof (induction i arbitrary: s)
  case (Suc i)
  then obtain c cs where s: "s = c # cs" by (cases s) auto
  have "\<not> prefix search s" using Suc.prems(1) [of 0] by simp
  then have "replaced search rep s = c # replaced search rep cs" by (subst replaced.simps) (simp add: s)
  also have "replaced search rep cs = take i cs @ replaced search rep (drop i cs)"
    using Suc.prems(1) [of "Suc j" for j] Suc.prems(2) by (intro Suc.IH) (auto simp: s)
  finally show ?case by (simp add: s)
qed simp

lemma replace_loop_replaced:
  assumes "search \<noteq> []"
  shows "replace_loop (pre @ s) search rep (length pre) = Some (pre @ replaced search rep s)"
proof (induction "length s" arbitrary: pre s rule: less_induct)
  case less
  show ?case
  proof (cases "str_find (pre @ s) search (length pre)")
    case None
    have "\<not> prefix search (drop j s)" if "j \<le> length s" for j
      using str_find_NoneD [OF None, of "length pre + j"] that by simp
    then have "replaced search rep s = take (length s) s @ replaced search rep []"
      by (subst replaced_skip [of "length s"]) auto
    then have "replaced search rep s = s" using assms by (simp add: replaced.simps [of search rep "[]"])
    then show ?thesis by (simp add: replace_loop.simps None)
  next
    case (Some i)
    note d = str_find_SomeD [OF Some]
    define k where "k = i - length pre"
    have k: "i = length pre + k" "k \<le> length s" using d(1,2) by (auto simp: k_def)
    have pk: "prefix search (drop k s)" using d(3) k(1) by simp
    have "\<not> prefix search (drop j s)" if "j < k" for j
      using d(4) [of "length pre + j"] that k(1) by simp
    then have "replaced search rep s = take k s @ rep @ replaced search rep (drop (length search) (drop k s))"
      using pk assms k(2) by (subst replaced_skip [of k]) (auto simp: replaced.simps [of search rep "drop k s"])
    moreover have "length (drop (length search) (drop k s)) < length s"
    proof -
      have "drop k s \<noteq> []" using pk assms by auto
      then have "0 < length s - k" by simp
      then show ?thesis using assms by (cases search) auto
    qed
    note less [OF this, of "pre @ take k s @ rep"]
    ultimately show ?thesis
      using k by (subst replace_loop.simps) (simp add: Some add.commute add.left_commute)
  qed
qed

lemma Replace_replaced: "search \<noteq> [] \<Longrightarrow> Replace s search rep = Some (replaced search rep s)"
  using replace_loop_replaced [of search "[]" s rep] by (simp add: Replace_def)

lemma replace_loop_empty: "pos \<le> length s \<Longrightarrow> replace_loop s [] rep pos = None"
proof (rule ccontr)
  assume "pos \<le> length s" "replace_loop s [] rep pos \<noteq> None"
  moreover have "\<not> (search = [] \<and> pos \<le> length s)" if "replace_loop s search rep pos = Some y" for s search rep pos y
  proof (rule replace_loop.raw_induct [OF _ that, where P = "\<lambda>s search rep pos y. \<not> (search = [] \<and> pos \<le> length s)"])
    fix f s search rep pos y
    assume IH: "\<And>s search rep pos y. f s search rep pos = Some y \<Longrightarrow> \<not> (search = [] \<and> pos \<le> length s)"
      and eq: "(case str_find s search pos of None \<Rightarrow> Some s
         | Some pos \<Rightarrow> f (take pos s @ rep @ drop (pos + length search) s) search rep (pos + length rep)) = Some y"
    show "\<not> (search = [] \<and> pos \<le> length s)"
    proof
      assume a: "search = [] \<and> pos \<le> length s"
      then obtain i where i: "str_find s search pos = Some i"
        using str_find_NoneD [of s search pos pos] by (cases "str_find s search pos") auto
      then show False using eq IH str_find_SomeD(2) [OF i] a by fastforce
    qed
  qed
  ultimately show False by blast
qed

lemma replaced_char: "replaced [c] rep s = concat (map (\<lambda>x. if x = c then rep else [x]) s)"
  by (induction s) (auto simp: replaced.simps [of "[c]"])

lemma find_first: "\<lbrakk> \<And>y. y \<in> set ys \<Longrightarrow> \<not> P y; P i \<rbrakk> \<Longrightarrow> List.find P (ys @ i # zs) = Some i"
  by (induction ys) auto

lemma str_rfind_char:
  assumes "c \<notin> set base"
  shows "str_rfind (dir @ c # base) [c] = Some (length dir)"
proof -
  let ?s = "dir @ c # base"
  have no: "\<not> occurs_at ?s [c] j" if "j \<in> set (rev [Suc (length dir)..<Suc (length ?s)])" for j
  proof -
    have "Suc (length dir) \<le> j" using that by (simp only: set_rev set_upt atLeastLessThan_iff)
    then obtain k where "j = Suc (length dir) + k" using le_Suc_ex by blast
    moreover have "\<not> prefix [c] (drop k base)" using assms set_drop_subset [of k base] by (auto simp: prefix_def)
    ultimately show ?thesis by (simp add: occurs_at_prefix Suc_diff_le)
  qed
  have "[0..<Suc (length ?s)] = [0..<length dir] @ [length dir..<Suc (length ?s)]"
    using upt_add_eq_append [of 0 "length dir" "Suc (Suc (length base))"] by simp
  also have "[length dir..<Suc (length ?s)] = length dir # [Suc (length dir)..<Suc (length ?s)]"
    by (rule upt_conv_Cons) simp
  finally have "rev [0..<Suc (length ?s)] = rev [Suc (length dir)..<Suc (length ?s)] @ length dir # rev [0..<length dir]"
    by (simp only: rev_append rev.simps append_assoc append_Cons append_Nil)
  note spl = this
  have "occurs_at ?s [c] (length dir)" by (simp add: occurs_at_prefix)
  with no show ?thesis unfolding str_rfind_def spl by (rule find_first)
qed

lemma str_rfind_none: "c \<notin> set s \<Longrightarrow> str_rfind s [c] = None"
proof -
  assume c: "c \<notin> set s"
  have "\<not> occurs_at s [c] j" for j
    using c set_drop_subset [of j s] by (auto simp: occurs_at_prefix prefix_def)
  then show ?thesis by (simp add: str_rfind_def find_None_iff)
qed

end
