(* ===== verification/Generator_Printing.thy ===== *)
theory Generator_Printing
  imports Rpc_Generator
begin

text \<open>
  What the printers of the generator (ngx_rpc_plugin/ngx_rpc_generator.cpp) are asked for: the
  documented behaviour of \<open>Printer::Print\<close>, on which the texts the generator writes depend, and a
  small logic for the pieces a generator consists of.
\<close>

section \<open>Texts with variables\<close>

text \<open>
  A text of a printer is literal text and names between delimiters; two delimiters in a row stand
  for the delimiter itself. \<open>None\<close>: the last name is not closed.
\<close>

datatype piece = Lit string | Var string

fun scan :: "char \<Rightarrow> bool \<Rightarrow> string \<Rightarrow> string \<Rightarrow> piece list option" where
  "scan d name acc [] = (if name then None else Some [Lit (rev acc)])"
| "scan d False acc (c # cs) =
     (if c = d then map_option (Cons (Lit (rev acc))) (scan d True [] cs) else scan d False (c # acc) cs)"
| "scan d True acc (c # cs) =
     (if c = d then map_option (Cons (if acc = [] then Lit [d] else Var (rev acc))) (scan d False [] cs)
      else scan d True (c # acc) cs)"

definition pieces :: "char \<Rightarrow> string \<Rightarrow> piece list option" where
  "pieces d t = scan d False [] t"

primrec piece_text :: "vars \<Rightarrow> piece \<Rightarrow> string" where
  "piece_text vs (Lit s) = s"
| "piece_text vs (Var v) = the (vs v)"

primrec piece_vars :: "piece \<Rightarrow> string list" where
  "piece_vars (Lit s) = []"
| "piece_vars (Var v) = [v]"

definition text_vars :: "char \<Rightarrow> string \<Rightarrow> string list" where
  "text_vars d t = (case pieces d t of None \<Rightarrow> [] | Some ps \<Rightarrow> concat (map piece_vars ps))"

definition well_defined :: "char \<Rightarrow> vars \<Rightarrow> string \<Rightarrow> bool" where
  "well_defined d vs t \<longleftrightarrow> pieces d t \<noteq> None \<and> set (text_vars d t) \<subseteq> dom vs"

definition expansion :: "char \<Rightarrow> vars \<Rightarrow> string \<Rightarrow> string" where
  "expansion d vs t = (case pieces d t of None \<Rightarrow> [] | Some ps \<Rightarrow> concat (map (piece_text vs) ps))"

text \<open>What the documentation of \<open>Printer::Print\<close> promises for such texts.\<close>

definition printer_laws :: "print_fn \<Rightarrow> bool" where
  "printer_laws pr \<longleftrightarrow> (\<forall>d vs t. well_defined d vs t \<longrightarrow> pr d vs t = expansion d vs t)"

section \<open>Requests\<close>

definition block :: "vars \<Rightarrow> string list \<Rightarrow> nat \<Rightarrow> (vars \<times> string) list" where
  "block vs txt lt = concat (map (\<lambda>t. [(vs, t), (vs, newline)]) txt) @ replicate lt (vs, newline)"

lemma print_newlines: "fold (\<lambda>i p. Print vs newline p) [0..<n] p = p\<lparr>asked := asked p @ replicate n (vs, newline)\<rparr>"
  by (induction n) (simp_all add: Print_def replicate_append_same)

lemma Format_block: "Format_all vs txt lt p = p\<lparr>asked := asked p @ block vs txt lt\<rparr>"
proof -
  have "fold (\<lambda>i p. Print vs newline (Print vs (txt ! i) p)) [0..<n] p
      = p\<lparr>asked := asked p @ concat (map (\<lambda>t. [(vs, t), (vs, newline)]) (take n txt))\<rparr>"
    if "n \<le> length txt" for n
    using that by (induction n) (simp_all add: Print_def take_Suc_conv_app_nth)
  then show ?thesis by (simp add: Format_def print_newlines block_def)
qed

text \<open>
  A logic for the pieces of a generator: started with variables that satisfy \<open>P\<close>, the piece
  leaves variables that satisfy \<open>Q\<close>, and what it has asked the printer for is \<open>good\<close> with result \<open>r\<close>.
\<close>

definition emits ::
  "((vars \<times> string) list \<Rightarrow> 'a list \<Rightarrow> bool) \<Rightarrow> (vars \<Rightarrow> bool) \<Rightarrow> 'a list \<Rightarrow> emit \<Rightarrow> (vars \<Rightarrow> bool) \<Rightarrow> bool" where
  "emits good P r e Q \<longleftrightarrow>
     (\<forall>vs p. P vs \<longrightarrow> (\<exists>vs' rs. e (vs, p) = (vs', p\<lparr>asked := asked p @ rs\<rparr>) \<and> Q vs' \<and> good rs r))"

lemma emitsD:
  assumes "emits good P r e Q" "P vs"
  obtains vs' rs where "e (vs, p) = (vs', p\<lparr>asked := asked p @ rs\<rparr>)" "Q vs'" "good rs r"
  using assms unfolding emits_def by blast

lemma concat_nothing: "concat (map (\<lambda>_. []) xs) = []"
  by simp

locale emission =
  fixes good :: "(vars \<times> string) list \<Rightarrow> 'a list \<Rightarrow> bool"
  assumes good_nil: "good [] []"
    and good_append: "good rs r \<Longrightarrow> good rs' r' \<Longrightarrow> good (rs @ rs') (r @ r')"
begin

lemma emits_text: "(\<And>vs. P vs \<Longrightarrow> good (block vs txt lt) r) \<Longrightarrow> emits good P r (emit_text txt lt) P"
  by (auto simp: emits_def emit_text_def Format_block)

lemma emits_nothing: "emits good P [] (in_order []) P"
  using good_nil by (auto simp: emits_def in_order_def intro: exI [of _ "[]"])

lemma emits_Cons:
  assumes "emits good P r e Q" "emits good Q r' (in_order es) R"
  shows "emits good P (r @ r') (in_order (e # es)) R"
proof -
  have "\<exists>vs' rs. in_order (e # es) (vs, p) = (vs', p\<lparr>asked := asked p @ rs\<rparr>) \<and> R vs' \<and> good rs (r @ r')"
    if P: "P vs" for vs p
  proof -
    obtain v rs where 1: "e (vs, p) = (v, p\<lparr>asked := asked p @ rs\<rparr>)" "Q v" "good rs r"
      using emitsD [OF assms(1) P] by blast
    obtain v' rs' where "in_order es (v, p\<lparr>asked := asked p @ rs\<rparr>)
        = (v', p\<lparr>asked := (asked p @ rs) @ rs'\<rparr>)" "R v'" "good rs' r'"
      using emitsD [OF assms(2) 1(2), of "p\<lparr>asked := asked p @ rs\<rparr>"] by auto
    with 1 show ?thesis by (auto simp: in_order_def intro!: exI [of _ "rs @ rs'"] good_append)
  qed
  then show ?thesis by (simp add: emits_def)
qed

lemma emits_list:
  "(\<And>x. x \<in> set xs \<Longrightarrow> emits good P (g x) (f x) P) \<Longrightarrow> emits good P (concat (map g xs)) (in_order (map f xs)) P"
  by (induction xs) (auto intro!: emits_nothing emits_Cons)

lemma emits_services:
  "(\<And>srv. srv \<in> set (fd_services file) \<Longrightarrow> emits good P (g srv) (in_order (set_service srv # body srv)) P)
    \<Longrightarrow> emits good P (concat (map g (fd_services file))) (for_services file body) P"
  unfolding for_services_def by (rule emits_list)

lemma emits_methods:
  "(\<And>m. m \<in> set (sd_methods srv) \<Longrightarrow> emits good P (g m) (in_order (set_method m # body)) P)
    \<Longrightarrow> emits good P (concat (map g (sd_methods srv))) (for_methods srv body) P"
  unfolding for_methods_def by (rule emits_list)

lemma emits_set:
  "(\<And>vs. P vs \<Longrightarrow> Q (service_vars srv vs)) \<Longrightarrow> emits good P [] (set_service srv) Q"
  "(\<And>vs. P vs \<Longrightarrow> Q (method_vars m vs)) \<Longrightarrow> emits good P [] (set_method m) Q"
  "(\<And>vs. P vs \<Longrightarrow> Q (vs(PROTO_NAMESPACE \<mapsto> ns))) \<Longrightarrow> emits good P [] (set_namespace ns) Q"
  using good_nil by (auto simp: emits_def set_service_def set_method_def set_namespace_def intro!: exI [of _ "[]"])

lemma emits_conseq:
  "emits good P r e Q \<Longrightarrow> (\<And>vs. P' vs \<Longrightarrow> P vs) \<Longrightarrow> (\<And>vs. Q vs \<Longrightarrow> Q' vs) \<Longrightarrow> emits good P' r e Q'"
  unfolding emits_def by meson

text \<open>Pieces that add nothing to the result.\<close>

lemma emits_end: "(\<And>vs. P vs \<Longrightarrow> Q vs) \<Longrightarrow> emits good P [] (in_order []) Q"
  by (rule emits_conseq [OF emits_nothing])

lemma emits_Cons_silent:
  "emits good P [] e Q \<Longrightarrow> emits good Q r (in_order es) R \<Longrightarrow> emits good P r (in_order (e # es)) R"
  using emits_Cons [of P "[]" e Q r es R] by simp

lemma emits_Cons_only:
  "emits good P r e Q \<Longrightarrow> emits good Q [] (in_order es) R \<Longrightarrow> emits good P r (in_order (e # es)) R"
  using emits_Cons [of P r e Q "[]" es R] by simp

lemma emits_services_silent:
  "(\<And>srv. srv \<in> set (fd_services file) \<Longrightarrow> emits good P [] (in_order (set_service srv # body srv)) P)
    \<Longrightarrow> emits good P [] (for_services file body) P"
  using emits_services [where g = "\<lambda>_. []"] by (simp add: concat_nothing)

lemma emits_methods_silent:
  "(\<And>m. m \<in> set (sd_methods srv) \<Longrightarrow> emits good P [] (in_order (set_method m # body)) P)
    \<Longrightarrow> emits good P [] (for_methods srv body) P"
  using emits_methods [where g = "\<lambda>_. []"] by (simp add: concat_nothing)

end

end
