(* ===== verification/Generator_Properties.thy ===== *)
theory Generator_Properties
  imports Generator_Printing
begin

text \<open>
  The properties of the code generator (ngx_rpc_plugin/ngx_rpc_generator.cpp): what its string
  functions compute, which files it writes, and what the generated code looks like. Where the written
  text matters, the printer is assumed to behave as documented (\<open>printer_laws\<close>).
\<close>

section \<open>Every request is well defined\<close>

definition file_names :: "string list" where
  "file_names = [PROTO_NAME, PROTO_NAME_UPPER, PROTO_PACKAGE, PROTO_NAMESPACE, PROTO_NAMEPATH]"

definition service_names :: "string list" where
  "service_names = PROTO_SERVER_NAME # PROTO_SERVER_NAME_LOWER # file_names"

definition method_names :: "string list" where
  "method_names = PROTO_SERVER_METHOD_NAME # PROTO_SERVER_METHOD_REQUEST_NAME
     # PROTO_SERVER_METHOD_RESPONSE_NAME # service_names"

definition texts_use :: "char \<Rightarrow> string list \<Rightarrow> string list \<Rightarrow> bool" where
  "texts_use d names txt \<longleftrightarrow>
     list_all (\<lambda>t. pieces d t \<noteq> None \<and> list_all (\<lambda>v. v \<in> set names) (text_vars d t)) txt"

lemmas names_defs = file_names_def service_names_def method_names_def

lemma file_texts:
  "texts_use (CHR ''$'') file_names NGX_RPC_SERVER_HEADER_START"
  "texts_use (CHR ''$'') file_names NGX_RPC_SERVER_INCLUDE"
  "texts_use (CHR ''$'') file_names NGX_RPC_SERVER_NAMESPACE_START"
  "texts_use (CHR ''$'') file_names NGX_RPC_SERVER_NAMESPACE_END"
  "texts_use (CHR ''$'') file_names NGX_RPC_SERVER_HEADER_END"
  "texts_use (CHR ''$'') file_names NGX_RPC_MODULE_INLUCDE"
  "texts_use (CHR ''$'') file_names NGX_PRC_MODULE_CONF_START"
  "texts_use (CHR ''$'') file_names NGX_PRC_MODULE_CONF_END"
  "texts_use (CHR ''$'') file_names NGX_RPC_COMMANDS_START"
  "texts_use (CHR ''$'') file_names NGX_RPC_COMMANDS_END"
  "texts_use (CHR ''$'') file_names NGX_RPC_HTTP_MODULE_DECALRES"
  "texts_use (CHR ''$'') file_names NGX_RPC_HTTP_MODULE_DEFINE"
  "texts_use (CHR ''$'') file_names NGX_RPC_MOUDLE_DECARLES"
  "texts_use (CHR ''$'') file_names NGX_RPC_MOUDLE_DEFINE"
  "texts_use (CHR ''$'') file_names NGX_RPC_CREATE_LOC_START"
  "texts_use (CHR ''$'') file_names NGX_RPC_CREATE_LOC_END"
  "texts_use (CHR ''$'') file_names NGX_RPC_EXIT_START"
  "texts_use (CHR ''$'') file_names NGX_RPC_EXIT_END"
  by code_simp+

lemma service_texts:
  "texts_use (CHR ''$'') service_names NGX_RPC_SERVER_CLASS_START"
  "texts_use (CHR ''$'') service_names NGX_RPC_SERVER_CLASS_END"
  "texts_use (CHR ''$'') service_names NGX_RPC_MODULE_CONF_SERVERS"
  "texts_use (CHR ''$'') service_names NGX_RPC_SERVER_SET_CONF"
  "texts_use (CHR ''$'') service_names NGX_RPC_COMMANDS_ITEMS"
  "texts_use (CHR ''$'') service_names NGX_RPC_CREATE_LOC_ITEMS"
  "texts_use (CHR ''$'') service_names NGX_RPC_SET_SERVER_METHOD_START"
  "texts_use (CHR ''$'') service_names NGX_RPC_SET_SERVER_METHOD_END"
  "texts_use (CHR ''$'') service_names NGX_RPC_EXIT_ITEM"
  by code_simp+

lemma method_texts:
  "texts_use (CHR ''$'') method_names NGX_RPC_SERVER_METHOD"
  "texts_use (CHR ''$'') method_names NGX_RPC_METHOD_PROCESS"
  "texts_use (CHR ''$'') method_names NGX_RPC_SET_SERVER_METHOD_ITEM"
  by code_simp+

lemma config_texts: "texts_use (CHR ''%'') [PROTO_NAME] NGX_RPC_CONFIG"
  by code_simp

definition known :: "string list \<Rightarrow> vars \<Rightarrow> bool" where
  "known names vs \<longleftrightarrow> set names \<subseteq> dom vs"

definition all_defined :: "char \<Rightarrow> (vars \<times> string) list \<Rightarrow> unit list \<Rightarrow> bool" where
  "all_defined d rs r \<longleftrightarrow> r = [] \<and> (\<forall>(vs, t) \<in> set rs. well_defined d vs t)"

interpretation definedness: emission "all_defined d"
  by unfold_locales (auto simp: all_defined_def)

lemma newline_defined: "d \<noteq> CHR 0x0A \<Longrightarrow> well_defined d vs newline"
  by (simp add: well_defined_def newline_def pieces_def text_vars_def)

lemma block_defined:
  "\<lbrakk> texts_use d names txt; known names vs; d \<noteq> CHR 0x0A \<rbrakk> \<Longrightarrow> all_defined d (block vs txt lt) []"
  by (force simp: all_defined_def block_def texts_use_def known_def well_defined_def list_all_iff
      dest: newline_defined [unfolded well_defined_def])

lemma known_text:
  "texts_use (CHR ''$'') names txt \<Longrightarrow> emits (all_defined (CHR ''$'')) (known names) [] (emit_text txt lt) (known names)"
  by (rule definedness.emits_text) (auto intro: block_defined)

lemma known_set:
  "emits (all_defined d) (known file_names) [] (set_service srv) (known service_names)"
  "emits (all_defined d) (known service_names) [] (set_method m) (known method_names)"
  "emits (all_defined d) (known file_names) [] (set_namespace ns) (known file_names)"
  by (rule definedness.emits_set; auto simp: known_def names_defs service_vars_def method_vars_def)+

lemma known_less:
  "known method_names vs \<Longrightarrow> known service_names vs"
  "known service_names vs \<Longrightarrow> known file_names vs"
  by (auto simp: known_def names_defs)

lemmas known_rules = definedness.emits_Cons_silent definedness.emits_services_silent
  definedness.emits_methods_silent known_set
  file_texts [THEN known_text] service_texts [THEN known_text] method_texts [THEN known_text]

lemma module_body_defined: "emits (all_defined (CHR ''$'')) (known file_names) [] (module_body file) (known file_names)"
  unfolding module_body_def
  by (assumption | rule known_rules definedness.emits_end known_less)+

lemma server_body_defined: "emits (all_defined (CHR ''$'')) (known file_names) [] (server_impl_body file ns) (known file_names)"
  unfolding server_impl_body_def
  by (assumption | rule known_rules definedness.emits_end known_less)+

lemma file_vars_known: "file_vars file sep = Some vs \<Longrightarrow> known file_names vs"
  by (auto simp: file_vars_def known_def names_defs Replace_replaced)

lemma file_vars_Some: "\<exists>vs. file_vars file sep = Some vs"
  by (simp add: file_vars_def Replace_replaced)

lemma server_impl_printer_defined:
  "\<exists>p. server_impl_printer file = Some p \<and> delim p = CHR ''$'' \<and> all_defined (CHR ''$'') (asked p) []"
proof -
  obtain vs where vs: "file_vars file ('' {'' @ newline @ ''namespace '') = Some vs"
    using file_vars_Some by blast
  let ?ns = "replaced ''.'' ('' '' @ newline @ ''} //for '') (fd_package file)"
  obtain vs' rs where "server_impl_body file ?ns (vs, start_printer (CHR ''$''))
      = (vs', (start_printer (CHR ''$''))\<lparr>asked := asked (start_printer (CHR ''$'')) @ rs\<rparr>)"
    "all_defined (CHR ''$'') rs []"
    using emitsD [OF server_body_defined file_vars_known [OF vs]] by metis
  then show ?thesis
    unfolding server_impl_printer_def vs by (simp add: Replace_replaced start_printer_def)
qed

lemma module_printer_defined:
  "\<exists>p. module_printer file = Some p \<and> delim p = CHR ''$'' \<and> all_defined (CHR ''$'') (asked p) []"
proof -
  obtain vs where vs: "file_vars file ''::'' = Some vs" using file_vars_Some by blast
  obtain vs' rs where "module_body file (vs, start_printer (CHR ''$''))
      = (vs', (start_printer (CHR ''$''))\<lparr>asked := asked (start_printer (CHR ''$'')) @ rs\<rparr>)"
    "all_defined (CHR ''$'') rs []"
    using emitsD [OF module_body_defined file_vars_known [OF vs]] by metis
  then show ?thesis
    unfolding module_printer_def vs by (simp add: start_printer_def)
qed

lemma config_printer_defined: "all_defined (CHR ''%'') (asked (config_printer file)) []"
  by (simp add: config_printer_def Format_block start_printer_def block_defined [OF config_texts] known_def)

section \<open>Texts without surprises\<close>

text \<open>Names as protobuf admits them hold no blanks, line breaks or braces.\<close>

definition plain :: "char \<Rightarrow> bool" where
  "plain c \<longleftrightarrow> c \<notin> {CHR '' '', CHR 0x0A, CHR ''{'', CHR ''}''}"

definition plain_service :: "service_desc \<Rightarrow> bool" where
  "plain_service srv \<longleftrightarrow> list_all plain (sd_name srv)
     \<and> list_all (\<lambda>m. list_all plain (md_name m) \<and> list_all plain (md_input m) \<and> list_all plain (md_output m)) (sd_methods srv)"

definition plain_file :: "file_desc \<Rightarrow> bool" where
  "plain_file file \<longleftrightarrow> list_all plain (fd_name file) \<and> list_all plain (fd_package file)
     \<and> list_all plain_service (fd_services file)"

definition plain_vars :: "vars \<Rightarrow> bool" where
  "plain_vars A \<longleftrightarrow> (\<forall>v \<in> ran A. list_all plain v)"

text \<open>The variables a piece can rely on: \<open>A\<close> is part of what is set.\<close>

lemma map_le_set:
  "A \<subseteq>\<^sub>m vs \<Longrightarrow> service_vars srv A \<subseteq>\<^sub>m service_vars srv vs"
  "A \<subseteq>\<^sub>m vs \<Longrightarrow> method_vars m A \<subseteq>\<^sub>m method_vars m vs"
  "A \<subseteq>\<^sub>m vs \<Longrightarrow> A(k \<mapsto> x) \<subseteq>\<^sub>m vs(k \<mapsto> x)"
  by (auto simp: service_vars_def method_vars_def map_le_def)

lemma vars_other:
  "k \<in> set file_names \<Longrightarrow> service_vars srv A k = A k"
  "k \<in> set service_names \<Longrightarrow> method_vars m A k = A k"
  by (auto simp: names_defs service_vars_def method_vars_def)

lemma map_le_less:
  assumes "dom A \<subseteq> set file_names" "service_vars srv A \<subseteq>\<^sub>m vs"
  shows "A \<subseteq>\<^sub>m vs"
  unfolding map_le_def
proof
  fix k assume k: "k \<in> dom A"
  with assms(1) have "service_vars srv A k = A k" by (auto intro: vars_other)
  with assms(2) k show "A k = vs k" unfolding map_le_def by (metis domIff)
qed

lemma map_le_less_method:
  assumes "dom A \<subseteq> set service_names" "method_vars m A \<subseteq>\<^sub>m vs"
  shows "A \<subseteq>\<^sub>m vs"
  unfolding map_le_def
proof
  fix k assume k: "k \<in> dom A"
  with assms(1) have "method_vars m A k = A k" by (auto intro: vars_other)
  with assms(2) k show "A k = vs k" unfolding map_le_def by (metis domIff)
qed

lemma service_vars_dom: "dom A = set file_names \<Longrightarrow> dom (service_vars srv A) = set service_names"
  by (auto simp: service_vars_def names_defs)

lemma method_vars_dom: "dom A = set service_names \<Longrightarrow> dom (method_vars m A) = set method_names"
  by (auto simp: method_vars_def names_defs)

lemma plain_lower: "plain c \<Longrightarrow> plain (to_lower c)"
proof (cases "65 \<le> (of_char c :: nat) \<and> (of_char c :: nat) \<le> 90")
  case True
  then have "(of_char (to_lower c) :: nat) = of_char c + 32"
    by (simp add: to_lower_def)
  with True have "of_char (to_lower c) \<notin> {32, 10, 123, 125 :: nat}" by auto
  then have "to_lower c \<noteq> CHR '' '' \<and> to_lower c \<noteq> CHR 0x0A \<and> to_lower c \<noteq> CHR ''{'' \<and> to_lower c \<noteq> CHR ''}''"
    by (auto simp del: of_char_eq_iff)
  then show ?thesis by (simp add: plain_def)
qed (auto simp: to_lower_def)

lemma plain_map_lower: "list_all plain s \<Longrightarrow> list_all plain (Lower s)"
  by (simp add: Lower_def list_all_iff plain_lower)

primrec piece_lit :: "piece \<Rightarrow> string" where
  "piece_lit (Lit s) = s"
| "piece_lit (Var v) = []"

lemma expansion_le:
  assumes "A \<subseteq>\<^sub>m vs" "set (text_vars d t) \<subseteq> dom A"
  shows "expansion d vs t = expansion d A t"
proof -
  have *: "piece_text vs p = piece_text A p" if "set (piece_vars p) \<subseteq> dom A" for p
    using that assms(1) by (cases p) (auto simp: map_le_def)
  show ?thesis
  proof (cases "pieces d t")
    case (Some ps)
    then have "map (piece_text vs) ps = map (piece_text A) ps"
      using assms(2) by (intro map_cong refl *) (auto simp: text_vars_def)
    then show ?thesis by (simp only: expansion_def Some option.case)
  qed (simp add: expansion_def)
qed

text \<open>What a block prints, as lines.\<close>

definition written_text :: "(vars \<times> string) list \<Rightarrow> string" where
  "written_text rs = concat (map (\<lambda>(vs, t). expansion (CHR ''$'') vs t) rs)"

definition unlines :: "string list \<Rightarrow> string" where
  "unlines ls = concat (map (\<lambda>l. l @ newline) ls)"

definition block_lines :: "vars \<Rightarrow> string list \<Rightarrow> nat \<Rightarrow> string list" where
  "block_lines A texts lt = map (expansion (CHR ''$'') A) texts @ replicate lt []"

lemma written_text_simps [simp]:
  "written_text [] = []" "written_text (a @ b) = written_text a @ written_text b"
  by (simp_all add: written_text_def)

lemma unlines_simps [simp]:
  "unlines [] = []" "unlines (a @ b) = unlines a @ unlines b" "unlines (l # ls) = l @ newline @ unlines ls"
  by (simp_all add: unlines_def)

lemma written_block:
  assumes "A \<subseteq>\<^sub>m vs" "texts_use (CHR ''$'') names texts" "dom A = set names"
  shows "written_text (block vs texts lt) = unlines (block_lines A texts lt)"
proof -
  have nl: "expansion (CHR ''$'') vs newline = newline"
    by (simp add: expansion_def newline_def pieces_def)
  have "expansion (CHR ''$'') vs t = expansion (CHR ''$'') A t" if "t \<in> set texts" for t
    using assms that by (intro expansion_le) (auto simp: texts_use_def list_all_iff)
  then have "written_text (concat (map (\<lambda>t. [(vs, t), (vs, newline)]) texts)) = unlines (map (expansion (CHR ''$'') A) texts)"
    by (induction texts) (simp_all add: written_text_def nl)
  moreover have "written_text (replicate lt (vs, newline)) = unlines (replicate lt [])"
    by (induction lt) (simp_all add: written_text_def nl)
  ultimately show ?thesis by (simp add: block_def block_lines_def)
qed

text \<open>The lines of a text that ends with a line break.\<close>

fun lines_of :: "string \<Rightarrow> string \<Rightarrow> string list" where
  "lines_of cur [] = (if cur = [] then [] else [rev cur])"
| "lines_of cur (c # cs) = (if c = CHR 0x0A then rev cur # lines_of [] cs else lines_of (c # cur) cs)"

lemma lines_of_append: "CHR 0x0A \<notin> set l \<Longrightarrow> lines_of cur (l @ CHR 0x0A # cs) = (rev cur @ l) # lines_of [] cs"
  by (induction l arbitrary: cur) auto

lemma lines_of_unlines: "(\<And>l. l \<in> set ls \<Longrightarrow> CHR 0x0A \<notin> set l) \<Longrightarrow> lines_of [] (unlines ls) = ls"
  by (induction ls) (auto simp: newline_def lines_of_append)

section \<open>The registered methods\<close>

definition name_mark :: string where
  "name_mark = ''        method->name ''"

text \<open>
  Whether the printed text can begin with the mark is decided by its literal parts: the first
  one, or, where that is a beginning of the mark, the blank that would have to follow and a variable
  cannot supply.
\<close>

fun quiet :: "piece list \<Rightarrow> bool" where
  "quiet [Lit l] \<longleftrightarrow> \<not> prefix name_mark l \<and> CHR 0x0A \<notin> set l"
| "quiet (Lit l # Var v # Lit m # ps) \<longleftrightarrow>
     list_all (\<lambda>p. CHR 0x0A \<notin> set (piece_lit p)) (Lit l # Lit m # ps)
     \<and> (\<not> prefix name_mark l \<and> \<not> prefix l name_mark
        \<or> length l < length name_mark \<and> name_mark ! length l = CHR '' '' \<and> m \<noteq> [] \<and> hd m \<noteq> CHR '' '')"
| "quiet _ \<longleftrightarrow> False"

lemma quiet_cases:
  assumes "quiet ps"
  obtains (lit) l where "ps = [Lit l]" "\<not> prefix name_mark l" "CHR 0x0A \<notin> set l"
    | (var) l v m qs where "ps = Lit l # Var v # Lit m # qs"
        "\<forall>p \<in> set (Lit l # Lit m # qs). CHR 0x0A \<notin> set (piece_lit p)"
        "\<not> prefix name_mark l \<and> \<not> prefix l name_mark
         \<or> length l < length name_mark \<and> name_mark ! length l = CHR '' '' \<and> m \<noteq> [] \<and> hd m \<noteq> CHR '' ''"
  using assms
proof (cases ps rule: quiet.cases)
  case (1 l)
  from assms [unfolded 1] show ?thesis by (intro lit [of l]) (simp_all add: 1)
next
  case (2 l v m qs)
  from assms [unfolded 2] show ?thesis by (intro var [of l v m qs]) (simp_all add: 2 list_all_iff)
qed (use assms in simp_all)

definition unmarked :: "string \<Rightarrow> bool" where
  "unmarked t = (case pieces (CHR ''$'') t of None \<Rightarrow> False | Some ps \<Rightarrow> quiet ps)"

lemma quiet_texts:
  "list_all unmarked NGX_RPC_MODULE_INLUCDE"
  "list_all unmarked NGX_PRC_MODULE_CONF_START"
  "list_all unmarked NGX_RPC_MODULE_CONF_SERVERS"
  "list_all unmarked NGX_PRC_MODULE_CONF_END"
  "list_all unmarked NGX_RPC_SERVER_SET_CONF"
  "list_all unmarked NGX_RPC_COMMANDS_START"
  "list_all unmarked NGX_RPC_COMMANDS_ITEMS"
  "list_all unmarked NGX_RPC_COMMANDS_END"
  "list_all unmarked NGX_RPC_HTTP_MODULE_DECALRES"
  "list_all unmarked NGX_RPC_HTTP_MODULE_DEFINE"
  "list_all unmarked NGX_RPC_MOUDLE_DECARLES"
  "list_all unmarked NGX_RPC_MOUDLE_DEFINE"
  "list_all unmarked NGX_RPC_CREATE_LOC_START"
  "list_all unmarked NGX_RPC_CREATE_LOC_ITEMS"
  "list_all unmarked NGX_RPC_CREATE_LOC_END"
  "list_all unmarked NGX_RPC_METHOD_PROCESS"
  "list_all unmarked NGX_RPC_SET_SERVER_METHOD_START"
  "list_all unmarked NGX_RPC_SET_SERVER_METHOD_END"
  "list_all unmarked NGX_RPC_EXIT_START"
  "list_all unmarked NGX_RPC_EXIT_ITEM"
  "list_all unmarked NGX_RPC_EXIT_END"
  by code_simp+

lemma unmarked_expansion:
  assumes "unmarked t" "plain_vars A" "set (text_vars (CHR ''$'') t) \<subseteq> dom A"
  shows "CHR 0x0A \<notin> set (expansion (CHR ''$'') A t)" "\<not> prefix name_mark (expansion (CHR ''$'') A t)"
proof -
  have val: "list_all plain (the (A v))" if "v \<in> dom A" for v
    using that assms(2) by (auto simp: plain_vars_def ran_def)
  have nl: "CHR 0x0A \<notin> set (piece_text A p)" if "set (piece_vars p) \<subseteq> dom A" "CHR 0x0A \<notin> set (piece_lit p)" for p
    using that val by (cases p) (auto simp: list_all_iff plain_def)
  obtain ps where ps: "pieces (CHR ''$'') t = Some ps" using assms(1) by (auto simp: unmarked_def split: option.splits)
  have pv: "p \<in> set ps \<Longrightarrow> set (piece_vars p) \<subseteq> dom A" for p
    using assms(3) by (auto simp: text_vars_def ps)
  have ex: "expansion (CHR ''$'') A t = concat (map (piece_text A) ps)" by (simp add: expansion_def ps)
  have q: "quiet ps" using assms(1) by (simp add: unmarked_def ps)
  show "CHR 0x0A \<notin> set (expansion (CHR ''$'') A t)"
    using q
  proof (cases rule: quiet_cases)
    case var
    then have "CHR 0x0A \<notin> set (piece_text A p)" if "p \<in> set ps" for p
      using that pv [OF that] by (intro nl) auto
    then show ?thesis by (auto simp: ex)
  qed (simp add: ex)
  show "\<not> prefix name_mark (expansion (CHR ''$'') A t)"
    using q
  proof (cases rule: quiet_cases)
    case (var l v m qs)
    define w where "w = the (A v)"
    define rest where "rest = concat (map (piece_text A) qs)"
    have e: "expansion (CHR ''$'') A t = l @ w @ m @ rest" by (simp add: ex var(1) w_def rest_def)
    have w: "list_all plain w" using val [of v] pv [of "Var v"] by (simp add: var(1) w_def)
    from var(3) show ?thesis
    proof
      assume "\<not> prefix name_mark l \<and> \<not> prefix l name_mark"
      then show ?thesis unfolding e by (metis prefix_append prefixI prefix_same_cases)
    next
      assume b: "length l < length name_mark \<and> name_mark ! length l = CHR '' '' \<and> m \<noteq> [] \<and> hd m \<noteq> CHR '' ''"
      have "(l @ w @ m @ rest) ! length l = hd (w @ m)" using b by (cases w; cases m) (auto simp: nth_append)
      moreover have "hd (w @ m) \<noteq> CHR '' ''" using w b by (cases w) (auto simp: plain_def)
      ultimately show ?thesis unfolding e using b by (metis prefixE nth_append)
    qed
  qed (simp add: ex)
qed

lemma StripSuffix_subset: "set (snd (StripSuffix s x)) \<subseteq> set s"
  by (auto simp: StripSuffix_def Let_def dest: in_set_takeD)

lemma StripSuffix_twice_subset:
  "set (let (r, g) = StripSuffix f x in if \<not> r then snd (StripSuffix g y) else g) \<subseteq> set f"
proof (cases "StripSuffix f x")
  case (Pair r g)
  have "set g \<subseteq> set f" using StripSuffix_subset [of f x] by (simp add: Pair)
  moreover have "set (snd (StripSuffix g y)) \<subseteq> set g" by (rule StripSuffix_subset)
  ultimately show ?thesis by (auto simp: Pair)
qed

lemma StripProto_subset: "set (StripProto s) \<subseteq> set s"
proof -
  have "set (case str_rfind s ''/'' of Some pos \<Rightarrow> drop (pos + 1) s | None \<Rightarrow> s) \<subseteq> set s"
    by (auto split: option.splits dest: in_set_dropD)
  then show ?thesis
    unfolding StripProto_def Let_def [of "case _ of None \<Rightarrow> _ | Some x \<Rightarrow> _ x"]
    using StripSuffix_twice_subset order_trans by blast
qed

lemma plain_upper: "plain c \<Longrightarrow> plain (to_upper c)"
proof (cases "97 \<le> (of_char c :: nat) \<and> (of_char c :: nat) \<le> 122")
  case True
  then have "(of_char c :: nat) - 32 < 256" by linarith
  with True have "(of_char (to_upper c) :: nat) = of_char c - 32"
    by (simp add: to_upper_def)
  with True have "of_char (to_upper c) \<notin> {32, 10, 123, 125 :: nat}" by auto
  then have "to_upper c \<noteq> CHR '' '' \<and> to_upper c \<noteq> CHR 0x0A \<and> to_upper c \<noteq> CHR ''{'' \<and> to_upper c \<noteq> CHR ''}''"
    by (auto simp del: of_char_eq_iff)
  then show ?thesis by (simp add: plain_def)
qed (auto simp: to_upper_def)

lemma plain_replaced:
  "list_all plain s \<Longrightarrow> list_all plain rep \<Longrightarrow> list_all plain (replaced [c] rep s)"
  by (auto simp: replaced_char list_all_iff)

text \<open>The variables of a file: their names, and their values where the separator is plain.\<close>

lemma file_vars_eq:
  "file_vars file sep = Some (Map.empty(PROTO_NAME \<mapsto> Lower (StripProto (fd_name file)),
     PROTO_NAME_UPPER \<mapsto> Upper (Lower (StripProto (fd_name file))), PROTO_PACKAGE \<mapsto> fd_package file,
     PROTO_NAMESPACE \<mapsto> replaced ''.'' sep (fd_package file),
     PROTO_NAMEPATH \<mapsto> replaced ''.'' ''/'' (fd_package file)))"
  by (simp add: file_vars_def Replace_replaced)

lemma file_vars_dom: "file_vars file sep = Some A \<Longrightarrow> dom A = set file_names"
  unfolding file_vars_eq file_names_def by (drule option.inject [THEN iffD1], drule sym) auto

lemma plain_vars_upd: "plain_vars A \<Longrightarrow> list_all plain v \<Longrightarrow> plain_vars (A(k \<mapsto> v))"
  by (auto simp: plain_vars_def ran_def)

lemma plain_vars_empty: "plain_vars Map.empty"
  by (simp add: plain_vars_def)

lemma file_vars_plain:
  assumes "file_vars file sep = Some A" "plain_file file" "list_all plain sep"
  shows "plain_vars A"
proof -
  have n: "list_all plain (Lower (StripProto (fd_name file)))"
    using assms(2) StripProto_subset [of "fd_name file"]
    by (intro plain_map_lower) (auto simp: plain_file_def list_all_iff)
  then have "list_all plain (Upper (Lower (StripProto (fd_name file))))"
    by (simp add: Upper_def list_all_iff plain_upper)
  moreover have "list_all plain (replaced ''.'' r (fd_package file))" if "list_all plain r" for r
    using assms(2) that by (intro plain_replaced) (simp_all add: plain_file_def)
  moreover have "list_all plain ''/''" by (simp add: plain_def)
  moreover have "list_all plain (fd_package file)" using assms(2) by (simp add: plain_file_def)
  moreover have "A = Map.empty(PROTO_NAME \<mapsto> Lower (StripProto (fd_name file)),
     PROTO_NAME_UPPER \<mapsto> Upper (Lower (StripProto (fd_name file))), PROTO_PACKAGE \<mapsto> fd_package file,
     PROTO_NAMESPACE \<mapsto> replaced ''.'' sep (fd_package file),
     PROTO_NAMEPATH \<mapsto> replaced ''.'' ''/'' (fd_package file))"
    using assms(1) unfolding file_vars_eq by (rule option.inject [THEN iffD1, symmetric])
  ultimately show ?thesis using n assms(3) by (simp only: plain_vars_upd plain_vars_empty)
qed

lemma service_vars_plain:
  "plain_vars A \<Longrightarrow> plain_service srv \<Longrightarrow> plain_vars (service_vars srv A)"
  by (simp add: service_vars_def plain_service_def plain_vars_upd plain_map_lower)

lemma method_vars_plain:
  "plain_vars A \<Longrightarrow> plain_service srv \<Longrightarrow> m \<in> set (sd_methods srv) \<Longrightarrow> plain_vars (method_vars m A)"
  by (auto simp: method_vars_def plain_service_def list_all_iff [of _ "sd_methods srv"] intro!: plain_vars_upd)

lemma vars_pass:
  "emission good \<Longrightarrow> emits good (\<lambda>vs. A \<subseteq>\<^sub>m vs) [] (set_service srv) (\<lambda>vs. service_vars srv A \<subseteq>\<^sub>m vs)"
  "emission good \<Longrightarrow> emits good (\<lambda>vs. A \<subseteq>\<^sub>m vs) [] (set_method m) (\<lambda>vs. method_vars m A \<subseteq>\<^sub>m vs)"
  "emission good \<Longrightarrow> emits good (\<lambda>vs. A \<subseteq>\<^sub>m vs) [] (set_namespace ns) (\<lambda>vs. A(PROTO_NAMESPACE \<mapsto> ns) \<subseteq>\<^sub>m vs)"
  by (rule emission.emits_set; simp add: map_le_set)+

definition good_lines :: "(vars \<times> string) list \<Rightarrow> string list \<Rightarrow> bool" where
  "good_lines rs r \<longleftrightarrow>
     (\<exists>ls. written_text rs = unlines ls \<and> (\<forall>l \<in> set ls. CHR 0x0A \<notin> set l) \<and> filter (prefix name_mark) ls = r)"

interpretation registration: emission good_lines
proof
  show "good_lines [] []" by (auto simp: good_lines_def intro: exI [of _ "[]"])
  show "good_lines (rs @ rs') (r @ r')" if "good_lines rs r" "good_lines rs' r'" for rs r rs' r'
    using that unfolding good_lines_def by (metis UnE filter_append set_append unlines_simps(2) written_text_simps(2))
qed

lemma quiet_text:
  assumes "texts_use (CHR ''$'') names txt" "list_all unmarked txt" "dom A = set names" "plain_vars A"
  shows "emits good_lines (\<lambda>vs. A \<subseteq>\<^sub>m vs) [] (emit_text txt lt) (\<lambda>vs. A \<subseteq>\<^sub>m vs)"
proof (rule registration.emits_text)
  fix vs assume "A \<subseteq>\<^sub>m vs"
  then have w: "written_text (block vs txt lt) = unlines (block_lines A txt lt)"
    by (rule written_block [OF _ assms(1,3)])
  have "CHR 0x0A \<notin> set (expansion (CHR ''$'') A t) \<and> \<not> prefix name_mark (expansion (CHR ''$'') A t)"
    if "t \<in> set txt" for t
    using that assms unmarked_expansion [of t A] by (auto simp: list_all_iff texts_use_def)
  then show "good_lines (block vs txt lt) []"
    unfolding good_lines_def
    by (intro exI [of _ "block_lines A txt lt"]) (auto simp: w block_lines_def filter_empty_conv name_mark_def)
qed

definition registration_line :: "string \<Rightarrow> string" where
  "registration_line n = ''        method->name    = ngx_string(\"'' @ n @ ''\");''"

text \<open>The names under which a method is served: \<open>/path/Service/Method\<close> and \<open>/path.Service.Method\<close>.\<close>

definition method_paths :: "string \<Rightarrow> service_desc \<Rightarrow> method_desc \<Rightarrow> string list" where
  "method_paths path srv m =
     [''/'' @ path @ ''/'' @ sd_name srv @ ''/'' @ md_name m, ''/'' @ path @ ''.'' @ sd_name srv @ ''.'' @ md_name m]"

definition registered_names :: "file_desc \<Rightarrow> string list" where
  "registered_names file =
     concat (map (\<lambda>srv. concat (map (method_paths (replaced ''.'' ''/'' (fd_package file)) srv) (sd_methods srv)))
       (fd_services file))"

lemma expand_name_lines:
  "pieces (CHR ''$'') ''        method->name    = ngx_string(\"/$PROTO_NAMEPATH$/$PROTO_SERVER_NAME$/$PROTO_SERVER_METHOD_NAME$\");''
   = Some [Lit ''        method->name    = ngx_string(\"/'', Var PROTO_NAMEPATH, Lit ''/'', Var PROTO_SERVER_NAME, Lit ''/'',
           Var PROTO_SERVER_METHOD_NAME, Lit ''\");'']"
  "pieces (CHR ''$'') ''        method->name    = ngx_string(\"/$PROTO_NAMEPATH$.$PROTO_SERVER_NAME$.$PROTO_SERVER_METHOD_NAME$\");''
   = Some [Lit ''        method->name    = ngx_string(\"/'', Var PROTO_NAMEPATH, Lit ''.'', Var PROTO_SERVER_NAME, Lit ''.'',
           Var PROTO_SERVER_METHOD_NAME, Lit ''\");'']"
  by code_simp+

lemma item_lines:
  "\<exists>a b c. NGX_RPC_SET_SERVER_METHOD_ITEM =
     a @ ''        method->name    = ngx_string(\"/$PROTO_NAMEPATH$/$PROTO_SERVER_NAME$/$PROTO_SERVER_METHOD_NAME$\");''
     # b @ ''        method->name    = ngx_string(\"/$PROTO_NAMEPATH$.$PROTO_SERVER_NAME$.$PROTO_SERVER_METHOD_NAME$\");'' # c
     \<and> list_all unmarked (a @ b @ c)"
proof -
  let ?t = NGX_RPC_SET_SERVER_METHOD_ITEM
  have "list_all unmarked (take 4 ?t @ take 7 (drop 5 ?t) @ drop 13 ?t)" by code_simp
  then show ?thesis
    by (intro exI [of _ "take 4 ?t"] exI [of _ "take 7 (drop 5 ?t)"] exI [of _ "drop 13 ?t"] conjI)
      (simp_all only: NGX_RPC_SET_SERVER_METHOD_ITEM_def take_Suc_Cons drop_Suc_Cons take_0 drop_0
        append_Cons append_Nil numeral_nat)
qed

lemma quiet_lines:
  assumes "list_all unmarked ts" "texts_use (CHR ''$'') names ts" "dom A = set names" "plain_vars A"
  shows "filter (prefix name_mark) (map (expansion (CHR ''$'') A) ts) = []"
    "\<forall>l \<in> set (map (expansion (CHR ''$'') A) ts). CHR 0x0A \<notin> set l"
proof -
  have "CHR 0x0A \<notin> set (expansion (CHR ''$'') A t) \<and> \<not> prefix name_mark (expansion (CHR ''$'') A t)"
    if "t \<in> set ts" for t
    using that assms unmarked_expansion [of t A] by (auto simp: list_all_iff texts_use_def)
  then show "filter (prefix name_mark) (map (expansion (CHR ''$'') A) ts) = []"
    "\<forall>l \<in> set (map (expansion (CHR ''$'') A) ts). CHR 0x0A \<notin> set l"
    by (auto simp: filter_empty_conv)
qed

lemma plain_no_break: "list_all plain s \<Longrightarrow> CHR 0x0A \<notin> set s"
  by (induction s) (auto simp: plain_def)

lemma registration_text:
  assumes "dom A = set method_names" "plain_vars A"
    and "A PROTO_NAMEPATH = Some path" "A PROTO_SERVER_NAME = Some (sd_name srv)"
    "A PROTO_SERVER_METHOD_NAME = Some (md_name m)"
  shows "emits good_lines (\<lambda>vs. A \<subseteq>\<^sub>m vs) (map registration_line (method_paths path srv m))
           (emit_text NGX_RPC_SET_SERVER_METHOD_ITEM 0) (\<lambda>vs. A \<subseteq>\<^sub>m vs)"
proof (rule registration.emits_text)
  fix vs assume "A \<subseteq>\<^sub>m vs"
  then have w: "written_text (block vs NGX_RPC_SET_SERVER_METHOD_ITEM 0) = unlines (block_lines A NGX_RPC_SET_SERVER_METHOD_ITEM 0)"
    by (rule written_block [OF _ method_texts(3) assms(1)])
  obtain a b c where t: "NGX_RPC_SET_SERVER_METHOD_ITEM =
     a @ ''        method->name    = ngx_string(\"/$PROTO_NAMEPATH$/$PROTO_SERVER_NAME$/$PROTO_SERVER_METHOD_NAME$\");''
     # b @ ''        method->name    = ngx_string(\"/$PROTO_NAMEPATH$.$PROTO_SERVER_NAME$.$PROTO_SERVER_METHOD_NAME$\");'' # c"
    and u: "list_all unmarked (a @ b @ c)"
    using item_lines by blast
  have use: "texts_use (CHR ''$'') method_names (a @ b @ c)"
    using method_texts(3) unfolding t texts_use_def by simp
  note q = quiet_lines [OF u use assms(1,2)]
  have val: "list_all plain path" "list_all plain (sd_name srv)" "list_all plain (md_name m)"
    by (rule assms(2) [unfolded plain_vars_def, rule_format, OF ranI], rule assms(3-5))+
  have n: "CHR 0x0A \<notin> set path" "CHR 0x0A \<notin> set (sd_name srv)" "CHR 0x0A \<notin> set (md_name m)"
    using val [THEN plain_no_break] .
  have e: "map (expansion (CHR ''$'') A)
      [''        method->name    = ngx_string(\"/$PROTO_NAMEPATH$/$PROTO_SERVER_NAME$/$PROTO_SERVER_METHOD_NAME$\");'',
       ''        method->name    = ngx_string(\"/$PROTO_NAMEPATH$.$PROTO_SERVER_NAME$.$PROTO_SERVER_METHOD_NAME$\");'']
      = map registration_line (method_paths path srv m)"
    by (simp add: expansion_def expand_name_lines assms(3-5) registration_line_def method_paths_def)
  have k: "\<forall>l \<in> set (map registration_line (method_paths path srv m)). CHR 0x0A \<notin> set l \<and> prefix name_mark l"
    using n by (simp add: registration_line_def method_paths_def name_mark_def)
  show "good_lines (block vs NGX_RPC_SET_SERVER_METHOD_ITEM 0) (map registration_line (method_paths path srv m))"
    unfolding good_lines_def
  proof (intro exI conjI)
    show "written_text (block vs NGX_RPC_SET_SERVER_METHOD_ITEM 0)
      = unlines (block_lines A NGX_RPC_SET_SERVER_METHOD_ITEM 0)" by (rule w)
    show "\<forall>l \<in> set (block_lines A NGX_RPC_SET_SERVER_METHOD_ITEM 0). CHR 0x0A \<notin> set l"
      using q(2) k e unfolding block_lines_def t by auto
    show "filter (prefix name_mark) (block_lines A NGX_RPC_SET_SERVER_METHOD_ITEM 0)
      = map registration_line (method_paths path srv m)"
      using q(1) k e unfolding block_lines_def t by (auto simp: filter_empty_conv)
  qed
qed

lemma lines_end:
  "dom A = set file_names \<Longrightarrow> emits good_lines (\<lambda>vs. service_vars srv A \<subseteq>\<^sub>m vs) [] (in_order []) (\<lambda>vs. A \<subseteq>\<^sub>m vs)"
  "dom A = set service_names \<Longrightarrow> emits good_lines (\<lambda>vs. method_vars m A \<subseteq>\<^sub>m vs) [] (in_order []) (\<lambda>vs. A \<subseteq>\<^sub>m vs)"
  by (rule registration.emits_end, rule map_le_less map_le_less_method, simp, assumption)+

lemmas lines_pass = vars_pass(1,2) [OF registration.emission_axioms]

lemma quiet_loop:
  assumes "texts_use (CHR ''$'') service_names txt" "list_all unmarked txt" "dom A = set file_names" "plain_vars A"
    and "list_all plain_service (fd_services file)"
  shows "emits good_lines (\<lambda>vs. A \<subseteq>\<^sub>m vs) [] (for_services file (\<lambda>srv. [emit_text txt lt])) (\<lambda>vs. A \<subseteq>\<^sub>m vs)"
proof (rule registration.emits_services_silent)
  fix srv assume "srv \<in> set (fd_services file)"
  then have "plain_service srv" using assms(5) by (simp add: list_all_iff)
  note v = service_vars_dom [OF assms(3), of srv] service_vars_plain [OF assms(4) this]
  show "emits good_lines (\<lambda>vs. A \<subseteq>\<^sub>m vs) [] (in_order [set_service srv, emit_text txt lt]) (\<lambda>vs. A \<subseteq>\<^sub>m vs)"
    by (rule registration.emits_Cons_silent lines_pass quiet_text [OF assms(1,2) v] lines_end(1) [OF assms(3)])+
qed

lemma quiet_method_loop:
  assumes "texts_use (CHR ''$'') method_names txt" "list_all unmarked txt" "dom A = set file_names" "plain_vars A"
    and "list_all plain_service (fd_services file)"
  shows "emits good_lines (\<lambda>vs. A \<subseteq>\<^sub>m vs) [] (for_services file (\<lambda>srv. [for_methods srv [emit_text txt lt]])) (\<lambda>vs. A \<subseteq>\<^sub>m vs)"
proof (rule registration.emits_services_silent)
  fix srv assume "srv \<in> set (fd_services file)"
  then have p: "plain_service srv" using assms(5) by (simp add: list_all_iff)
  note v = service_vars_dom [OF assms(3), of srv] service_vars_plain [OF assms(4) p]
  have "emits good_lines (\<lambda>vs. service_vars srv A \<subseteq>\<^sub>m vs) [] (for_methods srv [emit_text txt lt])
      (\<lambda>vs. service_vars srv A \<subseteq>\<^sub>m vs)"
  proof (rule registration.emits_methods_silent)
    fix m assume m: "m \<in> set (sd_methods srv)"
    note w = method_vars_dom [OF v(1), of m] method_vars_plain [OF v(2) p m]
    show "emits good_lines (\<lambda>vs. service_vars srv A \<subseteq>\<^sub>m vs) [] (in_order [set_method m, emit_text txt lt])
        (\<lambda>vs. service_vars srv A \<subseteq>\<^sub>m vs)"
      by (rule registration.emits_Cons_silent lines_pass quiet_text [OF assms(1,2) w] lines_end(2) [OF v(1)])+
  qed
  then show "emits good_lines (\<lambda>vs. A \<subseteq>\<^sub>m vs) [] (in_order [set_service srv, for_methods srv [emit_text txt lt]]) (\<lambda>vs. A \<subseteq>\<^sub>m vs)"
    by (intro registration.emits_Cons_silent [OF lines_pass(1)] registration.emits_Cons_silent [OF _ lines_end(1) [OF assms(3)]])
qed

lemma registration_loop:
  assumes "dom A = set file_names" "plain_vars A" "A PROTO_NAMEPATH = Some path"
    and "list_all plain_service (fd_services file)"
  shows "emits good_lines (\<lambda>vs. A \<subseteq>\<^sub>m vs)
     (map registration_line (concat (map (\<lambda>srv. concat (map (method_paths path srv) (sd_methods srv))) (fd_services file))))
     (for_services file (\<lambda>srv.
        [emit_text NGX_RPC_SET_SERVER_METHOD_START 0,
         for_methods srv [emit_text NGX_RPC_SET_SERVER_METHOD_ITEM 0],
         emit_text NGX_RPC_SET_SERVER_METHOD_END P_MARGIN])) (\<lambda>vs. A \<subseteq>\<^sub>m vs)"
proof -
  let ?g = "\<lambda>srv m. map registration_line (method_paths path srv m)"
  have "emits good_lines (\<lambda>vs. A \<subseteq>\<^sub>m vs) (concat (map (?g srv) (sd_methods srv)))
      (in_order [set_service srv, emit_text NGX_RPC_SET_SERVER_METHOD_START 0,
         for_methods srv [emit_text NGX_RPC_SET_SERVER_METHOD_ITEM 0],
         emit_text NGX_RPC_SET_SERVER_METHOD_END P_MARGIN]) (\<lambda>vs. A \<subseteq>\<^sub>m vs)"
    if srv: "srv \<in> set (fd_services file)" for srv
  proof -
    have p: "plain_service srv" using srv assms(4) by (simp add: list_all_iff)
    note v = service_vars_dom [OF assms(1), of srv] service_vars_plain [OF assms(2) p]
    have "emits good_lines (\<lambda>vs. service_vars srv A \<subseteq>\<^sub>m vs) (concat (map (?g srv) (sd_methods srv)))
       (for_methods srv [emit_text NGX_RPC_SET_SERVER_METHOD_ITEM 0]) (\<lambda>vs. service_vars srv A \<subseteq>\<^sub>m vs)"
    proof (rule registration.emits_methods)
      fix m assume m: "m \<in> set (sd_methods srv)"
      let ?B = "method_vars m (service_vars srv A)"
      have "emits good_lines (\<lambda>vs. ?B \<subseteq>\<^sub>m vs) (?g srv m) (emit_text NGX_RPC_SET_SERVER_METHOD_ITEM 0) (\<lambda>vs. ?B \<subseteq>\<^sub>m vs)"
        using assms(3) by (intro registration_text [OF method_vars_dom [OF v(1)] method_vars_plain [OF v(2) p m]])
          (simp_all add: method_vars_def service_vars_def)
      from registration.emits_Cons [OF this lines_end(2) [OF v(1)]]
      show "emits good_lines (\<lambda>vs. service_vars srv A \<subseteq>\<^sub>m vs) (?g srv m)
          (in_order [set_method m, emit_text NGX_RPC_SET_SERVER_METHOD_ITEM 0]) (\<lambda>vs. service_vars srv A \<subseteq>\<^sub>m vs)"
        by (intro registration.emits_Cons_silent [OF lines_pass(2)]) simp
    qed
    moreover have "emits good_lines (\<lambda>vs. service_vars srv A \<subseteq>\<^sub>m vs) []
       (in_order [emit_text NGX_RPC_SET_SERVER_METHOD_END P_MARGIN]) (\<lambda>vs. A \<subseteq>\<^sub>m vs)"
      by (rule registration.emits_Cons_silent quiet_text [OF service_texts(8) quiet_texts(18) v] lines_end(1) [OF assms(1)])+
    ultimately have "emits good_lines (\<lambda>vs. service_vars srv A \<subseteq>\<^sub>m vs) (concat (map (?g srv) (sd_methods srv)) @ [])
       (in_order [for_methods srv [emit_text NGX_RPC_SET_SERVER_METHOD_ITEM 0],
          emit_text NGX_RPC_SET_SERVER_METHOD_END P_MARGIN]) (\<lambda>vs. A \<subseteq>\<^sub>m vs)"
      by (rule registration.emits_Cons)
    then show ?thesis
      by (intro registration.emits_Cons_silent [OF lines_pass(1)]
          registration.emits_Cons_silent [OF quiet_text [OF service_texts(7) quiet_texts(17) v]]) simp
  qed
  then have "emits good_lines (\<lambda>vs. A \<subseteq>\<^sub>m vs) (concat (map (\<lambda>srv. concat (map (?g srv) (sd_methods srv))) (fd_services file)))
     (for_services file (\<lambda>srv.
        [emit_text NGX_RPC_SET_SERVER_METHOD_START 0,
         for_methods srv [emit_text NGX_RPC_SET_SERVER_METHOD_ITEM 0],
         emit_text NGX_RPC_SET_SERVER_METHOD_END P_MARGIN])) (\<lambda>vs. A \<subseteq>\<^sub>m vs)"
    by (rule registration.emits_services)
  then show ?thesis by (simp add: map_concat comp_def)
qed

lemma module_body_registers:
  assumes "dom A = set file_names" "plain_vars A" "A PROTO_NAMEPATH = Some path"
    and "list_all plain_service (fd_services file)"
  shows "emits good_lines (\<lambda>vs. A \<subseteq>\<^sub>m vs)
     (map registration_line (concat (map (\<lambda>srv. concat (map (method_paths path srv) (sd_methods srv))) (fd_services file))))
     (module_body file) (\<lambda>vs. A \<subseteq>\<^sub>m vs)"
proof -
  note t = quiet_text [OF _ _ assms(1,2)]
  note l = quiet_loop [OF _ _ assms(1,2,4)] quiet_method_loop [OF _ _ assms(1,2,4)]
  show ?thesis
    unfolding module_body_def
    by (rule registration.emits_Cons_silent t l file_texts service_texts method_texts quiet_texts
        registration.emits_end registration.emits_Cons_only registration_loop [OF assms] | assumption)+
qed

lemma written_expansion:
  assumes "printer_laws pr" "all_defined (CHR ''$'') (asked p) []" "delim p = CHR ''$''"
  shows "written pr p = written_text (asked p)"
proof -
  have "pr (CHR ''$'') vs t = expansion (CHR ''$'') vs t" if "(vs, t) \<in> set (asked p)" for vs t
  proof -
    have "well_defined (CHR ''$'') vs t"
      using assms(2) that by (fastforce simp: all_defined_def)
    then show ?thesis using assms(1) by (simp add: printer_laws_def)
  qed
  then have "map (\<lambda>(vs, t). pr (delim p) vs t) (asked p) = map (\<lambda>(vs, t). expansion (CHR ''$'') vs t) (asked p)"
    using assms(3) by (auto intro: map_cong)
  then show ?thesis by (simp only: written_def written_text_def)
qed

text \<open>
  C33. The generated module registers every method of every service under exactly two names, in the
  order of the proto file: the lines of the generated file that set the name of a method are,
  one after the other, those for \<open>/path/Service/Method\<close> and \<open>/path.Service.Method\<close>, where the path is the
  package with slashes for dots. Names without blanks, line breaks and braces are assumed.
\<close>

theorem module_registers_methods:
  assumes "printer_laws pr" "plain_file file"
  shows "\<exists>code. GetNgxModuleHeader pr file = Some code
     \<and> filter (prefix name_mark) (lines_of [] code) = map registration_line (registered_names file)"
proof -
  obtain A where A: "file_vars file ''::'' = Some A" using file_vars_Some by blast
  have pv: "plain_vars A" by (rule file_vars_plain [OF A assms(2)]) (simp add: plain_def)
  have path: "A PROTO_NAMEPATH = Some (replaced ''.'' ''/'' (fd_package file))"
    using A by (auto simp: file_vars_eq)
  have ps: "list_all plain_service (fd_services file)" using assms(2) by (simp add: plain_file_def)
  obtain p where p: "module_printer file = Some p" "delim p = CHR ''$''" "all_defined (CHR ''$'') (asked p) []"
    using module_printer_defined by blast
  obtain vs rs where rs: "module_body file (A, start_printer (CHR ''$''))
      = (vs, (start_printer (CHR ''$''))\<lparr>asked := asked (start_printer (CHR ''$'')) @ rs\<rparr>)"
    "good_lines rs (map registration_line (registered_names file))"
    using emitsD [OF module_body_registers [OF file_vars_dom [OF A] pv path ps] map_le_refl, of "start_printer (CHR ''$'')"]
    unfolding registered_names_def by blast
  have "asked p = rs" using p(1) rs(1) unfolding module_printer_def A by (auto simp: start_printer_def)
  then have "GetNgxModuleHeader pr file = Some (written_text rs)"
    using written_expansion [OF assms(1) p(3,2)] by (simp add: GetNgxModuleHeader_def p(1))
  with rs(2) show ?thesis by (auto simp: good_lines_def lines_of_unlines)
qed

text \<open>The proto file of the inspect module (ngx_rpc_inspect_module/inspect.proto).\<close>

definition inspect_proto :: file_desc where
  "inspect_proto = \<lparr>fd_name = ''inspect.proto'', fd_package = ''ngxrpc.inspect'', fd_generic_services = True,
     fd_services = [\<lparr>sd_name = ''Application'',
       sd_methods = [\<lparr>md_name = ''interface'', md_input = ''Request'', md_output = ''Response''\<rparr>,
                     \<lparr>md_name = ''requeststatus'', md_input = ''Request'', md_output = ''Response''\<rparr>]\<rparr>]\<rparr>"

lemma inspect_plain: "plain_file inspect_proto"
  by (simp add: inspect_proto_def plain_file_def plain_service_def plain_def)

lemma expansion_laws: "printer_laws expansion"
  by (simp add: printer_laws_def)

lemma inspect_names:
  "registered_names inspect_proto =
     [''/ngxrpc/inspect/Application/interface'', ''/ngxrpc/inspect.Application.interface'',
      ''/ngxrpc/inspect/Application/requeststatus'', ''/ngxrpc/inspect.Application.requeststatus'']"
  by (simp add: registered_names_def method_paths_def inspect_proto_def replaced_char)

theorem module_registers_methods_witness:
  "\<exists>code. GetNgxModuleHeader expansion inspect_proto = Some code
     \<and> filter (prefix name_mark) (lines_of [] code) = map registration_line
         [''/ngxrpc/inspect/Application/interface'', ''/ngxrpc/inspect.Application.interface'',
          ''/ngxrpc/inspect/Application/requeststatus'', ''/ngxrpc/inspect.Application.requeststatus'']"
  using module_registers_methods [OF expansion_laws inspect_plain] unfolding inspect_names .

text \<open>
  C34. No request of the generators fails: for any proto file, every text that the header of the
  services, the module and the build file print is well formed, and all the variables it names are set at
  that moment. In particular both texts are always produced.
\<close>

theorem requests_well_defined:
  "\<exists>h c. server_impl_printer file = Some h \<and> module_printer file = Some c
     \<and> list_all (\<lambda>(vs, t). well_defined (delim h) vs t) (asked h)
     \<and> list_all (\<lambda>(vs, t). well_defined (delim c) vs t) (asked c)
     \<and> list_all (\<lambda>(vs, t). well_defined (CHR ''%'') vs t) (asked (config_printer file))"
proof -
  obtain h where h: "server_impl_printer file = Some h" "delim h = CHR ''$''" "all_defined (CHR ''$'') (asked h) []"
    using server_impl_printer_defined by blast
  obtain c where c: "module_printer file = Some c" "delim c = CHR ''$''" "all_defined (CHR ''$'') (asked c) []"
    using module_printer_defined by blast
  show ?thesis
    using h c config_printer_defined by (intro exI [of _ h] exI [of _ c]) (auto simp: all_defined_def list_all_iff)
qed

text \<open>
  C35. \<open>Replace\<close> and its reference. With a text to look for, it returns, and the result is the input
  with all occurrences replaced from left to right, which for a single character is replacement
  character by character; the inserted text is not looked at again. With an empty one it never returns.
\<close>

theorem Replace_reference:
  assumes "search \<noteq> []"
  shows "Replace s search rep = Some (replaced search rep s)
     \<and> Replace s [c] rep = Some (concat (map (\<lambda>x. if x = c then rep else [x]) s))
     \<and> Replace s [] rep = None"
  using Replace_replaced [OF assms] Replace_replaced [of "[c]" s rep] replace_loop_empty [of 0 s rep]
  by (simp add: replaced_char Replace_def)

theorem Replace_reference_witness:
  "Replace ''ngxrpc.inspect'' ''.'' ''::'' = Some ''ngxrpc::inspect'' \<and> Replace ''aab'' ''aa'' ''a'' = Some ''ab''
   \<and> Replace ''x'' [] ''y'' = None"
  using Replace_reference [of "''aa''" "''aab''" "''a''"]
    Replace_reference [of "''.''" "''ngxrpc.inspect''" "''::''" "CHR ''.''"]
    Replace_reference [of "''.''" "''x''" "''y''"]
  by (simp add: replaced.simps [of "''aa''"] replaced_char)

lemma StripSuffix_append: "StripSuffix (b @ x) x = (True, b)"
  by (simp add: StripSuffix_def)

lemma StripSuffix_other: "\<not> suffix x f \<Longrightarrow> StripSuffix f x = (False, f)"
  by (auto simp: StripSuffix_def suffix_def Let_def) (metis append_take_drop_id)

lemma StripProto_base:
  assumes "CHR ''/'' \<notin> set base"
  shows "StripProto (dir @ ''/'' @ base) = StripProto base"
  using assms str_rfind_none [OF assms] str_rfind_char [OF assms, of dir]
  by (simp add: StripProto_def)

lemma proto_not_devel: "\<not> suffix ''.protodevel'' (base @ ''.proto'')"
proof
  assume "suffix ''.protodevel'' (base @ ''.proto'')"
  then have "last (base @ ''.proto'') = last ''.protodevel''" unfolding suffix_def by (metis last_appendR list.distinct(1))
  then show False by simp
qed

text \<open>
  The name of the generated files is the last part of the path of the proto file without its
  suffix, be it \<open>.proto\<close> or \<open>.protodevel\<close>; only one suffix is taken off, and a name without one stays.
\<close>

theorem StripProto_cases:
  assumes "CHR ''/'' \<notin> set base"
  shows "StripProto (dir @ ''/'' @ base @ ''.proto'') = base
     \<and> StripProto (dir @ ''/'' @ base @ ''.protodevel'') = base
     \<and> StripProto (base @ ''.proto'') = base
     \<and> (\<not> suffix ''.proto'' base \<longrightarrow> \<not> suffix ''.protodevel'' base \<longrightarrow> StripProto (dir @ ''/'' @ base) = base)"
proof -
  have n: "CHR ''/'' \<notin> set (base @ ''.proto'')" "CHR ''/'' \<notin> set (base @ ''.protodevel'')" using assms by simp_all
  have p: "StripProto (base @ ''.proto'') = base"
    using StripSuffix_other [OF proto_not_devel, of base] StripSuffix_append [of base "''.proto''"]
      str_rfind_none [OF n(1)]
    by (simp add: StripProto_def)
  have d: "StripProto (base @ ''.protodevel'') = base"
    using StripSuffix_append [of base "''.protodevel''"] str_rfind_none [OF n(2)] by (simp add: StripProto_def)
  have o: "StripProto base = base" if "\<not> suffix ''.proto'' base" "\<not> suffix ''.protodevel'' base"
    using StripSuffix_other [OF that(1)] StripSuffix_other [OF that(2)] str_rfind_none [OF assms]
    by (simp add: StripProto_def)
  show ?thesis using p d o StripProto_base [OF n(1)] StripProto_base [OF n(2)] StripProto_base [OF assms] by simp
qed

theorem StripProto_cases_witness:
  "StripProto ''rpc/Inspect.proto'' = ''Inspect'' \<and> StripProto ''rpc/Inspect.protodevel'' = ''Inspect''"
  using StripProto_cases [of "''Inspect''" "''rpc''"] by simp

section \<open>Nesting of the braces\<close>

definition braces :: "string \<Rightarrow> string" where
  "braces s = filter (\<lambda>c. c = CHR ''{'' \<or> c = CHR ''}'') s"

text \<open>The depth after a text that starts at depth \<open>n\<close>; \<open>None\<close>: more is closed than was open.\<close>

fun nest :: "nat \<Rightarrow> string \<Rightarrow> nat option" where
  "nest n [] = Some n"
| "nest n (c # cs) =
     (if c = CHR ''{'' then nest (Suc n) cs
      else if c = CHR ''}'' then (case n of 0 \<Rightarrow> None | Suc k \<Rightarrow> nest k cs)
      else nest n cs)"

lemma nest_braces: "nest n (braces s) = nest n s"
  by (induction s arbitrary: n) (auto simp: braces_def split: nat.splits)

lemma nest_append: "nest n (a @ b) = Option.bind (nest n a) (\<lambda>k. nest k b)"
  by (induction a arbitrary: n) (auto split: nat.splits)

lemma nest_concat: "(\<And>x n. x \<in> set xs \<Longrightarrow> nest n (g x) = Some n) \<Longrightarrow> nest n (concat (map g xs)) = Some n"
  by (induction xs) (auto simp: nest_append)

lemma nest_replicate:
  "nest n (replicate k (CHR ''{'')) = Some (k + n)"
  "nest (k + n) (replicate k (CHR ''}'')) = Some n"
  by (induction k arbitrary: n) simp_all

lemma braces_append [simp]: "braces (a @ b) = braces a @ braces b"
  by (simp add: braces_def)

lemma plain_braces: "list_all plain s \<Longrightarrow> braces s = []"
  by (induction s) (auto simp: plain_def braces_def)

definition good_braces :: "(vars \<times> string) list \<Rightarrow> string \<Rightarrow> bool" where
  "good_braces rs r \<longleftrightarrow> braces (written_text rs) = r"

interpretation nesting: emission good_braces
  by unfold_locales (simp_all add: good_braces_def, simp add: braces_def)

definition printed_braces :: "vars \<Rightarrow> string list \<Rightarrow> string" where
  "printed_braces A txt = concat (map (\<lambda>t. braces (expansion (CHR ''$'') A t)) txt)"

definition text_braces :: "string list \<Rightarrow> string" where
  "text_braces txt = concat (map (\<lambda>t. case pieces (CHR ''$'') t of None \<Rightarrow> [] | Some ps \<Rightarrow>
     concat (map (\<lambda>p. braces (piece_lit p)) ps)) txt)"

lemma braces_concat: "braces (concat xs) = concat (map braces xs)"
  by (induction xs) (simp_all add: braces_def)

lemma nesting_text:
  assumes "texts_use (CHR ''$'') names txt" "dom A = set names"
  shows "emits good_braces (\<lambda>vs. A \<subseteq>\<^sub>m vs) (printed_braces A txt) (emit_text txt lt) (\<lambda>vs. A \<subseteq>\<^sub>m vs)"
proof (rule nesting.emits_text)
  fix vs assume "A \<subseteq>\<^sub>m vs"
  then have w: "written_text (block vs txt lt) = unlines (block_lines A txt lt)"
    by (rule written_block [OF _ assms])
  have "braces (unlines ls) = concat (map braces ls)" for ls
    by (induction ls) (simp_all add: newline_def braces_def)
  then show "good_braces (block vs txt lt) (printed_braces A txt)"
    by (simp add: good_braces_def w block_lines_def printed_braces_def comp_def braces_def)
qed

lemma printed_braces_text:
  assumes "texts_use (CHR ''$'') names txt" "\<And>k. k \<in> set names \<Longrightarrow> braces (the (A k)) = []"
  shows "printed_braces A txt = text_braces txt"
proof -
  have p: "braces (piece_text A p) = braces (piece_lit p)" if "set (piece_vars p) \<subseteq> set names" for p
    using that assms(2) by (cases p) (simp_all add: braces_def)
  have "braces (expansion (CHR ''$'') A t) = (case pieces (CHR ''$'') t of None \<Rightarrow> [] | Some ps \<Rightarrow>
     concat (map (\<lambda>p. braces (piece_lit p)) ps))" if t: "t \<in> set txt" for t
  proof -
    obtain ps where ps: "pieces (CHR ''$'') t = Some ps"
      using assms(1) t by (auto simp: texts_use_def list_all_iff)
    have "set (text_vars (CHR ''$'') t) \<subseteq> set names"
      using assms(1) t by (auto simp: texts_use_def list_all_iff)
    then have "map (\<lambda>p. braces (piece_text A p)) ps = map (\<lambda>p. braces (piece_lit p)) ps"
      by (intro map_cong refl p) (auto simp: text_vars_def ps)
    then show ?thesis by (simp only: expansion_def ps option.case braces_concat map_map comp_def)
  qed
  then have "map (\<lambda>t. braces (expansion (CHR ''$'') A t)) txt = map (\<lambda>t. case pieces (CHR ''$'') t of None \<Rightarrow> []
      | Some ps \<Rightarrow> concat (map (\<lambda>p. braces (piece_lit p)) ps)) txt"
    by (intro map_cong refl)
  then show ?thesis by (simp only: printed_braces_def text_braces_def)
qed

lemma text_braces_values:
  "text_braces NGX_RPC_SERVER_HEADER_START = []"
  "text_braces NGX_RPC_SERVER_INCLUDE = []"
  "text_braces NGX_RPC_SERVER_HEADER_END = []"
  "text_braces NGX_RPC_SERVER_CLASS_START = ''{{}''"
  "text_braces NGX_RPC_SERVER_CLASS_END = ''}''"
  "text_braces NGX_RPC_SERVER_METHOD = ''{}''"
  "text_braces NGX_RPC_MODULE_INLUCDE = ''{}''"
  "text_braces NGX_PRC_MODULE_CONF_START = ''{''"
  "text_braces NGX_RPC_MODULE_CONF_SERVERS = []"
  "text_braces NGX_PRC_MODULE_CONF_END = ''}''"
  "text_braces NGX_RPC_SERVER_SET_CONF = []"
  "text_braces NGX_RPC_COMMANDS_START = ''{''"
  "text_braces NGX_RPC_COMMANDS_ITEMS = ''{}''"
  "text_braces NGX_RPC_COMMANDS_END = ''}''"
  "text_braces NGX_RPC_HTTP_MODULE_DECALRES = []"
  "text_braces NGX_RPC_HTTP_MODULE_DEFINE = ''{}''"
  "text_braces NGX_RPC_MOUDLE_DECARLES = []"
  "text_braces NGX_RPC_MOUDLE_DEFINE = ''{{}}''"
  "text_braces NGX_RPC_CREATE_LOC_START = ''{''"
  "text_braces NGX_RPC_CREATE_LOC_ITEMS = []"
  "text_braces NGX_RPC_CREATE_LOC_END = ''}''"
  "text_braces NGX_RPC_METHOD_PROCESS = ''{{}}''"
  "text_braces NGX_RPC_SET_SERVER_METHOD_START = ''{{}{}{}''"
  "text_braces NGX_RPC_SET_SERVER_METHOD_ITEM = ''{}{}''"
  "text_braces NGX_RPC_SET_SERVER_METHOD_END = ''}''"
  "text_braces NGX_RPC_EXIT_START = ''{''"
  "text_braces NGX_RPC_EXIT_ITEM = []"
  "text_braces NGX_RPC_EXIT_END = ''}''"
  by code_simp+

lemma plain_value: "dom A = set names \<Longrightarrow> plain_vars A \<Longrightarrow> k \<in> set names \<Longrightarrow> braces (the (A k)) = []"
  by (metis domD option.sel plain_braces plain_vars_def ranI)

lemma nesting_plain:
  assumes "texts_use (CHR ''$'') names txt" "dom A = set names" "plain_vars A"
  shows "emits good_braces (\<lambda>vs. A \<subseteq>\<^sub>m vs) (text_braces txt) (emit_text txt lt) (\<lambda>vs. A \<subseteq>\<^sub>m vs)"
  using nesting_text [OF assms(1,2)] printed_braces_text [OF assms(1) plain_value [OF assms(2,3)]] by simp

lemma nesting_end:
  "dom A = set file_names \<Longrightarrow> emits good_braces (\<lambda>vs. service_vars srv A \<subseteq>\<^sub>m vs) [] (in_order []) (\<lambda>vs. A \<subseteq>\<^sub>m vs)"
  "dom A = set service_names \<Longrightarrow> emits good_braces (\<lambda>vs. method_vars m A \<subseteq>\<^sub>m vs) [] (in_order []) (\<lambda>vs. A \<subseteq>\<^sub>m vs)"
  by (rule nesting.emits_end, rule map_le_less map_le_less_method, simp, assumption)+

lemmas nesting_pass = vars_pass [OF nesting.emission_axioms]

lemma nesting_service:
  assumes "texts_use (CHR ''$'') service_names txt" "dom A = set file_names" "plain_vars A" "plain_service srv"
  shows "emits good_braces (\<lambda>vs. service_vars srv A \<subseteq>\<^sub>m vs) (text_braces txt) (emit_text txt lt) (\<lambda>vs. service_vars srv A \<subseteq>\<^sub>m vs)"
  by (rule nesting_plain [OF assms(1) service_vars_dom [OF assms(2)] service_vars_plain [OF assms(3,4)]])

lemma nesting_methods:
  assumes "texts_use (CHR ''$'') method_names txt" "dom A = set file_names" "plain_vars A" "plain_service srv"
  shows "emits good_braces (\<lambda>vs. service_vars srv A \<subseteq>\<^sub>m vs) (concat (map (\<lambda>m. text_braces txt) (sd_methods srv)))
     (for_methods srv [emit_text txt lt]) (\<lambda>vs. service_vars srv A \<subseteq>\<^sub>m vs)"
proof (rule nesting.emits_methods)
  fix m assume m: "m \<in> set (sd_methods srv)"
  note v = service_vars_dom [OF assms(2), of srv] service_vars_plain [OF assms(3,4)]
  have "emits good_braces (\<lambda>vs. method_vars m (service_vars srv A) \<subseteq>\<^sub>m vs) (text_braces txt) (emit_text txt lt)
      (\<lambda>vs. method_vars m (service_vars srv A) \<subseteq>\<^sub>m vs)"
    by (rule nesting_plain [OF assms(1) method_vars_dom [OF v(1)] method_vars_plain [OF v(2) assms(4) m]])
  from nesting.emits_Cons_only [OF this nesting_end(2) [OF v(1)]]
  show "emits good_braces (\<lambda>vs. service_vars srv A \<subseteq>\<^sub>m vs) (text_braces txt)
      (in_order [set_method m, emit_text txt lt]) (\<lambda>vs. service_vars srv A \<subseteq>\<^sub>m vs)"
    by (rule nesting.emits_Cons_silent [OF nesting_pass(2)])
qed

lemma module_body_nests:
  assumes "dom A = set file_names" "plain_vars A" "list_all plain_service (fd_services file)"
  shows "\<exists>r. emits good_braces (\<lambda>vs. A \<subseteq>\<^sub>m vs) r (module_body file) (\<lambda>vs. A \<subseteq>\<^sub>m vs) \<and> nest 0 r = Some 0"
proof -
  have ps: "plain_service srv" if "srv \<in> set (fd_services file)" for srv
    using that assms(3) by (simp add: list_all_iff)
  note t = nesting_plain [OF _ assms(1,2)]
  show ?thesis
    unfolding module_body_def
    by (rule exI, rule conjI,
        (rule nesting_pass(1) nesting.emits_Cons nesting.emits_nothing nesting.emits_services nesting_end(1)
          t nesting_service nesting_methods file_texts service_texts method_texts assms ps | assumption)+,
        simp add: text_braces_values nest_append nest_concat)
qed

text \<open>
  The header prints the namespace with its braces, so that only the other variables are free of
  them there.
\<close>

lemma header_texts:
  "texts_use (CHR ''$'') [PROTO_NAME, PROTO_NAME_UPPER] NGX_RPC_SERVER_HEADER_START"
  "texts_use (CHR ''$'') [PROTO_NAME, PROTO_NAME_UPPER] NGX_RPC_SERVER_INCLUDE"
  "texts_use (CHR ''$'') [PROTO_NAME, PROTO_NAME_UPPER] NGX_RPC_SERVER_HEADER_END"
  "texts_use (CHR ''$'') [PROTO_SERVER_NAME] NGX_RPC_SERVER_CLASS_START"
  "texts_use (CHR ''$'') [PROTO_SERVER_NAME] NGX_RPC_SERVER_CLASS_END"
  "texts_use (CHR ''$'') [PROTO_SERVER_METHOD_NAME, PROTO_SERVER_METHOD_REQUEST_NAME,
     PROTO_SERVER_METHOD_RESPONSE_NAME] NGX_RPC_SERVER_METHOD"
  by code_simp+

lemma header_text:
  assumes "texts_use (CHR ''$'') file_names txt" "texts_use (CHR ''$'') [PROTO_NAME, PROTO_NAME_UPPER] txt"
    and "dom A = set file_names" "braces (the (A PROTO_NAME)) = []" "braces (the (A PROTO_NAME_UPPER)) = []"
  shows "emits good_braces (\<lambda>vs. A \<subseteq>\<^sub>m vs) (text_braces txt) (emit_text txt lt) (\<lambda>vs. A \<subseteq>\<^sub>m vs)"
proof -
  have "printed_braces A txt = text_braces txt"
    by (rule printed_braces_text [OF assms(2)]) (use assms(4,5) in auto)
  then show ?thesis using nesting_text [OF assms(1,3)] by simp
qed

lemma header_service:
  assumes "texts_use (CHR ''$'') service_names txt" "texts_use (CHR ''$'') [PROTO_SERVER_NAME] txt"
    and "dom A = set file_names" "plain_service srv"
  shows "emits good_braces (\<lambda>vs. service_vars srv A \<subseteq>\<^sub>m vs) (text_braces txt) (emit_text txt lt) (\<lambda>vs. service_vars srv A \<subseteq>\<^sub>m vs)"
proof -
  have "printed_braces (service_vars srv A) txt = text_braces txt"
    by (rule printed_braces_text [OF assms(2)])
      (use assms(4) in \<open>auto simp: service_vars_def plain_service_def plain_braces\<close>)
  then show ?thesis using nesting_text [OF assms(1) service_vars_dom [OF assms(3)], of srv] by simp
qed

lemma header_methods:
  assumes "texts_use (CHR ''$'') method_names txt"
    and "texts_use (CHR ''$'') [PROTO_SERVER_METHOD_NAME, PROTO_SERVER_METHOD_REQUEST_NAME, PROTO_SERVER_METHOD_RESPONSE_NAME] txt"
    and "dom A = set file_names" "plain_service srv"
  shows "emits good_braces (\<lambda>vs. service_vars srv A \<subseteq>\<^sub>m vs) (concat (map (\<lambda>m. text_braces txt) (sd_methods srv)))
     (for_methods srv [emit_text txt lt]) (\<lambda>vs. service_vars srv A \<subseteq>\<^sub>m vs)"
proof (rule nesting.emits_methods)
  fix m assume m: "m \<in> set (sd_methods srv)"
  let ?B = "method_vars m (service_vars srv A)"
  note v = service_vars_dom [OF assms(3), of srv]
  have "printed_braces ?B txt = text_braces txt"
    by (rule printed_braces_text [OF assms(2)])
      (use assms(4) m in \<open>auto simp: method_vars_def plain_service_def list_all_iff [of _ "sd_methods srv"] plain_braces\<close>)
  then have "emits good_braces (\<lambda>vs. ?B \<subseteq>\<^sub>m vs) (text_braces txt) (emit_text txt lt) (\<lambda>vs. ?B \<subseteq>\<^sub>m vs)"
    using nesting_text [OF assms(1) method_vars_dom [OF v], of m] by simp
  from nesting.emits_Cons_only [OF this nesting_end(2) [OF v]]
  show "emits good_braces (\<lambda>vs. service_vars srv A \<subseteq>\<^sub>m vs) (text_braces txt)
      (in_order [set_method m, emit_text txt lt]) (\<lambda>vs. service_vars srv A \<subseteq>\<^sub>m vs)"
    by (rule nesting.emits_Cons_silent [OF nesting_pass(2)])
qed

lemma namespace_pieces:
  "pieces (CHR ''$'') ''namespace $PROTO_NAMESPACE$ {'' = Some [Lit ''namespace '', Var PROTO_NAMESPACE, Lit '' {'']"
  "pieces (CHR ''$'') ''} // for $PROTO_NAMESPACE$'' = Some [Lit ''} // for '', Var PROTO_NAMESPACE, Lit []]"
  by code_simp+

lemma namespace_braces:
  "printed_braces A NGX_RPC_SERVER_NAMESPACE_START = braces (the (A PROTO_NAMESPACE)) @ ''{''"
  "printed_braces A NGX_RPC_SERVER_NAMESPACE_END = ''}'' @ braces (the (A PROTO_NAMESPACE))"
  by (simp_all add: printed_braces_def NGX_RPC_SERVER_NAMESPACE_START_def NGX_RPC_SERVER_NAMESPACE_END_def
      expansion_def namespace_pieces) (simp_all add: braces_def)

lemma server_body_nests:
  assumes "dom A = set file_names" "braces (the (A PROTO_NAME)) = []" "braces (the (A PROTO_NAME_UPPER)) = []"
    and "list_all plain_service (fd_services file)"
    and "braces (the (A PROTO_NAMESPACE)) = replicate k (CHR ''{'')" "braces ns = replicate k (CHR ''}'')"
  shows "\<exists>r. emits good_braces (\<lambda>vs. A \<subseteq>\<^sub>m vs) r (server_impl_body file ns) (\<lambda>vs. A(PROTO_NAMESPACE \<mapsto> ns) \<subseteq>\<^sub>m vs)
     \<and> nest 0 r = Some 0"
proof -
  let ?B = "A(PROTO_NAMESPACE \<mapsto> ns)"
  have ps: "plain_service srv" if "srv \<in> set (fd_services file)" for srv
    using that assms(4) by (simp add: list_all_iff)
  have B: "dom ?B = set file_names" "braces (the (?B PROTO_NAME)) = []" "braces (the (?B PROTO_NAME_UPPER)) = []"
    using assms(1-3) by (auto simp: file_names_def)
  note h = header_text [OF file_texts(1) header_texts(1)] header_text [OF file_texts(2) header_texts(2)]
    header_text [OF file_texts(5) header_texts(3)]
  note n = nesting_text [OF file_texts(3) assms(1)] nesting_text [OF file_texts(4) B(1)]
  note s = header_service [OF service_texts(1) header_texts(4) assms(1)]
    header_service [OF service_texts(2) header_texts(5) assms(1)] header_methods [OF method_texts(1) header_texts(6) assms(1)]
  show ?thesis
    unfolding server_impl_body_def
    by (rule exI, rule conjI,
        (rule nesting.emits_Cons nesting.emits_nothing nesting.emits_services nesting_end(1) [OF assms(1)]
          nesting_pass(1,3) h n s assms(1-3) B ps | assumption)+,
        use nest_replicate(1) [of 0 k] nest_replicate(2) [of k 0] in
        \<open>simp add: text_braces_values nest_append nest_concat namespace_braces assms(5,6)\<close>)
qed

lemma braces_replaced:
  "list_all plain s \<Longrightarrow> braces sep = [c] \<Longrightarrow> braces (replaced ''.'' sep s) = replicate (count_list s (CHR ''.'')) c"
  unfolding replaced_char
  by (induction s) (auto simp: braces_def plain_def)

lemma emitted_good:
  assumes "emits good (\<lambda>vs. A \<subseteq>\<^sub>m vs) r e Q"
  shows "good (asked (snd (e (A, start_printer d)))) r"
proof -
  obtain vs rs where "e (A, start_printer d) = (vs, (start_printer d)\<lparr>asked := asked (start_printer d) @ rs\<rparr>)" "good rs r"
    using emitsD [OF assms map_le_refl] by blast
  then show ?thesis by (simp add: start_printer_def)
qed

text \<open>
  C36. The braces of the generated code are nested properly: read from the left, neither the
  header of the services nor the module closes a brace that is not open, and at the end none is left
  open, whatever the number of services, of their methods and of the parts of the package. Names
  without blanks, line breaks and braces are assumed.
\<close>

theorem generated_code_nests:
  assumes "printer_laws pr" "plain_file file"
  shows "\<exists>h c. GetServerImplHeader pr file = Some h \<and> GetNgxModuleHeader pr file = Some c
     \<and> nest 0 h = Some 0 \<and> nest 0 c = Some 0"
proof -
  let ?n1 = "'' {'' @ newline @ ''namespace ''" and ?n2 = "'' '' @ newline @ ''} //for ''"
  let ?ns = "replaced ''.'' ?n2 (fd_package file)" and ?k = "count_list (fd_package file) (CHR ''.'')"
  have ps: "list_all plain_service (fd_services file)" and pp: "list_all plain (fd_package file)"
    using assms(2) by (simp_all add: plain_file_def)
  obtain A where A: "file_vars file ''::'' = Some A" using file_vars_Some by blast
  have pv: "plain_vars A" by (rule file_vars_plain [OF A assms(2)]) (simp add: plain_def)
  obtain B where B: "file_vars file ?n1 = Some B" using file_vars_Some by blast
  have nm: "braces (the (A PROTO_NAME)) = []" "braces (the (A PROTO_NAME_UPPER)) = []"
    by (rule plain_value [OF file_vars_dom [OF A] pv], simp add: file_names_def)+
  have BA: "B PROTO_NAME = A PROTO_NAME" "B PROTO_NAME_UPPER = A PROTO_NAME_UPPER"
    "B PROTO_NAMESPACE = Some (replaced ''.'' ?n1 (fd_package file))"
    using A B unfolding file_vars_eq by auto
  have k: "braces (the (B PROTO_NAMESPACE)) = replicate ?k (CHR ''{'')" "braces ?ns = replicate ?k (CHR ''}'')"
    unfolding BA(3) option.sel by (rule braces_replaced [OF pp], simp add: braces_def newline_def)+
  obtain r where r: "emits good_braces (\<lambda>vs. A \<subseteq>\<^sub>m vs) r (module_body file) (\<lambda>vs. A \<subseteq>\<^sub>m vs)" "nest 0 r = Some 0"
    using module_body_nests [OF file_vars_dom [OF A] pv ps] by blast
  obtain q where q: "emits good_braces (\<lambda>vs. B \<subseteq>\<^sub>m vs) q (server_impl_body file ?ns) (\<lambda>vs. B(PROTO_NAMESPACE \<mapsto> ?ns) \<subseteq>\<^sub>m vs)"
    "nest 0 q = Some 0"
    using server_body_nests [OF file_vars_dom [OF B] _ _ ps k] nm BA by auto
  obtain c where c: "module_printer file = Some c" "delim c = CHR ''$''" "all_defined (CHR ''$'') (asked c) []"
    using module_printer_defined by blast
  obtain h where h: "server_impl_printer file = Some h" "delim h = CHR ''$''" "all_defined (CHR ''$'') (asked h) []"
    using server_impl_printer_defined by blast
  have "good_braces (asked c) r"
    using emitted_good [OF r(1), of "CHR ''$''"] c(1) unfolding module_printer_def A
    by (simp only: Option.bind.simps option.inject)
  moreover have "Replace (fd_package file) ''.'' ?n2 = Some ?ns" by (rule Replace_replaced) simp
  then have "good_braces (asked h) q"
    using emitted_good [OF q(1), of "CHR ''$''"] h(1) unfolding server_impl_printer_def B
    by (simp only: Option.bind.simps option.inject)
  ultimately show ?thesis
    using r(2) q(2) c(1) h(1) written_expansion [OF assms(1) c(3,2)] written_expansion [OF assms(1) h(3,2)]
      nest_braces [of 0 "written_text (asked c)"] nest_braces [of 0 "written_text (asked h)"]
    by (simp add: GetNgxModuleHeader_def GetServerImplHeader_def good_braces_def)
qed

theorem generated_code_nests_witness:
  "\<exists>h c. GetServerImplHeader expansion inspect_proto = Some h \<and> GetNgxModuleHeader expansion inspect_proto = Some c
     \<and> nest 0 h = Some 0 \<and> nest 0 c = Some 0"
  by (rule generated_code_nests [OF expansion_laws inspect_plain])

section \<open>The plugin\<close>

text \<open>What is printed first stays first.\<close>

abbreviation (input) any_text :: "(vars \<times> string) list \<Rightarrow> unit list \<Rightarrow> bool" where
  "any_text rs r \<equiv> r = []"

interpretation appending: emission any_text
  by unfold_locales simp_all

lemma anything_text: "emits any_text (\<lambda>_. True) [] (emit_text txt lt) (\<lambda>_. True)"
  "emits any_text (\<lambda>_. True) [] (set_service srv) (\<lambda>_. True)"
  "emits any_text (\<lambda>_. True) [] (set_method m) (\<lambda>_. True)"
  by (rule appending.emits_text appending.emits_set, simp)+

lemma in_order_first:
  assumes "emits any_text (\<lambda>_. True) [] (in_order es) (\<lambda>_. True)"
  shows "\<exists>vs' rs. in_order (emit_text txt lt # es) (vs, p) = (vs', p\<lparr>asked := asked p @ block vs txt lt @ rs\<rparr>)"
proof -
  obtain vs' rs where "in_order es (vs, p\<lparr>asked := asked p @ block vs txt lt\<rparr>)
      = (vs', p\<lparr>asked := (asked p @ block vs txt lt) @ rs\<rparr>)"
    using emitsD [OF assms, of vs "p\<lparr>asked := asked p @ block vs txt lt\<rparr>"] by auto
  then show ?thesis by (auto simp: in_order_def emit_text_def Format_block)
qed

lemma module_body_first:
  "\<exists>vs' rs. module_body file (vs, p) = (vs', p\<lparr>asked := asked p @ block vs NGX_RPC_MODULE_INLUCDE P_MARGIN @ rs\<rparr>)"
  unfolding module_body_def
  by (rule in_order_first,
      (rule appending.emits_Cons_silent anything_text appending.emits_services_silent appending.emits_methods_silent
        appending.emits_nothing)+)

lemma include_line:
  "pieces (CHR ''$'') ''#include \"$PROTO_NAME$_impl.h\"'' = Some [Lit ''#include \"'', Var PROTO_NAME, Lit ''_impl.h\"'']"
  by code_simp

lemma lines_of_unlines_append:
  "(\<And>l. l \<in> set ls \<Longrightarrow> CHR 0x0A \<notin> set l) \<Longrightarrow> lines_of [] (unlines ls @ s) = ls @ lines_of [] s"
  by (induction ls) (auto simp: newline_def lines_of_append)

lemma module_includes_header:
  assumes "printer_laws pr" "plain_file file" "GetNgxModuleHeader pr file = Some code"
  shows "''#include \"'' @ Lower (StripProto (fd_name file)) @ ''_impl.h\"'' \<in> set (lines_of [] code)"
proof -
  obtain A where A: "file_vars file ''::'' = Some A" using file_vars_Some by blast
  have pv: "plain_vars A" by (rule file_vars_plain [OF A assms(2)]) (simp add: plain_def)
  obtain c where c: "module_printer file = Some c" "delim c = CHR ''$''" "all_defined (CHR ''$'') (asked c) []"
    using module_printer_defined by blast
  obtain vs rs where "module_body file (A, start_printer (CHR ''$''))
      = (vs, (start_printer (CHR ''$''))\<lparr>asked := asked (start_printer (CHR ''$''))
          @ block A NGX_RPC_MODULE_INLUCDE P_MARGIN @ rs\<rparr>)"
    using module_body_first by blast
  then have "asked c = block A NGX_RPC_MODULE_INLUCDE P_MARGIN @ rs"
    using c(1) unfolding module_printer_def A by (auto simp: start_printer_def)
  then have code: "code = unlines (block_lines A NGX_RPC_MODULE_INLUCDE P_MARGIN) @ written_text rs"
    using assms(3) c(1) written_expansion [OF assms(1) c(3,2)]
      written_block [OF map_le_refl file_texts(6) file_vars_dom [OF A]]
    by (simp add: GetNgxModuleHeader_def)
  have "\<forall>l \<in> set (block_lines A NGX_RPC_MODULE_INLUCDE P_MARGIN). CHR 0x0A \<notin> set l"
    using quiet_lines(2) [OF quiet_texts(1) file_texts(6) file_vars_dom [OF A] pv] by (auto simp: block_lines_def)
  then have "set (block_lines A NGX_RPC_MODULE_INLUCDE P_MARGIN) \<subseteq> set (lines_of [] code)"
    by (simp add: code lines_of_unlines_append)
  moreover have "A PROTO_NAME = Some (Lower (StripProto (fd_name file)))" using A unfolding file_vars_eq by auto
  then have "''#include \"'' @ Lower (StripProto (fd_name file)) @ ''_impl.h\"''
      = expansion (CHR ''$'') A ''#include \"$PROTO_NAME$_impl.h\"''"
    by (simp add: expansion_def include_line)
  ultimately show ?thesis
    by (auto simp: block_lines_def NGX_RPC_MODULE_INLUCDE_def)
qed

text \<open>
  C37. What the plugin writes. Without the option \<open>cc_generic_services\<close> it refuses the file with an error text
  and writes nothing. With it, it succeeds and adds exactly three files to the context, the header, the
  module and the build file, in this order and in the directory named after the proto file. The
  module includes the header under the name in lower case, so it finds the file that was written
  only if the name of the proto file has no capital letters.
\<close>

theorem generate_writes_files:
  assumes "printer_laws pr" "plain_file file" "n = StripProto (fd_name file)"
  shows "\<exists>h c. GetServerImplHeader pr file = Some h \<and> GetNgxModuleHeader pr file = Some c
     \<and> Generate pr file parameter ctx err =
        (if fd_generic_services file
         then Some (True, ctx @ [(''ngx_rpc_'' @ n @ ''_module/'' @ n @ ''_impl.h'', h),
                                 (''ngx_rpc_'' @ n @ ''_module/ngx_http_'' @ n @ ''_module.cpp'', c),
                                 (''ngx_rpc_'' @ n @ ''_module/config'', GetNgxConfig pr file)], err)
         else Some (False, ctx, generic_error))
     \<and> ''#include \"'' @ Lower n @ ''_impl.h\"'' \<in> set (lines_of [] c)"
proof -
  obtain h where h: "server_impl_printer file = Some h" using server_impl_printer_defined by blast
  obtain c where c: "module_printer file = Some c" using module_printer_defined by blast
  have "GetServerImplHeader pr file = Some (written pr h)" "GetNgxModuleHeader pr file = Some (written pr c)"
    by (simp_all add: GetServerImplHeader_def GetNgxModuleHeader_def h c)
  then show ?thesis
    using module_includes_header [OF assms(1,2)] by (simp add: Generate_def Insert_def assms(3))
qed

theorem generate_writes_files_witness:
  "\<exists>h c. Generate expansion inspect_proto [] [] [] = Some (True,
       [(''ngx_rpc_inspect_module/inspect_impl.h'', h), (''ngx_rpc_inspect_module/ngx_http_inspect_module.cpp'', c),
        (''ngx_rpc_inspect_module/config'', GetNgxConfig expansion inspect_proto)], [])
     \<and> ''#include \"inspect_impl.h\"'' \<in> set (lines_of [] c)
     \<and> Generate expansion (inspect_proto\<lparr>fd_generic_services := False\<rparr>) [] [] [] = Some (False, [], generic_error)"
proof -
  have n: "''inspect'' = StripProto (fd_name inspect_proto)" by code_simp
  have l: "Lower ''inspect'' = ''inspect''" by code_simp
  have p: "plain_file (inspect_proto\<lparr>fd_generic_services := False\<rparr>)" using inspect_plain by (simp add: plain_file_def)
  have "fd_generic_services inspect_proto" by (simp add: inspect_proto_def)
  then show ?thesis
    using generate_writes_files [OF expansion_laws inspect_plain n, of "[]" "[]" "[]"]
      generate_writes_files [OF expansion_laws p refl, of "[]" "[]" "[]"]
    by (auto simp: l)
qed

end
