(* ===== verification/Inspect_Module.thy ===== *)
theory Inspect_Module
  imports Rpc_Channel
begin

text \<open>
  The inspect module (ngx_rpc_inspect_module/ngx_http_inspect_module.cpp): its configuration,
  the directive that creates the service and registers its methods, and the end of the process. The two
  functions of the methods are in Rpc_Channel.

  Blocks of the configuration's pool, and objects made with \<open>new\<close>, get the address \<open>next_obj\<close>.
  Whether the allocations of nginx succeed is a parameter, as is the value of nginx's macro \<open>NGX_DEBUG\<close>.
\<close>

section \<open>State\<close>

text \<open>A location's configuration, and a log: the file it writes to and its level.\<close>

record ngx_http_inspect_conf =
  application_log :: "addr option"
  application_conf_file :: "byte list"
  application_log_file :: "byte list"
  application_impl :: "addr option"

record ngx_log =
  lg_file :: "byte list"
  lg_level :: int

text \<open>\<open>impls\<close> are the \<open>Application_server\<close> objects, which have no fields.\<close>

record istate = cstate +
  iconfs :: "addr \<rightharpoonup> ngx_http_inspect_conf"
  impls :: "addr list"
  logs :: "addr \<rightharpoonup> ngx_log"

section \<open>Configuration\<close>

text \<open>\<open>mem\<close> is what \<open>ngx_pcalloc\<close> returns; it is used unchecked.\<close>

definition ngx_http_inspect_create_loc_conf :: "addr option \<Rightarrow> 'z istate_scheme \<Rightarrow> (addr \<times> 'z istate_scheme) option" where
  "ngx_http_inspect_create_loc_conf mem s =
     do {
       c \<leftarrow> mem;
       Some (c, s\<lparr>iconfs := (iconfs s)(c \<mapsto>
         \<lparr>application_log = None, application_conf_file = [], application_log_file = [], application_impl = None\<rparr>)\<rparr>)
     }"

definition put_iconf :: "addr \<Rightarrow> ngx_http_inspect_conf \<Rightarrow> 'z istate_scheme \<Rightarrow> 'z istate_scheme" where
  "put_iconf c v s = s\<lparr>iconfs := (iconfs s)(c \<mapsto> v)\<rparr>"

text \<open>\<open>ngx_array_push\<close> and the assignments to the new element. \<open>ok\<close>: the array could grow.\<close>

definition push_method :: "bool \<Rightarrow> addr \<Rightarrow> method_conf \<Rightarrow> 'z istate_scheme \<Rightarrow> 'z istate_scheme option" where
  "push_method ok rc m s =
     (if ok then do {
        cf \<leftarrow> hconfs s rc;
        Some (s\<lparr>hconfs := (hconfs s)(rc \<mapsto> cf\<lparr>hc_methods := hc_methods cf @ [m]\<rparr>)\<rparr>)
      } else None)"

definition new_Application_server :: "byte list \<Rightarrow> 'z istate_scheme \<Rightarrow> addr \<times> 'z istate_scheme" where
  "new_Application_server conf_file s =
     (next_obj s, s\<lparr>impls := next_obj s # impls s, next_obj := next_obj s + 1\<rparr>)"

text \<open>
  The directive. \<open>args\<close> are its words, with its own name first; \<open>rc\<close> is the configuration of
  ngx_http_rpc_module, \<open>None\<close> if it has none; \<open>c\<close> is the location's configuration; \<open>cycle_log\<close> is the log of the cycle.
  The result is the error text, \<open>None\<close> for \<open>NGX_OK\<close>.
\<close>

definition ngx_conf_set_inspect_application_hanlder ::
  "bool \<Rightarrow> bool \<Rightarrow> int \<Rightarrow> addr option \<Rightarrow> addr \<Rightarrow> addr \<Rightarrow> byte list list
    \<Rightarrow> 'z istate_scheme \<Rightarrow> (string option \<times> 'z istate_scheme) option" where
  "ngx_conf_set_inspect_application_hanlder push_ok log_ok ngx_debug rpc_conf cycle_log c args s =
     (case rpc_conf of
        None \<Rightarrow> Some (Some ''ngx_http_rpc_module not init'', s)
      | Some rc \<Rightarrow>
          do {
            ic \<leftarrow> iconfs s c;
            ic \<leftarrow> Some (if length args > 1 then ic\<lparr>application_conf_file := args ! 1\<rparr> else ic);
            (impl, s) \<leftarrow> Some (new_Application_server (application_conf_file ic) s);
            ic \<leftarrow> Some (ic\<lparr>application_impl := Some impl, application_log := Some cycle_log\<rparr>);
            (ic, s) \<leftarrow>
              (if length args > 2 then
                 (if log_ok then
                    Some (ic\<lparr>application_log_file := args ! 2, application_log := Some (next_obj s)\<rparr>,
                          s\<lparr>logs := (logs s)(next_obj s \<mapsto> \<lparr>lg_file = args ! 1, lg_level = ngx_debug\<rparr>),
                            next_obj := next_obj s + 1\<rparr>)
                  else None)
               else Some (ic, s));
            s \<leftarrow> Some (put_iconf c ic s);
            s \<leftarrow> push_method push_ok rc \<lparr>m_name = ascii ''/ngxrpc/inspect/Application/interface'',
                   m_impl = application_impl ic, m_handler = Some (Method_Handler 0), m_log = application_log ic\<rparr> s;
            s \<leftarrow> push_method push_ok rc \<lparr>m_name = ascii ''/ngxrpc/inspect.Application.interface'',
                   m_impl = application_impl ic, m_handler = Some (Method_Handler 0), m_log = application_log ic\<rparr> s;
            s \<leftarrow> push_method push_ok rc \<lparr>m_name = ascii ''/ngxrpc/inspect/Application/requeststatus'',
                   m_impl = application_impl ic, m_handler = Some (Method_Handler 1), m_log = application_log ic\<rparr> s;
            s \<leftarrow> push_method push_ok rc \<lparr>m_name = ascii ''/ngxrpc/inspect.Application.requeststatus'',
                   m_impl = application_impl ic, m_handler = Some (Method_Handler 1), m_log = application_log ic\<rparr> s;
            Some (None, s)
          })"

section \<open>End of the process\<close>

text \<open>
  The configuration is looked up in \<open>loc_conf\<close>, the table of the locations' configurations, with the
  index \<open>http_index\<close> of ngx_http_module and not with the module's own. Reading the field of another
  module's configuration, or deleting what is no live object, is a fault.
\<close>

definition ngx_inspect_process_exit :: "nat \<Rightarrow> (nat \<rightharpoonup> addr) \<Rightarrow> 'z istate_scheme \<Rightarrow> 'z istate_scheme option" where
  "ngx_inspect_process_exit http_index loc_conf s =
     do {
       c \<leftarrow> loc_conf http_index;
       ic \<leftarrow> iconfs s c;
       (case application_impl ic of
          None \<Rightarrow> Some s
        | Some a \<Rightarrow> if a \<in> set (impls s) then Some (s\<lparr>impls := remove1 a (impls s)\<rparr>) else None)
     }"

end
