(* ===== verification/Inspect_Properties.thy ===== *)
theory Inspect_Properties
  imports Inspect_Module Http_Properties Generator_Properties
begin

text \<open>
  The properties of the inspect module (ngx_rpc_inspect_module/ngx_http_inspect_module.cpp): its
  directive, the way from the directive to the methods, with the generator and the worker module in
  between, and the end of the process.
\<close>

section \<open>The directive\<close>

definition inspect_methods :: "addr option \<Rightarrow> addr option \<Rightarrow> method_conf list" where
  "inspect_methods impl lg =
     [\<lparr>m_name = ascii ''/ngxrpc/inspect/Application/interface'', m_impl = impl, m_handler = Some (Method_Handler 0), m_log = lg\<rparr>,
      \<lparr>m_name = ascii ''/ngxrpc/inspect.Application.interface'', m_impl = impl, m_handler = Some (Method_Handler 0), m_log = lg\<rparr>,
      \<lparr>m_name = ascii ''/ngxrpc/inspect/Application/requeststatus'', m_impl = impl, m_handler = Some (Method_Handler 1), m_log = lg\<rparr>,
      \<lparr>m_name = ascii ''/ngxrpc/inspect.Application.requeststatus'', m_impl = impl, m_handler = Some (Method_Handler 1), m_log = lg\<rparr>]"

lemma directive_short:
  assumes "iconfs s c = Some ic" "hconfs s rc = Some cf" "length args \<le> 2"
  shows "\<exists>s'. ngx_conf_set_inspect_application_hanlder True log_ok dbg (Some rc) lg c args s = Some (None, s')
     \<and> hconfs s' = (hconfs s)(rc \<mapsto> cf\<lparr>hc_methods := hc_methods cf @ inspect_methods (Some (next_obj s)) (Some lg)\<rparr>)
     \<and> iconfs s' = (iconfs s)(c \<mapsto> ic\<lparr>application_conf_file := if length args = 2 then args ! 1 else application_conf_file ic,
          application_impl := Some (next_obj s), application_log := Some lg\<rparr>)
     \<and> impls s' = next_obj s # impls s \<and> logs s' = logs s
     \<and> requests s' = requests s \<and> queues s' = queues s \<and> chunks s' = chunks s"
  using assms
  by (auto simp: ngx_conf_set_inspect_application_hanlder_def push_method_def new_Application_server_def put_iconf_def
      inspect_methods_def Let_def)

lemma directive_long:
  assumes "iconfs s c = Some ic" "hconfs s rc = Some cf" "length args > 2"
  shows "\<exists>s'. ngx_conf_set_inspect_application_hanlder True True dbg (Some rc) lg c args s = Some (None, s')
     \<and> hconfs s' = (hconfs s)(rc \<mapsto> cf\<lparr>hc_methods := hc_methods cf @ inspect_methods (Some (next_obj s)) (Some (next_obj s + 1))\<rparr>)
     \<and> iconfs s' = (iconfs s)(c \<mapsto> ic\<lparr>application_conf_file := args ! 1, application_log_file := args ! 2,
          application_impl := Some (next_obj s), application_log := Some (next_obj s + 1)\<rparr>)
     \<and> impls s' = next_obj s # impls s \<and> logs s' = (logs s)(next_obj s + 1 \<mapsto> \<lparr>lg_file = args ! 1, lg_level = dbg\<rparr>)"
  using assms
  by (auto simp: ngx_conf_set_inspect_application_hanlder_def push_method_def new_Application_server_def put_iconf_def
      inspect_methods_def Let_def)

text \<open>
  C38. The directive. Without a configuration of ngx_http_rpc_module it reports an error and changes nothing.
  Otherwise a new service object is made and the two methods are registered, each under its two
  names, behind those that are there. With one argument that is the configuration file and the
  log is the one of the cycle. With two, a log of its own is made, but the file that is opened for it is the
  first argument, the configuration file, and not the log file. Where the array of the methods cannot
  grow, or there is no memory for the log, a null pointer is written to.
\<close>

theorem directive_registers:
  assumes "iconfs s c = Some ic" "hconfs s rc = Some cf" "args = name # files"
  shows "ngx_conf_set_inspect_application_hanlder push_ok log_ok dbg None lg c args s =
       Some (Some ''ngx_http_rpc_module not init'', s)
     \<and> ngx_conf_set_inspect_application_hanlder False log_ok dbg (Some rc) lg c args s = None
     \<and> (length files \<ge> 2 \<longrightarrow> ngx_conf_set_inspect_application_hanlder push_ok False dbg (Some rc) lg c args s = None)
     \<and> (\<exists>s' l ic'. ngx_conf_set_inspect_application_hanlder True True dbg (Some rc) lg c args s = Some (None, s')
          \<and> hconfs s' = (hconfs s)(rc \<mapsto> cf\<lparr>hc_methods := hc_methods cf @ inspect_methods (Some (next_obj s)) (Some l)\<rparr>)
          \<and> iconfs s' = (iconfs s)(c \<mapsto> ic') \<and> application_impl ic' = Some (next_obj s) \<and> application_log ic' = Some l
          \<and> impls s' = next_obj s # impls s
          \<and> (files = [f] \<longrightarrow> application_conf_file ic' = f \<and> l = lg \<and> logs s' = logs s)
          \<and> (files = f # g # fs \<longrightarrow> application_conf_file ic' = f \<and> application_log_file ic' = g
               \<and> logs s' l = Some \<lparr>lg_file = f, lg_level = dbg\<rparr>))"
proof -
  have "\<exists>s' l ic'. ngx_conf_set_inspect_application_hanlder True True dbg (Some rc) lg c args s = Some (None, s')
      \<and> hconfs s' = (hconfs s)(rc \<mapsto> cf\<lparr>hc_methods := hc_methods cf @ inspect_methods (Some (next_obj s)) (Some l)\<rparr>)
      \<and> iconfs s' = (iconfs s)(c \<mapsto> ic') \<and> application_impl ic' = Some (next_obj s) \<and> application_log ic' = Some l
      \<and> impls s' = next_obj s # impls s
      \<and> (files = [f] \<longrightarrow> application_conf_file ic' = f \<and> l = lg \<and> logs s' = logs s)
      \<and> (files = f # g # fs \<longrightarrow> application_conf_file ic' = f \<and> application_log_file ic' = g
           \<and> logs s' l = Some \<lparr>lg_file = f, lg_level = dbg\<rparr>)"
  proof (cases "length args \<le> 2")
    case True
    note d = directive_short [OF assms(1,2) True, of True dbg lg]
    let ?ic = "ic\<lparr>application_conf_file := if length args = 2 then args ! 1 else application_conf_file ic,
          application_impl := Some (next_obj s), application_log := Some lg\<rparr>"
    from d obtain s' where s': "ngx_conf_set_inspect_application_hanlder True True dbg (Some rc) lg c args s = Some (None, s')"
      "hconfs s' = (hconfs s)(rc \<mapsto> cf\<lparr>hc_methods := hc_methods cf @ inspect_methods (Some (next_obj s)) (Some lg)\<rparr>)"
      "iconfs s' = (iconfs s)(c \<mapsto> ?ic)" "impls s' = next_obj s # impls s" "logs s' = logs s"
      by (elim exE conjE) (rule that)
    then show ?thesis using True assms(3) by (intro exI [of _ s'] exI [of _ lg] exI [of _ ?ic]) auto
  next
    case False
    then have "length args > 2" by simp
    note d = directive_long [OF assms(1,2) this, of dbg lg]
    let ?ic = "ic\<lparr>application_conf_file := args ! 1, application_log_file := args ! 2,
          application_impl := Some (next_obj s), application_log := Some (next_obj s + 1)\<rparr>"
    from d obtain s' where s': "ngx_conf_set_inspect_application_hanlder True True dbg (Some rc) lg c args s = Some (None, s')"
      "hconfs s' = (hconfs s)(rc \<mapsto> cf\<lparr>hc_methods := hc_methods cf @ inspect_methods (Some (next_obj s)) (Some (next_obj s + 1))\<rparr>)"
      "iconfs s' = (iconfs s)(c \<mapsto> ?ic)" "impls s' = next_obj s # impls s"
      "logs s' = (logs s)(next_obj s + 1 \<mapsto> \<lparr>lg_file = args ! 1, lg_level = dbg\<rparr>)"
      by (elim exE conjE) (rule that)
    then show ?thesis using False assms(3) by (intro exI [of _ s'] exI [of _ "next_obj s + 1"] exI [of _ ?ic]) auto
  qed
  moreover have "ngx_conf_set_inspect_application_hanlder False log_ok dbg (Some rc) lg c args s = None"
    using assms(1) by (simp add: ngx_conf_set_inspect_application_hanlder_def push_method_def new_Application_server_def)
  moreover have "ngx_conf_set_inspect_application_hanlder push_ok False dbg (Some rc) lg c args s = None" if "length files \<ge> 2"
    using assms(1) that by (simp add: assms(3) ngx_conf_set_inspect_application_hanlder_def new_Application_server_def)
  ultimately show ?thesis by (simp add: ngx_conf_set_inspect_application_hanlder_def)
qed

definition demo_inspect :: istate where
  "demo_inspect = cstate.extend (wstate.extend ((demo_http [3] [5] [])\<lparr>
       hconfs := [0 \<mapsto> \<lparr>hc_queue = None, hc_notify = None, hc_methods = [], hc_hash = None\<rparr>],
       requests := [0 \<mapsto> demo_request\<lparr>r_ctx := None, r_uri := ascii ''/ngxrpc/inspect/application/interface''\<rparr>]\<rparr>)
     (cstate.fields Map.empty Map.empty 10))
     (istate.fields [11 \<mapsto> \<lparr>application_log = None, application_conf_file = [], application_log_file = [],
         application_impl = None\<rparr>] [] Map.empty)"

lemmas inspect_simps = demo_inspect_def cstate.extend_def istate.fields_def wstate.extend_def cstate.fields_def demo_http_def

theorem directive_registers_witness:
  "\<exists>s' l ic'. ngx_conf_set_inspect_application_hanlder True True 1 (Some 0) 20 11 [[100], [97], [98]] demo_inspect = Some (None, s')
     \<and> iconfs s' 11 = Some ic' \<and> application_impl ic' = Some 10 \<and> application_log_file ic' = [98] \<and> logs s' l = Some \<lparr>lg_file = [97], lg_level = 1\<rparr>"
proof -
  have d: "iconfs demo_inspect 11 = Some \<lparr>application_log = None, application_conf_file = [], application_log_file = [],
         application_impl = None\<rparr>"
    "hconfs demo_inspect 0 = Some \<lparr>hc_queue = None, hc_notify = None, hc_methods = [], hc_hash = None\<rparr>"
    "next_obj demo_inspect = 10"
    by (simp_all add: inspect_simps)
  note r = directive_registers [where name = "[100]" and files = "[[97], [98]]" and f = "[97]" and g = "[98]" and fs = "[]"
      and dbg = 1 and lg = 20, OF d(1,2) refl]
  from r [THEN conjunct2, THEN conjunct2, THEN conjunct2] show ?thesis by (auto simp: d(3))
qed

section \<open>From the directive to the method\<close>

lemma lowered_names:
  "map (lowered \<circ> m_name) (inspect_methods i l) =
     [ascii ''/ngxrpc/inspect/application/interface'', ascii ''/ngxrpc/inspect.application.interface'',
      ascii ''/ngxrpc/inspect/application/requeststatus'', ascii ''/ngxrpc/inspect.application.requeststatus'']"
  by (simp add: inspect_methods_def lowered_def ascii_def)

lemma lowered_distinct: "distinct (map (lowered \<circ> m_name) (inspect_methods i l))"
  unfolding lowered_names by (simp add: ascii_def)

lemma generated_names: "map m_name (inspect_methods i l) = map ascii (registered_names inspect_proto)"
  by (simp add: inspect_names inspect_methods_def)

lemma declared_not_lowered:
  "u \<in> set (map m_name (inspect_methods i l)) \<Longrightarrow> u \<notin> set (map (lowered \<circ> m_name) (inspect_methods i l))"
  unfolding lowered_names by (auto simp: inspect_methods_def ascii_def)

text \<open>
  C39. From the directive to the method, over three modules. The directive registers exactly
  the names that the generator gives to the methods of inspect.proto, in the same order. After the
  configuration, in a worker that has got its queue, a request for one of the four names in lower
  case gets a context with that method: number 0 and 1 is \<open>interface\<close>, 2 and 3 \<open>requeststatus\<close>; in particular
  the subrequest that \<open>requeststatus\<close> forwards to goes to \<open>interface\<close>. A request that spells a name
  as it is declared, with its capital letter, is declined.
\<close>

theorem inspect_routes:
  assumes "hash_laws hash_init" "iconfs s c = Some ic" "hconfs s rc = Some cf" "hc_methods cf = []"
    and "ngx_conf_set_inspect_application_hanlder True True dbg (Some rc) lg c args s = Some (None, s1)"
    and "ngx_http_rpc_postconfiguration hash_init ok rc s1 = Some (NGX_OK, True, s2)"
    and "hconfs s3 rc = map_option (\<lambda>cf. cf\<lparr>hc_queue := Some qu, hc_notify := n\<rparr>) (hconfs s2 rc)"
    and "requests s3 r = Some q" "r_ctx q = None" "load s3 (queues s3) qu = Some qd"
    and "spare (en_pick env) (chunks s3) 1" "en_cleanup env"
  shows "\<exists>ms. map_option hc_methods (hconfs s3 rc) = Some ms
     \<and> map m_name ms = map ascii (registered_names inspect_proto)
     \<and> map m_handler ms = map (Some \<circ> Method_Handler) [0, 0, 1, 1]
     \<and> (\<forall>i < 4. r_uri q = lowered (m_name (ms ! i)) \<longrightarrow>
          (\<exists>s4 x. ngx_http_rpc_http_handler env (Some rc) r s3 = Some (NGX_AGAIN, s4)
             \<and> ctxs s4 x = Some \<lparr>cx_conf = rc, cx_method = i, cx_r = r, cx_task = None\<rparr>))
     \<and> lowered (m_name (ms ! 0)) = forward_target
     \<and> (r_uri q \<in> set (map m_name ms) \<longrightarrow> ngx_http_rpc_http_handler env (Some rc) r s3 = Some (NGX_DECLINED, s3))"
proof -
  obtain i l where hc: "hconfs s1 rc = Some (cf\<lparr>hc_methods := inspect_methods (Some i) (Some l)\<rparr>)"
  proof (cases "length args \<le> 2")
    case True
    then show ?thesis using directive_short [OF assms(2,3) True, of True dbg lg] assms(4,5) that by auto
  next
    case False
    then show ?thesis using directive_long [OF assms(2,3), of args dbg lg] assms(4,5) that by auto
  qed
  let ?ms = "inspect_methods (Some i) (Some l)"
  obtain h where h: "hash_init (hash_keys ?ms) = Some h"
    and s2: "hconfs s2 rc = Some (cf\<lparr>hc_methods := ?ms, hc_hash := Some h\<rparr>)"
    using assms(6) hc by (auto simp: ngx_http_rpc_postconfiguration_def split: option.splits if_splits)
  note found = hash_keys_found [OF assms(1) h lowered_distinct]
  have s3: "hconfs s3 rc = Some (cf\<lparr>hc_methods := ?ms, hc_hash := Some h, hc_queue := Some qu, hc_notify := n\<rparr>)"
    using assms(7) s2 by simp
  note look = handler_lookup [OF s3 _ _ assms(8,9,10,11,12)]
  have len: "length ?ms = 4" by (simp add: inspect_methods_def)
  show ?thesis
  proof (intro exI [of _ ?ms] conjI allI impI)
    show "map_option hc_methods (hconfs s3 rc) = Some ?ms" by (simp add: s3)
    show "map m_name ?ms = map ascii (registered_names inspect_proto)" by (rule generated_names)
    show "map m_handler ?ms = map (Some \<circ> Method_Handler) [0, 0, 1, 1]" by (simp add: inspect_methods_def)
    show "lowered (m_name (?ms ! 0)) = forward_target"
      by (simp add: inspect_methods_def lowered_def ascii_def forward_target_def)
    show "\<exists>s4 x. ngx_http_rpc_http_handler env (Some rc) r s3 = Some (NGX_AGAIN, s4)
             \<and> ctxs s4 x = Some \<lparr>cx_conf = rc, cx_method = j, cx_r = r, cx_task = None\<rparr>"
      if "j < 4" "r_uri q = lowered (m_name (?ms ! j))" for j
      using look(2) [of h j] found(1) [of j] that len by auto
    show "ngx_http_rpc_http_handler env (Some rc) r s3 = Some (NGX_DECLINED, s3)" if "r_uri q \<in> set (map m_name ?ms)"
      using look(1) [of h] found(2) [OF declared_not_lowered [OF that]] by simp
  qed
qed

theorem inspect_routes_witness:
  "\<exists>s1 s2 s4 x. ngx_conf_set_inspect_application_hanlder True True 1 (Some 0) 20 11 [[100]] demo_inspect = Some (None, s1)
     \<and> ngx_http_rpc_postconfiguration assoc_hash True 0 s1 = Some (NGX_OK, True, s2)
     \<and> ngx_http_rpc_http_handler demo_env (Some 0) 0
          (s2\<lparr>hconfs := map_option (\<lambda>cf. cf\<lparr>hc_queue := Some 1, hc_notify := Some 7\<rparr>) \<circ> hconfs s2\<rparr>) = Some (NGX_AGAIN, s4)
     \<and> ctxs s4 x = Some \<lparr>cx_conf = 0, cx_method = 0, cx_r = 0, cx_task = None\<rparr>"
proof -
  have d: "iconfs demo_inspect 11 = Some \<lparr>application_log = None, application_conf_file = [], application_log_file = [],
         application_impl = None\<rparr>"
    "hconfs demo_inspect 0 = Some \<lparr>hc_queue = None, hc_notify = None, hc_methods = [], hc_hash = None\<rparr>"
    "requests demo_inspect 0 = Some (demo_request\<lparr>r_ctx := None, r_uri := ascii ''/ngxrpc/inspect/application/interface''\<rparr>)"
    "queues demo_inspect 1 = Some \<lparr>notify_slot = Some 2, notify_num = 2\<rparr>" "chunks demo_inspect = chunks (demo_http [3] [5] [])"
    by (simp_all add: inspect_simps)
  obtain s1 cf1 where s1: "ngx_conf_set_inspect_application_hanlder True True 1 (Some 0) 20 11 [[100]] demo_inspect = Some (None, s1)"
    "hconfs s1 0 = Some cf1" "requests s1 = requests demo_inspect" "queues s1 = queues demo_inspect" "chunks s1 = chunks demo_inspect"
    using directive_short [OF d(1,2), of "[[100]]" True 1 20] by auto
  obtain s2 where s2: "ngx_http_rpc_postconfiguration assoc_hash True 0 s1 = Some (NGX_OK, True, s2)"
    "requests s2 = requests s1" "queues s2 = queues s1" "chunks s2 = chunks s1"
    using s1(2) by (simp add: ngx_http_rpc_postconfiguration_def assoc_hash_def)
  let ?s3 = "s2\<lparr>hconfs := map_option (\<lambda>cf. cf\<lparr>hc_queue := Some 1, hc_notify := Some 7\<rparr>) \<circ> hconfs s2\<rparr>"
  have s3: "hconfs ?s3 0 = map_option (\<lambda>cf. cf\<lparr>hc_queue := Some 1, hc_notify := Some 7\<rparr>) (hconfs s2 0)"
    "requests ?s3 0 = Some (demo_request\<lparr>r_ctx := None, r_uri := ascii ''/ngxrpc/inspect/application/interface''\<rparr>)"
    "load ?s3 (queues ?s3) 1 = Some \<lparr>notify_slot = Some 2, notify_num = 2\<rparr>" "chunks ?s3 = chunks (demo_http [3] [5] [])"
    using s1 s2 d by (simp_all add: load_def live_def demo_http_def)
  have sp: "spare (en_pick demo_env) (chunks ?s3) 1" using demo_http_spare [of 1 "[3]" "[5]" "[]"] s3(4) by simp
  have env: "en_cleanup demo_env" by (simp add: demo_env_def)
  have ft: "r_uri (demo_request\<lparr>r_ctx := None, r_uri := ascii ''/ngxrpc/inspect/application/interface''\<rparr>) = forward_target"
    by (simp add: forward_target_def)
  from inspect_routes [OF assoc_hash_laws d(1,2) _ s1(1) s2(1) s3(1,2) _ s3(3) sp env]
  obtain s4 x where "ngx_http_rpc_http_handler demo_env (Some 0) 0 ?s3 = Some (NGX_AGAIN, s4)"
    "ctxs s4 x = Some \<lparr>cx_conf = 0, cx_method = 0, cx_r = 0, cx_task = None\<rparr>"
    unfolding ft by fastforce
  then show ?thesis using s1(1) s2(1) by blast
qed

section \<open>End of the process\<close>

text \<open>
  The directive and the end of the process. If the table of the locations holds the module's
  configuration under the index that is used, the end of the process deletes exactly the object that the directive
  has made, and a second one would delete it twice. If another module's configuration is
  there, as the index is the one of ngx_http_module, its memory is taken for the module's own.
\<close>

theorem exit_deletes_service:
  assumes "iconfs s c = Some ic" "hconfs s rc = Some cf" "next_obj s \<notin> set (impls s)"
    and "ngx_conf_set_inspect_application_hanlder True True dbg (Some rc) lg c args s = Some (None, s1)"
  shows "(loc_conf k = Some c \<longrightarrow> (\<exists>s2. ngx_inspect_process_exit k loc_conf s1 = Some s2 \<and> impls s2 = impls s
            \<and> ngx_inspect_process_exit k loc_conf s2 = None))
     \<and> (loc_conf k = Some d \<longrightarrow> iconfs s d = None \<longrightarrow> ngx_inspect_process_exit k loc_conf s1 = None)"
proof -
  obtain ic' where ic': "iconfs s1 = (iconfs s)(c \<mapsto> ic')" "application_impl ic' = Some (next_obj s)"
    "impls s1 = next_obj s # impls s"
  proof (cases "length args \<le> 2")
    case True
    then show ?thesis using directive_short [OF assms(1,2) True, of True dbg lg] assms(4) that by auto
  next
    case False
    then show ?thesis using directive_long [OF assms(1,2), of args dbg lg] assms(4) that by auto
  qed
  then show ?thesis using assms(1,3) by (auto simp: ngx_inspect_process_exit_def)
qed

theorem exit_deletes_service_witness:
  "\<exists>s1 s2. ngx_conf_set_inspect_application_hanlder True True 1 (Some 0) 20 11 [[100]] demo_inspect = Some (None, s1)
     \<and> ngx_inspect_process_exit 0 [0 \<mapsto> 11] s1 = Some s2 \<and> impls s2 = []
     \<and> ngx_inspect_process_exit 0 [0 \<mapsto> 12] s1 = None"
proof -
  have d: "iconfs demo_inspect 11 = Some \<lparr>application_log = None, application_conf_file = [], application_log_file = [],
         application_impl = None\<rparr>"
    "hconfs demo_inspect 0 = Some \<lparr>hc_queue = None, hc_notify = None, hc_methods = [], hc_hash = None\<rparr>"
    "next_obj demo_inspect \<notin> set (impls demo_inspect)" "impls demo_inspect = []" "iconfs demo_inspect 12 = None"
    by (simp_all add: inspect_simps)
  obtain s1 where s1: "ngx_conf_set_inspect_application_hanlder True True 1 (Some 0) 20 11 [[100]] demo_inspect = Some (None, s1)"
    using directive_short [OF d(1,2), of "[[100]]" True 1 20] by auto
  from exit_deletes_service [OF d(1-3) s1, of "[0 \<mapsto> 11]" 0] exit_deletes_service [OF d(1-3) s1, of "[0 \<mapsto> 12]" 0 12] s1 d(4,5)
  show ?thesis by auto
qed

end
