(* ===== verification/Tied_Processor.thy ===== *)
theory Tied_Processor
  imports Shm_Properties
begin

text \<open>
  The processor as its read callback really runs it. The callback runs the cycle once more than there are
  signals, which turns the idle list into a loop of one processor; this theory shows what still works then.
\<close>

section \<open>The idle list after the read callback\<close>

lemma idle_loop_cong:
  assumes "qnext s' (QueueIdles q) = qnext s (QueueIdles q)" "qnext s' (NotifyIdles n) = qnext s (NotifyIdles n)"
    "qprev s' (QueueIdles q) = qprev s (QueueIdles q)" "live s' q = live s q" "live s' n = live s n"
  shows "idle_loop s' q n = idle_loop s q n"
  using assms by (simp add: idle_loop_def link_defs node_live_def)

text \<open>Rings without the two links of the loop are kept when the loop's links are written.\<close>

lemma ring_off_loop:
  assumes "ring s p ys" and "{QueueIdles q, NotifyIdles n} \<inter> set (p # ys) = {}"
    and "\<And>x. x \<noteq> QueueIdles q \<Longrightarrow> x \<noteq> NotifyIdles n \<Longrightarrow> qnext s' x = qnext s x \<and> qprev s' x = qprev s x"
    and "chunks s' = chunks s"
  shows "ring s' p ys"
proof -
  have "mring (qnext s') (qprev s') p ys"
  proof (rule mring_frame [of "qnext s" "qprev s"])
    show "mring (qnext s) (qprev s) p ys" using assms(1) by (simp add: ring_iff)
    fix a
    assume "a \<in> set (p # ys)"
    then have "a \<noteq> QueueIdles q" "a \<noteq> NotifyIdles n" using assms(2) by auto
    then show "qnext s' a = qnext s a \<and> qprev s' a = qprev s a" by (rule assms(3))
  qed
  then show ?thesis using assms(1,4) by (simp add: ring_iff node_live_def live_def)
qed

lemma idle_loop_take_exact:
  assumes "idle_loop s q n"
  shows "\<exists>s'. take_idle q s = Some (Some (NotifyIdles n), s') \<and> idle_loop s' q n
     \<and> s' = s\<lparr>qnext := qnext s', qprev := qprev s'\<rparr>
     \<and> (\<forall>p ys. ring s p ys \<longrightarrow> {QueueIdles q, NotifyIdles n} \<inter> set (p # ys) = {} \<longrightarrow> ring s' p ys)"
proof -
  obtain p where p: "node_live s (QueueIdles q)" "node_live s (NotifyIdles n)"
    "qnext s (QueueIdles q) = Some (NotifyIdles n)" "qnext s (NotifyIdles n) = Some (NotifyIdles n)"
    "qprev s (QueueIdles q) = Some p" "p \<noteq> QueueIdles q"
    using assms by (auto simp: idle_loop_def link_defs split: if_splits)
  let ?s' = "s\<lparr>qnext := (qnext s)(QueueIdles q \<mapsto> NotifyIdles n), qprev := (qprev s)(NotifyIdles n \<mapsto> QueueIdles q)\<rparr>"
  have "take_idle q s = Some (Some (NotifyIdles n), ?s')" "idle_loop ?s' q n"
    using p by (simp_all add: take_idle_def ngx_queue_empty_def link_defs idle_loop_def)
  moreover have "ring ?s' x ys" if "ring s x ys" "{QueueIdles q, NotifyIdles n} \<inter> set (x # ys) = {}" for x ys
    using that by (rule ring_off_loop) simp_all
  ultimately show ?thesis by (intro exI [of _ ?s']) auto
qed

lemma idle_loop_put:
  assumes "idle_loop s q n"
  shows "\<exists>s'. put_idle q n s = Some s' \<and> idle_loop s' q n
     \<and> s' = s\<lparr>qnext := qnext s', qprev := qprev s'\<rparr>
     \<and> (\<forall>p ys. ring s p ys \<longrightarrow> {QueueIdles q, NotifyIdles n} \<inter> set (p # ys) = {} \<longrightarrow> ring s' p ys)"
proof -
  obtain p where p: "node_live s (QueueIdles q)" "node_live s (NotifyIdles n)"
    "qnext s (QueueIdles q) = Some (NotifyIdles n)" "qnext s (NotifyIdles n) = Some (NotifyIdles n)"
    "qprev s (QueueIdles q) = Some p" "p \<noteq> QueueIdles q"
    using assms by (auto simp: idle_loop_def link_defs split: if_splits)
  let ?s' = "s\<lparr>qnext := (qnext s)(NotifyIdles n \<mapsto> NotifyIdles n, QueueIdles q \<mapsto> NotifyIdles n),
     qprev := (qprev s)(NotifyIdles n \<mapsto> QueueIdles q)\<rparr>"
  have "put_idle q n s = Some ?s'" "idle_loop ?s' q n"
    using p by (simp_all add: put_idle_def link_defs idle_loop_def)
  moreover have "ring ?s' x ys" if "ring s x ys" "{QueueIdles q, NotifyIdles n} \<inter> set (x # ys) = {}" for x ys
    using that by (rule ring_off_loop) simp_all
  ultimately show ?thesis by (intro exI [of _ ?s']) auto
qed

text \<open>A submission still reaches the processor and leaves the loop as it is.\<close>

lemma push_and_notify_loop:
  assumes q: "load s (queues s) q = Some qu" and i: "idle_loop s q n"
    and p: "pending s n (map TaskNode ts)" and t: "load s (tasks s) t = Some tk" "t \<notin> set ts"
    and nt: "notifies s n = Some nt"
  shows "\<exists>s'. ngx_rpc_queue_push_and_notify q t s = Some (NGX_OK, s') \<and> idle_loop s' q n
     \<and> pending s' n (map TaskNode (ts @ [t])) \<and> tasks s' = (tasks s)(t \<mapsto> tk\<lparr>proc_notify := Some n\<rparr>)
     \<and> chunks s' = chunks s \<and> notifies s' = notifies s
     \<and> efds s' = efds (eventfd_write (event_fd nt) 1 s)"
proof -
  let ?xs = "map TaskNode ts" and ?h = "NotifyHead n" and ?x = "TaskNode t"
  obtain s1 where s1: "take_idle q s = Some (Some (NotifyIdles n), s1)" "idle_loop s1 q n"
    "s1 = s\<lparr>qnext := qnext s1, qprev := qprev s1\<rparr>"
    "\<And>p ys. ring s p ys \<Longrightarrow> {QueueIdles q, NotifyIdles n} \<inter> set (p # ys) = {} \<Longrightarrow> ring s1 p ys"
    using idle_loop_take_exact [OF i] by blast
  obtain a b where eq: "s1 = s\<lparr>qnext := a, qprev := b\<rparr>" using s1(3) by blast
  have l1: "load s1 (tasks s1) t = Some tk" "live s1 n = live s n" "load s1 (notifies s1) n = load s (notifies s) n"
    using t(1) by (simp_all add: eq load_def)
  let ?s2 = "s1\<lparr>tasks := (tasks s1)(t \<mapsto> tk\<lparr>proc_notify := Some n\<rparr>)\<rparr>"
  have ring1: "ring s1 ?h ?xs" by (rule s1(4)) (use p in \<open>auto simp: pending_def\<close>)
  then have r: "ring ?s2 ?h ?xs" by (rule ring_same_links) simp_all
  have x: "node_live ?s2 ?x" "?x \<notin> set (?h # ?xs)"
    using t l1(1) by (auto simp: node_live_def load_Some_iff live_def)
  have "pending ?s2 n ?xs" "notifies ?s2 n = Some nt" using r nt by (simp_all add: pending_def eq)
  from push_task_ok [OF this(1) x this(2)] obtain s3 s' where s': "notify_link_tail n ?x ?s2 = Some s3"
    "s' = eventfd_write (event_fd nt) 1 s3" "ngx_rpc_notify_push_task n ?x ?s2 = Some (NGX_OK, s')"
    "pending s' n (?xs @ [?x])" "chunks s' = chunks ?s2" "notifies s' = notifies ?s2" "efds s3 = efds ?s2"
    by blast
  have s3: "s3 = ?s2\<lparr>qnext := (qnext ?s2)(qlast ?h ?xs \<mapsto> ?x, ?x \<mapsto> ?h), qprev := (qprev ?s2)(?x \<mapsto> qlast ?h ?xs, ?h \<mapsto> ?x)\<rparr>"
    using s'(1) link_tail_eq [OF r x] by simp
  have "qlast ?h ?xs \<noteq> QueueIdles q" "qlast ?h ?xs \<noteq> NotifyIdles n" using qlast_in [of ?h ?xs] by auto
  then have "idle_loop s' q n = idle_loop s1 q n"
    unfolding s'(2) s3 by (intro idle_loop_cong) (simp_all add: live_def)
  moreover have "ngx_rpc_queue_push_and_notify q t s = Some (NGX_OK, s')"
    using q s1(1) l1(1) s'(3) by (simp add: ngx_rpc_queue_push_and_notify_def)
  moreover have "tasks s' = tasks s3" "efds s' = efds (eventfd_write (event_fd nt) 1 s)"
    using s'(2,7) by (simp_all add: eventfd_write_def eq split: option.splits)
  ultimately show ?thesis
    using s1(2) s'(4-6) s3 by (intro exI [of _ s']) (simp add: eq)
qed

lemma pop_keeps_loop:
  assumes p: "proc_pending s c n (x # xs)" and i: "idle_loop s q m" and pop: "cycle_pop c s = Some (Some x, s1)"
    and run: "\<forall>y \<in> set (x # xs). runnable s y"
  shows "idle_loop s1 q m"
proof -
  have r: "ring s (NotifyHead n) (x # xs)" using p by (simp add: proc_pending_def pending_def)
  have "pending_pop n s = Some (Some x, s1)" using p pop by (simp add: proc_pending_def cycle_pop_eq)
  then have s1: "s1 = s\<lparr>qnext := (qnext s)(NotifyHead n \<mapsto> qfirst (NotifyHead n) xs),
       qprev := (qprev s)(qfirst (NotifyHead n) xs \<mapsto> NotifyHead n)\<rparr>"
    by (simp add: pending_pop_def pop_task_eq [OF r])
  have "qfirst (NotifyHead n) xs \<noteq> QueueIdles q" using run by (cases xs) (auto simp: runnable_def)
  then have "idle_loop s1 q m = idle_loop s q m"
    unfolding s1 by (intro idle_loop_cong) (simp_all add: live_def)
  then show ?thesis using i by simp
qed

text \<open>One cycle with the loop in place runs the pending tasks and leaves the loop.\<close>

lemma cycle_in_loop:
  assumes p: "proc_pending s c n (map TaskNode ts)" and i: "idle_loop s q n"
    and cf: "pconfs s c = Some cf" "pc_queue cf = Some q"
    and run: "\<forall>t \<in> set ts. runnable s (TaskNode t)" and I: "I s"
    and k: "turn_contract exec I (\<lambda>s. idle_loop s q n) note upd c n"
    and links: "\<And>s a b. I (s\<lparr>qnext := a, qprev := b\<rparr>) = I s" "\<And>s a b. note (s\<lparr>qnext := a, qprev := b\<rparr>) = note s"
  shows "\<exists>s'. ngx_proc_rpc_process_one_cycle exec c s = Some s' \<and> proc_pending s' c n [] \<and> idle_loop s' q n
     \<and> pconfs s' c = Some cf \<and> I s' \<and> note s' = fold upd ts (note s)"
proof -
  have run': "\<forall>x \<in> set (map TaskNode ts). runnable s x" using run by simp
  obtain s1 where s1: "drain (cycle_pop c) (cycle_body exec) s = Some s1" "proc_pending s1 c n []" "idle_loop s1 q n"
    "pconfs s1 c = Some cf" "I s1" "note s1 = fold (upd \<circ> node_task) (map TaskNode ts) (note s)"
    using drain_turns [where J = "\<lambda>s. idle_loop s q n" and I = I, OF p i cf(1) run' I k] pop_keeps_loop by blast
  obtain s' where s': "put_idle q n s1 = Some s'" "idle_loop s' q n" "s' = s1\<lparr>qnext := qnext s', qprev := qprev s'\<rparr>"
    "\<And>p ys. ring s1 p ys \<Longrightarrow> {QueueIdles q, NotifyIdles n} \<inter> set (p # ys) = {} \<Longrightarrow> ring s' p ys"
    using idle_loop_put [OF s1(3)] by blast
  have n: "pc_notify cf = Some n" using s1(2,4) by (simp add: proc_pending_def)
  have "ring s' (NotifyHead n) []"
    by (rule s'(4)) (use s1(2) in \<open>auto simp: proc_pending_def pending_def\<close>)
  then have "proc_pending s' c n []"
    using s1(2) links_frame [OF s'(3)] by (simp add: proc_pending_def pending_def)
  moreover have "I s'" "note s' = note s1" using links s1(5) s'(3) by metis+
  ultimately show ?thesis
    using s1 cf(2) n s'(1,2) links_frame(6) [OF s'(3)]
    by (intro exI [of _ s']) (simp add: one_cycle_code fold_map comp_def)
qed

section \<open>Every later request\<close>

text \<open>Requests one after the other: each task is submitted, and the signalled processor's read callback runs.\<close>

primrec serve_each ::
  "'z exec \<Rightarrow> ('z pstate_scheme \<Rightarrow> 'z pstate_scheme option) \<Rightarrow> nat \<Rightarrow> addr \<Rightarrow> addr list
    \<Rightarrow> 'z pstate_scheme \<Rightarrow> 'z pstate_scheme option" where
  "serve_each exec worker conn q [] s = Some s"
| "serve_each exec worker conn q (t # ts) s =
     do {
       (r, s) \<leftarrow> ngx_rpc_queue_push_and_notify q t s;
       s \<leftarrow> ngx_rpc_notify_read_handler (proc_call exec worker) conn s;
       serve_each exec worker conn q ts s
     }"

text \<open>
  What a processor that serves requests relies on: its notify object and connection, the queue object, a
  cleared eventfd, and tasks that can be run.
\<close>

definition serving ::
  "addr \<Rightarrow> ngx_rpc_notify \<Rightarrow> nat \<Rightarrow> ngx_connection \<Rightarrow> addr \<Rightarrow> addr set \<Rightarrow> 'z pstate_scheme \<Rightarrow> bool" where
  "serving n nt conn cn q U s \<longleftrightarrow> notifies s n = Some nt \<and> conns s conn = Some cn \<and> load s (queues s) q \<noteq> None
     \<and> efds s (event_fd nt) = Some 0 \<and> (\<forall>u \<in> U. runnable s (TaskNode u))"

lemma serving_links: "serving n nt conn cn q U (s\<lparr>qnext := a, qprev := b\<rparr>) = serving n nt conn cn q U s"
  by (simp add: serving_def runnable_def load_def live_def)

text \<open>One request with the loop in place: submitted, run, and the loop is as before.\<close>

lemma serve_one:
  assumes p: "proc_pending s c n []" and i: "idle_loop s q n"
    and cf: "pconfs s c = Some cf" "pc_queue cf = Some q"
    and I: "serving n nt conn cn q U s" and t: "t \<in> U"
    and nt: "read_hanlder nt = Some Proc_Process_One_Cycle" "notify_ctx nt = Some (Proc_Conf c)" and cn: "c_sockaddr cn = n"
    and k: "turn_contract exec (serving n nt conn cn q U) (\<lambda>s. idle_loop s q n) obs upd c n"
    and obs: "\<And>s a b. obs (s\<lparr>qnext := a, qprev := b\<rparr>) = obs s" "\<And>s e. obs (s\<lparr>efds := e\<rparr>) = obs s" "\<And>s m. obs (s\<lparr>tasks := m\<rparr>) = obs s"
  shows "\<exists>s1 s2. ngx_rpc_queue_push_and_notify q t s = Some (NGX_OK, s1)
     \<and> ngx_rpc_notify_read_handler (proc_call exec worker) conn s1 = Some s2
     \<and> proc_pending s2 c n [] \<and> idle_loop s2 q n \<and> pconfs s2 c = Some cf \<and> serving n nt conn cn q U s2
     \<and> obs s2 = upd t (obs s)"
proof -
  obtain tk f where tk: "load s (tasks s) t = Some tk" "handler (closure tk) = Some f"
    using I t by (auto simp: serving_def runnable_def)
  obtain qu where qu: "load s (queues s) q = Some qu" using I by (auto simp: serving_def)
  have n: "notifies s n = Some nt" "efds s (event_fd nt) = Some 0" using I by (auto simp: serving_def)
  have pn: "pending s n (map TaskNode [])" using p by (simp add: proc_pending_def)
  obtain s1 where s1: "ngx_rpc_queue_push_and_notify q t s = Some (NGX_OK, s1)" "idle_loop s1 q n"
    "pending s1 n [TaskNode t]" "tasks s1 = (tasks s)(t \<mapsto> tk\<lparr>proc_notify := Some n\<rparr>)" "chunks s1 = chunks s"
    "notifies s1 = notifies s" "efds s1 = efds (eventfd_write (event_fd nt) 1 s)"
    using push_and_notify_loop [OF qu i pn tk(1) _ n(1)] by auto
  obtain a b m e where eq: "s1 = s\<lparr>tasks := m, qnext := a, qprev := b, efds := e\<rparr>"
    using push_and_notify_shape [OF s1(1)] by blast
  have sig: "efds s1 (event_fd nt) = Some 1" using s1(7) n(2) by (simp add: eventfd_write_def eventfd_max_def)
  let ?s1 = "s1\<lparr>efds := (efds s1)(event_fd nt \<mapsto> 0)\<rparr>"
  have run: "runnable ?s1 (TaskNode u)" if "u \<in> U" for u
  proof -
    have "runnable s (TaskNode u)" using I that by (simp add: serving_def)
    then obtain v where "load s (tasks s) u = Some v" "handler (closure v) \<noteq> None" by (auto simp: runnable_def)
    then show ?thesis using tk s1(4,5) by (cases "u = t") (auto simp: runnable_def load_Some_iff live_def)
  qed
  have p1: "proc_pending ?s1 c n (map TaskNode [t])" using p s1(3) by (simp add: proc_pending_def pending_def eq)
  have i1: "idle_loop ?s1 q n" using s1(2) by (subst idle_loop_cong [of _ q s1]) simp_all
  have c1: "pconfs ?s1 c = Some cf" using cf(1) by (simp add: eq)
  have I1: "serving n nt conn cn q U ?s1" using I run by (simp add: serving_def eq load_def live_def)
  have run1: "\<forall>u \<in> set [t]. runnable ?s1 (TaskNode u)" using run t by simp
  note cyc = cycle_in_loop [where I = "serving n nt conn cn q U", OF _ _ _ cf(2) _ _ k serving_links obs(1)]
  obtain s2 where s2: "ngx_proc_rpc_process_one_cycle exec c ?s1 = Some s2" "proc_pending s2 c n []" "idle_loop s2 q n"
    "pconfs s2 c = Some cf" "serving n nt conn cn q U s2" "obs s2 = fold upd [t] (obs ?s1)"
    using cyc [OF p1 i1 c1 run1 I1] by blast
  have p2: "proc_pending s2 c n (map TaskNode [])" using s2(2) by simp
  obtain s3 where s3: "ngx_proc_rpc_process_one_cycle exec c s2 = Some s3" "proc_pending s3 c n []" "idle_loop s3 q n"
    "pconfs s3 c = Some cf" "serving n nt conn cn q U s3" "obs s3 = fold upd [] (obs s2)"
    using cyc [OF p2 s2(3,4) _ s2(5)] by auto
  have ln: "live s1 n" "live s2 n" using s1(3) s2(2) by (auto simp: proc_pending_def dest: pending_live)
  have "notify_read_loop (proc_call exec worker) n s1 = proc_call exec worker Proc_Process_One_Cycle (Proc_Conf c) s2"
  proof (rule read_loop_signalled [OF _ nt sig])
    show "load s1 (notifies s1) n = Some nt" using n(1) s1(6) ln(1) by (simp add: load_def)
    show "proc_call exec worker Proc_Process_One_Cycle (Proc_Conf c) ?s1 = Some s2" using s2(1) by (simp add: proc_call_def)
    show "load s2 (notifies s2) n = Some nt" "efds s2 (event_fd nt) = Some 0"
      using s2(5) ln(2) by (simp_all add: serving_def load_def)
  qed simp
  then have "ngx_rpc_notify_read_handler (proc_call exec worker) conn s1 = Some s3"
    using I cn s3(1) by (simp add: ngx_rpc_notify_read_handler_def serving_def proc_call_def eq)
  moreover have "obs ?s1 = obs s" by (simp add: eq obs)
  ultimately show ?thesis using s1(1) s2(6) s3 by (intro exI [of _ s1] exI [of _ s3]) simp
qed

lemma serve_each_ok:
  assumes "proc_pending s c n []" and "idle_loop s q n" and "pconfs s c = Some cf" "pc_queue cf = Some q"
    and "serving n nt conn cn q U s" and "set ts \<subseteq> U"
    and "read_hanlder nt = Some Proc_Process_One_Cycle" "notify_ctx nt = Some (Proc_Conf c)" and "c_sockaddr cn = n"
    and "turn_contract exec (serving n nt conn cn q U) (\<lambda>s. idle_loop s q n) obs upd c n"
    and "\<And>s a b. obs (s\<lparr>qnext := a, qprev := b\<rparr>) = obs s" "\<And>s e. obs (s\<lparr>efds := e\<rparr>) = obs s" "\<And>s m. obs (s\<lparr>tasks := m\<rparr>) = obs s"
  shows "\<exists>s'. serve_each exec worker conn q ts s = Some s' \<and> proc_pending s' c n [] \<and> idle_loop s' q n
     \<and> obs s' = fold upd ts (obs s)"
  using assms(1-6)
proof (induction ts arbitrary: s)
  case Nil
  then show ?case by simp
next
  case (Cons t ts)
  then have t: "t \<in> U" "set ts \<subseteq> U" by auto
  obtain s1 s2 where s2: "ngx_rpc_queue_push_and_notify q t s = Some (NGX_OK, s1)"
    "ngx_rpc_notify_read_handler (proc_call exec worker) conn s1 = Some s2"
    "proc_pending s2 c n []" "idle_loop s2 q n" "pconfs s2 c = Some cf" "serving n nt conn cn q U s2" "obs s2 = upd t (obs s)"
    using serve_one [where worker = worker, OF Cons.prems(1-5) t(1) assms(7-13)] by blast
  show ?case using Cons.IH [OF s2(3-5) Cons.prems(4) s2(6) t(2)] s2(1,2,7) by auto
qed

text \<open>
  C7. What a processor does with its requests from the first signal on, as the read callback really runs it.
  The first callback runs what is pending and cuts the idle list down to a loop of this processor. From then on
  every request is still served: each later task goes to this processor, whatever others were idle, and the
  callback that follows runs it, once and in the order of submission.
\<close>

theorem processor_serves_all:
  assumes "proc_pending s c n (map TaskNode ts)" and "idles s q ns" and "n \<notin> set ns"
    and "pconfs s c = Some cf" "pc_queue cf = Some q"
    and "\<forall>t \<in> set ts. runnable s (TaskNode t)"
    and "read_hanlder nt = Some Proc_Process_One_Cycle" "notify_ctx nt = Some (Proc_Conf c)" and "c_sockaddr cn = n"
    and "efds s (event_fd nt) = Some cnt" "0 < cnt"
    and "serving n nt conn cn q U (s\<lparr>efds := (efds s)(event_fd nt \<mapsto> 0)\<rparr>)" and "set us \<subseteq> U"
    and "task_contract exec (serving n nt conn cn q U) obs upd c n q"
    and "turn_contract exec (serving n nt conn cn q U) (\<lambda>s. idle_loop s q n) obs upd c n"
    and "\<And>s a b. obs (s\<lparr>qnext := a, qprev := b\<rparr>) = obs s" "\<And>s e. obs (s\<lparr>efds := e\<rparr>) = obs s" "\<And>s m. obs (s\<lparr>tasks := m\<rparr>) = obs s"
  shows "\<exists>s1 s2. ngx_rpc_notify_read_handler (proc_call exec worker) conn s = Some s1
     \<and> serve_each exec worker conn q us s1 = Some s2
     \<and> (\<forall>ms. \<not> idles s1 q ms) \<and> idle_loop s2 q n \<and> proc_pending s2 c n []
     \<and> obs s2 = fold upd (ts @ us) (obs s)"
proof -
  have n: "notifies s n = Some nt" "conns s conn = Some cn" using assms(12) by (simp_all add: serving_def)
  have run: "\<exists>tk. load s (tasks s) t = Some tk \<and> handler (closure tk) \<noteq> None" if "t \<in> set ts" for t
    using assms(6) that by (auto simp: runnable_def)
  have I: "notifies s n = Some nt \<and> efds s (event_fd nt) = Some 0" if "serving n nt conn cn q U s" for s :: "'a pstate_scheme"
    using that by (simp add: serving_def)
  obtain s1 s0 a b where s1: "ngx_rpc_notify_read_handler (proc_call exec worker) conn s = Some s1"
    "idle_loop s1 q n" "\<forall>ms. \<not> idles s1 q ms" "proc_pending s1 c n []" "pconfs s1 c = Some cf"
    "s1 = s0\<lparr>qnext := a, qprev := b\<rparr>" "serving n nt conn cn q U s0"
    "obs s0 = fold upd ts (obs (s\<lparr>efds := (efds s)(event_fd nt \<mapsto> 0)\<rparr>))"
    using read_handler_ties [where I = "serving n nt conn cn q U" and worker = worker,
        OF assms(1-5) run n(1) assms(7,8,10-12) I assms(14) n(2) assms(9)] by blast
  have "serving n nt conn cn q U s1" "obs s1 = fold upd ts (obs s)"
    using s1(6-8) assms(16,17) by (simp_all add: serving_links)
  with serve_each_ok [where worker = worker, OF s1(4,2,5) assms(5) _ assms(13,7-9,15-18)] s1(1,3)
  show ?thesis by fastforce
qed

theorem processor_serves_all_witness:
  "\<exists>s1 s2. ngx_rpc_notify_read_handler (proc_call demo_exec Some) 0
         ((demo [4] [5] 1)\<lparr>conns := [0 \<mapsto> \<lparr>c_fd = 10, c_sockaddr = 3, c_read_handler = Notify_Read_Handler,
            c_read_data = 0, c_write_handler = Notify_Write_Handler, c_write_data = 0, c_added = True,
            c_write_event = True\<rparr>]\<rparr>) = Some s1
     \<and> serve_each demo_exec Some 0 1 [6, 6, 5] s1 = Some s2 \<and> data s2 0 = Some [5, 6, 6, 5]"
proof -
  let ?s = "(demo [4] [5] 1)\<lparr>conns := [0 \<mapsto> \<lparr>c_fd = 10, c_sockaddr = 3, c_read_handler = Notify_Read_Handler,
            c_read_data = 0, c_write_handler = Notify_Write_Handler, c_write_data = 0, c_added = True,
            c_write_event = True\<rparr>]\<rparr>"
  let ?cn = "\<lparr>c_fd = 10, c_sockaddr = 3, c_read_handler = Notify_Read_Handler, c_read_data = 0,
     c_write_handler = Notify_Write_Handler, c_write_data = 0, c_added = True, c_write_event = True\<rparr>"
  have I: "serving 3 (demo_notify 10 0) 0 ?cn 1 {5, 6} (s\<lparr>qnext := a, qprev := b, data := d\<rparr>)
     = serving 3 (demo_notify 10 0) 0 ?cn 1 {5, 6} s" for s :: pstate and a b d
    by (simp add: serving_def runnable_def load_def live_def)
  have k: "turn_contract demo_exec (serving 3 (demo_notify 10 0) 0 ?cn 1 {5, 6}) J (\<lambda>s. data s 0)
     (\<lambda>t. map_option (\<lambda>bs. bs @ [of_nat t])) 0 3" if "\<And>(s :: pstate) d. J (s\<lparr>data := d\<rparr>) = J s" for J
    by (rule demo_exec_turns [OF that I])
  have tc: "task_contract demo_exec (serving 3 (demo_notify 10 0) 0 ?cn 1 {5, 6}) (\<lambda>s. data s 0)
     (\<lambda>t. map_option (\<lambda>bs. bs @ [of_nat t])) 0 3 1"
    unfolding task_contract_def by (intro allI k) (simp add: idles_def ring_iff node_live_def live_def)
  have lc: "turn_contract demo_exec (serving 3 (demo_notify 10 0) 0 ?cn 1 {5, 6}) (\<lambda>s. idle_loop s 1 3) (\<lambda>s. data s 0)
     (\<lambda>t. map_option (\<lambda>bs. bs @ [of_nat t])) 0 3"
    by (rule k) (simp add: idle_loop_def link_defs node_live_def live_def)
  have st: "proc_pending ?s 0 3 (map TaskNode [5])" "idles ?s 1 [4]" "3 \<notin> set [4 :: nat]"
    "pconfs ?s 0 = Some \<lparr>pc_shpool = Some 0, pc_queue = Some 1, pc_notify = Some 3, shm_size = 0\<rparr>"
    "\<forall>t \<in> set [5]. runnable ?s (TaskNode t)" "efds ?s (event_fd (demo_notify 10 0)) = Some 1"
    "serving 3 (demo_notify 10 0) 0 ?cn 1 {5, 6} (?s\<lparr>efds := (efds ?s)(event_fd (demo_notify 10 0) \<mapsto> 0)\<rparr>)"
    "read_hanlder (demo_notify 10 0) = Some Proc_Process_One_Cycle" "notify_ctx (demo_notify 10 0) = Some (Proc_Conf 0)"
    by (simp_all add: demo_simps runnable_def serving_def)
  show ?thesis
    using processor_serves_all [where us = "[6, 6, 5]" and worker = Some,
        OF st(1-4) _ st(5,8,9) _ st(6) _ st(7) _ tc lc] by (auto simp: demo_def)
qed

end
