(* ===== verification/Service_Lists.thy ===== *)
theory Service_Lists
  imports Whole_Call Tied_Processor
begin

text \<open>
  The pending lists of all processes at once, and the idle list in whichever of its two shapes: a list
  of processors, or the loop of one processor that the read callback leaves.
\<close>

section \<open>All pending lists\<close>

text \<open>The notify objects \<open>N\<close> have the pending lists \<open>L\<close>; no task is on two of them.\<close>

definition pendings :: "'z nstate_scheme \<Rightarrow> addr set \<Rightarrow> (addr \<Rightarrow> addr list) \<Rightarrow> bool" where
  "pendings s N L \<longleftrightarrow> (\<forall>n \<in> N. pending s n (map TaskNode (L n)))
     \<and> (\<forall>n \<in> N. \<forall>m \<in> N. n \<noteq> m \<longrightarrow> set (L n) \<inter> set (L m) = {})"

lemma pendings_pending: "pendings s N L \<Longrightarrow> n \<in> N \<Longrightarrow> pending s n (map TaskNode (L n))"
  by (simp add: pendings_def)

lemma pendings_distinct: "pendings s N L \<Longrightarrow> n \<in> N \<Longrightarrow> distinct (L n)"
  using ring_distinct [of s "NotifyHead n" "map TaskNode (L n)"] by (auto simp: pendings_def pending_def distinct_map)

lemma pendings_apart: "pendings s N L \<Longrightarrow> n \<in> N \<Longrightarrow> m \<in> N \<Longrightarrow> n \<noteq> m \<Longrightarrow> set (L n) \<inter> set (L m) = {}"
  by (simp add: pendings_def)

lemma pendings_live: "pendings s N L \<Longrightarrow> n \<in> N \<Longrightarrow> t \<in> set (L n) \<Longrightarrow> live s t"
  using ring_liveD [of s "NotifyHead n" "map TaskNode (L n)" "TaskNode t"]
  by (auto simp: pendings_def pending_def node_live_def)

lemma pendings_frame:
  assumes "pendings s N L" and "notifies s' = notifies s"
    and "\<And>n. n \<in> N \<Longrightarrow> ring s (NotifyHead n) (map TaskNode (L n)) \<Longrightarrow> ring s' (NotifyHead n) (map TaskNode (L n))"
  shows "pendings s' N L"
  using assms by (auto simp: pendings_def pending_def)

lemma pendings_same:
  assumes "pendings s N L" and "notifies s' = notifies s" "qnext s' = qnext s" "qprev s' = qprev s" "\<And>a. live s a \<Longrightarrow> live s' a"
  shows "pendings s' N L"
  by (rule pendings_frame [OF assms(1,2)]) (rule ring_links_live [OF _ assms(3-5)])

text \<open>A change of one list that leaves every ring without nodes of it alone.\<close>

lemma pendings_changed:
  assumes l: "pendings s N L" and n: "n \<in> N" and p: "pending s' n (map TaskNode ts)" and "notifies s' = notifies s"
    and fr: "\<And>q ys. ring s q ys \<Longrightarrow> set (q # ys) \<inter> set (NotifyHead n # map TaskNode us) = {} \<Longrightarrow> ring s' q ys"
    and us: "\<And>m. m \<in> N \<Longrightarrow> m \<noteq> n \<Longrightarrow> set us \<inter> set (L m) = {}" and ts: "set ts \<subseteq> set us"
  shows "pendings s' N (L(n := ts))"
proof -
  have "pending s' m (map TaskNode (L m))" if "m \<in> N" "m \<noteq> n" for m
  proof -
    have r: "ring s (NotifyHead m) (map TaskNode (L m))" using l that by (auto simp: pendings_def pending_def)
    have "ring s' (NotifyHead m) (map TaskNode (L m))"
      by (rule fr [OF r]) (use us [OF that] that(2) in auto)
    then show ?thesis using l that assms(4) by (auto simp: pendings_def pending_def)
  qed
  then show ?thesis using p l us ts unfolding pendings_def by simp blast
qed

lemma pendings_pushed:
  assumes "pendings s N L" and "n \<in> N" and "pending s' n (map TaskNode (L n @ [t]))" and "notifies s' = notifies s"
    and "\<And>q ys. ring s q ys \<Longrightarrow> set (q # ys) \<inter> set (TaskNode t # NotifyHead n # map TaskNode (L n)) = {} \<Longrightarrow> ring s' q ys"
    and "\<And>m. m \<in> N \<Longrightarrow> t \<notin> set (L m)"
  shows "pendings s' N (L(n := L n @ [t]))"
proof (rule pendings_changed [OF assms(1-4), where us = "L n @ [t]"])
  show "ring s' q ys" if "ring s q ys" "set (q # ys) \<inter> set (NotifyHead n # map TaskNode (L n @ [t])) = {}" for q ys
    by (rule assms(5) [OF that(1)]) (use that(2) in auto)
  show "set (L n @ [t]) \<inter> set (L m) = {}" if "m \<in> N" "m \<noteq> n" for m
    using assms(1,2,6) that by (auto simp: pendings_def)
qed simp

lemma pendings_pop:
  assumes "pendings s N L" and "n \<in> N" and "L n = t # ts"
  obtains s' where "pending_pop n s = Some (Some (TaskNode t), s')" and "pendings s' N (L(n := ts))"
    and "idle_same s s'" and "relinked s s'"
proof -
  have p: "pending s n (TaskNode t # map TaskNode ts)" using pendings_pending [OF assms(1,2)] assms(3) by simp
  obtain s' where s': "ngx_rpc_notify_pop_task n s = Some (NGX_OK, Some (TaskNode t), s')" "pending s' n (map TaskNode ts)"
    "notifies s' = notifies s"
    "\<And>q ys. ring s q ys \<Longrightarrow> set (q # ys) \<inter> set (NotifyHead n # TaskNode t # map TaskNode ts) = {} \<Longrightarrow> ring s' q ys"
    using pop_task_ok [OF p] by blast
  have pop: "pending_pop n s = Some (Some (TaskNode t), s')" using s'(1) by (simp add: pending_pop_def)
  have "pendings s' N (L(n := ts))"
  proof (rule pendings_changed [OF assms(1,2) s'(2,3), where us = "t # ts"])
    show "ring s' q ys" if "ring s q ys" "set (q # ys) \<inter> set (NotifyHead n # map TaskNode (t # ts)) = {}" for q ys
      by (rule s'(4) [OF that(1)]) (use that(2) in auto)
    show "set (t # ts) \<inter> set (L m) = {}" if "m \<in> N" "m \<noteq> n" for m
      using pendings_apart [OF assms(1,2) that(1)] that(2) assms(3) by auto
  qed auto
  moreover have "idle_same s s'" by (rule pop_idle_same [OF p _ pop]) auto
  moreover have "relinked s s'" unfolding relinked_def by (rule pending_pop_links [OF pop])
  ultimately show thesis using that pop by blast
qed

section \<open>The idle list\<close>

definition idle_any :: "'z qstate_scheme \<Rightarrow> addr \<Rightarrow> addr set \<Rightarrow> bool" where
  "idle_any s q P \<longleftrightarrow> (\<exists>ns. idles s q ns \<and> set ns \<subseteq> P) \<or> (\<exists>n \<in> P. idle_loop s q n)"

lemma idle_same_any:
  assumes "idle_same s s'" and "idle_any s q P"
  shows "idle_any s' q P"
proof -
  have "idle_loop s' q n" if i: "idle_loop s q n" for n
  proof -
    have "live s q" "live s n" using i by (auto simp: idle_loop_def link_defs node_live_def split: if_splits)
    then show ?thesis using i assms(1) idle_loop_cong [of s' q s n] by (simp add: idle_same_def)
  qed
  then show ?thesis using assms idle_same_idles unfolding idle_any_def by blast
qed

lemma idle_any_live: "idle_any s q P \<Longrightarrow> live s q"
  by (auto simp: idle_any_def idles_def idle_loop_def link_defs node_live_def
      dest: ring_liveD [where a = "QueueIdles q"] split: if_splits)

text \<open>A list that is found empty was empty before a change that does not touch it.\<close>

lemma idle_same_none:
  assumes "idle_same s s'" and "idle_any s q P" and "idles s' q []"
  shows "idles s q []"
proof -
  have n: "qnext s' (QueueIdles q) = Some (QueueIdles q)" using ring_next [of s' "QueueIdles q" "[]"] assms(3)
    by (auto simp: idles_def link_defs split: if_splits)
  moreover have "live s q" by (rule idle_any_live [OF assms(2)])
  then have n': "qnext s (QueueIdles q) = Some (QueueIdles q)" using n assms(1) by (simp add: idle_same_def)
  moreover have "ns = []" if "idles s q ns" for ns
    using that n' by (cases ns) (simp_all add: idles_def ring_iff mring_def)
  moreover have "\<not> idle_loop s q n" for n using n' by (auto simp: idle_loop_def link_defs split: if_splits)
  ultimately show ?thesis using assms(2) unfolding idle_any_def by blast
qed

lemma take_any:
  assumes "idle_any s q P"
  shows "take_idle q s = Some (None, s) \<and> idles s q [] \<or> (\<exists>n s'. n \<in> P \<and> take_idle q s = Some (Some (NotifyIdles n), s')
     \<and> idle_any s' q P \<and> (\<forall>p ys. ring s p ys \<longrightarrow> (\<forall>x \<in> set (p # ys). \<not> idle_node x) \<longrightarrow> ring s' p ys))"
proof -
  consider (ring) ns where "idles s q ns" "set ns \<subseteq> P" | (loop) n where "n \<in> P" "idle_loop s q n"
    using assms by (auto simp: idle_any_def)
  then show ?thesis
  proof cases
    case i: (ring ns)
    show ?thesis
    proof (cases ns)
      case Nil
      then show ?thesis using i by (simp add: idles_def take_idle_none)
    next
      case (Cons n ms)
      from take_idle_ok [OF i(1) [unfolded Cons]] obtain s' where s':
        "take_idle q s = Some (Some (NotifyIdles n), s')" "idles s' q ms"
        "\<And>p ys. ring s p ys \<Longrightarrow> set (p # ys) \<inter> set (QueueIdles q # map NotifyIdles ms) = {} \<Longrightarrow> ring s' p ys" by blast
      have "ring s' p ys" if "ring s p ys" "\<forall>x \<in> set (p # ys). \<not> idle_node x" for p ys
        by (rule s'(3) [OF that(1)]) (use that(2) in auto)
      then show ?thesis using s'(1,2) i(2) Cons unfolding idle_any_def by auto
    qed
  next
    case i: (loop n)
    from idle_loop_take_exact [OF i(2)] obtain s' where s':
      "take_idle q s = Some (Some (NotifyIdles n), s')" "idle_loop s' q n"
      "\<And>p ys. ring s p ys \<Longrightarrow> {QueueIdles q, NotifyIdles n} \<inter> set (p # ys) = {} \<Longrightarrow> ring s' p ys" by blast
    have "ring s' p ys" if "ring s p ys" "\<forall>x \<in> set (p # ys). \<not> idle_node x" for p ys
      by (rule s'(3) [OF that(1)]) (use that(2) in auto)
    then show ?thesis using s'(1,2) i(1) unfolding idle_any_def by auto
  qed
qed

text \<open>The two cycles of a read callback: a processor that puts itself on the list twice ties it to itself.\<close>

lemma put_twice:
  assumes i: "idle_any s q P" and n: "live s n"
  obtains s1 s2 where "put_idle q n s = Some s1" and "put_idle q n s1 = Some s2" and "idle_loop s2 q n"
    and "relinked s s1" and "relinked s s2"
    and "\<And>p ys. ring s p ys \<Longrightarrow> \<forall>x \<in> set (p # ys). \<not> idle_node x \<Longrightarrow> ring s1 p ys"
    and "\<And>p ys. ring s p ys \<Longrightarrow> \<forall>x \<in> set (p # ys). \<not> idle_node x \<Longrightarrow> ring s2 p ys"
proof -
  let ?q = "QueueIdles q" and ?x = "NotifyIdles n"
  obtain f p where f: "qnext s ?q = Some f" "node_live s f" "idle_node f" "f = ?q \<or> qprev s ?q = Some p \<and> p \<noteq> ?q"
  proof -
    show thesis
      using i unfolding idle_any_def
    proof (elim disjE exE conjE bexE)
      fix ns
      assume "idles s q ns"
      then have r: "ring s ?q (map NotifyIdles ns)" by (simp add: idles_def)
      have l: "node_live s ?q" "node_live s (qfirst ?q (map NotifyIdles ns))"
        using ring_liveD [OF r] qfirst_in [of ?q "map NotifyIdles ns"] by auto
      have "qnext s ?q = Some (qfirst ?q (map NotifyIdles ns))" "qprev s ?q = Some (qlast ?q (map NotifyIdles ns))"
        using ring_next [OF r] ring_prev [OF r] by (auto simp: link_defs split: if_splits)
      moreover have "qlast ?q (map NotifyIdles ns) \<noteq> ?q" if "ns \<noteq> []"
        using qlast_is_head [OF ring_distinct [OF r]] that by auto
      ultimately show thesis using that l(2) by (cases ns) auto
    next
      fix m
      assume "idle_loop s q m"
      then show thesis using that by (auto simp: idle_loop_def link_defs split: if_splits)
    qed
  qed
  have l: "node_live s ?q" "node_live s ?x" using idle_any_live [OF i] n by (auto simp: node_live_def)
  let ?s1 = "s\<lparr>qnext := (qnext s)(?x \<mapsto> f, ?q \<mapsto> ?x), qprev := (qprev s)(f \<mapsto> ?x, ?x \<mapsto> ?q)\<rparr>"
  let ?s2 = "s\<lparr>qnext := (qnext s)(?x \<mapsto> ?x, ?q \<mapsto> ?x), qprev := (qprev s)(f \<mapsto> ?x, ?x \<mapsto> ?q)\<rparr>"
  have fx: "f = ?x \<or> f \<noteq> ?x" by simp
  have "put_idle q n s = Some ?s1" using l f(1,2) by (auto simp: put_idle_def link_defs)
  moreover have "put_idle q n ?s1 = Some ?s2"
    using l by (auto simp: put_idle_def link_defs fun_upd_twist)
  moreover have "idle_loop ?s2 q n" using l f(4) by (auto simp: idle_loop_def link_defs)
  moreover have "ring (s\<lparr>qnext := (qnext s)(a \<mapsto> b, ?q \<mapsto> c), qprev := (qprev s)(f \<mapsto> d, ?x \<mapsto> e)\<rparr>) p ys"
    if "ring s p ys" "\<forall>x \<in> set (p # ys). \<not> idle_node x" "idle_node a" for p ys a b c d e
  proof -
    have "mring (qnext s) (qprev s) p ys" using that(1) by (simp add: ring_iff)
    then have "mring ((qnext s)(a \<mapsto> b, ?q \<mapsto> c)) ((qprev s)(f \<mapsto> d, ?x \<mapsto> e)) p ys"
      by (rule mring_frame) (use that(2,3) f(3) in auto)
    then show ?thesis using that(1) by (simp add: ring_iff)
  qed
  ultimately show thesis by (intro that [of ?s1 ?s2]) (simp_all add: relinked_def)
qed

text \<open>A submission reaches a processor of \<open>P\<close>, or is refused because none is idle.\<close>

lemma push_any:
  fixes s :: "'z rstate_scheme"
  assumes q: "load s (queues s) q = Some qd" and i: "idle_any s q P" and l: "pendings s N L" and P: "P \<subseteq> N"
    and t: "load s (tasks s) t = Some tk" "\<And>m. m \<in> N \<Longrightarrow> t \<notin> set (L m)"
  obtains (refused) "ngx_rpc_queue_push_and_notify q t s = Some (NGX_ERROR, s)" and "idles s q []"
  | (taken) n nt s' where "n \<in> P" and "notifies s n = Some nt" and "ngx_rpc_queue_push_and_notify q t s = Some (NGX_OK, s')"
      and "pendings s' N (L(n := L n @ [t]))" and "idle_any s' q P" and "tasks s' = (tasks s)(t \<mapsto> tk\<lparr>proc_notify := Some n\<rparr>)"
      and "efds s' = efds (eventfd_write (event_fd nt) 1 s)"
proof -
  from take_any [OF i] consider "take_idle q s = Some (None, s)" "idles s q []"
    | n s1 where "n \<in> P" "take_idle q s = Some (Some (NotifyIdles n), s1)" "idle_any s1 q P"
      "\<And>p ys. ring s p ys \<Longrightarrow> \<forall>x \<in> set (p # ys). \<not> idle_node x \<Longrightarrow> ring s1 p ys" by blast
  then show thesis
  proof cases
    case 1
    then show thesis using q by (intro refused) (simp add: ngx_rpc_queue_push_and_notify_def)
  next
    case s1: 2
    obtain a b where eq: "s1 = s\<lparr>qnext := a, qprev := b\<rparr>" using take_idle_shape [OF s1(2)] by blast
    have n: "n \<in> N" using s1(1) P by blast
    obtain nt where nt: "notifies s n = Some nt" using pendings_pending [OF l n] by (auto simp: pending_def)
    let ?s2 = "s1\<lparr>tasks := (tasks s1)(t \<mapsto> tk\<lparr>proc_notify := Some n\<rparr>)\<rparr>"
    have "pendings s1 N L"
    proof (rule pendings_frame [OF l])
      show "ring s1 (NotifyHead m) (map TaskNode (L m))" if "ring s (NotifyHead m) (map TaskNode (L m))" for m
        by (rule s1(4) [OF that]) auto
    qed (simp add: eq)
    then have l2: "pendings ?s2 N L" by (rule pendings_same) simp_all
    have x: "live ?s2 t" "t \<notin> set (L n)" using t n by (simp_all add: eq load_Some_iff)
    then have "node_live ?s2 (TaskNode t)" "TaskNode t \<notin> set (NotifyHead n # map TaskNode (L n))"
      by (auto simp: node_live_def)
    from push_task_ok [OF pendings_pending [OF l2 n] this, of nt] obtain s3 s' where s':
      "s' = eventfd_write (event_fd nt) 1 s3" "efds s3 = efds ?s2"
      "ngx_rpc_notify_push_task n (TaskNode t) ?s2 = Some (NGX_OK, s')" "pending s' n (map TaskNode (L n) @ [TaskNode t])"
      "notifies s' = notifies ?s2"
      "\<And>p ys. ring ?s2 p ys \<Longrightarrow> set (p # ys) \<inter> set (TaskNode t # NotifyHead n # map TaskNode (L n)) = {} \<Longrightarrow> ring s' p ys"
      using nt by (auto simp: eq)
    have "pendings s' N (L(n := L n @ [t]))"
      by (rule pendings_pushed [OF l2 n _ s'(5,6) t(2)]) (use s'(4) in auto)
    moreover have "idle_any s' q P"
      using push_idle_same [OF pendings_pending [OF l2 n] x s'(3)] s1(3) idle_same_any [of ?s2 s'] idle_same_any [of s1 ?s2]
        idle_same_links [of ?s2 s1] by simp
    moreover have "load s1 (tasks s1) t = Some tk" using t(1) by (simp add: eq load_def)
    then have "ngx_rpc_queue_push_and_notify q t s = Some (NGX_OK, s')"
      using q s1(2) s'(3) by (simp add: ngx_rpc_queue_push_and_notify_def)
    moreover have "tasks s' = tasks ?s2" by (subst push_task_shape [OF s'(3)]) simp
    moreover have "efds s' = efds (eventfd_write (event_fd nt) 1 s)"
      using s'(1,2) by (simp add: eventfd_write_def eq split: option.splits)
    ultimately show thesis using s1(1) nt by (intro taken [of n nt s']) (simp_all add: eq)
  qed
qed

end
