(* ===== verification/Service_Jobs.thy ===== *)
theory Service_Jobs
  imports Service_Lists
begin

text \<open>
  The processes of the service and the tasks under way between them: what is registered once all processes
  have started, what a task that waits for a processor or for its worker looks like in memory, and what
  each kind of event leaves of the tasks of the other requests.
\<close>

section \<open>The processes\<close>

text \<open>
  The processes by their notify objects: \<open>sv_conf\<close> and \<open>sv_conn\<close> are the configuration and the connection of
  the process that owns the object, \<open>sv_fd\<close> its eventfd.
\<close>

record service =
  sv_queue :: addr
  sv_procs :: "addr set"
  sv_workers :: "addr set"
  sv_conf :: "addr \<Rightarrow> addr"
  sv_conn :: "addr \<Rightarrow> nat"
  sv_fd :: "addr \<Rightarrow> int"

abbreviation sv_all :: "service \<Rightarrow> addr set" where
  "sv_all d \<equiv> sv_procs d \<union> sv_workers d"

text \<open>The state after the start of the processes: everything is registered and configured.\<close>

definition deployed :: "service \<Rightarrow> 'z wstate_scheme \<Rightarrow> bool" where
  "deployed d s \<longleftrightarrow> load s (queues s) (sv_queue d) \<noteq> None
     \<and> finite (sv_all d) \<and> sv_procs d \<inter> sv_workers d = {} \<and> inj_on (sv_fd d) (sv_all d)
     \<and> (\<forall>n \<in> sv_all d. \<exists>nt cn. notifies s n = Some nt \<and> event_fd nt = sv_fd d n
          \<and> read_hanlder nt = Some (if n \<in> sv_procs d then Proc_Process_One_Cycle else Http_Process_Notify_Task)
          \<and> notify_ctx nt = Some (if n \<in> sv_procs d then Proc_Conf (sv_conf d n) else Http_Conf (sv_conf d n))
          \<and> conns s (sv_conn d n) = Some cn \<and> c_sockaddr cn = n)
     \<and> (\<forall>n \<in> sv_procs d. \<exists>pf. pconfs s (sv_conf d n) = Some pf \<and> pc_queue pf = Some (sv_queue d) \<and> pc_notify pf = Some n)
     \<and> (\<forall>w \<in> sv_workers d. \<exists>cf. hconfs s (sv_conf d w) = Some cf \<and> hc_queue cf = Some (sv_queue d) \<and> hc_notify cf = Some w)"

text \<open>What no event of the service changes.\<close>

definition settled :: "'z wstate_scheme \<Rightarrow> 'z wstate_scheme \<Rightarrow> bool" where
  "settled s s' \<longleftrightarrow> notifies s' = notifies s \<and> conns s' = conns s \<and> queues s' = queues s \<and> pconfs s' = pconfs s
     \<and> hconfs s' = hconfs s \<and> (\<forall>a. live s a \<longrightarrow> live s' a)"

lemma settled_trans: "settled s s1 \<Longrightarrow> settled s1 s2 \<Longrightarrow> settled s s2"
  by (simp add: settled_def)

lemma deployed_settled:
  assumes "deployed d s" and "settled s s'"
  shows "deployed d s'"
proof -
  have "load s' (queues s') (sv_queue d) \<noteq> None"
    using assms by (auto simp: deployed_def settled_def load_def split: if_splits)
  then show ?thesis using assms by (simp add: deployed_def settled_def)
qed

lemma relinked_eq: "relinked s s' \<Longrightarrow> \<exists>a b. s' = s\<lparr>qnext := a, qprev := b\<rparr>"
  unfolding relinked_def by blast

lemma relinked_settled: "relinked s s' \<Longrightarrow> settled s s'"
  by (auto simp: settled_def dest!: relinked_eq)

section \<open>The tasks under way\<close>

text \<open>The answer to a request with the body \<open>bs\<close>.\<close>

definition reply_of :: "proto \<Rightarrow> byte list \<Rightarrow> byte list" where
  "reply_of pb bs = pb_bytes pb (if fst (pb_parse pb bs) then Some (ascii ''hehe'') else None)"

definition status_of :: "proto \<Rightarrow> byte list \<Rightarrow> int" where
  "status_of pb bs = (if fst (pb_parse pb bs) then 200 else 500)"

definition one_cell :: "'z tstate_scheme \<Rightarrow> chaddr \<Rightarrow> byte list \<Rightarrow> bool" where
  "one_cell s h bs \<longleftrightarrow> (\<exists>b. get_buf h s = Some (Some b) \<and> get_link h s = Some None \<and> buf_content s b = Some bs)"

text \<open>A task that waits for a processor, and one that waits for its worker.\<close>

definition calling :: "service \<Rightarrow> 'z wstate_scheme \<Rightarrow> addr \<Rightarrow> nat \<Rightarrow> byte list \<Rightarrow> bool" where
  "calling d s t r bs \<longleftrightarrow> (\<exists>tk x cx w. load s (tasks s) t = Some tk
     \<and> closure tk = \<lparr>handler = Some (Method_Handler 0), p1 = Some (Rpc_Ctx x)\<rparr>
     \<and> done_notify tk = Some w \<and> w \<in> sv_workers d \<and> load s (ctxs s) x = Some cx \<and> cx_r cx = r
     \<and> one_buffer s (Req_bufs t) bs)"

definition replying :: "proto \<Rightarrow> 'z tstate_scheme \<Rightarrow> addr \<Rightarrow> nat \<Rightarrow> byte list \<Rightarrow> bool" where
  "replying pb s t r bs \<longleftrightarrow> (\<exists>tk. load s (tasks s) t = Some tk
     \<and> finish tk = \<lparr>handler = Some Request_Finish, p1 = Some (Http_Request r)\<rparr>
     \<and> response_states tk = status_of pb bs \<and> res_length tk = int (length (reply_of pb bs)))
     \<and> one_cell s (Res_bufs t) (reply_of pb bs)"

text \<open>No buffer of a request is used by another request or by a reply.\<close>

definition apart :: "'z tstate_scheme \<Rightarrow> addr set \<Rightarrow> addr set \<Rightarrow> bool" where
  "apart s C D \<longleftrightarrow> (\<forall>t \<in> C. \<forall>u \<in> C. t \<noteq> u \<longrightarrow> get_buf (Req_bufs t) s \<noteq> get_buf (Req_bufs u) s)
     \<and> (\<forall>t \<in> C. \<forall>u \<in> D. get_buf (Req_bufs t) s \<noteq> get_buf (Res_bufs u) s)"

text \<open>
  The tasks \<open>C\<close> that wait for a processor, \<open>D\<close> that wait for a worker and \<open>A\<close> that have been answered;
  \<open>J\<close> gives the request of a task and the request's body.
\<close>

definition jobs ::
  "proto \<Rightarrow> service \<Rightarrow> (addr \<Rightarrow> nat \<times> byte list) \<Rightarrow> 'z wstate_scheme \<Rightarrow> addr set \<Rightarrow> addr set \<Rightarrow> addr set \<Rightarrow> bool" where
  "jobs pb d J s C D A \<longleftrightarrow> (\<forall>t \<in> C. calling d s t (fst (J t)) (snd (J t))) \<and> (\<forall>t \<in> D. replying pb s t (fst (J t)) (snd (J t)))
     \<and> (\<forall>t \<in> A. one_cell s (Res_bufs t) (reply_of pb (snd (J t)))) \<and> apart s C (D \<union> A)
     \<and> C \<inter> D = {} \<and> (C \<union> D) \<inter> A = {} \<and> inj_on (fst \<circ> J) (C \<union> D \<union> A)"

lemma one_buffer_buf: "one_buffer s h bs \<Longrightarrow> \<exists>b. get_buf h s = Some (Some b) \<and> live s b \<and> live s (chowner h)"
  by (auto simp: one_buffer_def mem_buf_def load_Some_iff chain_defs split: if_splits)

lemma one_cell_buf: "one_cell s h bs \<Longrightarrow> \<exists>b. get_buf h s = Some (Some b) \<and> live s b \<and> live s (chowner h)"
  by (auto simp: one_cell_def chain_defs split: if_splits elim: buf_content_SomeE)

lemma kept_one_cell: "mem_kept_but D s s' \<Longrightarrow> h \<notin> D \<Longrightarrow> one_cell s h bs \<Longrightarrow> one_cell s' h bs"
  unfolding one_cell_def by (blast intro: kept_cell kept_content)

lemma new_cell_one: "new_cell s s' h bs \<Longrightarrow> one_cell s' h bs"
  by (auto simp: new_cell_def one_cell_def)

lemma one_cell_holds': "one_cell s h bs \<Longrightarrow> chain_holds s h bs"
  by (auto simp: one_cell_def intro: one_cell_holds)

text \<open>What a function of a task does to the memory of the others: it consumes its own request buffer.\<close>

definition consumed :: "addr \<Rightarrow> 'z tstate_scheme \<Rightarrow> 'z tstate_scheme \<Rightarrow> bool" where
  "consumed t s s' \<longleftrightarrow> (\<exists>b v. get_buf (Req_bufs t) s = Some (Some b) \<and> mem_kept_but {Res_bufs t} (s\<lparr>bufs := (bufs s)(b \<mapsto> v)\<rparr>) s')"

lemma consumed_kept:
  assumes "consumed t s s'" and "h \<noteq> Res_bufs t"
  shows "get_buf h s = Some x \<Longrightarrow> get_buf h s' = Some x"
    and "one_buffer s h bs \<Longrightarrow> get_buf h s \<noteq> get_buf (Req_bufs t) s \<Longrightarrow> one_buffer s' h bs"
    and "one_cell s h bs \<Longrightarrow> get_buf h s \<noteq> get_buf (Req_bufs t) s \<Longrightarrow> one_cell s' h bs"
proof -
  obtain b v where b: "get_buf (Req_bufs t) s = Some (Some b)"
    "mem_kept_but {Res_bufs t} (s\<lparr>bufs := (bufs s)(b \<mapsto> v)\<rparr>) s'" (is "mem_kept_but _ ?s s'")
    using assms(1) by (auto simp: consumed_def)
  have c: "get_buf h ?s = get_buf h s" "get_link h ?s = get_link h s" for h by (simp_all add: chain_defs live_def)
  have m: "mem_buf ?s a bf bs = mem_buf s a bf bs" "buf_content ?s a = buf_content s a" if "a \<noteq> b" for a bf bs
    using that by (simp_all add: mem_buf_def buf_content_def load_def live_def read_bytes_def)
  show "get_buf h s' = Some x" if "get_buf h s = Some x"
    using kept_cell(1) [OF b(2), of h x] assms(2) that c by simp
  show "one_buffer s' h bs" if "one_buffer s h bs" "get_buf h s \<noteq> get_buf (Req_bufs t) s"
  proof (rule kept_one_buffer [OF b(2)])
    show "one_buffer ?s h bs"
      using that b(1) c m unfolding one_buffer_def by force
  qed (use assms(2) in simp)
  show "one_cell s' h bs" if "one_cell s h bs" "get_buf h s \<noteq> get_buf (Req_bufs t) s"
  proof (rule kept_one_cell [OF b(2)])
    show "one_cell ?s h bs"
      using that b(1) c m unfolding one_cell_def by force
  qed (use assms(2) in simp)
qed

lemma jobs_bufs:
  assumes "jobs pb d J s C D A"
  shows "t \<in> C \<Longrightarrow> \<exists>b. get_buf (Req_bufs t) s = Some (Some b) \<and> live s b \<and> live s t"
    and "t \<in> D \<union> A \<Longrightarrow> \<exists>b. get_buf (Res_bufs t) s = Some (Some b) \<and> live s b \<and> live s t"
proof -
  show "\<exists>b. get_buf (Req_bufs t) s = Some (Some b) \<and> live s b \<and> live s t" if "t \<in> C"
    using assms that one_buffer_buf [of s "Req_bufs t"] unfolding jobs_def calling_def by fastforce
  have "\<exists>bs. one_cell s (Res_bufs t) bs" if "t \<in> D \<union> A"
    using assms that unfolding jobs_def replying_def by blast
  then show "\<exists>b. get_buf (Res_bufs t) s = Some (Some b) \<and> live s b \<and> live s t" if "t \<in> D \<union> A"
    using that one_cell_buf [of s "Res_bufs t"] by fastforce
qed

lemma jobs_cong:
  assumes "\<And>t. t \<in> C \<union> D \<union> A \<Longrightarrow> J t = J' t"
  shows "jobs pb d J s C D A = jobs pb d J' s C D A"
proof -
  have "inj_on (fst \<circ> J) (C \<union> D \<union> A) = inj_on (fst \<circ> J') (C \<union> D \<union> A)"
    by (rule inj_on_cong) (simp add: assms)
  then show ?thesis using assms by (auto simp: jobs_def)
qed

lemma apart_kept:
  assumes "apart s C D" and "\<And>t. t \<in> C \<Longrightarrow> \<exists>x. get_buf (Req_bufs t) s = Some x" "\<And>t. t \<in> D \<Longrightarrow> \<exists>x. get_buf (Res_bufs t) s = Some x"
    and "\<And>t x. t \<in> C \<Longrightarrow> get_buf (Req_bufs t) s = Some x \<Longrightarrow> get_buf (Req_bufs t) s' = Some x"
    and "\<And>t x. t \<in> D \<Longrightarrow> get_buf (Res_bufs t) s = Some x \<Longrightarrow> get_buf (Res_bufs t) s' = Some x"
  shows "apart s' C D"
proof -
  have "get_buf (Req_bufs t) s' = get_buf (Req_bufs t) s" if "t \<in> C" for t using assms(2,4) that by fastforce
  moreover have "get_buf (Res_bufs t) s' = get_buf (Res_bufs t) s" if "t \<in> D" for t using assms(3,5) that by fastforce
  ultimately show ?thesis using assms(1) by (simp add: apart_def)
qed

lemma apart_subset: "apart s C D \<Longrightarrow> C' \<subseteq> C \<Longrightarrow> D' \<subseteq> D \<Longrightarrow> apart s C' D'"
  unfolding apart_def by blast

text \<open>Events that only add to the memory leave the tasks under way as they are.\<close>

lemma jobs_kept:
  assumes j: "jobs pb d J s C D A" and k: "mem_kept s s'"
    and same: "\<And>a. live s a \<Longrightarrow> tasks s' a = tasks s a \<and> ctxs s' a = ctxs s a"
  shows "jobs pb d J s' C D A"
proof -
  have ld: "load s' (tasks s') a = Some x" if "load s (tasks s) a = Some x" for a x
    using that same kept_live [OF k] by (auto simp: load_Some_iff)
  have ld': "load s' (ctxs s') a = Some x" if "load s (ctxs s) a = Some x" for a x
    using that same kept_live [OF k] by (auto simp: load_Some_iff)
  note mono = ld ld' kept_one_buffer [OF k] kept_one_cell [OF k]
  have "calling d s' t r bs" if "calling d s t r bs" for t r bs
    using that unfolding calling_def by (blast intro: mono)
  moreover have "replying pb s' t r bs" if "replying pb s t r bs" for t r bs
    using that unfolding replying_def by (blast intro: mono)
  moreover have "apart s' C (D \<union> A)"
  proof (rule apart_kept)
    show "apart s C (D \<union> A)" using j by (simp add: jobs_def)
  qed (use jobs_bufs [OF j] kept_cell [OF k] in blast)+
  ultimately show ?thesis using j kept_one_cell [OF k] by (simp add: jobs_def)
qed

lemma jobs_relinked: "jobs pb d J s C D A \<Longrightarrow> relinked s s' \<Longrightarrow> jobs pb d J s' C D A"
  by (drule relinked_eq, elim exE, rule jobs_kept, assumption) (simp_all add: kept_same)

text \<open>A new task joins the ones that wait for a processor.\<close>

lemma jobs_added:
  assumes j: "jobs pb d J s C D A" and k: "mem_kept s s'"
    and same: "\<And>a. live s a \<Longrightarrow> tasks s' a = tasks s a \<and> ctxs s' a = ctxs s a"
    and t: "calling d s' t r bs" "get_buf (Req_bufs t) s' = Some (Some b)" "\<not> live s b" "\<not> live s t"
    and r: "\<And>u. u \<in> C \<union> D \<union> A \<Longrightarrow> fst (J u) \<noteq> r"
  shows "jobs pb d (J(t := (r, bs))) s' (insert t C) D A"
proof -
  let ?J = "J(t := (r, bs))"
  have nt: "t \<notin> C \<union> D \<union> A" using jobs_bufs [OF j] t(4) by blast
  have j': "jobs pb d ?J s' C D A"
    by (subst jobs_cong [of _ _ _ _ J]) (use jobs_kept [OF j k same] nt in auto)
  have "Some (Some b) \<noteq> get_buf (Req_bufs u) s'" if "u \<in> C" for u
    using jobs_bufs(1) [OF j that] kept_cell(1) [OF k] t(3) by fastforce
  moreover have "Some (Some b) \<noteq> get_buf (Res_bufs u) s'" if "u \<in> D \<union> A" for u
    using jobs_bufs(2) [OF j that] kept_cell(1) [OF k] t(3) by fastforce
  moreover have "apart s' C (D \<union> A)" using j' by (simp add: jobs_def)
  ultimately have "apart s' (insert t C) (D \<union> A)"
    unfolding apart_def using t(2) by (metis insert_iff)
  moreover have "r \<noteq> fst (?J u)" if "u \<in> C \<union> D \<union> A" for u using r [OF that] that nt by auto
  then have "r \<notin> (fst \<circ> ?J) ` (C \<union> D \<union> A)" by (auto simp del: fun_upd_apply)
  then have "inj_on (fst \<circ> ?J) (insert t (C \<union> D \<union> A))"
    using j' nt by (simp add: jobs_def inj_on_insert)
  ultimately show ?thesis using j' t(1) nt by (simp add: jobs_def del: inj_on_insert)
qed

text \<open>The function of a task turns a task that waits for a processor into one that waits for a worker.\<close>

lemma jobs_called:
  assumes j: "jobs pb d J s C D A" and t: "t \<in> C" "J t = (r, bs)"
    and tk: "tasks s' = (tasks s)(t \<mapsto> tk)" "finish tk = \<lparr>handler = Some Request_Finish, p1 = Some (Http_Request r)\<rparr>"
      "response_states tk = status_of pb bs" "res_length tk = int (length (reply_of pb bs))"
    and cx: "ctxs s' = ctxs s" and l: "\<And>a. live s a \<Longrightarrow> live s' a"
    and new: "new_cell s s' (Res_bufs t) (reply_of pb bs)" and c: "consumed t s s'"
  shows "jobs pb d J s' (C - {t}) (insert t D) A"
proof -
  note jd = j [unfolded jobs_def]
  have ap: "apart s C (D \<union> A)" and nt: "t \<notin> D \<union> A" using jd t(1) by blast+
  have lt: "live s t" using jobs_bufs(1) [OF j t(1)] by blast
  have ld: "load s' (tasks s') u = Some x" if "load s (tasks s) u = Some x" "u \<noteq> t" for u x
    using that tk(1) l by (simp add: load_Some_iff)
  have ld': "load s' (ctxs s') u = Some x" if "load s (ctxs s) u = Some x" for u x
    using that cx l by (simp add: load_Some_iff)
  have "calling d s' u (fst (J u)) (snd (J u))" if u: "u \<in> C - {t}" for u
  proof -
    have "get_buf (Req_bufs u) s \<noteq> get_buf (Req_bufs t) s" using ap u t(1) by (auto simp: apart_def)
    with consumed_kept(2) [OF c, of "Req_bufs u"] have "one_buffer s' (Req_bufs u) bs" if "one_buffer s (Req_bufs u) bs" for bs
      using that by simp
    then show ?thesis using jd u unfolding calling_def by (blast intro: ld ld')
  qed
  moreover have cell: "one_cell s' (Res_bufs u) bs" if u: "u \<in> D \<union> A" "one_cell s (Res_bufs u) bs" for u bs
  proof -
    have "get_buf (Req_bufs t) s \<noteq> get_buf (Res_bufs u) s" using ap u t(1) by (auto simp: apart_def)
    then show ?thesis using consumed_kept(3) [OF c _ u(2)] u(1) nt by (metis chaddr.inject(3))
  qed
  moreover have "replying pb s' u (fst (J u)) (snd (J u))" if u: "u \<in> D" for u
    using jd u nt cell [of u] unfolding replying_def by (blast intro: ld)
  moreover have "replying pb s' t (fst (J t)) (snd (J t))"
    using tk t(2) l [OF lt] new_cell_one [OF new] by (simp add: replying_def load_Some_iff)
  moreover have "apart s' (C - {t}) (insert t (D \<union> A))"
  proof -
    have "apart s' (C - {t}) (D \<union> A)"
    proof (rule apart_kept [OF apart_subset [OF ap]])
      show "\<exists>x. get_buf (Res_bufs u) s = Some x" if "u \<in> D \<union> A" for u using jobs_bufs(2) [OF j that] by blast
      show "\<exists>x. get_buf (Req_bufs u) s = Some x" if "u \<in> C - {t}" for u using jobs_bufs(1) [OF j, of u] that by blast
      show "get_buf (Res_bufs u) s' = Some x" if "u \<in> D \<union> A" "get_buf (Res_bufs u) s = Some x" for u x
        using consumed_kept(1) [OF c _ that(2)] that(1) nt by (metis chaddr.inject(3))
    qed (use consumed_kept(1) [OF c] in auto)
    moreover have "get_buf (Req_bufs u) s' \<noteq> get_buf (Res_bufs t) s'" if "u \<in> C - {t}" for u
      using jobs_bufs(1) [OF j, of u] that consumed_kept(1) [OF c, of "Req_bufs u"] new by (fastforce simp: new_cell_def)
    ultimately show ?thesis by (simp add: apart_def)
  qed
  moreover have "(C - {t}) \<inter> insert t D = {}" "((C - {t}) \<union> insert t D) \<inter> A = {}"
    "C - {t} \<union> insert t D \<union> A = C \<union> D \<union> A" using jd t(1) by auto
  ultimately show ?thesis using jd unfolding jobs_def by simp
qed

lemma jobs_answered:
  fixes s s' :: "'z wstate_scheme"
  assumes "jobs pb d J s C D A" and "t \<in> D"
    and "chunks s' = chunks s" "bufs s' = bufs s" "data s' = data s" "chain_buf s' = chain_buf s" "chain_next s' = chain_next s"
      "tasks s' = tasks s" "ctxs s' = ctxs s"
  shows "jobs pb d J s' C (D - {t}) (insert t A)"
proof -
  have "jobs pb d J s' C D A" by (rule jobs_kept [OF assms(1) kept_same [OF assms(3-7)]]) (simp add: assms)
  moreover have "D - {t} \<union> insert t A = D \<union> A" "C \<union> (D - {t}) \<union> insert t A = C \<union> D \<union> A" using assms(2) by auto
  ultimately show ?thesis using assms(2) by (auto simp: jobs_def replying_def)
qed

end
