(* ===== verification/Service_Callbacks.thy ===== *)
theory Service_Callbacks
  imports Service_Jobs
begin

text \<open>
  The invariant of the service, with any number of requests, workers and processors: every request that came with a body has a
  task on the list of a signalled process, or its whole answer has been given to nginx, or it was refused; one that came without
  a body has been answered with the status 400. The read callbacks
  of processors and workers and the handlers of a new request are shown to run to their end and keep it.
\<close>

section \<open>The invariant\<close>

text \<open>What has been asked of nginx for a request: nothing yet, to read the body, or the whole answer.\<close>

fun call_request :: "http_call \<Rightarrow> nat" where
  "call_request (Read_Client_Body r) = r"
| "call_request (Send_Header r st len) = r"
| "call_request (Output_Filter r h) = r"
| "call_request (Finalize_Request r rc) = r"
| "call_request (Subrequest r p t) = r"
| "call_request (Run_Posted r) = r"

definition calls_for :: "nat \<Rightarrow> http_call list \<Rightarrow> http_call list" where
  "calls_for r cs = filter (\<lambda>c. call_request c = r) cs"

lemma calls_for_simps [simp]:
  "calls_for r [] = []" "calls_for r (c # cs) = (if call_request c = r then c # calls_for r cs else calls_for r cs)"
  "calls_for r (cs @ cs') = calls_for r cs @ calls_for r cs'"
  by (simp_all add: calls_for_def)

definition reply_calls :: "http_env \<Rightarrow> proto \<Rightarrow> nat \<Rightarrow> byte list \<Rightarrow> addr \<Rightarrow> http_call list" where
  "reply_calls env pb r bs t =
     (if reply_of pb bs = [] then [Finalize_Request r (en_send env)]
      else [Finalize_Request r (en_filter env), Output_Filter r (Res_bufs t)])
     @ [Send_Header r (status_of pb bs) (Some (int (length (reply_of pb bs)))), Read_Client_Body r]"

definition refused_calls :: "http_env \<Rightarrow> nat \<Rightarrow> http_call list" where
  "refused_calls env r = [Finalize_Request r (en_send env), Send_Header r 500 (Some 0), Read_Client_Body r]"

text \<open>A request whose body is missing is a bad request; one with a body is refused when no processor is idle.\<close>

definition bad_calls :: "nat \<Rightarrow> http_call list" where
  "bad_calls r = [Finalize_Request r 400, Read_Client_Body r]"

definition denied_calls :: "http_env \<Rightarrow> nat \<Rightarrow> byte list option \<Rightarrow> http_call list" where
  "denied_calls env r b = (case b of None \<Rightarrow> bad_calls r | Some bs \<Rightarrow> refused_calls env r)"

lemma denied_calls_simps [simp]:
  "denied_calls env r None = bad_calls r" "denied_calls env r (Some bs) = refused_calls env r"
  by (simp_all add: denied_calls_def)

lemma calls_for_bad: "calls_for r (bad_calls r) = bad_calls r"
  by (simp add: bad_calls_def)

lemma calls_for_denied: "calls_for r' (denied_calls env r b) = (if r' = r then denied_calls env r b else [])"
  by (simp add: denied_calls_def bad_calls_def refused_calls_def split: option.splits)

text \<open>The bodies \<open>B\<close> of the requests that have come, if they had one, the tasks \<open>T\<close> that wait and the tasks \<open>A\<close> that were answered.\<close>

definition book ::
  "http_env \<Rightarrow> proto \<Rightarrow> (nat \<rightharpoonup> byte list option) \<Rightarrow> (addr \<Rightarrow> nat \<times> byte list) \<Rightarrow> 'z wstate_scheme \<Rightarrow> addr set \<Rightarrow> addr set \<Rightarrow> bool" where
  "book env pb B J s T A \<longleftrightarrow> (\<forall>r. B r = None \<longrightarrow> calls_for r (calls s) = [])
     \<and> (\<forall>r b. B r = Some b \<longrightarrow> (\<exists>q. requests s r = Some q \<and> r_ctx q \<noteq> None)
          \<and> (r \<in> (fst \<circ> J) ` (T \<union> A) \<or> calls_for r (calls s) = denied_calls env r b))
     \<and> (\<forall>t \<in> T. B (fst (J t)) = Some (Some (snd (J t))) \<and> calls_for (fst (J t)) (calls s) = [Read_Client_Body (fst (J t))])
     \<and> (\<forall>t \<in> A. B (fst (J t)) = Some (Some (snd (J t)))
          \<and> calls_for (fst (J t)) (calls s) = reply_calls env pb (fst (J t)) (snd (J t)) t)"

text \<open>The tasks on the lists \<open>L\<close> of the processes \<open>N\<close>.\<close>

definition listed :: "(addr \<Rightarrow> addr list) \<Rightarrow> addr set \<Rightarrow> addr set" where
  "listed L N = (\<Union>n \<in> N. set (L n))"

lemma listedI: "n \<in> N \<Longrightarrow> t \<in> set (L n) \<Longrightarrow> t \<in> listed L N"
  unfolding listed_def by blast

lemma listed_Un: "listed L (M \<union> N) = listed L M \<union> listed L N"
  by (simp add: listed_def)

text \<open>
  A process that is not in its callback (\<open>X\<close> are those that are) is signalled exactly if it has tasks; one in its callback
  has taken the signal.
\<close>

definition signals :: "service \<Rightarrow> addr set \<Rightarrow> 'z nstate_scheme \<Rightarrow> (addr \<Rightarrow> addr list) \<Rightarrow> bool" where
  "signals d X s L \<longleftrightarrow> (\<forall>n \<in> sv_all d. \<exists>c. efds s (sv_fd d n) = Some c \<and> c \<le> eventfd_max
     \<and> (if n \<in> X then c = 0 else 0 < c \<longleftrightarrow> L n \<noteq> []))"

definition working ::
  "http_env \<Rightarrow> proto \<Rightarrow> service \<Rightarrow> (nat \<rightharpoonup> byte list option) \<Rightarrow> (addr \<Rightarrow> nat \<times> byte list) \<Rightarrow> addr set
    \<Rightarrow> 'z wstate_scheme \<Rightarrow> (addr \<Rightarrow> addr list) \<Rightarrow> addr set \<Rightarrow> bool" where
  "working env pb d B J X s L A \<longleftrightarrow> deployed d s \<and> pendings s (sv_all d) L
     \<and> idle_any s (sv_queue d) (sv_procs d) \<and> signals d X s L
     \<and> jobs pb d J s (listed L (sv_procs d)) (listed L (sv_workers d)) A
     \<and> book env pb B J s (listed L (sv_all d)) A"

lemma workingD:
  assumes "working env pb d B J X s L A"
  shows "deployed d s" "pendings s (sv_all d) L" "idle_any s (sv_queue d) (sv_procs d)" "signals d X s L"
    "jobs pb d J s (listed L (sv_procs d)) (listed L (sv_workers d)) A" "book env pb B J s (listed L (sv_all d)) A"
  using assms by (simp_all add: working_def)

lemma signals_pushed:
  assumes s: "signals d X s L" and w: "w \<in> sv_all d" "w \<notin> X" and inj: "inj_on (sv_fd d) (sv_all d)"
    and e: "efds s' = efds (eventfd_write (sv_fd d w) 1 s)"
  shows "signals d X s' (L(w := L w @ [t]))"
  unfolding signals_def
proof
  fix n
  assume n: "n \<in> sv_all d"
  obtain c where c: "efds s (sv_fd d n) = Some c" "c \<le> eventfd_max" "if n \<in> X then c = 0 else 0 < c \<longleftrightarrow> L n \<noteq> []"
    using s n unfolding signals_def by blast
  show "\<exists>c. efds s' (sv_fd d n) = Some c \<and> c \<le> eventfd_max \<and> (if n \<in> X then c = 0 else 0 < c \<longleftrightarrow> (L(w := L w @ [t])) n \<noteq> [])"
  proof (cases "n = w")
    case True
    then show ?thesis using eventfd_write_readable [OF c(1,2)] w(2) e by auto
  next
    case False
    then have "sv_fd d n \<noteq> sv_fd d w" using inj n w(1) by (meson inj_on_def)
    then show ?thesis using c False e eventfd_write_other [of "sv_fd d n" "sv_fd d w" 1 s] by simp
  qed
qed

lemma signals_popped: "signals d X s L \<Longrightarrow> n \<in> X \<Longrightarrow> efds s' = efds s \<Longrightarrow> signals d X s' (L(n := ts))"
  unfolding signals_def by fastforce

lemma deployed_proc:
  assumes "deployed d s" and "n \<in> sv_procs d"
  obtains pf where "pconfs s (sv_conf d n) = Some pf" and "pc_queue pf = Some (sv_queue d)" and "pc_notify pf = Some n"
  using assms unfolding deployed_def by blast

lemma deployed_worker:
  assumes "deployed d s" and "w \<in> sv_workers d"
  obtains cf where "hconfs s (sv_conf d w) = Some cf" and "hc_queue cf = Some (sv_queue d)" and "hc_notify cf = Some w"
  using assms unfolding deployed_def by blast

lemma deployed_notify:
  assumes "deployed d s" and "n \<in> sv_all d"
  obtains nt cn where "notifies s n = Some nt" and "event_fd nt = sv_fd d n" and "conns s (sv_conn d n) = Some cn" and "c_sockaddr cn = n"
    and "read_hanlder nt = Some (if n \<in> sv_procs d then Proc_Process_One_Cycle else Http_Process_Notify_Task)"
    and "notify_ctx nt = Some (if n \<in> sv_procs d then Proc_Conf (sv_conf d n) else Http_Conf (sv_conf d n))"
  using assms unfolding deployed_def by blast

lemma listed_moved:
  assumes l: "pendings s (sv_all d) L" and n: "n \<in> sv_procs d" "w \<in> sv_workers d" "sv_procs d \<inter> sv_workers d = {}"
    and t: "L n = t # ts"
  shows "listed (L(n := ts, w := L w @ [t])) (sv_procs d) = listed L (sv_procs d) - {t}"
    and "listed (L(n := ts, w := L w @ [t])) (sv_workers d) = insert t (listed L (sv_workers d))"
    and "\<And>m. m \<in> sv_all d \<Longrightarrow> t \<notin> set ((L(n := ts)) m)"
proof -
  have nw: "n \<notin> sv_workers d" "w \<notin> sv_procs d" "n \<noteq> w" using n by auto
  have dt: "t \<notin> set ts" using pendings_distinct [OF l, of n] n(1) t by auto
  have ot: "t \<notin> set (L m)" if "m \<in> sv_all d" "m \<noteq> n" for m
    using pendings_apart [OF l, of n m] that n(1) t by auto
  show "\<And>m. m \<in> sv_all d \<Longrightarrow> t \<notin> set ((L(n := ts)) m)" using dt ot by simp
  show "listed (L(n := ts, w := L w @ [t])) (sv_procs d) = listed L (sv_procs d) - {t}"
  proof -
    have "set ((L(n := ts, w := L w @ [t])) m) = set (L m) - {t}" if "m \<in> sv_procs d" for m
      using that nw(2) dt ot [of m] t by (cases "m = n") auto
    then show ?thesis unfolding listed_def by blast
  qed
  show "listed (L(n := ts, w := L w @ [t])) (sv_workers d) = insert t (listed L (sv_workers d))"
    using n(2) nw unfolding listed_def by (auto split: if_splits)
qed

section \<open>A processor's callback\<close>

text \<open>One turn of the processor \<open>n\<close>: it takes its first task, whose function sends it to its worker.\<close>

lemma proc_turn:
  fixes s :: "'z cstate_scheme"
  assumes inv: "working env pb d B J {n} s L A" and n: "n \<in> sv_procs d" and t: "L n = t # ts"
    and sp: "spare (pb_pick pb) (chunks s) (Suc (Suc k))" and fits: "\<And>bs. length (reply_of pb bs) \<le> 4096"
  obtains s1 s2 L' where "cycle_pop (sv_conf d n) s = Some (Some (TaskNode t), s1)"
    and "cycle_body (rpc_exec pb) (TaskNode t) s1 = Some s2" and "working env pb d B J {n} s2 L' A"
    and "L' n = ts" and "listed L' (sv_procs d) = listed L (sv_procs d) - {t}"
    and "listed L' (sv_workers d) = insert t (listed L (sv_workers d))" and "spare (pb_pick pb) (chunks s2) k"
    and "settled s s2"
proof -
  note iv = workingD [OF inv]
  have na: "n \<in> sv_all d" and disj: "sv_procs d \<inter> sv_workers d = {}" and inj: "inj_on (sv_fd d) (sv_all d)"
    using n iv(1) by (simp_all add: deployed_def)
  obtain pf where pf: "pconfs s (sv_conf d n) = Some pf" "pc_notify pf = Some n" using deployed_proc [OF iv(1) n] by metis
  obtain r bs where J: "J t = (r, bs)" by force
  have tC: "t \<in> listed L (sv_procs d)" using n t by (simp add: listedI)
  then have "calling d s t r bs" using iv(5) J by (auto simp: jobs_def)
  then obtain tk x cx w where tk: "load s (tasks s) t = Some tk" "closure tk = \<lparr>handler = Some (Method_Handler 0), p1 = Some (Rpc_Ctx x)\<rparr>"
    "done_notify tk = Some w" "w \<in> sv_workers d" "load s (ctxs s) x = Some cx" "cx_r cx = r" "one_buffer s (Req_bufs t) bs"
    unfolding calling_def by blast
  have wa: "w \<in> sv_all d" and wn: "w \<noteq> n" using tk(4) n disj by auto
  obtain s1 where s1: "pending_pop n s = Some (Some (TaskNode t), s1)" "pendings s1 (sv_all d) (L(n := ts))"
    "idle_same s s1" "relinked s s1"
    by (rule pendings_pop [OF iv(2) na t])
  obtain a b where eq: "s1 = s\<lparr>qnext := a, qprev := b\<rparr>" using relinked_eq [OF s1(4)] by blast
  note mv = listed_moved [OF iv(2) n tk(4) disj t]
  have pw: "pending s1 w (map TaskNode (L w))" using pendings_pending [OF s1(2) wa] wn by simp
  have tw: "t \<notin> set (L w)" using mv(3) [OF wa] wn by simp
  obtain nt where nt: "notifies s w = Some nt" "event_fd nt = sv_fd d w" using deployed_notify [OF iv(1) wa] by metis
  obtain ok m where pm: "pb_parse pb bs = (ok, m)" by force
  let ?reply = "if ok then Some (ascii ''hehe'') else None"
  have rp: "pb_bytes pb ?reply = reply_of pb bs" "(if ok then 200 else 500) = status_of pb bs"
    by (simp_all add: reply_of_def status_of_def pm)
  have pre: "load s1 (ctxs s1) x = Some cx" "one_buffer s1 (Req_bufs t) bs" "load s1 (tasks s1) t = Some tk"
    "notifies s1 w = Some nt" "spare (pb_pick pb) (chunks s1) (Suc (Suc k))"
    using tk nt sp by (simp_all add: relinked_same [OF s1(4)])
  obtain s2 where s2: "ngxrpc_inspect_application_interface pb t x s1 = Some s2" "sent_back t w (L w) nt s1 s2"
    "tasks s2 = (tasks s1)(t \<mapsto> tk\<lparr>response_states := status_of pb bs, res_length := int (length (reply_of pb bs)),
        finish := \<lparr>handler = Some Request_Finish, p1 = Some (Http_Request (cx_r cx))\<rparr>\<rparr>)"
    "new_cell s1 s2 (Res_bufs t) (reply_of pb bs)" "spare (pb_pick pb) (chunks s2) k"
    "\<exists>b v. get_buf (Req_bufs t) s1 = Some (Some b) \<and> mem_kept_but {Res_bufs t} (s1\<lparr>bufs := (bufs s1)(b \<mapsto> v)\<rparr>) s2"
    using interface_ok [OF pre(1,2) pm pre(3) tk(3) pw tw pre(4,5) refl] fits rp by auto
  note sb = sent_backD [OF s2(2)]
  let ?L = "L(n := ts, w := L w @ [t])"
  have L: "(L(n := ts)) w = L w" using wn by simp
  have "pendings s2 (sv_all d) ((L(n := ts))(w := (L(n := ts)) w @ [t]))"
    by (rule pendings_pushed [OF s1(2) wa _ _ _ mv(3)]) (use sb L in auto)
  then have l2: "pendings s2 (sv_all d) ?L" by (simp only: L)
  have i2: "idle_any s2 (sv_queue d) (sv_procs d)"
    by (rule idle_same_any [OF sb(13) idle_same_any [OF s1(3) iv(3)]])
  have st: "settled s s2"
    by (rule settled_trans [OF relinked_settled [OF s1(4)]]) (use sb idle_same_live [OF sb(13)] in \<open>simp add: settled_def\<close>)
  then have d2: "deployed d s2" by (rule deployed_settled [OF iv(1)])
  have "signals d {n} s1 (L(n := ts))" by (rule signals_popped [OF iv(4)]) (simp_all add: eq)
  then have "signals d {n} s2 ((L(n := ts))(w := (L(n := ts)) w @ [t]))"
    by (rule signals_pushed [OF _ wa _ inj]) (use wn sb(9) nt(2) in auto)
  then have g2: "signals d {n} s2 ?L" by (simp only: L)
  have "jobs pb d J s2 (listed L (sv_procs d) - {t}) (insert t (listed L (sv_workers d))) A"
    by (rule jobs_called [OF jobs_relinked [OF iv(5) s1(4)] tC J s2(3) _ _ _ sb(8) _ s2(4)])
      (use tk(6) idle_same_live [OF sb(13)] s2(6) in \<open>simp_all add: consumed_def\<close>)
  then have j2: "jobs pb d J s2 (listed ?L (sv_procs d)) (listed ?L (sv_workers d)) A" by (simp add: mv(1,2))
  have "listed ?L (sv_all d) = listed L (sv_all d)" unfolding listed_Un mv(1,2) using tC by blast
  then have "book env pb B J s2 (listed ?L (sv_all d)) A"
    using iv(6) sb(3,4) by (simp add: book_def eq)
  then have w2: "working env pb d B J {n} s2 ?L A" using d2 l2 i2 g2 j2 by (simp add: working_def)
  have "cycle_pop (sv_conf d n) s = Some (Some (TaskNode t), s1)"
    using s1(1) pf by (simp add: cycle_pop_eq)
  moreover have "cycle_body (rpc_exec pb) (TaskNode t) s1 = Some s2"
    using pre(3) tk(2) s2(1) by (simp add: cycle_body_def rpc_exec_def)
  ultimately show thesis using that [OF _ _ w2 _ mv(1,2) s2(5) st] wn by simp
qed

text \<open>The loop of a cycle hands all tasks of the processor to their workers.\<close>

lemma proc_drains:
  fixes s :: "'z cstate_scheme"
  assumes "working env pb d B J {n} s L A" and "n \<in> sv_procs d"
    and "spare (pb_pick pb) (chunks s) (2 * length (L n) + k)" and "\<And>bs. length (reply_of pb bs) \<le> 4096"
  shows "\<exists>s' L'. drain (cycle_pop (sv_conf d n)) (cycle_body (rpc_exec pb)) s = Some s'
     \<and> working env pb d B J {n} s' L' A \<and> L' n = [] \<and> listed L' (sv_procs d) = listed L (sv_procs d) - set (L n)
     \<and> listed L' (sv_workers d) = listed L (sv_workers d) \<union> set (L n) \<and> spare (pb_pick pb) (chunks s') k \<and> settled s s'"
  using assms(1,3)
proof (induction "L n" arbitrary: s L)
  case Nil
  obtain pf where "pconfs s (sv_conf d n) = Some pf" "pc_notify pf = Some n"
    using deployed_proc [OF workingD(1) [OF Nil.prems(1)] assms(2)] by metis
  then have "proc_pending s (sv_conf d n) n []"
    using pendings_pending [OF workingD(2) [OF Nil.prems(1)], of n] assms(2) Nil.hyps [symmetric] by (simp add: proc_pending_def)
  from proc_pool.pop_none [OF this] have "drain (cycle_pop (sv_conf d n)) (cycle_body (rpc_exec pb)) s = Some s"
    by (subst drain_unfold) simp
  then show ?case using Nil by (intro exI [of _ s] exI [of _ L]) (simp add: settled_def)
next
  case (Cons t ts)
  have "spare (pb_pick pb) (chunks s) (Suc (Suc (2 * length ts + k)))"
    using Cons.prems(2) Cons.hyps(2) [symmetric] by simp
  then obtain s1 s2 L1 where s2: "cycle_pop (sv_conf d n) s = Some (Some (TaskNode t), s1)"
    "cycle_body (rpc_exec pb) (TaskNode t) s1 = Some s2" "working env pb d B J {n} s2 L1 A" "L1 n = ts"
    "listed L1 (sv_procs d) = listed L (sv_procs d) - {t}" "listed L1 (sv_workers d) = insert t (listed L (sv_workers d))"
    "spare (pb_pick pb) (chunks s2) (2 * length ts + k)" "settled s s2"
    by (rule proc_turn [OF Cons.prems(1) assms(2) Cons.hyps(2) [symmetric] _ assms(4)])
  obtain s' L' where "drain (cycle_pop (sv_conf d n)) (cycle_body (rpc_exec pb)) s2 = Some s'"
    "working env pb d B J {n} s' L' A" "L' n = []" "listed L' (sv_procs d) = listed L1 (sv_procs d) - set ts"
    "listed L' (sv_workers d) = listed L1 (sv_workers d) \<union> set ts" "spare (pb_pick pb) (chunks s') k" "settled s2 s'"
    using Cons.hyps(1) [OF s2(4) [symmetric] s2(3)] s2(4,7) by metis
  moreover from this(1) have "drain (cycle_pop (sv_conf d n)) (cycle_body (rpc_exec pb)) s = Some s'"
    by (subst drain_unfold) (simp add: s2(1,2))
  ultimately show ?case
    using s2(5,6) settled_trans [OF s2(8)] Cons.hyps(2) [symmetric] by (intro exI [of _ s'] exI [of _ L']) auto
qed

lemma working_efds:
  fixes s :: "'z wstate_scheme"
  assumes w: "working env pb d B J X s L A" and g: "signals d X' (s\<lparr>efds := e\<rparr>) L"
  shows "working env pb d B J X' (s\<lparr>efds := e\<rparr>) L A"
proof -
  let ?s = "s\<lparr>efds := e\<rparr>"
  note iv = workingD [OF w]
  have "deployed d ?s" by (rule deployed_settled [OF iv(1)]) (simp add: settled_def)
  moreover have "pendings ?s (sv_all d) L" by (rule pendings_same [OF iv(2)]) simp_all
  moreover have "idle_any ?s (sv_queue d) (sv_procs d)" by (rule idle_same_any [OF idle_same_links iv(3)]) simp_all
  moreover have "jobs pb d J ?s (listed L (sv_procs d)) (listed L (sv_workers d)) A"
    by (rule jobs_kept [OF iv(5) kept_same]) simp_all
  moreover have "book env pb B J ?s (listed L (sv_all d)) A" using iv(6) by (simp add: book_def)
  ultimately show ?thesis using g by (simp add: working_def)
qed

lemma working_relinked:
  fixes s s' :: "'z wstate_scheme"
  assumes w: "working env pb d B J X s L A" and r: "relinked s s'" and l: "pendings s' (sv_all d) L"
    and i: "idle_any s' (sv_queue d) (sv_procs d)"
  shows "working env pb d B J X s' L A"
proof -
  note iv = workingD [OF w]
  obtain a b where eq: "s' = s\<lparr>qnext := a, qprev := b\<rparr>" using relinked_eq [OF r] by blast
  have "signals d X s' L" "book env pb B J s' (listed L (sv_all d)) A"
    using iv(4,6) by (simp_all add: signals_def book_def eq)
  then show ?thesis
    using deployed_settled [OF iv(1) relinked_settled [OF r]] jobs_relinked [OF iv(5) r] l i by (simp add: working_def)
qed

text \<open>A callback starts with taking the signal and ends with an empty list.\<close>

lemma signals_taken:
  assumes "signals d {} s L" and "n \<in> sv_all d" and "inj_on (sv_fd d) (sv_all d)"
  shows "signals d {n} (s\<lparr>efds := (efds s)(sv_fd d n \<mapsto> 0)\<rparr>) L"
  unfolding signals_def
proof
  fix m
  assume m: "m \<in> sv_all d"
  then have "m = n \<or> sv_fd d m \<noteq> sv_fd d n" using assms(2,3) by (auto simp: inj_on_def)
  then show "\<exists>c. efds (s\<lparr>efds := (efds s)(sv_fd d n \<mapsto> 0)\<rparr>) (sv_fd d m) = Some c \<and> c \<le> eventfd_max
      \<and> (if m \<in> {n} then c = 0 else 0 < c \<longleftrightarrow> L m \<noteq> [])"
    using assms(1) m by (auto simp: signals_def)
qed

lemma signals_zero: "signals d {n} s L \<Longrightarrow> n \<in> sv_all d \<Longrightarrow> efds s (sv_fd d n) = Some 0"
  unfolding signals_def by (metis singletonI)

lemma signals_done: "signals d {n} s L \<Longrightarrow> L n = [] \<Longrightarrow> signals d {} s L"
  unfolding signals_def by (metis empty_iff less_numeral_extra(3) singletonD)

text \<open>How a process dispatches its callback.\<close>

definition process_call ::
  "http_env \<Rightarrow> proto \<Rightarrow> (byte list \<Rightarrow> bool) \<Rightarrow> (nat \<Rightarrow> byte) \<Rightarrow> service \<Rightarrow> addr
    \<Rightarrow> notify_fn \<Rightarrow> notify_ctx \<Rightarrow> 'z cstate_scheme \<Rightarrow> 'z cstate_scheme option" where
  "process_call env pb cmp junk d n =
     proc_call (rpc_exec pb) (ngx_http_rpc_process_notify_task (worker_run env cmp junk) (sv_conf d n))"

text \<open>The processor's read callback: two cycles, after which the idle list is the loop of this processor.\<close>

lemma proc_wakes:
  fixes s :: "'z cstate_scheme"
  assumes inv: "working env pb d B J {} s L A" and n: "n \<in> sv_procs d" and c: "efds s (sv_fd d n) = Some c" "0 < c"
    and sp: "spare (pb_pick pb) (chunks s) (2 * length (L n) + k)" and fits: "\<And>bs. length (reply_of pb bs) \<le> 4096"
  shows "\<exists>s' L'. ngx_rpc_notify_read_handler (process_call env pb cmp junk d n) (sv_conn d n) s = Some s'
     \<and> working env pb d B J {} s' L' A \<and> listed L' (sv_procs d) = listed L (sv_procs d) - set (L n)
     \<and> listed L' (sv_workers d) = listed L (sv_workers d) \<union> set (L n) \<and> spare (pb_pick pb) (chunks s') k \<and> settled s s'"
proof -
  note iv = workingD [OF inv]
  have na: "n \<in> sv_all d" and inj: "inj_on (sv_fd d) (sv_all d)" using n iv(1) by (simp_all add: deployed_def)
  obtain nt cn where nt: "notifies s n = Some nt" "event_fd nt = sv_fd d n" "conns s (sv_conn d n) = Some cn" "c_sockaddr cn = n"
    "read_hanlder nt = Some Proc_Process_One_Cycle" "notify_ctx nt = Some (Proc_Conf (sv_conf d n))"
    by (rule deployed_notify [OF iv(1) na]) (use n in simp)
  let ?s0 = "s\<lparr>efds := (efds s)(sv_fd d n \<mapsto> 0)\<rparr>" and ?call = "process_call env pb cmp junk d n :: _ \<Rightarrow> _ \<Rightarrow> 'z cstate_scheme \<Rightarrow> _"
  have g0: "signals d {n} ?s0 L" by (rule signals_taken [OF iv(4) na inj])
  have w0: "working env pb d B J {n} ?s0 L A" by (rule working_efds [OF inv g0])
  have "spare (pb_pick pb) (chunks ?s0) (2 * length (L n) + k)" using sp by simp
  from proc_drains [OF w0 n this fits] obtain s1 L' where
    s1: "drain (cycle_pop (sv_conf d n)) (cycle_body (rpc_exec pb)) ?s0 = Some s1" "working env pb d B J {n} s1 L' A" "L' n = []"
      "listed L' (sv_procs d) = listed L (sv_procs d) - set (L n)" "listed L' (sv_workers d) = listed L (sv_workers d) \<union> set (L n)"
      "spare (pb_pick pb) (chunks s1) k" "settled ?s0 s1" by blast
  note iv1 = workingD [OF s1(2)]
  obtain pf where pf: "pconfs s1 (sv_conf d n) = Some pf" "pc_queue pf = Some (sv_queue d)" "pc_notify pf = Some n"
    using deployed_proc [OF iv1(1) n] .
  have p1: "pending s1 n []" using pendings_pending [OF iv1(2) na] s1(3) by simp
  have ln: "live s n" "live s1 n" using pendings_pending [OF iv(2) na] p1 by (auto dest: pending_live)
  obtain s2 s3 where s2: "put_idle (sv_queue d) n s1 = Some s2" "put_idle (sv_queue d) n s2 = Some s3" "idle_loop s3 (sv_queue d) n"
    "relinked s1 s2" "relinked s1 s3"
    "\<And>p ys. ring s1 p ys \<Longrightarrow> \<forall>x \<in> set (p # ys). \<not> idle_node x \<Longrightarrow> ring s2 p ys"
    "\<And>p ys. ring s1 p ys \<Longrightarrow> \<forall>x \<in> set (p # ys). \<not> idle_node x \<Longrightarrow> ring s3 p ys"
    using put_twice [OF iv1(3) ln(2)] by metis
  have c1: "?call Proc_Process_One_Cycle (Proc_Conf (sv_conf d n)) ?s0 = Some s2"
    using s1(1) pf s2(1) by (simp add: process_call_def proc_call_def one_cycle_code)
  have "pending s2 n []" using p1 s2(6) [of "NotifyHead n" "[]"] relinked_same(7) [OF s2(4)] by (simp add: pending_def)
  then have "proc_pending s2 (sv_conf d n) n []" using pf relinked_same(6) [OF s2(4)] by (simp add: proc_pending_def)
  from proc_pool.pop_none [OF this] have "drain (cycle_pop (sv_conf d n)) (cycle_body (rpc_exec pb)) s2 = Some s2"
    by (subst drain_unfold) simp
  then have c2: "?call Proc_Process_One_Cycle (Proc_Conf (sv_conf d n)) s2 = Some s3"
    using pf s2(2) relinked_same(6) [OF s2(4)]
    by (simp add: process_call_def proc_call_def one_cycle_code)
  have e1: "efds s1 (sv_fd d n) = Some 0" by (rule signals_zero [OF iv1(4) na])
  have "notify_read_loop ?call n s = ?call Proc_Process_One_Cycle (Proc_Conf (sv_conf d n)) s2"
  proof (rule read_loop_signalled [OF _ nt(5,6) c(1) [folded nt(2)] c(2)])
    show "load s (notifies s) n = Some nt" using nt(1) ln(1) by (simp add: load_def)
    show "?call Proc_Process_One_Cycle (Proc_Conf (sv_conf d n)) (s\<lparr>efds := (efds s)(event_fd nt \<mapsto> 0)\<rparr>) = Some s2"
      using c1 nt(2) by simp
    show "load s2 (notifies s2) n = Some nt" "efds s2 (event_fd nt) = Some 0"
      using relinked_same [OF s2(4)] nt(1,2) ln(2) s1(7) e1 by (simp_all add: load_def settled_def)
  qed
  then have run: "ngx_rpc_notify_read_handler ?call (sv_conn d n) s = Some s3"
    using nt(3,4) c2 by (simp add: ngx_rpc_notify_read_handler_def)
  have "pendings s3 (sv_all d) L'"
    by (rule pendings_frame [OF iv1(2)]) (use relinked_same(7) [OF s2(5)] s2(7) in auto)
  moreover have "idle_any s3 (sv_queue d) (sv_procs d)" using s2(3) n unfolding idle_any_def by blast
  ultimately have w3: "working env pb d B J {n} s3 L' A" by (rule working_relinked [OF s1(2) s2(5)])
  have "s3\<lparr>efds := efds s3\<rparr> = s3" by simp
  then have "working env pb d B J {} s3 L' A"
    using working_efds [OF w3, of "{}" "efds s3"] signals_done [OF workingD(4) [OF w3] s1(3)] by simp
  moreover have "settled s ?s0" by (simp add: settled_def)
  then have "settled s s3" using settled_trans s1(7) relinked_settled [OF s2(5)] by blast
  ultimately show ?thesis using run s1(4-6) relinked_same(1) [OF s2(5)] by (intro exI [of _ s3] exI [of _ L']) simp
qed

section \<open>A worker's callback\<close>

lemma calls_for_all: "\<forall>c \<in> set cs. call_request c = r \<Longrightarrow> calls_for r' cs = (if r' = r then cs else [])"
  by (induction cs) auto

lemma book_answered:
  assumes b: "book env pb B J s T A" and t: "t \<in> T" "J t = (r, bs)" "t \<notin> A" and inj: "inj_on (fst \<circ> J) (T \<union> A)"
    and q: "requests s r = Some q" "requests s' = (requests s)(r \<mapsto> q')" "r_ctx q' = r_ctx q"
    and cs: "calls s' = cs @ calls s" "\<forall>c \<in> set cs. call_request c = r" "reply_calls env pb r bs t = cs @ [Read_Client_Body r]"
  shows "book env pb B J s' (T - {t}) (insert t A)"
proof -
  note bd = b [unfolded book_def]
  have tu: "T - {t} \<union> insert t A = T \<union> A" using t(1) by blast
  have oth: "fst (J u) \<noteq> r" if "u \<in> T \<union> A" "u \<noteq> t" for u
    using inj_onD [OF inj, of u t] that t(1,2) by auto
  have c: "calls_for r' (calls s') = (if r' = r then cs else []) @ calls_for r' (calls s)" for r'
    using calls_for_all [OF cs(2)] cs(1) by simp
  have ct: "B r = Some (Some bs)" "calls_for r (calls s) = [Read_Client_Body r]" using bd t(1,2) by auto
  have rT: "r \<in> (fst \<circ> J) ` (T \<union> A)" using t(1,2) by (auto intro: rev_image_eqI)
  have rq: "r_ctx q' \<noteq> None" using bd ct(1) q(1,3) by fastforce
  have "calls_for r' (calls s') = []" if "B r' = None" for r'
    using bd that ct(1) c by auto
  moreover have "(\<exists>q. requests s' r' = Some q \<and> r_ctx q \<noteq> None)
      \<and> (r' \<in> (fst \<circ> J) ` (T \<union> A) \<or> calls_for r' (calls s') = denied_calls env r' b)" if "B r' = Some b" for r' b
  proof (cases "r' = r")
    case True
    then show ?thesis using rT rq q(2) by simp
  next
    case False
    then show ?thesis using bd that q(2) c by simp
  qed
  moreover have "B (fst (J u)) = Some (Some (snd (J u))) \<and> calls_for (fst (J u)) (calls s') = [Read_Client_Body (fst (J u))]"
    if "u \<in> T - {t}" for u
    using bd that oth [of u] c by simp
  moreover have "B (fst (J u)) = Some (Some (snd (J u)))
      \<and> calls_for (fst (J u)) (calls s') = reply_calls env pb (fst (J u)) (snd (J u)) u" if "u \<in> insert t A" for u
  proof (cases "u = t")
    case True
    then show ?thesis using ct t(2) c cs(3) by simp
  next
    case False
    then show ?thesis using bd that oth [of u] c by simp
  qed
  ultimately show ?thesis unfolding book_def tu by blast
qed

text \<open>One turn of the worker \<open>w\<close>: it takes its first task and answers the request.\<close>

lemma worker_turn:
  fixes s :: "'z cstate_scheme"
  assumes inv: "working env pb d B J {w} s L A" and w: "w \<in> sv_workers d" and t: "L w = t # ts" and e: "en_cleanup env"
  obtains s1 s2 L' where "worker_pop (sv_conf d w) s = Some (Some (TaskNode t), s1)"
    and "worker_body (worker_run env cmp junk) (TaskNode t) s1 = Some s2" and "working env pb d B J {w} s2 L' (insert t A)"
    and "L' w = ts" and "listed L' (sv_procs d) = listed L (sv_procs d)"
    and "listed L' (sv_workers d) = listed L (sv_workers d) - {t}" and "chunks s2 = chunks s" and "settled s s2"
proof -
  note iv = workingD [OF inv]
  have wa: "w \<in> sv_all d" and wp: "w \<notin> sv_procs d" using w iv(1) by (auto simp: deployed_def)
  obtain cf where cf: "hconfs s (sv_conf d w) = Some cf" "hc_notify cf = Some w" using deployed_worker [OF iv(1) w] by metis
  obtain r bs where J: "J t = (r, bs)" by force
  have tD: "t \<in> listed L (sv_workers d)" using w t by (simp add: listedI)
  then have tT: "t \<in> listed L (sv_all d)" and tn: "t \<notin> listed L (sv_procs d)" "t \<notin> A"
    using iv(5) by (auto simp: jobs_def listed_Un)
  have "replying pb s t r bs" using iv(5) J tD unfolding jobs_def by fastforce
  then obtain tk where tk: "load s (tasks s) t = Some tk"
    "finish tk = \<lparr>handler = Some Request_Finish, p1 = Some (Http_Request r)\<rparr>"
    "response_states tk = status_of pb bs" "res_length tk = int (length (reply_of pb bs))"
    unfolding replying_def by blast
  have "B r = Some (Some bs)" using iv(6) tT J unfolding book_def by fastforce
  then obtain q where q: "requests s r = Some q" using iv(6) unfolding book_def by blast
  obtain s1 where s1: "pending_pop w s = Some (Some (TaskNode t), s1)" "pendings s1 (sv_all d) (L(w := ts))"
    "idle_same s s1" "relinked s s1"
    by (rule pendings_pop [OF iv(2) wa t])
  obtain a b where eq: "s1 = s\<lparr>qnext := a, qprev := b\<rparr>" using relinked_eq [OF s1(4)] by blast
  let ?q = "(answered tk q)\<lparr>r_cleanups := (Task_Destory, t) # r_cleanups q\<rparr>" and ?cs = "answer_calls env t tk r q"
  let ?s2 = "s1\<lparr>requests := (requests s1)(r \<mapsto> ?q), calls := ?cs @ calls s1\<rparr>" and ?L = "L(w := ts)"
  have pre: "load s1 (tasks s1) t = Some tk" "requests s1 r = Some q"
    using tk(1) q by (simp_all add: relinked_same [OF s1(4)])
  have body: "worker_body (worker_run env cmp junk) (TaskNode t) s1 = Some ?s2"
    using pre(1) tk(2) request_finish_eq [OF pre e] by (simp add: worker_body_def worker_run_def)
  have pop: "worker_pop (sv_conf d w) s = Some (Some (TaskNode t), s1)"
    using s1(1) cf by (simp add: worker_pop_eq)
  have dt: "t \<notin> set ts" using pendings_distinct [OF iv(2) wa] t by simp
  have ot: "t \<notin> set (L m)" if "m \<in> sv_all d" "m \<noteq> w" for m
    using pendings_apart [OF iv(2) wa that(1)] that(2) t by auto
  have lp: "listed ?L (sv_procs d) = listed L (sv_procs d)" using wp by (auto simp: listed_def split: if_splits)
  have "set (?L m) = set (L m) - {t}" if "m \<in> sv_workers d" for m
    using that dt ot [of m] t by (cases "m = w") auto
  then have lw: "listed ?L (sv_workers d) = listed L (sv_workers d) - {t}" unfolding listed_def by blast
  have la: "listed ?L (sv_all d) = listed L (sv_all d) - {t}" unfolding listed_Un lp lw using tn(1) by blast
  have st: "settled s ?s2"
    by (rule settled_trans [OF relinked_settled [OF s1(4)]]) (simp add: settled_def live_def)
  have "pendings ?s2 (sv_all d) ?L" by (rule pendings_same [OF s1(2)]) (simp_all add: live_def)
  moreover have "idle_any ?s2 (sv_queue d) (sv_procs d)"
    by (rule idle_same_any [OF idle_same_links idle_same_any [OF s1(3) iv(3)]]) simp_all
  moreover have "signals d {w} ?s2 ?L" by (rule signals_popped [OF iv(4)]) (simp_all add: eq)
  moreover have "jobs pb d J ?s2 (listed ?L (sv_procs d)) (listed ?L (sv_workers d)) (insert t A)"
    unfolding lp lw by (rule jobs_answered [OF iv(5) tD]) (simp_all add: eq)
  moreover have "inj_on (fst \<circ> J) (listed L (sv_all d) \<union> A)" using iv(5) by (simp add: jobs_def listed_Un)
  then have "book env pb B J ?s2 (listed ?L (sv_all d)) (insert t A)"
    unfolding la
    by (rule book_answered [OF iv(6) tT J tn(2) _ q, where q' = ?q and cs = ?cs])
      (use tk(3,4) in \<open>auto simp: eq answered_def answer_calls_def reply_calls_def\<close>)
  ultimately have "working env pb d B J {w} ?s2 ?L (insert t A)"
    using deployed_settled [OF iv(1) st] by (simp add: working_def)
  then show thesis using that [OF pop body _ _ lp lw _ st] by (simp add: eq)
qed

lemma worker_drains:
  fixes s :: "'z cstate_scheme"
  assumes "working env pb d B J {w} s L A" and "w \<in> sv_workers d" and "en_cleanup env"
  shows "\<exists>s' L'. drain (worker_pop (sv_conf d w)) (worker_body (worker_run env cmp junk)) s = Some s'
     \<and> working env pb d B J {w} s' L' (A \<union> set (L w)) \<and> L' w = [] \<and> listed L' (sv_procs d) = listed L (sv_procs d)
     \<and> listed L' (sv_workers d) = listed L (sv_workers d) - set (L w) \<and> chunks s' = chunks s \<and> settled s s'"
  using assms(1)
proof (induction "L w" arbitrary: s L A)
  case Nil
  obtain cf where "hconfs s (sv_conf d w) = Some cf" "hc_notify cf = Some w"
    using deployed_worker [OF workingD(1) [OF Nil.prems] assms(2)] by metis
  then have "worker_pending s (sv_conf d w) w []"
    using pendings_pending [OF workingD(2) [OF Nil.prems], of w] assms(2) Nil.hyps [symmetric] by (simp add: worker_pending_def)
  from worker_pool.pop_none [OF this] have "drain (worker_pop (sv_conf d w)) (worker_body (worker_run env cmp junk)) s = Some s"
    by (subst drain_unfold) simp
  then show ?case using Nil by (intro exI [of _ s] exI [of _ L]) (simp add: settled_def)
next
  case (Cons t ts)
  obtain s1 s2 L1 where s2: "worker_pop (sv_conf d w) s = Some (Some (TaskNode t), s1)"
    "worker_body (worker_run env cmp junk) (TaskNode t) s1 = Some s2" "working env pb d B J {w} s2 L1 (insert t A)" "L1 w = ts"
    "listed L1 (sv_procs d) = listed L (sv_procs d)" "listed L1 (sv_workers d) = listed L (sv_workers d) - {t}"
    "chunks s2 = chunks s" "settled s s2"
    by (rule worker_turn [OF Cons.prems assms(2) Cons.hyps(2) [symmetric] assms(3)])
  obtain s' L' where "drain (worker_pop (sv_conf d w)) (worker_body (worker_run env cmp junk)) s2 = Some s'"
    "working env pb d B J {w} s' L' (insert t A \<union> set ts)" "L' w = []" "listed L' (sv_procs d) = listed L1 (sv_procs d)"
    "listed L' (sv_workers d) = listed L1 (sv_workers d) - set ts" "chunks s' = chunks s2" "settled s2 s'"
    using Cons.hyps(1) [OF s2(4) [symmetric] s2(3)] s2(4) by metis
  moreover from this(1) have "drain (worker_pop (sv_conf d w)) (worker_body (worker_run env cmp junk)) s = Some s'"
    by (subst drain_unfold) (simp add: s2(1,2))
  moreover have "insert t A \<union> set ts = A \<union> set (L w)" using Cons.hyps(2) [symmetric] by auto
  ultimately show ?case
    using s2(5-7) settled_trans [OF s2(8)] Cons.hyps(2) [symmetric] by (intro exI [of _ s'] exI [of _ L']) auto
qed

text \<open>The worker's read callback: the same loop twice.\<close>

lemma worker_wakes:
  fixes s :: "'z cstate_scheme"
  assumes inv: "working env pb d B J {} s L A" and w: "w \<in> sv_workers d" and c: "efds s (sv_fd d w) = Some c" "0 < c"
    and e: "en_cleanup env"
  shows "\<exists>s' L'. ngx_rpc_notify_read_handler (process_call env pb cmp junk d w) (sv_conn d w) s = Some s'
     \<and> working env pb d B J {} s' L' (A \<union> set (L w)) \<and> listed L' (sv_procs d) = listed L (sv_procs d)
     \<and> listed L' (sv_workers d) = listed L (sv_workers d) - set (L w) \<and> chunks s' = chunks s \<and> settled s s'"
proof -
  note iv = workingD [OF inv]
  have wa: "w \<in> sv_all d" and wp: "w \<notin> sv_procs d" and inj: "inj_on (sv_fd d) (sv_all d)"
    using w iv(1) by (auto simp: deployed_def)
  obtain nt cn where nt: "notifies s w = Some nt" "event_fd nt = sv_fd d w" "conns s (sv_conn d w) = Some cn" "c_sockaddr cn = w"
    "read_hanlder nt = Some Http_Process_Notify_Task" "notify_ctx nt = Some (Http_Conf (sv_conf d w))"
    by (rule deployed_notify [OF iv(1) wa]) (use wp in simp)
  let ?s0 = "s\<lparr>efds := (efds s)(sv_fd d w \<mapsto> 0)\<rparr>" and ?call = "process_call env pb cmp junk d w :: _ \<Rightarrow> _ \<Rightarrow> 'z cstate_scheme \<Rightarrow> _"
  have w0: "working env pb d B J {w} ?s0 L A" by (rule working_efds [OF inv signals_taken [OF iv(4) wa inj]])
  have call: "?call Http_Process_Notify_Task (Http_Conf (sv_conf d w)) u =
      drain (worker_pop (sv_conf d w)) (worker_body (worker_run env cmp junk)) u" for u
    by (simp add: process_call_def proc_call_def ngx_http_rpc_process_notify_task_def)
  obtain s1 L1 where s1: "drain (worker_pop (sv_conf d w)) (worker_body (worker_run env cmp junk)) ?s0 = Some s1"
    "working env pb d B J {w} s1 L1 (A \<union> set (L w))" "L1 w = []" "listed L1 (sv_procs d) = listed L (sv_procs d)"
    "listed L1 (sv_workers d) = listed L (sv_workers d) - set (L w)" "chunks s1 = chunks ?s0" "settled ?s0 s1"
    using worker_drains [OF w0 w e] by blast
  obtain s2 L2 where s2: "drain (worker_pop (sv_conf d w)) (worker_body (worker_run env cmp junk)) s1 = Some s2"
    "working env pb d B J {w} s2 L2 (A \<union> set (L w) \<union> set (L1 w))" "L2 w = []" "listed L2 (sv_procs d) = listed L1 (sv_procs d)"
    "listed L2 (sv_workers d) = listed L1 (sv_workers d) - set (L1 w)" "chunks s2 = chunks s1" "settled s1 s2"
    using worker_drains [OF s1(2) w e] by blast
  have l: "live s w" "live s1 w"
    using pendings_pending [OF iv(2) wa] pendings_pending [OF workingD(2) [OF s1(2)] wa] by (auto dest: pending_live)
  have e1: "efds s1 (sv_fd d w) = Some 0" by (rule signals_zero [OF workingD(4) [OF s1(2)] wa])
  have "notify_read_loop ?call w s = ?call Http_Process_Notify_Task (Http_Conf (sv_conf d w)) s1"
  proof (rule read_loop_signalled [OF _ nt(5,6) c(1) [folded nt(2)] c(2)])
    show "load s (notifies s) w = Some nt" using nt(1) l(1) by (simp add: load_def)
    show "?call Http_Process_Notify_Task (Http_Conf (sv_conf d w)) (s\<lparr>efds := (efds s)(event_fd nt \<mapsto> 0)\<rparr>) = Some s1"
      using s1(1) nt(2) call by simp
    show "load s1 (notifies s1) w = Some nt" "efds s1 (event_fd nt) = Some 0"
      using nt(1,2) l(2) s1(7) e1 by (simp_all add: load_def settled_def)
  qed
  then have run: "ngx_rpc_notify_read_handler ?call (sv_conn d w) s = Some s2"
    using nt(3,4) s2(1) call by (simp add: ngx_rpc_notify_read_handler_def)
  have "working env pb d B J {w} s2 L2 (A \<union> set (L w))" using s2(2) s1(3) by simp
  moreover have "s2\<lparr>efds := efds s2\<rparr> = s2" by simp
  ultimately have "working env pb d B J {} s2 L2 (A \<union> set (L w))"
    using working_efds [of env pb d B J "{w}" s2 L2 _ "{}" "efds s2"] signals_done [OF workingD(4) [OF s2(2)] s2(3)] by simp
  moreover have "settled s ?s0" by (simp add: settled_def)
  then have "settled s s2" using settled_trans s1(7) s2(7) by blast
  ultimately show ?thesis using run s1(3-6) s2(4-6) by (intro exI [of _ s2] exI [of _ L2]) simp
qed

section \<open>A request comes\<close>

lemma book_other: "book env pb B J s T A \<Longrightarrow> B r = None \<Longrightarrow> u \<in> T \<union> A \<Longrightarrow> fst (J u) \<noteq> r"
  unfolding book_def by force

lemma book_new: "book env pb B J s T A \<Longrightarrow> requests s r = Some q \<Longrightarrow> r_ctx q = None \<Longrightarrow> B r = None"
  unfolding book_def by (metis not_None_eq option.inject)

lemma book_came:
  assumes b: "book env pb B J s T A" and r: "B r = None" and t: "t \<notin> T \<union> A"
    and q: "requests s' = (requests s)(r \<mapsto> q)" "r_ctx q \<noteq> None" and c: "calls s' = Read_Client_Body r # calls s"
  shows "book env pb (B(r \<mapsto> Some bs)) (J(t := (r, bs))) s' (insert t T) A"
proof -
  note bd = b [unfolded book_def]
  let ?B = "B(r \<mapsto> Some bs)" and ?J = "J(t := (r, bs))"
  have J: "?J u = J u" "fst (J u) \<noteq> r" if "u \<in> T \<union> A" for u using book_other [OF b r that] that t by auto
  have c0: "calls_for r (calls s) = []" using bd r by blast
  have img: "(fst \<circ> ?J) ` (insert t T \<union> A) = insert r ((fst \<circ> J) ` (T \<union> A))"
  proof -
    have "(fst \<circ> ?J) ` (T \<union> A) = (fst \<circ> J) ` (T \<union> A)" by (rule image_cong) (use t in auto)
    then show ?thesis by (simp only: Un_insert_left image_insert comp_apply fun_upd_same fst_conv)
  qed
  have "calls_for r' (calls s') = []" if "?B r' = None" for r'
    using bd that c by (auto split: if_splits)
  moreover have "(\<exists>q. requests s' r' = Some q \<and> r_ctx q \<noteq> None)
      \<and> (r' \<in> (fst \<circ> ?J) ` (insert t T \<union> A) \<or> calls_for r' (calls s') = denied_calls env r' b)" if "?B r' = Some b" for r' b
    using bd that q c unfolding img by (cases "r' = r") auto
  moreover have "?B (fst (?J u)) = Some (Some (snd (?J u))) \<and> calls_for (fst (?J u)) (calls s') = [Read_Client_Body (fst (?J u))]"
    if "u \<in> insert t T" for u
  proof (cases "u = t")
    case True
    then show ?thesis using c0 c by simp
  next
    case False
    then show ?thesis using bd J [of u] that c by simp
  qed
  moreover have "?B (fst (?J u)) = Some (Some (snd (?J u)))
      \<and> calls_for (fst (?J u)) (calls s') = reply_calls env pb (fst (?J u)) (snd (?J u)) u" if "u \<in> A" for u
    using bd J [of u] that c by simp
  ultimately show ?thesis unfolding book_def by blast
qed

lemma book_denied:
  assumes b: "book env pb B J s T A" and r: "B r = None"
    and q: "requests s' = (requests s)(r \<mapsto> q)" "r_ctx q \<noteq> None" and c: "calls s' = denied_calls env r b @ calls s"
  shows "book env pb (B(r \<mapsto> b)) J s' T A"
proof -
  note bd = b [unfolded book_def]
  have J: "fst (J u) \<noteq> r" if "u \<in> T \<union> A" for u by (rule book_other [OF b r that])
  have c0: "calls_for r (calls s) = []" using bd r by blast
  have c': "calls_for r' (calls s') = (if r' = r then denied_calls env r b else calls_for r' (calls s))" for r'
    using c c0 by (simp add: calls_for_denied)
  have "calls_for r' (calls s') = []" if "(B(r \<mapsto> b)) r' = None" for r'
    using bd that c' by (auto split: if_splits)
  moreover have "(\<exists>q. requests s' r' = Some q \<and> r_ctx q \<noteq> None)
      \<and> (r' \<in> (fst \<circ> J) ` (T \<union> A) \<or> calls_for r' (calls s') = denied_calls env r' x)" if "(B(r \<mapsto> b)) r' = Some x" for r' x
    using bd that q c' by (cases "r' = r") auto
  ultimately show ?thesis using bd J c' unfolding book_def by simp
qed

text \<open>What the two handlers of the worker make of a request that asks for the method \<open>interface\<close>.\<close>

lemma context_made_links:
  "s' = body_read r b (context_made c i r q x s) \<Longrightarrow> qnext s' = qnext s \<and> qprev s' = qprev s \<and> conns s' = conns s
     \<and> tasks s' = tasks s \<and> ctxs s' = (ctxs s)(x \<mapsto> \<lparr>cx_conf = c, cx_method = i, cx_r = r, cx_task = None\<rparr>)
     \<and> requests s' = (requests s)(r \<mapsto> q\<lparr>r_cleanups := (Ctx_Destroy, x) # r_cleanups q, r_ctx := Some x, r_body := Some (Some b)\<rparr>)"
  by (simp add: body_read_def context_made_def put_request_def)

text \<open>
  The state \<open>s2\<close> before the submission of the task \<open>t\<close>: nothing of the service in \<open>s\<close> has changed, and the new
  task holds a copy of the body in a buffer of its own.
\<close>

definition prepared ::
  "service \<Rightarrow> addr \<Rightarrow> nat \<Rightarrow> byte list \<Rightarrow> 'z wstate_scheme \<Rightarrow> addr \<Rightarrow> ngx_rpc_task \<Rightarrow> http_request \<Rightarrow> 'z wstate_scheme \<Rightarrow> bool" where
  "prepared d w r bs s t tk q s2 \<longleftrightarrow> mem_kept s s2 \<and> idle_same s s2 \<and> settled s s2
     \<and> (\<forall>p ys. ring s p ys \<longrightarrow> ring s2 p ys) \<and> efds s2 = efds s
     \<and> \<not> live s t \<and> (\<forall>a. live s a \<longrightarrow> tasks s2 a = tasks s a \<and> ctxs s2 a = ctxs s a)
     \<and> load s2 (tasks s2) t = Some tk \<and> done_notify tk = Some w
     \<and> (\<exists>x cx. closure tk = \<lparr>handler = Some (Method_Handler 0), p1 = Some (Rpc_Ctx x)\<rparr>
          \<and> load s2 (ctxs s2) x = Some cx \<and> cx_r cx = r)
     \<and> one_buffer s2 (Req_bufs t) bs \<and> (\<exists>b. get_buf (Req_bufs t) s2 = Some (Some b) \<and> \<not> live s b)
     \<and> requests s2 = (requests s)(r \<mapsto> q) \<and> r_ctx q \<noteq> None \<and> calls s2 = Read_Client_Body r # calls s"

lemma preparedD:
  assumes "prepared d w r bs s t tk q s2"
  shows "mem_kept s s2" "idle_same s s2" "settled s s2" "\<And>p ys. ring s p ys \<Longrightarrow> ring s2 p ys" "efds s2 = efds s" "\<not> live s t"
    "\<And>a. live s a \<Longrightarrow> tasks s2 a = tasks s a \<and> ctxs s2 a = ctxs s a" "load s2 (tasks s2) t = Some tk" "done_notify tk = Some w"
    "one_buffer s2 (Req_bufs t) bs" "requests s2 = (requests s)(r \<mapsto> q)" "r_ctx q \<noteq> None" "calls s2 = Read_Client_Body r # calls s"
  using assms by (simp_all add: prepared_def)

lemma prepared_lists:
  assumes inv: "working env pb d B J X s L A" and p: "prepared d w r bs s t tk q s2"
  shows "pendings s2 (sv_all d) L" and "idle_any s2 (sv_queue d) (sv_procs d)" and "signals d X s2 L"
    and "\<And>m. m \<in> sv_all d \<Longrightarrow> t \<notin> set (L m)" and "load s2 (queues s2) (sv_queue d) \<noteq> None"
proof -
  note iv = workingD [OF inv] and pd = preparedD [OF p]
  show "pendings s2 (sv_all d) L" by (rule pendings_frame [OF iv(2)]) (use pd(3,4) in \<open>auto simp: settled_def\<close>)
  show "idle_any s2 (sv_queue d) (sv_procs d)" by (rule idle_same_any [OF pd(2) iv(3)])
  show "signals d X s2 L" using iv(4) pd(5) by (simp add: signals_def)
  show "t \<notin> set (L m)" if "m \<in> sv_all d" for m using pendings_live [OF iv(2) that] pd(6) by blast
  show "load s2 (queues s2) (sv_queue d) \<noteq> None" using deployed_settled [OF iv(1) pd(3)] by (simp add: deployed_def)
qed

lemma request_prepared:
  fixes s :: "'z cstate_scheme"
  assumes inv: "working env pb d B J {} s L A" and w: "w \<in> sv_workers d"
    and q: "requests s r = Some q" "r_ctx q = None"
    and cf: "hconfs s (sv_conf d w) = Some cf" "hc_hash cf = Some h" "h (r_uri q) = Some i"
      "i < length (hc_methods cf)" "m_handler (hc_methods cf ! i) = Some (Method_Handler 0)"
    and body: "one_buffer s c bs" and sp: "spare (en_pick env) (chunks s) (4 + k)" and e: "en_cleanup env"
  obtains s0 t tk q1 s2 where "ngx_http_rpc_http_handler env (Some (sv_conf d w)) r s = Some (NGX_AGAIN, s0)"
    and "ngx_http_rpc_post_async_handler env r (body_read r c s0) =
      do {
        (ret, s) \<leftarrow> ngx_rpc_queue_push_and_notify (sv_queue d) t s2;
        (if ret \<noteq> NGX_OK then
           do {
             tk \<leftarrow> load s (tasks s) t;
             s \<leftarrow> Some (put_task t (tk\<lparr>response_states := NGX_HTTP_INTERNAL_SERVER_ERROR, res_length := 0\<rparr>) s);
             ngx_http_rpc_request_finish env t r s
           }
         else Some s)
      }"
    and "prepared d w r bs s t tk q1 s2" and "spare (en_pick env) (chunks s2) k"
proof -
  note iv = workingD [OF inv]
  have hq: "hc_queue cf = Some (sv_queue d)" "hc_notify cf = Some w" using deployed_worker [OF iv(1) w] cf(1) by auto
  obtain qd where qd: "load s (queues s) (sv_queue d) = Some qd" using iv(1) by (auto simp: deployed_def)
  have "spare (en_pick env) (chunks s) (Suc (3 + k))" using sp by (simp add: numeral_eq_Suc)
  then obtain x where x: "ngx_http_rpc_http_handler env (Some (sv_conf d w)) r s = Some (NGX_AGAIN, context_made (sv_conf d w) i r q x s)"
    "\<not> live s x" "spare (en_pick env) (chunks (context_made (sv_conf d w) i r q x s)) (3 + k)"
    by (rule handler_finds [OF cf(1) hq(1) cf(2) q qd _ e cf(3)])
  define s1 where "s1 = body_read r c (context_made (sv_conf d w) i r q x s)"
  note k1 = context_made_kept [OF x(2) s1_def] and k1' = context_made_links [OF s1_def]
  have i1: "idle_same s s1" using k1' k1(2) by (simp add: idle_same_def)
  obtain b bf where b: "get_buf c s1 = Some (Some b)" "get_link c s1 = Some None" "mem_buf s1 b bf bs"
    using kept_one_buffer [OF k1(1) _ body] by (auto simp: one_buffer_def)
  let ?cx = "\<lparr>cx_conf = sv_conf d w, cx_method = i, cx_r = r, cx_task = None\<rparr>"
  let ?q1 = "q\<lparr>r_cleanups := (Ctx_Destroy, x) # r_cleanups q, r_ctx := Some x, r_body := Some (Some c)\<rparr>"
  let ?tk = "zero_task\<lparr>done_notify := Some w, req_length := r_in_length q,
       closure := \<lparr>handler = Some (Method_Handler 0), p1 = Some (Rpc_Ctx x)\<rparr>\<rparr>"
  have pre: "requests s1 r = Some ?q1" "r_body ?q1 = Some (Some c)" "r_ctx ?q1 = Some x" "load s1 (ctxs s1) x = Some ?cx"
    "cx_task ?cx = None" "hconfs s1 (cx_conf ?cx) = Some cf" "cx_method ?cx < length (hc_methods cf)"
    "chain_seg s1 (Some c) [(c, b)]" "chain_bytes s1 [(c, b)] [bs]" "spare (en_pick env) (chunks s1) (3 * length [(c, b)] + k)"
    using k1(3-6,11) cf(1,4) x(3) b mem_buf_content [OF b(3)] by (simp_all add: load_Some_iff)
  obtain t s2 us where s2: "ngx_http_rpc_post_async_handler env r s1 =
      do {
        (ret, s) \<leftarrow> ngx_rpc_queue_push_and_notify (sv_queue d) t s2;
        (if ret \<noteq> NGX_OK then
           do {
             tk \<leftarrow> load s (tasks s) t;
             s \<leftarrow> Some (put_task t (tk\<lparr>response_states := NGX_HTTP_INTERNAL_SERVER_ERROR, res_length := 0\<rparr>) s);
             ngx_http_rpc_request_finish env t r s
           }
         else Some s)
      }"
    "\<not> live s1 t" "load s2 (tasks s2) t = Some ?tk" "owned_chain s2 (Req_bufs t) us" "owned_bytes us = [bs]"
    "ctxs s2 = (ctxs s1)(x \<mapsto> ?cx\<lparr>cx_task := Some t\<rparr>)" "requests s2 = requests s1" "calls s2 = calls s1"
    "queues s2 = queues s1" "notifies s2 = notifies s1" "efds s2 = efds s1" "\<And>p ys. ring s1 p ys \<Longrightarrow> ring s2 p ys"
    "\<And>a. live s1 a \<Longrightarrow> live s2 a" "\<And>u. u \<noteq> t \<Longrightarrow> tasks s2 u = tasks s1 u" "hconfs s2 = hconfs s1" "pconfs s2 = pconfs s1"
    "spare (en_pick env) (chunks s2) k" "copied_in_memory s1 s2 [(c, b)] us" "mem_kept s1 s2" "idle_same s1 s2"
    "conns s2 = conns s1" "\<forall>a \<in> set (owned_addrs us). \<not> live s1 a"
    by (rule post_async_prepares [OF pre(1-6) hq(1) pre(7) refl pre(8-10)]) (use cf(5) hq(2) in simp)
  have "tasks s2 a = tasks s a \<and> ctxs s2 a = ctxs s a" if "live s a" for a
  proof -
    have "a \<noteq> t" "a \<noteq> x" using that s2(2) k1(2) x(2) by auto
    then show ?thesis using s2(6,14) k1' by simp
  qed
  moreover obtain c' nb l where us: "us = [(c', nb, l, bs)]"
    using s2(5,18) by (cases us) (auto simp: owned_bytes_def list_all2_Cons1)
  then have "get_buf (Req_bufs t) s2 = Some (Some nb)" "\<not> live s nb"
    using s2(4,22) k1(2) by (auto simp: owned_chain_def split: option.splits)
  moreover have "one_buffer s2 (Req_bufs t) bs" by (rule owned_one_buffer [OF s2(4,5,18) b(3)])
  moreover have "load s2 (ctxs s2) x = Some (?cx\<lparr>cx_task := Some t\<rparr>)"
    using s2(6,13) k1(3) by (simp add: load_Some_iff)
  moreover have "settled s s2" using k1 k1' s2(9,10,13,15,16,21) by (simp add: settled_def)
  moreover have "idle_same s s2" by (rule idle_same_trans [OF i1 s2(20)])
  ultimately have "prepared d w r bs s t ?tk ?q1 s2"
    using s2(2,3,7,8,11,12) kept_trans [OF k1(1) s2(19)] k1 k1' unfolding prepared_def by auto
  then show thesis by (rule that [OF x(1) s2(1) [unfolded s1_def] _ s2(17)])
qed

text \<open>The submission is refused: the request is answered at once with the status 500.\<close>

lemma request_refused:
  fixes s :: "'z cstate_scheme"
  assumes inv: "working env pb d B J {} s L A" and p: "prepared d w r bs s t tk q s2" and Br: "B r = None"
    and e: "en_cleanup env" and tk': "tk' = tk\<lparr>response_states := NGX_HTTP_INTERNAL_SERVER_ERROR, res_length := 0\<rparr>"
  shows "\<exists>s'. ngx_http_rpc_request_finish env t r (put_task t tk' s2) = Some s' \<and> chunks s' = chunks s2
     \<and> working env pb d (B(r \<mapsto> Some bs)) J {} s' L A \<and> settled s s' \<and> calls_for r (calls s') = refused_calls env r"
proof -
  note iv = workingD [OF inv] and pd = preparedD [OF p] and pl = prepared_lists [OF inv p]
  let ?s3 = "put_task t tk' s2" let ?q2 = "(answered tk' q)\<lparr>r_cleanups := (Task_Destory, t) # r_cleanups q\<rparr>"
  let ?s' = "?s3\<lparr>requests := (requests ?s3)(r \<mapsto> ?q2), calls := answer_calls env t tk' r q @ calls ?s3\<rparr>"
  have ld: "load ?s3 (tasks ?s3) t = Some tk'" "requests ?s3 r = Some q"
    using pd(8,11) by (simp_all add: load_Some_iff) (simp add: put_task_def)
  have st: "settled s ?s'"
    by (rule settled_trans [OF pd(3)]) (simp add: settled_def put_task_def live_def)
  have cs: "calls ?s' = refused_calls env r @ calls s"
    using pd(13) by (simp add: put_task_def answer_calls_def answered_def refused_calls_def tk')
  have "pendings ?s' (sv_all d) L" by (rule pendings_same [OF pl(1)]) (simp_all add: live_def)
  moreover have "idle_any ?s' (sv_queue d) (sv_procs d)" by (rule idle_same_any [OF idle_same_links pl(2)]) simp_all
  moreover have "signals d {} ?s' L" using pl(3) by (simp add: signals_def)
  moreover have "jobs pb d J ?s' (listed L (sv_procs d)) (listed L (sv_workers d)) A"
  proof (rule jobs_kept [OF iv(5)])
    show "mem_kept s ?s'" by (rule kept_trans [OF pd(1) kept_same]) simp_all
    show "tasks ?s' a = tasks s a \<and> ctxs ?s' a = ctxs s a" if "live s a" for a
      using pd(7) [OF that] that pd(6) by (auto simp: put_task_def)
  qed
  moreover have "book env pb (B(r \<mapsto> Some bs)) J ?s' (listed L (sv_all d)) A"
  proof (rule book_denied [OF iv(6) Br])
    show "requests ?s' = (requests s)(r \<mapsto> ?q2)" using pd(11) by (simp add: put_task_def)
    show "calls ?s' = denied_calls env r (Some bs) @ calls s" using cs by simp
  qed (use pd(12) in \<open>simp add: answered_def\<close>)
  ultimately have "working env pb d (B(r \<mapsto> Some bs)) J {} ?s' L A"
    using deployed_settled [OF iv(1) st] by (simp add: working_def)
  moreover have "calls_for r (calls s) = []" using iv(6) Br by (simp add: book_def)
  then have "calls_for r (calls ?s') = refused_calls env r"
    by (simp only: cs calls_for_simps) (simp add: refused_calls_def)
  ultimately show ?thesis using request_finish_eq [OF ld e] st by (intro exI [of _ ?s']) simp
qed

text \<open>The processor \<open>n\<close> gets the task.\<close>

lemma request_taken:
  fixes s :: "'z cstate_scheme"
  assumes inv: "working env pb d B J {} s L A" and p: "prepared d w r bs s t tk q s2" and Br: "B r = None" and w: "w \<in> sv_workers d"
    and n: "n \<in> sv_procs d" and push: "ngx_rpc_queue_push_and_notify (sv_queue d) t s2 = Some (NGX_OK, s')"
    and l: "pendings s' (sv_all d) (L(n := L n @ [t]))" and i: "idle_any s' (sv_queue d) (sv_procs d)"
    and ts: "tasks s' = (tasks s2)(t \<mapsto> tk\<lparr>proc_notify := Some n\<rparr>)" and ef: "efds s' = efds (eventfd_write (sv_fd d n) 1 s2)"
  shows "working env pb d (B(r \<mapsto> Some bs)) (J(t := (r, bs))) {} s' (L(n := L n @ [t])) A \<and> settled s s' \<and> chunks s' = chunks s2
     \<and> listed (L(n := L n @ [t])) (sv_procs d) = insert t (listed L (sv_procs d))
     \<and> listed (L(n := L n @ [t])) (sv_workers d) = listed L (sv_workers d)"
proof -
  note iv = workingD [OF inv] and pd = preparedD [OF p] and pl = prepared_lists [OF inv p]
  have disj: "sv_procs d \<inter> sv_workers d = {}" and inj: "inj_on (sv_fd d) (sv_all d)" and na: "n \<in> sv_all d"
    using iv(1) n by (simp_all add: deployed_def)
  let ?L = "L(n := L n @ [t])" and ?J = "J(t := (r, bs))"
  obtain m a' b' e' where sh: "s' = s2\<lparr>tasks := m, qnext := a', qprev := b', efds := e'\<rparr>"
    using push_and_notify_shape [OF push] by blast
  have kept': "mem_kept s2 s'" by (rule kept_same) (simp_all add: sh)
  have st: "settled s s'" by (rule settled_trans [OF pd(3)]) (simp add: settled_def sh)
  obtain x cx nb where x: "closure tk = \<lparr>handler = Some (Method_Handler 0), p1 = Some (Rpc_Ctx x)\<rparr>"
    "load s2 (ctxs s2) x = Some cx" "cx_r cx = r" "get_buf (Req_bufs t) s2 = Some (Some nb)" "\<not> live s nb"
    using p unfolding prepared_def by blast
  have "load s' (ctxs s') x = Some cx" using x(2) by (simp add: sh load_def live_def)
  moreover have "load s' (tasks s') t = Some (tk\<lparr>proc_notify := Some n\<rparr>)" using ts pd(8) by (simp add: sh load_Some_iff)
  ultimately have call: "calling d s' t r bs"
    using x(1,3) w pd(9) kept_one_buffer [OF kept' _ pd(10)] unfolding calling_def by force
  have "jobs pb d ?J s' (insert t (listed L (sv_procs d))) (listed L (sv_workers d)) A"
  proof (rule jobs_added [OF iv(5) kept_trans [OF pd(1) kept'] _ call kept_cell(1) [OF kept' _ x(4)] x(5) pd(6)])
    show "tasks s' u = tasks s u \<and> ctxs s' u = ctxs s u" if "live s u" for u
      using pd(7) [OF that] that pd(6) ts by (auto simp: sh)
    show "fst (J u) \<noteq> r" if "u \<in> listed L (sv_procs d) \<union> listed L (sv_workers d) \<union> A" for u
      by (rule book_other [OF iv(6) Br]) (use that in \<open>simp add: listed_Un\<close>)
  qed simp
  moreover have lp: "listed ?L (sv_procs d) = insert t (listed L (sv_procs d))"
    using n by (auto simp: listed_def split: if_splits)
  moreover have lw: "listed ?L (sv_workers d) = listed L (sv_workers d)"
    using n disj by (auto simp: listed_def split: if_splits)
  moreover have "book env pb (B(r \<mapsto> Some bs)) ?J s' (insert t (listed L (sv_all d))) A"
  proof (rule book_came [OF iv(6) Br])
    show "t \<notin> listed L (sv_all d) \<union> A"
      using pl(4) pd(6) jobs_bufs(2) [OF iv(5)] by (auto simp: listed_def)
    show "requests s' = (requests s)(r \<mapsto> q)" "calls s' = Read_Client_Body r # calls s"
      using pd(11,13) by (simp_all add: sh)
  qed (rule pd(12))
  moreover have "signals d {} s' ?L" by (rule signals_pushed [OF pl(3) na _ inj ef]) simp
  ultimately show ?thesis
    using deployed_settled [OF iv(1) st] l i st by (simp add: working_def listed_Un sh)
qed

lemma request_comes:
  fixes s :: "'z cstate_scheme"
  assumes inv: "working env pb d B J {} s L A" and w: "w \<in> sv_workers d"
    and q: "requests s r = Some q" "r_ctx q = None"
    and cf: "hconfs s (sv_conf d w) = Some cf" "hc_hash cf = Some h" "h (r_uri q) = Some i"
      "i < length (hc_methods cf)" "m_handler (hc_methods cf ! i) = Some (Method_Handler 0)"
    and body: "one_buffer s c bs" and sp: "spare (en_pick env) (chunks s) (4 + k)" and e: "en_cleanup env"
  shows "\<exists>s0 s' J' L' X. ngx_http_rpc_http_handler env (Some (sv_conf d w)) r s = Some (NGX_AGAIN, s0)
     \<and> ngx_http_rpc_post_async_handler env r (body_read r c s0) = Some s'
     \<and> working env pb d (B(r \<mapsto> Some bs)) J' {} s' L' A \<and> spare (en_pick env) (chunks s') k \<and> settled s s'
     \<and> (X = {} \<and> idles s (sv_queue d) [] \<and> calls_for r (calls s') = refused_calls env r \<or> (\<exists>t. X = {t} \<and> fst (J' t) = r))
     \<and> listed L' (sv_procs d) = listed L (sv_procs d) \<union> X
     \<and> listed L' (sv_workers d) = listed L (sv_workers d)"
proof -
  have Br: "B r = None" by (rule book_new [OF workingD(6) [OF inv] q])
  obtain s0 t tk q1 s2 where s2: "ngx_http_rpc_http_handler env (Some (sv_conf d w)) r s = Some (NGX_AGAIN, s0)"
    "ngx_http_rpc_post_async_handler env r (body_read r c s0) =
      do {
        (ret, s) \<leftarrow> ngx_rpc_queue_push_and_notify (sv_queue d) t s2;
        (if ret \<noteq> NGX_OK then
           do {
             tk \<leftarrow> load s (tasks s) t;
             s \<leftarrow> Some (put_task t (tk\<lparr>response_states := NGX_HTTP_INTERNAL_SERVER_ERROR, res_length := 0\<rparr>) s);
             ngx_http_rpc_request_finish env t r s
           }
         else Some s)
      }"
    and p: "prepared d w r bs s t tk q1 s2" and s2': "spare (en_pick env) (chunks s2) k"
    by (rule request_prepared [OF assms])
  note pd = preparedD [OF p] and pl = prepared_lists [OF inv p]
  obtain qd where qd: "load s2 (queues s2) (sv_queue d) = Some qd" using pl(5) by blast
  have P: "sv_procs d \<subseteq> sv_all d" by blast
  show ?thesis
  proof (rule push_any [OF qd pl(2,1) P pd(8) pl(4)])
    assume refused: "ngx_rpc_queue_push_and_notify (sv_queue d) t s2 = Some (NGX_ERROR, s2)" and none: "idles s2 (sv_queue d) []"
    have empty: "idles s (sv_queue d) []" by (rule idle_same_none [OF pd(2) workingD(3) [OF inv] none])
    from request_refused [OF inv p Br e refl] obtain s' where s': "chunks s' = chunks s2"
      "ngx_http_rpc_request_finish env t r (put_task t (tk\<lparr>response_states := NGX_HTTP_INTERNAL_SERVER_ERROR, res_length := 0\<rparr>) s2) = Some s'"
      "working env pb d (B(r \<mapsto> Some bs)) J {} s' L A" "settled s s'" "calls_for r (calls s') = refused_calls env r" by blast
    have "ngx_http_rpc_post_async_handler env r (body_read r c s0) = Some s'" using s2(2) refused pd(8) s'(2) by simp
    then show ?thesis
      using s2(1) s2' s' empty by (intro exI [of _ s0] exI [of _ s'] exI [of _ J] exI [of _ L] exI [of _ "{}"]) simp
  next
    fix n nt s'
    assume taken: "n \<in> sv_procs d" "notifies s2 n = Some nt" "ngx_rpc_queue_push_and_notify (sv_queue d) t s2 = Some (NGX_OK, s')"
      "pendings s' (sv_all d) (L(n := L n @ [t]))" "idle_any s' (sv_queue d) (sv_procs d)"
      "tasks s' = (tasks s2)(t \<mapsto> tk\<lparr>proc_notify := Some n\<rparr>)" "efds s' = efds (eventfd_write (event_fd nt) 1 s2)"
    have na: "n \<in> sv_all d" using taken(1) by blast
    have "event_fd nt = sv_fd d n"
      by (rule deployed_notify [OF deployed_settled [OF workingD(1) [OF inv] pd(3)] na]) (use taken(2) in simp)
    with taken(7) have "efds s' = efds (eventfd_write (sv_fd d n) 1 s2)" by simp
    note t = request_taken [OF inv p Br w taken(1,3-6) this]
    have "ngx_http_rpc_post_async_handler env r (body_read r c s0) = Some s'" using s2(2) taken(3) by simp
    then show ?thesis
      using s2(1) s2' t
      by (intro exI [of _ s0] exI [of _ s'] exI [of _ "J(t := (r, bs))"] exI [of _ "L(n := L n @ [t])"] exI [of _ "{t}"]) simp
  qed simp
qed

text \<open>
  A request for any method whose body is missing is given back to nginx as a bad request: \<open>body_missing\<close> is nginx's reading of
  such a request, which makes the object for the body (\<open>made\<close>) or not. A request for a path that is no method is left to
  nginx.
\<close>

definition body_missing :: "nat \<Rightarrow> bool \<Rightarrow> 'z wstate_scheme \<Rightarrow> 'z wstate_scheme" where
  "body_missing r made s = (case requests s r of
     None \<Rightarrow> s | Some q \<Rightarrow> put_request r (q\<lparr>r_body := (if made then Some None else None)\<rparr>) s)"

lemma request_bad:
  fixes s :: "'z cstate_scheme"
  assumes inv: "working env pb d B J {} s L A" and w: "w \<in> sv_workers d"
    and q: "requests s r = Some q" "r_ctx q = None"
    and cf: "hconfs s (sv_conf d w) = Some cf" "hc_hash cf = Some h" "h (r_uri q) = Some i"
    and sp: "spare (en_pick env) (chunks s) (Suc k)" and e: "en_cleanup env"
  shows "B r = None \<and> (\<exists>s0 s'. ngx_http_rpc_http_handler env (Some (sv_conf d w)) r s = Some (NGX_AGAIN, s0)
     \<and> ngx_http_rpc_post_async_handler env r (body_missing r made s0) = Some s' \<and> working env pb d (B(r \<mapsto> None)) J {} s' L A
     \<and> calls_for r (calls s') = bad_calls r)"
proof -
  note iv = workingD [OF inv]
  have Br: "B r = None" by (rule book_new [OF iv(6) q])
  have hq: "hc_queue cf = Some (sv_queue d)" using deployed_worker [OF iv(1) w] cf(1) by auto
  obtain qd where qd: "load s (queues s) (sv_queue d) = Some qd" using iv(1) by (auto simp: deployed_def)
  let ?made = "\<lambda>x. context_made (sv_conf d w) i r q x s"
  obtain x where x: "ngx_http_rpc_http_handler env (Some (sv_conf d w)) r s = Some (NGX_AGAIN, ?made x)" "\<not> live s x"
    by (rule handler_finds [OF cf(1) hq cf(2) q qd sp e cf(3)])
  let ?q = "q\<lparr>r_cleanups := (Ctx_Destroy, x) # r_cleanups q, r_ctx := Some x, r_body := (if made then Some None else None)\<rparr>"
  define s' where "s' = log_call (Finalize_Request r NGX_HTTP_BAD_REQUEST) (body_missing r made (?made x))"
  have eq: "s' = s\<lparr>chunks := (chunks s)(x \<mapsto> Ctx_t),
      ctxs := (ctxs s)(x \<mapsto> \<lparr>cx_conf = sv_conf d w, cx_method = i, cx_r = r, cx_task = None\<rparr>),
      requests := (requests s)(r \<mapsto> ?q), calls := denied_calls env r None @ calls s\<rparr>"
    by (simp add: s'_def body_missing_def context_made_def put_request_def log_call_def bad_calls_def)
  have run: "ngx_http_rpc_post_async_handler env r (body_missing r made (?made x)) = Some s'"
    by (simp add: ngx_http_rpc_post_async_handler_def s'_def body_missing_def context_made_def put_request_def)
  have l: "live s' a" if "live s a" for a using that by (simp add: eq live_def)
  have st: "settled s s'" using l by (simp add: settled_def) (simp add: eq)
  have "pendings s' (sv_all d) L" by (rule pendings_same [OF iv(2)]) (use l in \<open>simp_all add: eq\<close>)
  moreover have "idle_same s s'" using l by (simp add: idle_same_def) (simp add: eq)
  from idle_same_any [OF this iv(3)] have "idle_any s' (sv_queue d) (sv_procs d)" .
  moreover have "signals d {} s' L" using iv(4) by (simp add: signals_def eq)
  moreover have "jobs pb d J s' (listed L (sv_procs d)) (listed L (sv_workers d)) A"
  proof (rule jobs_kept [OF iv(5)])
    show "mem_kept s s'" using x(2) by (auto simp: mem_kept_but_def eq live_def)
    show "tasks s' a = tasks s a \<and> ctxs s' a = ctxs s a" if "live s a" for a using that x(2) by (auto simp: eq)
  qed
  moreover have "book env pb (B(r \<mapsto> None)) J s' (listed L (sv_all d)) A"
    by (rule book_denied [OF iv(6) Br, where q = ?q]) (simp_all add: eq)
  ultimately have "working env pb d (B(r \<mapsto> None)) J {} s' L A"
    using deployed_settled [OF iv(1) st] by (simp add: working_def)
  moreover have "calls_for r (calls s) = []" using iv(6) Br by (simp add: book_def)
  then have "calls_for r (calls s') = bad_calls r" by (simp add: eq calls_for_bad)
  ultimately show ?thesis using x(1) run Br by blast
qed

lemma request_declined:
  fixes s :: "'z cstate_scheme"
  assumes "working env pb d B J {} s L A" and "w \<in> sv_workers d" and "requests s r = Some q"
    and "hconfs s (sv_conf d w) = Some cf" "hc_hash cf = Some h" "h (r_uri q) = None"
  shows "ngx_http_rpc_http_handler env (Some (sv_conf d w)) r s = Some (NGX_DECLINED, s)"
proof -
  have "hc_queue cf = Some (sv_queue d)" using deployed_worker [OF workingD(1) [OF assms(1)] assms(2)] assms(4) by auto
  then show ?thesis using assms(3-6) by (simp add: ngx_http_rpc_http_handler_def)
qed

end
