(* ===== verification/Service_Start.thy ===== *)
theory Service_Start
  imports Whole_Call
begin

text \<open>
  The start of the service: the master's queue object, the worker and the processors, up to the state in
  which the service waits for requests, and the way of the first request from there.
\<close>

section \<open>Starting the processors\<close>

text \<open>
  A processor is forked by the master: its configuration at \<open>p\<close>, in its private memory, is a copy
  of the master's configuration at \<open>c\<close>. Then nginx calls the module's initialization and, since a new
  eventfd can be written, the write callback. A start names the slot, the configuration and the connection.
\<close>

record proc_start =
  ps_slot :: nat
  ps_conf :: addr
  ps_conn :: nat

definition forked :: "addr \<Rightarrow> addr \<Rightarrow> 'z pstate_scheme \<Rightarrow> 'z pstate_scheme" where
  "forked c p s = s\<lparr>pconfs := (pconfs s)(p := pconfs s c)\<rparr>"

definition start_processor ::
  "'z exec \<Rightarrow> ('z pstate_scheme \<Rightarrow> 'z pstate_scheme option) \<Rightarrow> int \<Rightarrow> addr \<Rightarrow> proc_start
    \<Rightarrow> 'z pstate_scheme \<Rightarrow> 'z pstate_scheme option" where
  "start_processor exec worker lastp c x s =
     do {
       (r, s) \<leftarrow> ngx_proc_rpc_process_init (int (ps_slot x)) lastp (Some (ps_conn x)) True (Some (ps_conf x))
                  (forked c (ps_conf x) s);
       (if r = NGX_OK then ngx_rpc_notify_write_handler (proc_call exec worker) (ps_conn x) s else None)
     }"

primrec start_processors ::
  "'z exec \<Rightarrow> ('z pstate_scheme \<Rightarrow> 'z pstate_scheme option) \<Rightarrow> int \<Rightarrow> addr \<Rightarrow> (proc_start) list
    \<Rightarrow> 'z pstate_scheme \<Rightarrow> 'z pstate_scheme option" where
  "start_processors exec worker lastp c [] s = Some s"
| "start_processors exec worker lastp c (x # xs) s =
     do { s \<leftarrow> start_processor exec worker lastp c x s; start_processors exec worker lastp c xs s }"

text \<open>What a start leaves alone: everything but configurations, notify objects, connections and links.\<close>

definition kept_by_start :: "'z pstate_scheme \<Rightarrow> 'z pstate_scheme \<Rightarrow> bool" where
  "kept_by_start s s' \<longleftrightarrow> (\<exists>a b d e f. s' = s\<lparr>pconfs := a, notifies := b, conns := d, qnext := e, qprev := f\<rparr>)
     \<and> (\<forall>n. map_option event_fd (notifies s' n) = map_option event_fd (notifies s n))"

lemma kept_by_start_refl: "kept_by_start s s"
  unfolding kept_by_start_def by (cases s) auto

lemma kept_by_start_trans: "kept_by_start s s1 \<Longrightarrow> kept_by_start s1 s2 \<Longrightarrow> kept_by_start s s2"
  unfolding kept_by_start_def by (auto; blast)

lemma kept_by_startD:
  assumes "kept_by_start s s'"
  shows "chunks s' = chunks s" "efds s' = efds s" "stored s' = stored s" "queues s' = queues s"
    "notify_slots s' = notify_slots s" "pstate.more s' = pstate.more s" "queue_ok s' q a ns = queue_ok s q a ns"
    "notifies s' n = None \<longleftrightarrow> notifies s n = None"
    "map_option event_fd (notifies s' n) = map_option event_fd (notifies s n)"
proof -
  have k: "map_option event_fd (notifies s' n) = map_option event_fd (notifies s n)" for n
    using assms by (simp add: kept_by_start_def)
  show "notifies s' n = None \<longleftrightarrow> notifies s n = None" using k [of n] by (metis map_option_is_None)
qed (use assms in \<open>auto simp: kept_by_start_def stored_def queue_ok_def\<close>)

lemma start_processor_ok:
  assumes q: "queue_ok s q a ns" and cf: "pconfs s c = Some cf" "pc_queue cf = Some q"
    and slot: "slot < length ns" "int slot \<le> lastp" and pend: "\<forall>n \<in> set ns. pending s n []"
    and i: "idles s q ids" "ns ! slot \<notin> set ids"
  shows "\<exists>s'. start_processor exec worker lastp c \<lparr>ps_slot = slot, ps_conf = p, ps_conn = k\<rparr> s = Some s' \<and> kept_by_start s s'
     \<and> idles s' q (ns ! slot # ids) \<and> (\<forall>n \<in> set ns. pending s' n [])
     \<and> pconfs s' = (pconfs s)(p \<mapsto> cf\<lparr>pc_notify := Some (ns ! slot)\<rparr>)
     \<and> (\<exists>nt cn. notifies s' (ns ! slot) = Some nt \<and> read_hanlder nt = Some Proc_Process_One_Cycle
          \<and> notify_ctx nt = Some (Proc_Conf p) \<and> conns s' k = Some cn \<and> c_sockaddr cn = ns ! slot
          \<and> \<not> c_write_event cn)
     \<and> (\<forall>m. m \<noteq> ns ! slot \<longrightarrow> notifies s' m = notifies s m)
     \<and> (\<forall>k'. k' \<noteq> k \<longrightarrow> conns s' k' = conns s k')"
proof -
  let ?n = "ns ! slot"
  have nin: "?n \<in> set ns" using slot(1) by simp
  obtain nt where nt: "notifies s ?n = Some nt" using pend nin by (auto simp: pending_def)
  let ?f = "forked c p s"
  have f: "queue_ok ?f q a ns" "pconfs ?f p = Some cf" "notifies ?f ?n = Some nt"
    using q cf nt by (simp_all add: forked_def queue_ok_def)
  define s1 where "s1 = ?f\<lparr>pconfs := (pconfs ?f)(p \<mapsto> cf\<lparr>pc_notify := Some ?n\<rparr>),
       notifies := (notifies ?f)(?n \<mapsto> nt\<lparr>notify_ctx := Some (Proc_Conf p), notify_conn := Some k,
            read_hanlder := Some Proc_Process_One_Cycle, write_hanlder := Some Proc_Process_One_Cycle\<rparr>),
       conns := (conns ?f)(k \<mapsto> \<lparr>c_fd = event_fd nt, c_sockaddr = ?n,
            c_read_handler = Notify_Read_Handler, c_read_data = k,
            c_write_handler = Notify_Write_Handler, c_write_data = k,
            c_added = True, c_write_event = True\<rparr>)\<rparr>"
  have init: "ngx_proc_rpc_process_init (int slot) lastp (Some k) True (Some p) ?f = Some (NGX_OK, s1)"
    unfolding s1_def by (rule process_init_eq [OF f(1,2) cf(2) slot refl f(3)])
  have r1: "ring s1 x ys = ring s x ys" for x ys
    by (simp add: s1_def forked_def ring_iff node_live_def live_def)
  have p1: "proc_pending s1 p ?n []" "idles s1 q ids" "pconfs s1 p = Some (cf\<lparr>pc_notify := Some ?n\<rparr>)"
    using pend nin i(1) by (auto simp: proc_pending_def pending_def idles_def r1) (simp_all add: s1_def)
  have pq: "pc_queue (cf\<lparr>pc_notify := Some ?n\<rparr>) = Some q" using cf(2) by simp
  let ?cn = "the (conns s1 k)" and ?nt = "the (notifies s1 ?n)"
  have l1: "notifies s1 ?n = Some ?nt" "write_hanlder ?nt = Some Proc_Process_One_Cycle"
    "notify_ctx ?nt = Some (Proc_Conf p)" "conns s1 k = Some ?cn" "c_sockaddr ?cn = ?n"
    by (simp_all add: s1_def)
  obtain s' where s': "ngx_rpc_notify_write_handler (proc_call exec worker) k s1 = Some s'" "idles s' q (?n # ids)"
    "s' = s1\<lparr>conns := (conns s1)(k \<mapsto> ?cn\<lparr>c_write_event := False\<rparr>), qnext := qnext s', qprev := qprev s'\<rparr>"
    "\<And>p ys. ring s1 p ys \<Longrightarrow> set (p # ys) \<inter> set (QueueIdles q # map NotifyIdles (?n # ids)) = {} \<Longrightarrow> ring s' p ys"
    using write_handler_puts_idle [where exec = exec and worker = worker, OF p1(1,2) i(2) p1(3) pq l1] by blast
  obtain cs e f where eq: "s' = s1\<lparr>conns := cs, qnext := e, qprev := f\<rparr>" using s'(3) by blast
  have cs: "cs = (conns s1)(k \<mapsto> ?cn\<lparr>c_write_event := False\<rparr>)"
    using arg_cong [where f = conns, OF s'(3)] by (simp add: eq)
  have "pending s' m []" if "m \<in> set ns" for m
  proof -
    have "ring s' (NotifyHead m) []"
      by (rule s'(4)) (use pend that in \<open>auto simp: r1 pending_def\<close>)
    moreover have "notifies s' m \<noteq> None" using pend that by (auto simp: eq s1_def forked_def pending_def)
    ultimately show ?thesis by (simp add: pending_def)
  qed
  moreover have "kept_by_start s s'"
    using nt unfolding kept_by_start_def eq s1_def forked_def by (auto; blast)
  moreover have "start_processor exec worker lastp c \<lparr>ps_slot = slot, ps_conf = p, ps_conn = k\<rparr> s = Some s'"
    using init s'(1) by (simp add: start_processor_def)
  ultimately show ?thesis
    using s'(2) by (intro exI [of _ s'] conjI) (auto simp: eq s1_def forked_def cs)
qed

text \<open>The started processors are idle, the last one first, and each has its callbacks in place.\<close>

definition started :: "'z pstate_scheme \<Rightarrow> addr \<Rightarrow> addr list \<Rightarrow> ngx_proc_rpc_conf \<Rightarrow> proc_start \<Rightarrow> bool" where
  "started s q ns cf x \<longleftrightarrow> 
     pconfs s (ps_conf x) = Some (cf\<lparr>pc_notify := Some (ns ! ps_slot x)\<rparr>)
     \<and> (\<exists>nt cn. notifies s (ns ! ps_slot x) = Some nt \<and> read_hanlder nt = Some Proc_Process_One_Cycle
          \<and> notify_ctx nt = Some (Proc_Conf (ps_conf x)) \<and> conns s (ps_conn x) = Some cn
          \<and> c_sockaddr cn = ns ! ps_slot x \<and> \<not> c_write_event cn)"

lemma start_processors_ok:
  assumes "queue_ok s q a ns" and "pconfs s c = Some cf" "pc_queue cf = Some q"
    and "\<forall>n \<in> set ns. pending s n []" and "idles s q ids"
    and "\<forall>x \<in> set xs. ps_slot x < length ns \<and> int (ps_slot x) \<le> lastp"
    and "distinct (map ps_slot xs)" "distinct (c # map ps_conf xs)" "distinct (map ps_conn xs)"
    and "set (map (\<lambda>x. ns ! ps_slot x) xs) \<inter> set ids = {}"
  shows "\<exists>s'. start_processors exec worker lastp c xs s = Some s' \<and> kept_by_start s s'
     \<and> idles s' q (rev (map (\<lambda>x. ns ! ps_slot x) xs) @ ids) \<and> (\<forall>n \<in> set ns. pending s' n [])
     \<and> (\<forall>x \<in> set xs. started s' q ns cf x)
     \<and> (\<forall>p. p \<notin> ps_conf ` set xs \<longrightarrow> pconfs s' p = pconfs s p)
     \<and> (\<forall>m. m \<notin> (\<lambda>x. ns ! ps_slot x) ` set xs \<longrightarrow> notifies s' m = notifies s m)
     \<and> (\<forall>k. k \<notin> ps_conn ` set xs \<longrightarrow> conns s' k = conns s k)"
  using assms
proof (induction xs arbitrary: s ids)
  case Nil
  then show ?case by (simp add: kept_by_start_refl)
next
  case (Cons x xs)
  obtain slot p k where x: "x = \<lparr>ps_slot = slot, ps_conf = p, ps_conn = k\<rparr>" by (cases x)
  have slot: "slot < length ns" "int slot \<le> lastp" "ns ! slot \<notin> set ids"
    using Cons.prems(6,10) x by auto
  obtain s1 where s1: "start_processor exec worker lastp c \<lparr>ps_slot = slot, ps_conf = p, ps_conn = k\<rparr> s = Some s1" "kept_by_start s s1"
    "idles s1 q (ns ! slot # ids)" "\<forall>n \<in> set ns. pending s1 n []"
    "pconfs s1 = (pconfs s)(p \<mapsto> cf\<lparr>pc_notify := Some (ns ! slot)\<rparr>)"
    "\<exists>nt cn. notifies s1 (ns ! slot) = Some nt \<and> read_hanlder nt = Some Proc_Process_One_Cycle
       \<and> notify_ctx nt = Some (Proc_Conf p) \<and> conns s1 k = Some cn \<and> c_sockaddr cn = ns ! slot \<and> \<not> c_write_event cn"
    "\<forall>m. m \<noteq> ns ! slot \<longrightarrow> notifies s1 m = notifies s m" "\<forall>k'. k' \<noteq> k \<longrightarrow> conns s1 k' = conns s k'"
    using start_processor_ok [where exec = exec and worker = worker and k = k and p = p,
        OF Cons.prems(1-3) slot(1,2) Cons.prems(4,5) slot(3)] by blast
  have q1: "queue_ok s1 q a ns" using kept_by_startD(7) [OF s1(2)] Cons.prems(1) by simp
  have c1: "pconfs s1 c = Some cf" using Cons.prems(2,8) s1(5) x by auto
  have dn: "distinct ns" using Cons.prems(1) by (simp add: queue_ok_def)
  have other: "ns ! slot \<notin> (\<lambda>x. ns ! ps_slot x) ` set xs"
  proof
    assume "ns ! slot \<in> (\<lambda>x. ns ! ps_slot x) ` set xs"
    then obtain y where y: "y \<in> set xs" "ns ! slot = ns ! ps_slot y" by auto
    moreover have "ps_slot y < length ns" using y(1) Cons.prems(6) by (cases y) auto
    ultimately have "ps_slot y = slot" using dn slot(1) by (simp add: nth_eq_iff_index_eq)
    then show False using y(1) Cons.prems(7) x by force
  qed
  have new: "set (map (\<lambda>x. ns ! ps_slot x) xs) \<inter> set (ns ! slot # ids) = {}"
    using other Cons.prems(10) by auto
  have "\<forall>x \<in> set xs. ps_slot x < length ns \<and> int (ps_slot x) \<le> lastp" "distinct (map ps_slot xs)"
    "distinct (c # map ps_conf xs)" "distinct (map ps_conn xs)"
    using Cons.prems(6-9) by auto
  from Cons.IH [OF q1 c1 Cons.prems(3) s1(4,3) this new]
  obtain s' where s': "start_processors exec worker lastp c xs s1 = Some s'" "kept_by_start s1 s'"
    "idles s' q (rev (map (\<lambda>x. ns ! ps_slot x) xs) @ ns ! slot # ids)" "\<forall>n \<in> set ns. pending s' n []"
    "\<forall>x \<in> set xs. started s' q ns cf x"
    "\<forall>p. p \<notin> ps_conf ` set xs \<longrightarrow> pconfs s' p = pconfs s1 p"
    "\<forall>m. m \<notin> (\<lambda>x. ns ! ps_slot x) ` set xs \<longrightarrow> notifies s' m = notifies s1 m"
    "\<forall>k. k \<notin> ps_conn ` set xs \<longrightarrow> conns s' k = conns s1 k"
    by blast
  have "p \<notin> ps_conf ` set xs" "k \<notin> ps_conn ` set xs" using Cons.prems(8,9) x by auto
  then have "started s' q ns cf x"
    using s1(5,6) s'(6-8) other by (simp add: started_def x)
  then show ?case
    using s1 s' x kept_by_start_trans [OF s1(2) s'(2)] by (intro exI [of _ s']) auto
qed

section \<open>Starting the service\<close>

text \<open>
  The start of the whole service: the master creates the queue object, a worker takes slot \<open>ws\<close> with the
  connection \<open>wk\<close>, and the processors \<open>xs\<close> start one after the other.
\<close>

definition start_service ::
  "http_env \<Rightarrow> (task_fn \<Rightarrow> addr \<Rightarrow> closure_arg option \<Rightarrow> 'z wstate_scheme \<Rightarrow> 'z wstate_scheme option) \<Rightarrow> (nat \<Rightarrow> int) \<Rightarrow> int \<Rightarrow> int \<Rightarrow> int list \<Rightarrow> int \<Rightarrow> addr \<Rightarrow> addr
    \<Rightarrow> nat \<Rightarrow> nat \<Rightarrow> proc_start list \<Rightarrow> 'z wstate_scheme \<Rightarrow> 'z wstate_scheme option" where
  "start_service env exec fds workers ncpu counts lastp c hc ws wk xs s =
     do {
       (r, s) \<leftarrow> ngx_proc_rpc_master_init (en_pick env) True (\<lambda>i. True) fds workers ncpu counts (Some c) s;
       (r, s) \<leftarrow> ngx_http_rpc_init_process (int ws) lastp (Some wk) True (Some hc) (Some c) s;
       start_processors exec Some lastp c xs s
     }"

lemma kept_by_start_wstate:
  fixes s s' :: "'z wstate_scheme"
  assumes "kept_by_start s s'"
  shows "hconfs s' = hconfs s" "requests s' = requests s" "calls s' = calls s" "mem_kept s s'"
proof -
  note k = kept_by_startD(6) [OF assms]
  show "hconfs s' = hconfs s" "requests s' = requests s" "calls s' = calls s"
    using k by (cases s; cases s'; simp)+
  show "mem_kept s s'"
    by (rule kept_same) (use kept_by_startD(1,3) [OF assms] in \<open>simp_all add: stored_def\<close>)
qed

text \<open>
  After the start the worker's configuration names the queue object and the worker's own notify object, and the
  service waits for requests with all its processors idle, the last one first.
\<close>

lemma start_service_ok:
  fixes s :: "'z wstate_scheme"
  assumes "pconfs s c = Some cf" and "pc_shpool cf = Some pool"
    and "w = (if workers \<le> 0 then ncpu else workers)" and "0 < w"
    and "list_all (\<lambda>k. 0 \<le> k) counts" and "num = nat (w + sum_list counts)" and "w + sum_list counts < 2 ^ 31"
    and "spare (en_pick env) (chunks s) (num + 2 + m)"
    and "\<forall>i < num. 0 \<le> fds i" and "hconfs s hc = Some hf"
    and "\<forall>x \<in> set (xs @ [x]). ps_slot x < num \<and> int (ps_slot x) \<le> lastp" "ws < num" "int ws \<le> lastp"
    and "distinct (ws # map ps_slot (xs @ [x]))" "distinct (c # map ps_conf (xs @ [x]))"
    and "distinct (wk # map ps_conn (xs @ [x]))"
  shows "\<exists>s' qu ns. start_service env exec fds workers ncpu counts lastp c hc ws wk (xs @ [x]) s = Some s'
     \<and> length ns = num
     \<and> service_ready s' qu (ps_conf x) (ns ! ps_slot x) (rev (map (\<lambda>x. ns ! ps_slot x) xs)) (ns ! ws)
          (fds (ps_slot x)) (fds ws)
     \<and> hconfs s' = (hconfs s)(hc \<mapsto> hf\<lparr>hc_queue := Some qu, hc_notify := Some (ns ! ws)\<rparr>)
     \<and> requests s' = requests s \<and> calls s' = calls s \<and> mem_kept s s' \<and> spare (en_pick env) (chunks s') m
     \<and> (\<forall>y \<in> set (xs @ [x]). started s' qu ns (cf\<lparr>pc_queue := Some qu\<rparr>) y) \<and> distinct ns
     \<and> (\<forall>i < num. pending s' (ns ! i) [] \<and> map_option event_fd (notifies s' (ns ! i)) = Some (fds i) \<and> efds s' (fds i) = Some 0)
     \<and> (\<exists>nt cn. notifies s' (ns ! ws) = Some nt \<and> read_hanlder nt = Some Http_Process_Notify_Task
          \<and> notify_ctx nt = Some (Http_Conf hc) \<and> conns s' wk = Some cn \<and> c_sockaddr cn = ns ! ws)"
proof -
  have num: "int num = w + sum_list counts"
    using assms(4-6) by (auto simp: list_all_iff intro!: add_nonneg_nonneg sum_list_nonneg)
  have sp: "spare (en_pick env) (chunks s) (nat (w + sum_list counts) + 2 + m)" using assms(6,8) by simp
  obtain s1 qu a ns where s1: "ngx_proc_rpc_master_init (en_pick env) True (\<lambda>i. True) fds workers ncpu counts (Some c) s = Some (NGX_OK, s1)"
    "pconfs s1 = (pconfs s)(c \<mapsto> cf\<lparr>pc_queue := Some qu\<rparr>)" "queue_ok s1 qu a ns"
    "int (length ns) = w + sum_list counts" "idles s1 qu []"
    "\<forall>i < length ns. fresh_notify s1 (ns ! i) (fds i) \<and> (0 \<le> fds i \<longrightarrow> efds s1 (fds i) = Some 0)"
    "pstate.more s1 = pstate.more s" "stored s1 = stored s" "\<forall>a. live s a \<longrightarrow> chunks s1 a = chunks s a"
    "spare (en_pick env) (chunks s1) m"
    using master_init_ok [where oks = "\<lambda>i. True" and fds = fds, OF assms(1-5,7) sp TrueI] by blast
  have len: "length ns = num" using s1(4) num by linarith
  have w1: "hconfs s1 = hconfs s" "requests s1 = requests s" "calls s1 = calls s"
    using s1(7) by (cases s; cases s1; simp)+
  have nt1: "pending s1 (ns ! i) []" "map_option event_fd (notifies s1 (ns ! i)) = Some (fds i)"
    "efds s1 (fds i) = Some 0" if "i < num" for i
    using s1(6) that len assms(9) by (auto simp: fresh_notify_def)
  obtain nt where nt: "notifies s1 (ns ! ws) = Some nt" "event_fd nt = fds ws" using nt1(2) [OF assms(12)] by auto
  define s2 where "s2 = s1\<lparr>notifies := (notifies s1)(ns ! ws \<mapsto> nt\<lparr>notify_ctx := Some (Http_Conf hc), notify_conn := Some wk,
            read_hanlder := Some Http_Process_Notify_Task, write_hanlder := Some Http_Process_Notify_Task\<rparr>),
       conns := (conns s1)(wk \<mapsto> \<lparr>c_fd = event_fd nt, c_sockaddr = ns ! ws,
            c_read_handler = Notify_Read_Handler, c_read_data = wk,
            c_write_handler = Notify_Write_Handler, c_write_data = wk,
            c_added = True, c_write_event = True\<rparr>),
       hconfs := (hconfs s1)(hc \<mapsto> hf\<lparr>hc_queue := Some qu, hc_notify := Some (ns ! ws)\<rparr>)\<rparr>"
  have init: "ngx_http_rpc_init_process (int ws) lastp (Some wk) True (Some hc) (Some c) s1 = Some (NGX_OK, s2)"
    unfolding s2_def by (rule worker_init_eq [OF s1(3), where pf = "cf\<lparr>pc_queue := Some qu\<rparr>"]) (use s1(2) w1 assms(10,12,13) len nt in simp_all)
  have r2: "ring s2 y ys = ring s1 y ys" for y ys
    by (simp add: s2_def ring_iff node_live_def live_def)
  have q2: "queue_ok s2 qu a ns" "pconfs s2 c = Some (cf\<lparr>pc_queue := Some qu\<rparr>)" "idles s2 qu []"
    using s1(2,3,5) by (simp_all add: s2_def queue_ok_def idles_def r2 [unfolded s2_def])
  have p2: "\<forall>n \<in> set ns. pending s2 n []"
    using nt1(1) len by (auto simp: pending_def r2 in_set_conv_nth) (auto simp: s2_def)
  have pq: "pc_queue (cf\<lparr>pc_queue := Some qu\<rparr>) = Some qu" by simp
  have pre: "\<forall>y \<in> set (xs @ [x]). ps_slot y < length ns \<and> int (ps_slot y) \<le> lastp" "distinct (map ps_slot (xs @ [x]))"
    "distinct (c # map ps_conf (xs @ [x]))" "distinct (map ps_conn (xs @ [x]))"
    "set (map (\<lambda>x. ns ! ps_slot x) (xs @ [x])) \<inter> set [] = {}"
    using assms(11,14-16) len by auto
  obtain s' where s': "start_processors exec Some lastp c (xs @ [x]) s2 = Some s'" "kept_by_start s2 s'"
    "idles s' qu (rev (map (\<lambda>x. ns ! ps_slot x) (xs @ [x])) @ [])" "\<forall>n \<in> set ns. pending s' n []"
    "\<forall>y \<in> set (xs @ [x]). started s' qu ns (cf\<lparr>pc_queue := Some qu\<rparr>) y"
    "\<forall>m. m \<notin> (\<lambda>x. ns ! ps_slot x) ` set (xs @ [x]) \<longrightarrow> notifies s' m = notifies s2 m"
    "\<forall>k. k \<notin> ps_conn ` set (xs @ [x]) \<longrightarrow> conns s' k = conns s2 k"
    using start_processors_ok [where exec = exec and worker = Some, OF q2(1,2) pq p2 q2(3) pre] by blast
  note k = kept_by_startD [OF s'(2)]
  have fd: "map_option event_fd (notifies s' (ns ! i)) = Some (fds i)" if "i < num" for i
    using k(9) nt1(2) [OF that] nt by (auto simp: s2_def)
  have xn: "ps_slot x < num" "ps_slot x \<noteq> ws" using assms(11,14) by auto
  have "queue_ok s' qu a ns" using k(7) q2(1) by simp
  then have dn: "distinct ns" "load s' (queues s') qu \<noteq> None" by (auto simp: queue_ok_def load_def live_def)
  have "ns ! ws \<noteq> ns ! ps_slot x" using dn(1) xn assms(12) len by (simp add: nth_eq_iff_index_eq)
  moreover have st: "started s' qu ns (cf\<lparr>pc_queue := Some qu\<rparr>) x" using s'(5) by simp
  moreover have pd: "pending s' (ns ! ws) []" "pending s' (ns ! ps_slot x) []" using s'(4) xn(1) assms(12) len by simp_all
  moreover have ef: "efds s' (fds i) = Some 0" if "i < num" for i using k(2) nt1(3) [OF that] by (simp add: s2_def)
  ultimately have "service_ready s' qu (ps_conf x) (ns ! ps_slot x) (rev (map (\<lambda>x. ns ! ps_slot x) xs)) (ns ! ws)
          (fds (ps_slot x)) (fds ws)"
    using s'(3) dn(2) fd [OF xn(1)] fd [OF assms(12)] xn(1) assms(12)
    by (simp add: service_ready_def started_def proc_pending_def)
  moreover have "mem_kept s s2" using s1(8,9) by (auto simp: s2_def mem_kept_but_def stored_def)
  then have "mem_kept s s'" using kept_by_start_wstate(4) [OF s'(2)] by (rule kept_trans)
  moreover have "ns ! ws \<notin> (\<lambda>x. ns ! ps_slot x) ` set (xs @ [x])"
  proof
    assume "ns ! ws \<in> (\<lambda>x. ns ! ps_slot x) ` set (xs @ [x])"
    then obtain y where y: "y \<in> set (xs @ [x])" "ns ! ws = ns ! ps_slot y" by blast
    then have "ps_slot y < num" "ps_slot y \<noteq> ws" using assms(11,14) by auto
    then show False using y(2) dn(1) assms(12) len by (simp add: nth_eq_iff_index_eq)
  qed
  then have "notifies s' (ns ! ws) = notifies s2 (ns ! ws)" using s'(6) by blast
  moreover have "conns s' wk = conns s2 wk" using s'(7) assms(16) by auto
  moreover have "\<forall>i < num. pending s' (ns ! i) []" using s'(4) len by simp
  ultimately show ?thesis
    using s1(1,10) init s'(1,5) kept_by_start_wstate(1-3) [OF s'(2)] k(1) w1 len dn(1) fd ef
    by (intro exI [of _ s'] exI [of _ qu] exI [of _ ns]) (simp add: start_service_def s2_def)
qed

section \<open>The first request\<close>

text \<open>
  From the start of the service to the answer of its first request. The master creates the queue
  object with a notify object per process, a worker takes its own and a list of processors start, each
  of which becomes idle by its first write event. Then a request to the method \<open>interface\<close> reaches the worker: its
  handlers put a task with a copy of the body on the list of the processor that started last and signal it,
  one cycle of that processor runs the method and sends the task back, and the worker's loop sends the
  client the status, the length and the response chain, which holds exactly the bytes of the response, and
  finalizes the request. One slot per process and eight allocations besides the notify objects suffice.
\<close>

theorem first_request_is_answered:
  fixes s :: "'z cstate_scheme"
  assumes "pconfs s c = Some cf" and "pc_shpool cf = Some pool"
    and "w = (if workers \<le> 0 then ncpu else workers)" and "0 < w"
    and "list_all (\<lambda>k. 0 \<le> k) counts" and "num = nat (w + sum_list counts)" and "w + sum_list counts < 2 ^ 31"
    and "spare (en_pick env) (chunks s) (num + 2 + 6)"
    and "\<forall>i < num. 0 \<le> fds i" and "hconfs s hc = Some hf"
    and "\<forall>y \<in> set (xs @ [x]). ps_slot y < num \<and> int (ps_slot y) \<le> lastp" "ws < num" "int ws \<le> lastp"
    and "distinct (ws # map ps_slot (xs @ [x]))" "distinct (c # map ps_conf (xs @ [x]))"
    and "distinct (wk # map ps_conn (xs @ [x]))"
    and "hc_hash hf = Some h" "requests s r = Some q" "r_ctx q = None" "h (r_uri q) = Some i"
    and "i < length (hc_methods hf)" "m_handler (hc_methods hf ! i) = Some (Method_Handler 0)"
    and "one_buffer s b bs" "pb_parse pb bs = (ok, m)" "pb_pick pb = en_pick env" "en_cleanup env"
    and "reply = (if ok then Some (ascii ''hehe'') else None)"
    and "pb_bytes pb reply \<noteq> []" "length (pb_bytes pb reply) \<le> 4096"
  shows "\<exists>s0 s1 s2 s3 s4 t. start_service env (rpc_exec pb) fds workers ncpu counts lastp c hc ws wk (xs @ [x]) s = Some s0
     \<and> ngx_http_rpc_http_handler env (Some hc) r s0 = Some (NGX_AGAIN, s1)
     \<and> ngx_http_rpc_post_async_handler env r (body_read r b s1) = Some s2
     \<and> (\<exists>k. efds s2 (fds (ps_slot x)) = Some k \<and> 0 < k)
     \<and> ngx_proc_rpc_process_one_cycle (rpc_exec pb) (ps_conf x) s2 = Some s3
     \<and> (\<exists>k. efds s3 (fds ws) = Some k \<and> 0 < k) \<and> chain_holds s3 (Res_bufs t) (pb_bytes pb reply)
     \<and> ngx_http_rpc_process_notify_task (worker_run env cmp junk) hc s3 = Some s4
     \<and> calls s4 = [Finalize_Request r (en_filter env), Output_Filter r (Res_bufs t),
          Send_Header r (if ok then 200 else 500) (Some (int (length (pb_bytes pb reply)))),
          Read_Client_Body r] @ calls s"
proof -
  obtain s0 qu ns where s0: "start_service env (rpc_exec pb) fds workers ncpu counts lastp c hc ws wk (xs @ [x]) s = Some s0"
    "service_ready s0 qu (ps_conf x) (ns ! ps_slot x) (rev (map (\<lambda>x. ns ! ps_slot x) xs)) (ns ! ws) (fds (ps_slot x)) (fds ws)"
    "hconfs s0 = (hconfs s)(hc \<mapsto> hf\<lparr>hc_queue := Some qu, hc_notify := Some (ns ! ws)\<rparr>)"
    "requests s0 = requests s" "calls s0 = calls s" "mem_kept s s0" "spare (en_pick env) (chunks s0) 6"
    using start_service_ok [where exec = "rpc_exec pb" and m = 6, OF assms(1-16)] by blast
  let ?hf = "hf\<lparr>hc_queue := Some qu, hc_notify := Some (ns ! ws)\<rparr>"
  have hf: "hconfs s0 hc = Some ?hf" "hc_queue ?hf = Some qu" "hc_notify ?hf = Some (ns ! ws)" "hc_hash ?hf = Some h"
    "i < length (hc_methods ?hf)" "m_handler (hc_methods ?hf ! i) = Some (Method_Handler 0)" "requests s0 r = Some q"
    using s0(3,4) assms(17,18,21,22) by simp_all
  have b: "one_buffer s0 b bs" by (rule kept_one_buffer [OF s0(6) _ assms(23)]) simp
  show ?thesis
    using ready_answers [where cmp = cmp and junk = junk,
        OF hf(1-4,7) assms(19,20) hf(5,6) b assms(24) s0(2,7) assms(25-29)] s0(1,5) by fastforce
qed

text \<open>The memory before the start, with a request whose body nginx has read.\<close>

definition demo_cold :: cstate where
  "demo_cold = (demo_idle :: cstate)\<lparr>chunks := [40 \<mapsto> Pool_mem Chain_t, 41 \<mapsto> Pool_mem Buf_t, 42 \<mapsto> Pool_mem (Bytes 3)],
     qnext := Map.empty, qprev := Map.empty, notifies := Map.empty, notify_slots := Map.empty, efds := Map.empty,
     tasks := Map.empty, queues := Map.empty, ctxs := Map.empty,
     pconfs := [0 \<mapsto> \<lparr>pc_shpool = Some 0, pc_queue = None, pc_notify = None, shm_size = 0\<rparr>],
     hconfs := [0 \<mapsto> \<lparr>hc_queue = None, hc_notify = None,
       hc_methods = [\<lparr>m_name = [47, 97], m_impl = Some 1, m_handler = Some (Method_Handler 0), m_log = None\<rparr>],
       hc_hash = Some [[47, 97] \<mapsto> 0]\<rparr>]\<rparr>"

lemma demo_cold_state:
  "pconfs demo_cold 0 = Some \<lparr>pc_shpool = Some 0, pc_queue = None, pc_notify = None, shm_size = 0\<rparr>"
  "hconfs demo_cold 0 = Some \<lparr>hc_queue = None, hc_notify = None,
       hc_methods = [\<lparr>m_name = [47, 97], m_impl = Some 1, m_handler = Some (Method_Handler 0), m_log = None\<rparr>],
       hc_hash = Some [[47, 97] \<mapsto> 0]\<rparr>"
  "requests demo_cold 0 = Some (demo_request\<lparr>r_ctx := None, r_body := None\<rparr>)" "calls demo_cold = []"
  by (simp_all add: demo_cold_def demo_idle_def wstate.extend_def cstate.fields_def demo_http_def)

lemma demo_cold_spare: "spare (en_pick demo_env) (chunks demo_cold) (3 + 2 + 6)"
proof -
  have "{9..<30} \<subseteq> {a \<in> {1..<30}. chunks demo_cold a = None}" by (auto simp: demo_cold_def)
  from card_mono [OF _ this] show ?thesis unfolding demo_env_def by (simp add: spare_first_fit)
qed

lemma demo_cold_body: "one_buffer demo_cold (Chain_cell 40) [1, 2, 3]"
  by (simp add: demo_cold_def demo_idle_def wstate.extend_def cstate.fields_def demo_http_def load_def live_def
      one_buffer_def chain_defs mem_buf_def ptr_diff_def read_bytes_def numeral_eq_Suc)

theorem first_request_is_answered_witness:
  "\<exists>s0 s1 s2 s3 s4 t. start_service demo_env (rpc_exec demo_pb) (\<lambda>i. 10 + int i) 1 4 [2] 8 0 0 0 1
         [\<lparr>ps_slot = 1, ps_conf = 1, ps_conn = 2\<rparr>, \<lparr>ps_slot = 2, ps_conf = 2, ps_conn = 3\<rparr>] demo_cold = Some s0
     \<and> ngx_http_rpc_http_handler demo_env (Some 0) 0 s0 = Some (NGX_AGAIN, s1)
     \<and> ngx_http_rpc_post_async_handler demo_env 0 (body_read 0 (Chain_cell 40) s1) = Some s2
     \<and> ngx_proc_rpc_process_one_cycle (rpc_exec demo_pb) 2 s2 = Some s3
     \<and> chain_holds s3 (Res_bufs t) (9 # ascii ''hehe'')
     \<and> ngx_http_rpc_process_notify_task (worker_run demo_env (\<lambda>_. False) (\<lambda>_. 0)) 0 s3 = Some s4
     \<and> calls s4 = [Finalize_Request 0 0, Output_Filter 0 (Res_bufs t), Send_Header 0 200 (Some 5), Read_Client_Body 0]"
proof -
  have pb: "pb_parse demo_pb [1, 2, 3] = (True, Some [1, 2, 3])" "pb_pick demo_pb = en_pick demo_env"
    "pb_bytes demo_pb (Some (ascii ''hehe'')) = 9 # ascii ''hehe''" "length (ascii ''hehe'') = 4"
    "en_cleanup demo_env" "en_filter demo_env = 0"
    by (simp_all add: demo_pb_def demo_env_def ascii_def)
  have q: "r_uri (demo_request\<lparr>r_ctx := None, r_body := None\<rparr>) = [47, 97]" by (simp add: demo_request_def)
  show ?thesis
    using first_request_is_answered [where cmp = "\<lambda>_. False" and junk = "\<lambda>_. 0" and i = 0 and workers = 1 and ncpu = 4
        and counts = "[2]" and fds = "\<lambda>i. 10 + int i" and lastp = 8 and ws = 0 and wk = 1
        and xs = "[\<lparr>ps_slot = 1, ps_conf = 1, ps_conn = 2\<rparr>]" and x = "\<lparr>ps_slot = 2, ps_conf = 2, ps_conn = 3\<rparr>",
        OF demo_cold_state(1) _ refl _ _ _ _ demo_cold_spare _ demo_cold_state(2) _ _ _ _ _ _ _ demo_cold_state(3) _ _ _ _
          demo_cold_body pb(1,2,5) refl]
      demo_cold_state(4) pb q by fastforce
qed

end
