(* ===== verification/Service_Run.thy ===== *)
theory Service_Run
  imports Service_Callbacks Service_Start
begin

text \<open>
  The service as a whole: the events that processes and clients cause, in every order, from the state after the start. No
  request is lost, no callback of the module fails, and when no more requests come all that waited are answered.
\<close>

section \<open>The service\<close>

text \<open>
  The events: nginx has read a request from a client; a worker \<open>w\<close> handles the request \<open>r\<close>, whose body is \<open>b\<close>, or
  \<open>None\<close> for a request without a body; the worker gets a request for a path that is no method; epoll reports the eventfd of the
  process \<open>n\<close>.
\<close>

datatype event = Client nat | Request addr nat "byte list option" | Decline addr nat | Wake addr

text \<open>A new request for the method \<open>interface\<close>, with its body in the chain \<open>c\<close>, which is one buffer in memory.\<close>

definition asks :: "service \<Rightarrow> 'z wstate_scheme \<Rightarrow> addr \<Rightarrow> nat \<Rightarrow> chaddr \<Rightarrow> byte list \<Rightarrow> bool" where
  "asks d s w r c bs \<longleftrightarrow> w \<in> sv_workers d \<and> one_buffer s c bs
     \<and> (\<exists>q cf h i. requests s r = Some q \<and> r_ctx q = None \<and> hconfs s (sv_conf d w) = Some cf \<and> hc_hash cf = Some h
          \<and> h (r_uri q) = Some i \<and> i < length (hc_methods cf) \<and> m_handler (hc_methods cf ! i) = Some (Method_Handler 0))"

text \<open>A new request for any method, and a request for something else.\<close>

definition names_method :: "service \<Rightarrow> 'z wstate_scheme \<Rightarrow> addr \<Rightarrow> nat \<Rightarrow> bool" where
  "names_method d s w r \<longleftrightarrow> w \<in> sv_workers d
     \<and> (\<exists>q cf h i. requests s r = Some q \<and> r_ctx q = None \<and> hconfs s (sv_conf d w) = Some cf \<and> hc_hash cf = Some h
          \<and> h (r_uri q) = Some i)"

definition names_other :: "service \<Rightarrow> 'z wstate_scheme \<Rightarrow> addr \<Rightarrow> nat \<Rightarrow> bool" where
  "names_other d s w r \<longleftrightarrow> w \<in> sv_workers d
     \<and> (\<exists>q cf h. requests s r = Some q \<and> hconfs s (sv_conf d w) = Some cf \<and> hc_hash cf = Some h \<and> h (r_uri q) = None)"

text \<open>
  One step of the service. A client's request may change nginx's own memory, but nothing that is in use. The callbacks are
  those of the module; those that allocate find the memory they need.
\<close>

inductive service_step ::
  "http_env \<Rightarrow> proto \<Rightarrow> (byte list \<Rightarrow> bool) \<Rightarrow> (nat \<Rightarrow> byte) \<Rightarrow> service
    \<Rightarrow> 'z cstate_scheme \<Rightarrow> event \<Rightarrow> 'z cstate_scheme \<Rightarrow> bool" for env pb cmp junk d where
  client: "\<lbrakk> requests s r = None; r_ctx q = None; mem_kept s s';
      s' = s\<lparr>chunks := a, bufs := b, chain_buf := f, chain_next := g, data := h, requests := (requests s)(r \<mapsto> q)\<rparr> \<rbrakk>
    \<Longrightarrow> service_step env pb cmp junk d s (Client r) s'"
| request: "\<lbrakk> asks d s w r c bs; spare (en_pick env) (chunks s) 4;
      ngx_http_rpc_http_handler env (Some (sv_conf d w)) r s = Some (NGX_AGAIN, s1);
      ngx_http_rpc_post_async_handler env r (body_read r c s1) = Some s' \<rbrakk>
    \<Longrightarrow> service_step env pb cmp junk d s (Request w r (Some bs)) s'"
| bodiless: "\<lbrakk> names_method d s w r; spare (en_pick env) (chunks s) 1;
      ngx_http_rpc_http_handler env (Some (sv_conf d w)) r s = Some (NGX_AGAIN, s1);
      ngx_http_rpc_post_async_handler env r (body_missing r made s1) = Some s' \<rbrakk>
    \<Longrightarrow> service_step env pb cmp junk d s (Request w r None) s'"
| decline: "\<lbrakk> names_other d s w r; ngx_http_rpc_http_handler env (Some (sv_conf d w)) r s = Some (NGX_DECLINED, s') \<rbrakk>
    \<Longrightarrow> service_step env pb cmp junk d s (Decline w r) s'"
| wake: "\<lbrakk> n \<in> sv_all d; efds s (sv_fd d n) = Some k; 0 < k;
      pending s n (map TaskNode ts); n \<in> sv_procs d \<longrightarrow> spare (pb_pick pb) (chunks s) (2 * length ts);
      ngx_rpc_notify_read_handler (process_call env pb cmp junk d n) (sv_conn d n) s = Some s' \<rbrakk>
    \<Longrightarrow> service_step env pb cmp junk d s (Wake n) s'"

inductive_cases client_stepE: "service_step env pb cmp junk d s (Client r) s'"
inductive_cases request_stepE: "service_step env pb cmp junk d s (Request w r (Some bs)) s'"
inductive_cases bodiless_stepE: "service_step env pb cmp junk d s (Request w r None) s'"
inductive_cases decline_stepE: "service_step env pb cmp junk d s (Decline w r) s'"
inductive_cases wake_stepE: "service_step env pb cmp junk d s (Wake n) s'"

text \<open>\<open>served s0 es s\<close>: the events \<open>es\<close> lead from \<open>s0\<close> to \<open>s\<close>.\<close>

inductive served ::
  "http_env \<Rightarrow> proto \<Rightarrow> (byte list \<Rightarrow> bool) \<Rightarrow> (nat \<Rightarrow> byte) \<Rightarrow> service
    \<Rightarrow> 'z cstate_scheme \<Rightarrow> event list \<Rightarrow> 'z cstate_scheme \<Rightarrow> bool" for env pb cmp junk d s0 where
  start: "served env pb cmp junk d s0 [] s0"
| step: "served env pb cmp junk d s0 es s \<Longrightarrow> service_step env pb cmp junk d s e s' \<Longrightarrow> served env pb cmp junk d s0 (es @ [e]) s'"

text \<open>The requests for methods that came, with their bodies.\<close>

fun asked :: "event list \<Rightarrow> (nat \<times> byte list option) list" where
  "asked [] = []"
| "asked (Request w r b # es) = (r, b) # asked es"
| "asked (_ # es) = asked es"

lemma asked_append [simp]: "asked (es @ fs) = asked es @ asked fs"
  by (induction es rule: asked.induct) simp_all

lemma asked_wakes [simp]: "asked (map Wake ns) = []"
  by (induction ns) simp_all

text \<open>The state after the start of all processes.\<close>

definition ready :: "service \<Rightarrow> 'z wstate_scheme \<Rightarrow> bool" where
  "ready d s \<longleftrightarrow> deployed d s \<and> idle_any s (sv_queue d) (sv_procs d)
     \<and> (\<forall>n \<in> sv_all d. pending s n [] \<and> efds s (sv_fd d n) = Some 0) \<and> calls s = []"

lemma ready_working:
  assumes "ready d s"
  shows "working env pb d Map.empty J {} s (\<lambda>_. []) {}"
proof -
  have "pendings s (sv_all d) (\<lambda>_. [])" "signals d {} s (\<lambda>_. [])"
    using assms by (simp_all add: ready_def pendings_def signals_def)
  then show ?thesis
    using assms by (simp add: ready_def working_def jobs_def book_def apart_def listed_def)
qed

lemma client_comes:
  fixes s s' :: "'z cstate_scheme"
  assumes inv: "working env pb d B J {} s L A" and q: "requests s r = None" and k: "mem_kept s s'"
    and s': "s' = s\<lparr>chunks := a, bufs := b, chain_buf := f, chain_next := g, data := h, requests := (requests s)(r \<mapsto> q)\<rparr>"
  shows "working env pb d B J {} s' L A" and "settled s s'"
proof -
  note iv = workingD [OF inv]
  show st: "settled s s'" using kept_live [OF k] by (simp add: settled_def s')
  have "pendings s' (sv_all d) L" by (rule pendings_same [OF iv(2)]) (use kept_live [OF k] in \<open>simp_all add: s'\<close>)
  moreover have "idle_same s s'" using kept_live [OF k] by (simp add: idle_same_def s')
  from idle_same_any [OF this iv(3)] have "idle_any s' (sv_queue d) (sv_procs d)" .
  moreover have "signals d {} s' L" using iv(4) by (simp add: signals_def s')
  moreover have "jobs pb d J s' (listed L (sv_procs d)) (listed L (sv_workers d)) A"
    by (rule jobs_kept [OF iv(5) k]) (simp add: s')
  moreover have "B r = None" using iv(6) q unfolding book_def by (metis not_None_eq)
  then have "book env pb B J s' (listed L (sv_all d)) A" using iv(6) by (auto simp: book_def s')
  ultimately show "working env pb d B J {} s' L A" using deployed_settled [OF iv(1) st] by (simp add: working_def)
qed

lemma map_of_snoc: "map_of xs k = None \<Longrightarrow> map_of (xs @ [(k, v)]) = (map_of xs)(k \<mapsto> v)"
  by (auto simp: fun_eq_iff map_add_def split: option.splits)

text \<open>What every event does, and that it is possible when it comes.\<close>

lemma pending_length:
  assumes "pendings s N L" and "n \<in> N" and "pending s n (map TaskNode ts)"
  shows "ts = L n"
proof -
  have "map TaskNode ts = map TaskNode (L n)" by (rule pending_unique [OF assms(3) pendings_pending [OF assms(1,2)]])
  then show ?thesis by (metis list.inj_map_strong qaddr.inject)
qed

section \<open>What every event does\<close>

text \<open>
  The parameters of the service: the pool of a request registers cleanups, protobuf and the requests share the slab pool,
  and a reply fits the buffer of a response.
\<close>

definition setting :: "http_env \<Rightarrow> proto \<Rightarrow> bool" where
  "setting env pb \<longleftrightarrow> en_cleanup env \<and> pb_pick pb = en_pick env
     \<and> length (pb_bytes pb None) \<le> 4096 \<and> length (pb_bytes pb (Some (ascii ''hehe''))) \<le> 4096"

lemma settingD:
  assumes "setting env pb"
  shows "en_cleanup env" "pb_pick pb = en_pick env" "length (reply_of pb bs) \<le> 4096"
  using assms by (simp_all add: setting_def reply_of_def)

lemma listed_card:
  assumes "pendings s N L" and "M \<subseteq> N" and "n \<in> M" and "finite M"
  shows "card (listed L M - set (L n)) + length (L n) = card (listed L M)" and "finite (listed L M)"
proof -
  show f: "finite (listed L M)" using assms(4) by (simp add: listed_def)
  have "card (set (L n)) = length (L n)"
    using pendings_distinct [OF assms(1)] assms(2,3) by (simp add: distinct_card subsetD)
  moreover have "set (L n) \<subseteq> listed L M" using assms(3) by (auto simp: listed_def)
  ultimately show "card (listed L M - set (L n)) + length (L n) = card (listed L M)"
    using card_mono [OF f, of "set (L n)"] by (simp add: card_Diff_subset)
qed

text \<open>The turns that are left: a request on the list of a processor needs two of them, one on that of a worker needs one.\<close>

definition turns :: "service \<Rightarrow> (addr \<Rightarrow> addr list) \<Rightarrow> nat" where
  "turns d L = 2 * card (listed L (sv_procs d)) + card (listed L (sv_workers d))"

text \<open>A process with room for its tasks has a step when epoll reports its eventfd, and it empties its list.\<close>

lemma wake_exact:
  fixes s :: "'z cstate_scheme"
  assumes inv: "working env pb d B J {} s L A" and n: "n \<in> sv_all d" and c: "efds s (sv_fd d n) = Some c" "0 < c"
    and e: "en_cleanup env" and fits: "\<And>bs. length (reply_of pb bs) \<le> 4096"
    and sp: "n \<in> sv_procs d \<Longrightarrow> spare (pb_pick pb) (chunks s) (2 * length (L n) + k)"
  shows "\<exists>s' L' A'. ngx_rpc_notify_read_handler (process_call env pb cmp junk d n) (sv_conn d n) s = Some s'
     \<and> working env pb d B J {} s' L' A' \<and> turns d L' < turns d L \<and> listed L' (sv_all d) \<union> A' = listed L (sv_all d) \<union> A
     \<and> (n \<in> sv_procs d \<longrightarrow> spare (pb_pick pb) (chunks s') k \<and> card (listed L' (sv_procs d)) + length (L n) = card (listed L (sv_procs d)))
     \<and> (n \<notin> sv_procs d \<longrightarrow> chunks s' = chunks s \<and> listed L' (sv_procs d) = listed L (sv_procs d))"
proof -
  note iv = workingD [OF inv]
  have fin: "finite (sv_procs d)" "finite (sv_workers d)" using iv(1) by (simp_all add: deployed_def)
  have ne: "L n \<noteq> []" using iv(4) n c unfolding signals_def by fastforce
  then have len: "0 < length (L n)" by simp
  show ?thesis
  proof (cases "n \<in> sv_procs d")
    case True
    from proc_wakes [OF inv True c sp [OF True] fits] obtain s' L' where s':
      "ngx_rpc_notify_read_handler (process_call env pb cmp junk d n) (sv_conn d n) s = Some s'"
      "working env pb d B J {} s' L' A" "listed L' (sv_procs d) = listed L (sv_procs d) - set (L n)"
      "listed L' (sv_workers d) = listed L (sv_workers d) \<union> set (L n)" "spare (pb_pick pb) (chunks s') k" by blast
    have "sv_procs d \<subseteq> sv_all d" by blast
    note cd = listed_card [OF iv(2) this True fin(1)]
    have "card (listed L' (sv_workers d)) \<le> card (listed L (sv_workers d)) + length (L n)"
      using card_Un_le [of "listed L (sv_workers d)" "set (L n)"] card_length [of "L n"] by (simp add: s'(4))
    then have "turns d L' < turns d L" using cd(1) len unfolding turns_def s'(3) by linarith
    moreover have "set (L n) \<subseteq> listed L (sv_procs d)" using True by (auto simp: listed_def)
    then have "listed L' (sv_all d) \<union> A = listed L (sv_all d) \<union> A" unfolding listed_Un s'(3,4) by blast
    ultimately show ?thesis using s'(1,2,5) True cd(1) s'(3) by (intro exI [of _ s'] exI [of _ L'] exI [of _ A]) simp
  next
    case False
    then have w: "n \<in> sv_workers d" using n by simp
    from worker_wakes [OF inv w c e] obtain s' L' where s':
      "ngx_rpc_notify_read_handler (process_call env pb cmp junk d n) (sv_conn d n) s = Some s'"
      "working env pb d B J {} s' L' (A \<union> set (L n))" "listed L' (sv_procs d) = listed L (sv_procs d)"
      "listed L' (sv_workers d) = listed L (sv_workers d) - set (L n)" "chunks s' = chunks s" by blast
    have "sv_workers d \<subseteq> sv_all d" by blast
    from listed_card(1) [OF iv(2) this w fin(2)] have "turns d L' < turns d L"
      using len unfolding turns_def s'(3,4) by linarith
    moreover have "set (L n) \<subseteq> listed L (sv_workers d)" using w by (auto simp: listed_def)
    then have "listed L' (sv_all d) \<union> (A \<union> set (L n)) = listed L (sv_all d) \<union> A" unfolding listed_Un s'(3,4) by blast
    ultimately show ?thesis using s' False by blast
  qed
qed

text \<open>A request that finds the memory it needs has a step, and so has the process whose eventfd epoll reports.\<close>

lemma asks_steps:
  fixes s :: "'z cstate_scheme"
  assumes inv: "working env pb d B J {} s L A" and a: "asks d s w r c bs" and sp: "spare (en_pick env) (chunks s) (4 + k)"
    and e: "en_cleanup env"
  shows "B r = None \<and> (\<exists>s0 s' J' L'. ngx_http_rpc_http_handler env (Some (sv_conf d w)) r s = Some (NGX_AGAIN, s0)
     \<and> ngx_http_rpc_post_async_handler env r (body_read r c s0) = Some s' \<and> working env pb d (B(r \<mapsto> Some bs)) J' {} s' L' A
     \<and> spare (en_pick env) (chunks s') k
     \<and> (idles s (sv_queue d) [] \<and> calls_for r (calls s') = refused_calls env r \<or> r \<in> (fst \<circ> J') ` listed L' (sv_all d)))"
proof -
  obtain q cf h i where r: "w \<in> sv_workers d" "one_buffer s c bs" "requests s r = Some q" "r_ctx q = None"
    "hconfs s (sv_conf d w) = Some cf" "hc_hash cf = Some h" "h (r_uri q) = Some i" "i < length (hc_methods cf)"
    "m_handler (hc_methods cf ! i) = Some (Method_Handler 0)"
    using a unfolding asks_def by blast
  from request_comes [OF inv r(1,3-9,2) sp e] obtain s0 s' J' L' X where s':
    "ngx_http_rpc_http_handler env (Some (sv_conf d w)) r s = Some (NGX_AGAIN, s0)"
    "ngx_http_rpc_post_async_handler env r (body_read r c s0) = Some s'"
    "working env pb d (B(r \<mapsto> Some bs)) J' {} s' L' A" "spare (en_pick env) (chunks s') k"
    "X = {} \<and> idles s (sv_queue d) [] \<and> calls_for r (calls s') = refused_calls env r \<or> (\<exists>t. X = {t} \<and> fst (J' t) = r)"
    "listed L' (sv_procs d) = listed L (sv_procs d) \<union> X" by blast
  have "r \<in> (fst \<circ> J') ` listed L' (sv_all d)" if "X = {t}" "fst (J' t) = r" for t
    unfolding listed_Un s'(6) using that by auto
  then show ?thesis using s' book_new [OF workingD(6) [OF inv] r(3,4)] by blast
qed

lemma bodiless_steps:
  fixes s :: "'z cstate_scheme"
  assumes inv: "working env pb d B J {} s L A" and m: "names_method d s w r" and sp: "spare (en_pick env) (chunks s) 1"
    and e: "en_cleanup env"
  shows "B r = None \<and> (\<exists>s0 s'. ngx_http_rpc_http_handler env (Some (sv_conf d w)) r s = Some (NGX_AGAIN, s0)
     \<and> ngx_http_rpc_post_async_handler env r (body_missing r made s0) = Some s' \<and> working env pb d (B(r \<mapsto> None)) J {} s' L A
     \<and> calls_for r (calls s') = bad_calls r)"
proof -
  obtain q cf h i where r: "w \<in> sv_workers d" "requests s r = Some q" "r_ctx q = None"
    "hconfs s (sv_conf d w) = Some cf" "hc_hash cf = Some h" "h (r_uri q) = Some i"
    using m unfolding names_method_def by blast
  have "spare (en_pick env) (chunks s) (Suc 0)" using sp by simp
  from request_bad [OF inv r this e] show ?thesis .
qed

lemma decline_steps:
  fixes s :: "'z cstate_scheme"
  assumes inv: "working env pb d B J {} s L A" and m: "names_other d s w r"
  shows "ngx_http_rpc_http_handler env (Some (sv_conf d w)) r s = Some (NGX_DECLINED, s)"
  using m request_declined [OF inv] unfolding names_other_def by blast

lemma step_working:
  fixes s :: "'z cstate_scheme"
  assumes inv: "working env pb d B J {} s L A" and st: "service_step env pb cmp junk d s e s'" and set: "setting env pb"
  shows "\<exists>J' L' A'. working env pb d (B ++ map_of (asked [e])) J' {} s' L' A' \<and> (\<forall>x \<in> set (asked [e]). B (fst x) = None)"
proof (cases e)
  case (Client r)
  obtain q a b f g h where q: "requests s r = None" "mem_kept s s'"
    "s' = s\<lparr>chunks := a, bufs := b, chain_buf := f, chain_next := g, data := h, requests := (requests s)(r \<mapsto> q)\<rparr>"
    by (rule client_stepE [OF st [unfolded Client]]) auto
  then show ?thesis using client_comes(1) [OF inv q] Client by auto
next
  case (Request w r b)
  show ?thesis
  proof (cases b)
    case None
    obtain s1 made where q: "names_method d s w r" "spare (en_pick env) (chunks s) 1"
      "ngx_http_rpc_http_handler env (Some (sv_conf d w)) r s = Some (NGX_AGAIN, s1)"
      "ngx_http_rpc_post_async_handler env r (body_missing r made s1) = Some s'"
      by (rule bodiless_stepE [OF st [unfolded Request None]]) (rule that, simp_all)
    from bodiless_steps [OF inv q(1,2) settingD(1) [OF set], of made] show ?thesis using q(3,4) Request None by fastforce
  next
    case (Some bs)
    obtain c s1 where q: "asks d s w r c bs" "spare (en_pick env) (chunks s) 4"
      "ngx_http_rpc_http_handler env (Some (sv_conf d w)) r s = Some (NGX_AGAIN, s1)"
      "ngx_http_rpc_post_async_handler env r (body_read r c s1) = Some s'"
      by (rule request_stepE [OF st [unfolded Request Some]])
    have "spare (en_pick env) (chunks s) (4 + 0)" using q(2) by simp
    from asks_steps [OF inv q(1) this settingD(1) [OF set]] show ?thesis using q(3,4) Request Some by fastforce
  qed
next
  case (Decline w r)
  then have "names_other d s w r" "ngx_http_rpc_http_handler env (Some (sv_conf d w)) r s = Some (NGX_DECLINED, s')"
    using decline_stepE [OF st [unfolded Decline]] by blast+
  then have "s' = s" using decline_steps [OF inv] by simp
  then show ?thesis using inv Decline by auto
next
  case (Wake n)
  obtain c ts where q: "n \<in> sv_all d" "efds s (sv_fd d n) = Some c" "0 < c" "pending s n (map TaskNode ts)"
    "n \<in> sv_procs d \<longrightarrow> spare (pb_pick pb) (chunks s) (2 * length ts)"
    "ngx_rpc_notify_read_handler (process_call env pb cmp junk d n) (sv_conn d n) s = Some s'"
    by (rule wake_stepE [OF st [unfolded Wake]]) auto
  have ts: "ts = L n" by (rule pending_length [OF workingD(2) [OF inv] q(1,4)])
  have "n \<in> sv_procs d \<Longrightarrow> spare (pb_pick pb) (chunks s) (2 * length (L n) + 0)" using q(5) ts by simp
  from wake_exact [OF inv q(1-3) settingD(1,3) [OF set] this, of cmp junk] show ?thesis using q(6) Wake by fastforce
qed

lemma served_working:
  fixes s :: "'z cstate_scheme"
  assumes "served env pb cmp junk d s0 es s" and "ready d s0" and "setting env pb"
  shows "\<exists>J L A. working env pb d (map_of (asked es)) J {} s L A \<and> distinct (map fst (asked es))"
  using assms(1)
proof induction
  case start
  then show ?case using ready_working [OF assms(2), of env pb undefined] by (intro exI conjI) auto
next
  case (step es s e s')
  then obtain J L A where w: "working env pb d (map_of (asked es)) J {} s L A" "distinct (map fst (asked es))" by blast
  from step_working [OF w(1) step.hyps(2) assms(3)] obtain J' L' A' where
    w': "working env pb d (map_of (asked es) ++ map_of (asked [e])) J' {} s' L' A'"
    "\<forall>x \<in> set (asked [e]). map_of (asked es) (fst x) = None" by blast
  have d: "distinct (map fst (asked (es @ [e])))"
    using w(2) w'(2) by (cases e) (auto simp: map_of_eq_None_iff)
  moreover have "map_of (asked es) ++ map_of (asked [e]) = map_of (asked (es @ [e]))"
    using w'(2) by (cases e) (simp_all add: map_of_snoc del: map_of_append)
  ultimately show ?case using w'(1) by (metis (no_types))
qed

section \<open>Every request is answered\<close>

text \<open>What nginx has been asked to do for the request \<open>r\<close> with the body \<open>bs\<close>: to read the body, to send the answer, to refuse it
  because no processor is idle, to report a bad request.\<close>

definition waiting :: "'z wstate_scheme \<Rightarrow> nat \<Rightarrow> bool" where
  "waiting s r \<longleftrightarrow> calls_for r (calls s) = [Read_Client_Body r]"

definition replied :: "http_env \<Rightarrow> proto \<Rightarrow> 'z wstate_scheme \<Rightarrow> nat \<Rightarrow> byte list \<Rightarrow> bool" where
  "replied env pb s r bs \<longleftrightarrow> (\<exists>t. calls_for r (calls s) = reply_calls env pb r bs t \<and> chain_holds s (Res_bufs t) (reply_of pb bs))"

definition turned_away :: "http_env \<Rightarrow> 'z wstate_scheme \<Rightarrow> nat \<Rightarrow> bool" where
  "turned_away env s r \<longleftrightarrow> calls_for r (calls s) = refused_calls env r"

definition bad_request :: "'z wstate_scheme \<Rightarrow> nat \<Rightarrow> bool" where
  "bad_request s r \<longleftrightarrow> calls_for r (calls s) = bad_calls r"

text \<open>epoll reports the process \<open>n\<close>, and a task of the request \<open>r\<close> is on its list.\<close>

definition signalled :: "service \<Rightarrow> 'z nstate_scheme \<Rightarrow> addr \<Rightarrow> bool" where
  "signalled d s n \<longleftrightarrow> (\<exists>c. efds s (sv_fd d n) = Some c \<and> 0 < c)"

definition task_for :: "'z wstate_scheme \<Rightarrow> addr \<Rightarrow> nat \<Rightarrow> bool" where
  "task_for s t r \<longleftrightarrow> (\<exists>tk. load s (tasks s) t = Some tk \<and> (p1 (finish tk) = Some (Http_Request r)
     \<or> (\<exists>x cx. p1 (closure tk) = Some (Rpc_Ctx x) \<and> load s (ctxs s) x = Some cx \<and> cx_r cx = r)))"

definition in_hand :: "service \<Rightarrow> 'z wstate_scheme \<Rightarrow> nat \<Rightarrow> bool" where
  "in_hand d s r \<longleftrightarrow> waiting s r \<and> (\<exists>n ts t. n \<in> sv_all d \<and> signalled d s n \<and> pending s n (map TaskNode ts) \<and> t \<in> set ts \<and> task_for s t r)"

lemma jobs_task_for: "jobs pb d J s C D A \<Longrightarrow> t \<in> C \<union> D \<Longrightarrow> task_for s t (fst (J t))"
  unfolding jobs_def calling_def replying_def task_for_def by fastforce

lemma working_in_hand:
  assumes inv: "working env pb d B J {} s L A" and t: "t \<in> listed L (sv_all d)"
  shows "in_hand d s (fst (J t))"
proof -
  note iv = workingD [OF inv]
  obtain n where n: "n \<in> sv_all d" "t \<in> set (L n)" using t unfolding listed_def by blast
  then have "L n \<noteq> []" by auto
  then have "signalled d s n" using iv(4) n(1) by (auto simp: signals_def signalled_def)
  moreover have "waiting s (fst (J t))" using iv(6) t unfolding book_def waiting_def by blast
  moreover have "task_for s t (fst (J t))" using jobs_task_for [OF iv(5)] t by (simp add: listed_Un)
  ultimately show ?thesis using n pendings_pending [OF iv(2) n(1)] unfolding in_hand_def by blast
qed

lemma working_replied:
  assumes inv: "working env pb d B J {} s L A" and r: "B r = Some (Some bs)" "r \<in> (fst \<circ> J) ` A"
  shows "replied env pb s r bs"
proof -
  note iv = workingD [OF inv]
  obtain t where t: "t \<in> A" "fst (J t) = r" using r(2) by auto
  have "B (fst (J t)) = Some (Some (snd (J t))) \<and> calls_for (fst (J t)) (calls s) = reply_calls env pb (fst (J t)) (snd (J t)) t"
    using iv(6) t(1) unfolding book_def by blast
  then have "snd (J t) = bs" "calls_for r (calls s) = reply_calls env pb r bs t" using r(1) t(2) by auto
  moreover have "one_cell s (Res_bufs t) (reply_of pb (snd (J t)))" using iv(5) t(1) unfolding jobs_def by blast
  ultimately show ?thesis unfolding replied_def using one_cell_holds' by blast
qed

lemma working_known:
  assumes inv: "working env pb d B J {} s L A" and r: "B r = Some (Some bs)"
  shows "r \<in> (fst \<circ> J) ` (listed L (sv_all d) \<union> A) \<or> turned_away env s r"
  using workingD(6) [OF inv] r unfolding book_def turned_away_def by (metis denied_calls_simps(2))

lemma working_answered:
  assumes inv: "working env pb d B J {} s L A" and r: "B r = Some (Some bs)"
  shows "r \<in> (fst \<circ> J) ` listed L (sv_all d) \<or> replied env pb s r bs \<or> turned_away env s r"
  using working_known [OF assms] working_replied [OF assms] by auto

lemma working_bad:
  assumes inv: "working env pb d B J {} s L A" and r: "B r = Some None"
  shows "bad_request s r"
proof -
  note iv = workingD [OF inv]
  have "r \<notin> (fst \<circ> J) ` (listed L (sv_all d) \<union> A)" using iv(6) r unfolding book_def by force
  then show ?thesis using iv(6) r unfolding book_def bad_request_def by (metis denied_calls_simps(1))
qed

lemma answers_differ:
  "replied env pb s r bs \<Longrightarrow> \<not> waiting s r" "turned_away env s r \<Longrightarrow> \<not> waiting s r" "bad_request s r \<Longrightarrow> \<not> waiting s r"
  by (auto simp: replied_def turned_away_def bad_request_def waiting_def reply_calls_def refused_calls_def bad_calls_def
      split: if_splits)

lemma working_waiting:
  assumes inv: "working env pb d B J {} s L A"
  shows "{r. waiting s r} = (fst \<circ> J) ` listed L (sv_all d)"
proof
  show "(fst \<circ> J) ` listed L (sv_all d) \<subseteq> {r. waiting s r}" using working_in_hand [OF inv] by (auto simp: in_hand_def)
  show "{r. waiting s r} \<subseteq> (fst \<circ> J) ` listed L (sv_all d)"
  proof
    fix r
    assume "r \<in> {r. waiting s r}"
    then have w: "waiting s r" by simp
    then have "B r \<noteq> None" using workingD(6) [OF inv] by (auto simp: book_def waiting_def)
    then obtain b where "B r = Some b" by blast
    then show "r \<in> (fst \<circ> J) ` listed L (sv_all d)"
      using working_answered [OF inv] working_bad [OF inv] answers_differ w by (cases b) blast+
  qed
qed

lemma working_turns:
  assumes inv: "working env pb d B J {} s L A"
  shows "turns d L \<le> 2 * card {r. waiting s r}" and "card (listed L (sv_procs d)) \<le> card {r. waiting s r}"
proof -
  note iv = workingD [OF inv]
  have "finite (sv_procs d)" "finite (sv_workers d)" using iv(1) by (simp_all add: deployed_def)
  then have f: "finite (listed L (sv_procs d))" "finite (listed L (sv_workers d))" by (simp_all add: listed_def)
  have dj: "listed L (sv_procs d) \<inter> listed L (sv_workers d) = {}"
    and inj: "inj_on (fst \<circ> J) (listed L (sv_procs d) \<union> listed L (sv_workers d) \<union> A)" using iv(5) by (simp_all add: jobs_def)
  have "card {r. waiting s r} = card (listed L (sv_procs d)) + card (listed L (sv_workers d))"
    unfolding working_waiting [OF inv] using card_image [OF inj_on_subset [OF inj]] card_Un_disjoint [OF f dj] by (simp add: listed_Un)
  then show "turns d L \<le> 2 * card {r. waiting s r}" "card (listed L (sv_procs d)) \<le> card {r. waiting s r}"
    by (simp_all add: turns_def)
qed

lemma asks_in_hand:
  fixes s :: "'z cstate_scheme"
  assumes inv: "working env pb d B J {} s L A" and a: "asks d s w r c bs" "spare (en_pick env) (chunks s) 4" and set: "setting env pb"
  shows "\<exists>s'. service_step env pb cmp junk d s (Request w r (Some bs)) s' \<and> (in_hand d s' r \<or> idles s (sv_queue d) [] \<and> turned_away env s' r)"
proof -
  have "spare (en_pick env) (chunks s) (4 + 0)" using a(2) by simp
  from asks_steps [OF inv a(1) this settingD(1) [OF set]] obtain s0 s' J' L' where s':
    "ngx_http_rpc_http_handler env (Some (sv_conf d w)) r s = Some (NGX_AGAIN, s0)"
    "ngx_http_rpc_post_async_handler env r (body_read r c s0) = Some s'" "working env pb d (B(r \<mapsto> Some bs)) J' {} s' L' A"
    "idles s (sv_queue d) [] \<and> calls_for r (calls s') = refused_calls env r \<or> r \<in> (fst \<circ> J') ` listed L' (sv_all d)"
    by blast
  have "in_hand d s' r" if "r \<in> (fst \<circ> J') ` listed L' (sv_all d)"
    using that working_in_hand [OF s'(3)] by auto
  then show ?thesis using service_step.request [OF a s'(1,2)] s'(4) unfolding turned_away_def by blast
qed

lemma working_wakes:
  fixes s :: "'z cstate_scheme"
  assumes inv: "working env pb d B J {} s L A" and n: "n \<in> sv_all d" "signalled d s n" and set: "setting env pb"
    and sp: "n \<in> sv_procs d \<longrightarrow> spare (pb_pick pb) (chunks s) (2 * length (L n))"
  shows "\<exists>s'. service_step env pb cmp junk d s (Wake n) s'"
proof -
  obtain c where c: "efds s (sv_fd d n) = Some c" "0 < c" using n(2) by (auto simp: signalled_def)
  have "n \<in> sv_procs d \<Longrightarrow> spare (pb_pick pb) (chunks s) (2 * length (L n) + 0)" using sp by simp
  from wake_exact [OF inv n(1) c settingD(1,3) [OF set] this, of cmp junk] obtain s' where
    "ngx_rpc_notify_read_handler (process_call env pb cmp junk d n) (sv_conn d n) s = Some s'" by blast
  then show ?thesis
    using service_step.wake [OF n(1) c pendings_pending [OF workingD(2) [OF inv] n(1)] sp] by blast
qed

lemma wakes_working:
  fixes s s' :: "'z cstate_scheme"
  assumes "served env pb cmp junk d s es s'" and "es = map Wake ws" and set: "setting env pb"
    and inv: "working env pb d B J {} s L A" and sp: "spare (pb_pick pb) (chunks s) (2 * card (listed L (sv_procs d)))"
  shows "\<exists>L' A'. working env pb d B J {} s' L' A' \<and> turns d L' + length ws \<le> turns d L
     \<and> listed L' (sv_all d) \<union> A' = listed L (sv_all d) \<union> A \<and> spare (pb_pick pb) (chunks s') (2 * card (listed L' (sv_procs d)))"
  using assms(1,2)
proof (induction arbitrary: ws)
  case start
  then show ?case using inv sp by auto
next
  case (step es s1 e s2)
  obtain us n where ws: "ws = us @ [n]" "es = map Wake us" "e = Wake n"
    using step.prems by (cases ws rule: rev_cases) auto
  obtain L1 A1 where w: "working env pb d B J {} s1 L1 A1" "turns d L1 + length us \<le> turns d L"
    "spare (pb_pick pb) (chunks s1) (2 * card (listed L1 (sv_procs d)))" "listed L1 (sv_all d) \<union> A1 = listed L (sv_all d) \<union> A"
    using step.IH [OF ws(2)] by blast
  obtain c where q: "n \<in> sv_all d" "efds s1 (sv_fd d n) = Some c" "0 < c"
    "ngx_rpc_notify_read_handler (process_call env pb cmp junk d n) (sv_conn d n) s1 = Some s2"
    by (rule wake_stepE [OF step.hyps(2) [unfolded ws(3)]]) auto
  have "finite (sv_procs d)" "sv_procs d \<subseteq> sv_all d" using workingD(1) [OF w(1)] by (auto simp: deployed_def)
  then have "card (listed L1 (sv_procs d) - set (L1 n)) + length (L1 n) = card (listed L1 (sv_procs d))" if "n \<in> sv_procs d"
    using listed_card(1) [OF workingD(2) [OF w(1)] _ that] by blast
  then have "2 * length (L1 n) + 2 * card (listed L1 (sv_procs d) - set (L1 n)) = 2 * card (listed L1 (sv_procs d))"
    if "n \<in> sv_procs d"
    using that by fastforce
  then have "n \<in> sv_procs d \<Longrightarrow> spare (pb_pick pb) (chunks s1) (2 * length (L1 n) + 2 * card (listed L1 (sv_procs d) - set (L1 n)))"
    using w(3) by simp
  from wake_exact [OF w(1) q(1-3) settingD(1,3) [OF set] this, of cmp junk] obtain L' A' where
    s': "working env pb d B J {} s2 L' A'" "turns d L' < turns d L1"
    "n \<in> sv_procs d \<Longrightarrow> spare (pb_pick pb) (chunks s2) (2 * card (listed L1 (sv_procs d) - set (L1 n)))
       \<and> card (listed L' (sv_procs d)) + length (L1 n) = card (listed L1 (sv_procs d))"
    "n \<notin> sv_procs d \<Longrightarrow> chunks s2 = chunks s1 \<and> listed L' (sv_procs d) = listed L1 (sv_procs d)"
    "listed L' (sv_all d) \<union> A' = listed L1 (sv_all d) \<union> A1"
    using q(4) by auto
  have "spare (pb_pick pb) (chunks s2) (2 * card (listed L' (sv_procs d)))"
  proof (cases "n \<in> sv_procs d")
    case True
    have "card (listed L' (sv_procs d)) = card (listed L1 (sv_procs d) - set (L1 n))"
      using s'(3) [OF True] \<open>n \<in> sv_procs d \<Longrightarrow> card (listed L1 (sv_procs d) - set (L1 n)) + length (L1 n) = _\<close> [OF True] by linarith
    then show ?thesis using s'(3) [OF True] by simp
  next
    case False
    then show ?thesis using s'(4) w(3) by simp
  qed
  then show ?case using s'(1,2,5) w(2,4) ws(1) by (intro exI [of _ L'] exI [of _ A']) simp
qed

text \<open>A run of the processes that cannot go on has answered every request that waited.\<close>

lemma working_done:
  fixes s :: "'z cstate_scheme"
  assumes inv: "working env pb d B J {} s L A" and set: "setting env pb"
    and sp: "spare (pb_pick pb) (chunks s) (2 * card (listed L (sv_procs d)))"
  shows "(\<exists>n s'. service_step env pb cmp junk d s (Wake n) s')
     \<or> listed L (sv_all d) = {}"
proof (cases "listed L (sv_all d) = {}")
  case False
  then obtain n where n: "n \<in> sv_all d" "L n \<noteq> []" unfolding listed_def by fastforce
  have "signalled d s n" using workingD(4) [OF inv] n by (auto simp: signals_def signalled_def)
  moreover have "spare (pb_pick pb) (chunks s) (2 * length (L n))" if p: "n \<in> sv_procs d"
  proof (rule spare_le [OF sp])
    have "finite (sv_procs d)" "sv_procs d \<subseteq> sv_all d" using workingD(1) [OF inv] by (auto simp: deployed_def)
    from listed_card(1) [OF workingD(2) [OF inv] this(2) p this(1)] show "2 * length (L n) \<le> 2 * card (listed L (sv_procs d))"
      by linarith
  qed
  ultimately show ?thesis using working_wakes [OF inv n(1) _ set] by blast
qed simp

lemma served_snoc_wake:
  "served env pb cmp junk d s (map Wake ws) s1 \<Longrightarrow> service_step env pb cmp junk d s1 (Wake n) s2
    \<Longrightarrow> served env pb cmp junk d s (map Wake (ws @ [n])) s2"
  using served.step by fastforce

lemma working_finishes:
  fixes s s1 :: "'z cstate_scheme"
  assumes inv: "working env pb d B J {} s L A" and sp: "spare (pb_pick pb) (chunks s) (2 * card (listed L (sv_procs d)))"
    and set: "setting env pb" and run: "served env pb cmp junk d s (map Wake us) s1"
  shows "\<exists>ws s'. served env pb cmp junk d s (map Wake ws) s'
     \<and> (\<exists>L' A'. working env pb d B J {} s' L' A' \<and> listed L' (sv_all d) = {} \<and> A' = listed L (sv_all d) \<union> A)"
  using run
proof (induction "turns d L - length us" arbitrary: us s1 rule: less_induct)
  case less
  from wakes_working [OF less.prems refl set inv sp] obtain L1 A1 where
    w: "working env pb d B J {} s1 L1 A1" "turns d L1 + length us \<le> turns d L"
      "spare (pb_pick pb) (chunks s1) (2 * card (listed L1 (sv_procs d)))"
      "listed L1 (sv_all d) \<union> A1 = listed L (sv_all d) \<union> A" by blast
  from working_done [OF w(1) set w(3), of cmp junk] show ?case
  proof (elim disjE exE)
    fix n s2
    assume "service_step env pb cmp junk d s1 (Wake n) s2"
    then have r2: "served env pb cmp junk d s (map Wake (us @ [n])) s2" by (rule served_snoc_wake [OF less.prems])
    from wakes_working [OF r2 refl set inv sp] have "length (us @ [n]) \<le> turns d L" by auto
    then show ?case by (intro less.hyps [OF _ r2]) simp
  next
    assume "listed L1 (sv_all d) = {}"
    then show ?case using less.prems w(1,4) by blast
  qed
qed

text \<open>
  How a request with the body \<open>b\<close> has ended in \<open>s'\<close>: with the whole answer, or with the refusal that was given when it came,
  before \<open>s\<close>; without a body it was a bad request.
\<close>

definition answered_by ::
  "http_env \<Rightarrow> proto \<Rightarrow> 'z wstate_scheme \<Rightarrow> 'z wstate_scheme \<Rightarrow> nat \<Rightarrow> byte list option \<Rightarrow> bool" where
  "answered_by env pb s s' r b =
     (case b of None \<Rightarrow> bad_request s' r | Some bs \<Rightarrow> replied env pb s' r bs \<or> turned_away env s r)"

text \<open>
  C1. Every request of the following kinds is answered, in every order of the events: requests for the method
  \<open>interface\<close> with the body in one buffer in memory, requests for any method without a body, and requests for paths that are no
  method. Requests for \<open>requeststatus\<close> with a body (their processor faults), bodies in several buffers (their processor never
  returns), a pool without room and the cleanups of a request's pool are no events of \<open>service_step\<close>. After any events, if no more requests come and the
  slab pool has two chunks for every request that waits, the read callbacks of the processes, in whichever order
  epoll reports them, run at most twice as often as there are requests that wait, and as long as a request waits
  some process is reported and its callback can run. Then every request for a method that came with a body has its answer:
  the header with the status and the length, the chain with exactly the bytes of the response, and the finalization, each
  given to nginx once and in this order, except for those that were refused with the status 500 when they came; and every one that
  came without a body has been finalized once with the status 400.
\<close>

theorem every_request_answered:
  fixes s :: "'z cstate_scheme"
  assumes "served env pb cmp junk d s0 es s" and "ready d s0" and "setting env pb"
    and room: "spare (pb_pick pb) (chunks s) (2 * card {r. waiting s r})"
  shows "(\<exists>ws s'. served env pb cmp junk d s (map Wake ws) s'
        \<and> (\<forall>(r, b) \<in> set (asked es). answered_by env pb s s' r b))
     \<and> (\<forall>ws s'. served env pb cmp junk d s (map Wake ws) s' \<longrightarrow> length ws \<le> 2 * card {r. waiting s r}
        \<and> ((\<exists>n s''. service_step env pb cmp junk d s' (Wake n) s'')
           \<or> (\<forall>(r, b) \<in> set (asked es). answered_by env pb s s' r b)))"
proof -
  obtain J L A where w: "working env pb d (map_of (asked es)) J {} s L A" and dd: "distinct (map fst (asked es))"
    using served_working [OF assms(1-3)] by blast
  have sp: "spare (pb_pick pb) (chunks s) (2 * card (listed L (sv_procs d)))"
    by (rule spare_le [OF room]) (use working_turns(2) [OF w] in simp)
  have all: "\<forall>(r, b) \<in> set (asked es). answered_by env pb s s' r b"
    if "working env pb d (map_of (asked es)) J {} s' L' A'" "A' = listed L (sv_all d) \<union> A" for s' :: "'z cstate_scheme" and L' A'
  proof clarify
    fix r b
    assume "(r, b) \<in> set (asked es)"
    then have m: "map_of (asked es) r = Some b" using map_of_is_SomeI [OF dd] by blast
    show "answered_by env pb s s' r b"
    proof (cases b)
      case None
      then show ?thesis using working_bad [OF that(1)] m by (simp add: answered_by_def)
    next
      case (Some bs)
      have "replied env pb s' r bs \<or> turned_away env s r"
        using working_known [OF w] working_replied [OF that(1)] m that(2) unfolding Some by blast
      then show ?thesis by (simp add: answered_by_def Some)
    qed
  qed
  have "length ws \<le> 2 * card {r. waiting s r} \<and> ((\<exists>n s''. service_step env pb cmp junk d s' (Wake n) s'')
      \<or> (\<forall>(r, b) \<in> set (asked es). answered_by env pb s s' r b))"
    if run: "served env pb cmp junk d s (map Wake ws) s'" for ws s'
  proof -
    from wakes_working [OF run refl assms(3) w sp] obtain L' A' where
      w': "working env pb d (map_of (asked es)) J {} s' L' A'" "turns d L' + length ws \<le> turns d L"
        "spare (pb_pick pb) (chunks s') (2 * card (listed L' (sv_procs d)))"
        "listed L' (sv_all d) \<union> A' = listed L (sv_all d) \<union> A" by blast
    from w'(2) working_turns(1) [OF w] have "length ws \<le> 2 * card {r. waiting s r}" by linarith
    then show ?thesis using working_done [OF w'(1) assms(3) w'(3)] all [OF w'(1)] w'(4) by blast
  qed
  moreover have "served env pb cmp junk d s (map Wake []) s" by (simp add: served.start)
  from working_finishes [OF w sp assms(3) this] all have "\<exists>ws s'. served env pb cmp junk d s (map Wake ws) s'
        \<and> (\<forall>(r, b) \<in> set (asked es). answered_by env pb s s' r b)" by blast
  ultimately show ?thesis by blast
qed

text \<open>
  C2. No request of these kinds (for \<open>interface\<close> with the body in one buffer in memory, for any method without a body, for
  a path that is no method) is lost, duplicated or answered wrongly, in any state that such requests and the
  processes' callbacks lead to. A request with a body that came either
  waits, nginx having been asked only to read its body, and then one of its tasks is on the list of a process
  that epoll reports; or its whole answer has been given to nginx once, with the bytes of its own body's response still in the
  memory of the response chain; or it has been refused with the status 500, once. A request without a body has been finalized
  with the status 400, once. No request comes twice, and for a request that did not come, or that named no method, nothing was
  asked of nginx.
\<close>

theorem no_request_lost:
  fixes s :: "'z cstate_scheme"
  assumes "served env pb cmp junk d s0 es s" and "ready d s0" and "setting env pb"
  shows "distinct (map fst (asked es))
     \<and> (\<forall>(r, b) \<in> set (asked es). case b of None \<Rightarrow> bad_request s r
          | Some bs \<Rightarrow> in_hand d s r \<or> replied env pb s r bs \<or> turned_away env s r)
     \<and> (\<forall>r. r \<notin> fst ` set (asked es) \<longrightarrow> calls_for r (calls s) = [])"
proof -
  obtain J L A where w: "working env pb d (map_of (asked es)) J {} s L A" and dd: "distinct (map fst (asked es))"
    using served_working [OF assms] by blast
  have "in_hand d s r \<or> replied env pb s r bs \<or> turned_away env s r" if "(r, Some bs) \<in> set (asked es)" for r bs
    using working_answered [OF w map_of_is_SomeI [OF dd that]] working_in_hand [OF w] by auto
  moreover have "bad_request s r" if "(r, None) \<in> set (asked es)" for r
    by (rule working_bad [OF w map_of_is_SomeI [OF dd that]])
  moreover have "calls_for r (calls s) = []" if "r \<notin> fst ` set (asked es)" for r
    using workingD(6) [OF w] that by (simp add: book_def map_of_eq_None_iff)
  ultimately show ?thesis using dd by (auto split: option.splits) blast
qed

text \<open>
  C3. No callback of the module fails in a state that requests of these kinds lead to: none reads memory that is not
  allocated, follows a broken link or loops for ever. For a new request for \<open>interface\<close> with its body in one buffer in memory, the
  two handlers run to their end if the pool has four chunks, and
  the request is then on its way, or is refused, and then the idle list was empty. For a new request for any method without a
  body they run to their end if the pool has one chunk, and report a bad request, whatever the idle list is. A request for a
  path that is no method is left to nginx, and the state stays. The read callback of a process that
  epoll reports runs to its end, given two chunks of the pool for every task on the list of a processor. Requests with a body for
  \<open>requeststatus\<close> or with a body in several buffers are not covered.
\<close>

theorem callbacks_never_fail:
  fixes s :: "'z cstate_scheme"
  assumes "served env pb cmp junk d s0 es s" and "ready d s0" and "setting env pb"
  shows "(\<forall>w r c bs. asks d s w r c bs \<and> spare (en_pick env) (chunks s) 4
        \<longrightarrow> (\<exists>s'. service_step env pb cmp junk d s (Request w r (Some bs)) s'
              \<and> (in_hand d s' r \<or> idles s (sv_queue d) [] \<and> turned_away env s' r)))
     \<and> (\<forall>w r. names_method d s w r \<and> spare (en_pick env) (chunks s) 1
        \<longrightarrow> (\<exists>s'. service_step env pb cmp junk d s (Request w r None) s' \<and> bad_request s' r))
     \<and> (\<forall>w r. names_other d s w r \<longrightarrow> service_step env pb cmp junk d s (Decline w r) s)
     \<and> (\<forall>n ts. n \<in> sv_all d \<and> signalled d s n \<and> pending s n (map TaskNode ts)
        \<and> (n \<in> sv_procs d \<longrightarrow> spare (pb_pick pb) (chunks s) (2 * length ts))
        \<longrightarrow> (\<exists>s'. service_step env pb cmp junk d s (Wake n) s'))"
proof -
  obtain J L A where w: "working env pb d (map_of (asked es)) J {} s L A" using served_working [OF assms] by blast
  have "\<exists>s'. service_step env pb cmp junk d s (Request w r (Some bs)) s' \<and> (in_hand d s' r \<or> idles s (sv_queue d) [] \<and> turned_away env s' r)"
    if a: "asks d s w r c bs" "spare (en_pick env) (chunks s) 4" for w r c bs
    by (rule asks_in_hand [OF w a assms(3)])
  moreover have "\<exists>s'. service_step env pb cmp junk d s (Request w r None) s' \<and> bad_request s' r"
    if m: "names_method d s w r" "spare (en_pick env) (chunks s) 1" for w r
  proof -
    from bodiless_steps [OF w m settingD(1) [OF assms(3)], of False] show ?thesis
      using service_step.bodiless [OF m] unfolding bad_request_def by blast
  qed
  moreover have "service_step env pb cmp junk d s (Decline w r) s" if m: "names_other d s w r" for w r
    by (rule service_step.decline [OF m decline_steps [OF w m]])
  moreover have "\<exists>s'. service_step env pb cmp junk d s (Wake n) s'"
    if "n \<in> sv_all d" "signalled d s n" "pending s n (map TaskNode ts)"
      "n \<in> sv_procs d \<longrightarrow> spare (pb_pick pb) (chunks s) (2 * length ts)" for n ts
    by (rule working_wakes [OF w that(1,2) assms(3)]) (use that(4) pending_length [OF workingD(2) [OF w] that(1,3)] in simp)
  ultimately show ?thesis by blast
qed

section \<open>From the start\<close>

text \<open>The service that the start sets up: the worker \<open>ns ! ws\<close> and the processors \<open>ys\<close>.\<close>

definition service_of ::
  "(nat \<Rightarrow> int) \<Rightarrow> addr \<Rightarrow> addr list \<Rightarrow> addr \<Rightarrow> nat \<Rightarrow> nat \<Rightarrow> proc_start list \<Rightarrow> service" where
  "service_of fds qu ns hc ws wk ys =
     \<lparr>sv_queue = qu, sv_procs = (\<lambda>y. ns ! ps_slot y) ` set ys, sv_workers = {ns ! ws},
      sv_conf = (\<lambda>n. case map_of (map (\<lambda>y. (ns ! ps_slot y, ps_conf y)) ys) n of None \<Rightarrow> hc | Some p \<Rightarrow> p),
      sv_conn = (\<lambda>n. case map_of (map (\<lambda>y. (ns ! ps_slot y, ps_conn y)) ys) n of None \<Rightarrow> wk | Some k \<Rightarrow> k),
      sv_fd = (\<lambda>n. the (map_of (zip ns (map fds [0..<length ns])) n))\<rparr>"

lemma slots_apart:
  assumes "distinct ns" and "\<forall>y \<in> set ys. ps_slot y < length ns" "ws < length ns" "distinct (ws # map ps_slot ys)"
  shows "ns ! ws \<notin> (\<lambda>y. ns ! ps_slot y) ` set ys"
  using assms by (force simp: nth_eq_iff_index_eq)

lemma service_of_simps:
  assumes "distinct ns" and "\<forall>y \<in> set ys. ps_slot y < length ns" "ws < length ns" "distinct (ws # map ps_slot ys)"
  shows "y \<in> set ys \<Longrightarrow> sv_conf (service_of fds qu ns hc ws wk ys) (ns ! ps_slot y) = ps_conf y"
    and "y \<in> set ys \<Longrightarrow> sv_conn (service_of fds qu ns hc ws wk ys) (ns ! ps_slot y) = ps_conn y"
    and "sv_conf (service_of fds qu ns hc ws wk ys) (ns ! ws) = hc"
    and "sv_conn (service_of fds qu ns hc ws wk ys) (ns ! ws) = wk"
    and "i < length ns \<Longrightarrow> sv_fd (service_of fds qu ns hc ws wk ys) (ns ! i) = fds i"
proof -
  note w = slots_apart [OF assms]
  have inj: "inj_on (\<lambda>y. ns ! ps_slot y) (set ys)"
    using assms(1,2,4) by (auto simp: inj_on_def nth_eq_iff_index_eq distinct_map)
  have m: "map_of (map (\<lambda>y. (ns ! ps_slot y, f y)) ys) (ns ! ps_slot y) = Some (f y)" if "y \<in> set ys" for y f
    using that inj
  proof (induction ys)
    case (Cons z zs)
    then show ?case by (cases "y = z") (auto simp: inj_on_def)
  qed simp
  have mw: "map_of (map (\<lambda>y. (ns ! ps_slot y, f y)) ys) (ns ! ws) = None" for f
    using w by (auto simp: map_of_eq_None_iff)
  show "y \<in> set ys \<Longrightarrow> sv_conf (service_of fds qu ns hc ws wk ys) (ns ! ps_slot y) = ps_conf y"
    "y \<in> set ys \<Longrightarrow> sv_conn (service_of fds qu ns hc ws wk ys) (ns ! ps_slot y) = ps_conn y"
    by (simp_all add: service_of_def m)
  show "sv_conf (service_of fds qu ns hc ws wk ys) (ns ! ws) = hc" "sv_conn (service_of fds qu ns hc ws wk ys) (ns ! ws) = wk"
    by (simp_all add: service_of_def mw)
  show "sv_fd (service_of fds qu ns hc ws wk ys) (ns ! i) = fds i" if "i < length ns"
    using map_of_zip_nth [of ns "map fds [0..<length ns]" i] assms(1) that by (simp add: service_of_def)
qed

text \<open>
  C4. The start of the service ends in a state that is ready for requests: with enough memory and a slot, a configuration
  and a connection per process, the master's initialization, the worker's and the processors' leave every notify object
  with its own process's callbacks, an empty list and no signal, the configurations with the queue object, and all
  processors on the idle list.
\<close>

theorem service_starts_ready:
  fixes s :: "'z wstate_scheme"
  assumes "pconfs s c = Some cf" and "pc_shpool cf = Some pool"
    and "w = (if workers \<le> 0 then ncpu else workers)" and "0 < w"
    and "list_all (\<lambda>k. 0 \<le> k) counts" and "num = nat (w + sum_list counts)" and "w + sum_list counts < 2 ^ 31"
    and "spare (en_pick env) (chunks s) (num + 2 + m)"
    and "\<forall>i < num. 0 \<le> fds i" and "hconfs s hc = Some hf"
    and "\<forall>x \<in> set (xs @ [x]). ps_slot x < num \<and> int (ps_slot x) \<le> lastp" "ws < num" "int ws \<le> lastp"
    and "distinct (ws # map ps_slot (xs @ [x]))" "distinct (c # map ps_conf (xs @ [x]))"
    and "distinct (wk # map ps_conn (xs @ [x]))"
    and "inj_on fds {..<num}" "calls s = []"
  shows "\<exists>s' qu ns. start_service env exec fds workers ncpu counts lastp c hc ws wk (xs @ [x]) s = Some s' \<and> length ns = num
     \<and> ready (service_of fds qu ns hc ws wk (xs @ [x])) s' \<and> idles s' qu (rev (map (\<lambda>x. ns ! ps_slot x) (xs @ [x])))
     \<and> mem_kept s s' \<and> requests s' = requests s
     \<and> hconfs s' = (hconfs s)(hc \<mapsto> hf\<lparr>hc_queue := Some qu, hc_notify := Some (ns ! ws)\<rparr>)
     \<and> spare (en_pick env) (chunks s') m"
proof -
  let ?ys = "xs @ [x]"
  obtain s' qu ns where s': "start_service env exec fds workers ncpu counts lastp c hc ws wk ?ys s = Some s'" "length ns = num"
    "service_ready s' qu (ps_conf x) (ns ! ps_slot x) (rev (map (\<lambda>x. ns ! ps_slot x) xs)) (ns ! ws) (fds (ps_slot x)) (fds ws)"
    "hconfs s' = (hconfs s)(hc \<mapsto> hf\<lparr>hc_queue := Some qu, hc_notify := Some (ns ! ws)\<rparr>)"
    "requests s' = requests s" "calls s' = calls s" "mem_kept s s'" "spare (en_pick env) (chunks s') m"
    "\<forall>y \<in> set ?ys. started s' qu ns (cf\<lparr>pc_queue := Some qu\<rparr>) y" "distinct ns"
    "\<forall>i < num. pending s' (ns ! i) [] \<and> map_option event_fd (notifies s' (ns ! i)) = Some (fds i) \<and> efds s' (fds i) = Some 0"
    "\<exists>nt cn. notifies s' (ns ! ws) = Some nt \<and> read_hanlder nt = Some Http_Process_Notify_Task
        \<and> notify_ctx nt = Some (Http_Conf hc) \<and> conns s' wk = Some cn \<and> c_sockaddr cn = ns ! ws"
    using start_service_ok [where exec = exec and m = m, OF assms(1-16)] by blast
  define d where "d = service_of fds qu ns hc ws wk ?ys"
  have ys: "\<forall>y \<in> set ?ys. ps_slot y < length ns" "ws < length ns" using assms(11,12) s'(2) by auto
  note sv = service_of_simps [OF s'(10) ys assms(14), where fds = fds and qu = qu and hc = hc and wk = wk, folded d_def]
  have d: "sv_queue d = qu" "sv_procs d = (\<lambda>y. ns ! ps_slot y) ` set ?ys" "sv_workers d = {ns ! ws}"
    by (simp_all add: d_def service_of_def)
  have slot: "\<exists>i < num. n = ns ! i" if "n \<in> sv_all d" for n
    using that d(2,3) assms(12) ys(1) s'(2) by fastforce
  have at: "pending s' n [] \<and> map_option event_fd (notifies s' n) = Some (sv_fd d n) \<and> efds s' (sv_fd d n) = Some 0"
    if "n \<in> sv_all d" for n
    using slot [OF that] s'(2,11) sv(5) by auto
  have "inj_on (sv_fd d) (sv_all d)"
  proof (rule inj_onI)
    fix n m
    assume "n \<in> sv_all d" "m \<in> sv_all d" and e: "sv_fd d n = sv_fd d m"
    then obtain i j where ij: "i < num" "n = ns ! i" "j < num" "m = ns ! j" using slot by meson
    then have "fds i = fds j" using e sv(5) s'(2) by simp
    then have "i = j" using inj_onD [OF assms(17)] ij by blast
    then show "n = m" using ij by simp
  qed
  moreover have "\<exists>nt cn. notifies s' n = Some nt \<and> event_fd nt = sv_fd d n
      \<and> read_hanlder nt = Some (if n \<in> sv_procs d then Proc_Process_One_Cycle else Http_Process_Notify_Task)
      \<and> notify_ctx nt = Some (if n \<in> sv_procs d then Proc_Conf (sv_conf d n) else Http_Conf (sv_conf d n))
      \<and> conns s' (sv_conn d n) = Some cn \<and> c_sockaddr cn = n" if n: "n \<in> sv_all d" for n
  proof (cases "n \<in> sv_procs d")
    case True
    then obtain y where y: "y \<in> set ?ys" "n = ns ! ps_slot y" using d(2) by blast
    then show ?thesis using s'(9) at [OF n] True sv(1,2) [OF y(1)] unfolding started_def by fastforce
  next
    case False
    then have w: "n = ns ! ws" using n d(3) by blast
    then show ?thesis using s'(12) at [OF n] False sv(3,4) by fastforce
  qed
  moreover have "\<exists>pf. pconfs s' (sv_conf d n) = Some pf \<and> pc_queue pf = Some (sv_queue d) \<and> pc_notify pf = Some n"
    if n: "n \<in> sv_procs d" for n
  proof -
    obtain y where y: "y \<in> set ?ys" "n = ns ! ps_slot y" using n d(2) by blast
    then show ?thesis using s'(9) sv(1) [OF y(1)] d(1) unfolding started_def by force
  qed
  moreover have "\<exists>cf. hconfs s' (sv_conf d n) = Some cf \<and> hc_queue cf = Some (sv_queue d) \<and> hc_notify cf = Some n"
    if "n \<in> sv_workers d" for n
    using that d(1,3) sv(3) s'(4) by simp
  moreover have "load s' (queues s') (sv_queue d) \<noteq> None" and i: "idles s' qu (ns ! ps_slot x # rev (map (\<lambda>x. ns ! ps_slot x) xs))"
    using s'(3) d(1) by (simp_all add: service_ready_def)
  ultimately have "deployed d s'" using slots_apart [OF s'(10) ys assms(14)] d(2,3) by (simp add: deployed_def)
  moreover have "idle_any s' (sv_queue d) (sv_procs d)"
    using i d(1,2) by (auto simp: idle_any_def)
  ultimately have "ready d s'" using at s'(6) assms(18) by (simp add: ready_def)
  moreover have "idles s' qu (rev (map (\<lambda>x. ns ! ps_slot x) ?ys))" using i by simp
  ultimately show ?thesis using s'(1,2,4,5,7,8) unfolding d_def by blast
qed

theorem service_starts_ready_witness:
  "\<exists>s' qu ns. start_service demo_env (rpc_exec demo_pb) (\<lambda>i. 10 + int i) 1 4 [2] 8 0 0 0 1
         [\<lparr>ps_slot = 1, ps_conf = 1, ps_conn = 2\<rparr>, \<lparr>ps_slot = 2, ps_conf = 2, ps_conn = 3\<rparr>] demo_cold = Some s'
     \<and> ready (service_of (\<lambda>i. 10 + int i) qu ns 0 0 1
         [\<lparr>ps_slot = 1, ps_conf = 1, ps_conn = 2\<rparr>, \<lparr>ps_slot = 2, ps_conf = 2, ps_conn = 3\<rparr>]) s'
     \<and> idles s' qu [ns ! 2, ns ! 1]"
proof -
  have "inj_on (\<lambda>i. 10 + int i) {..<3}" by (simp add: inj_on_def)
  from service_starts_ready [where exec = "rpc_exec demo_pb" and workers = 1 and ncpu = 4
        and counts = "[2]" and fds = "\<lambda>i. 10 + int i" and lastp = 8 and ws = 0 and wk = 1
        and xs = "[\<lparr>ps_slot = 1, ps_conf = 1, ps_conn = 2\<rparr>]" and x = "\<lparr>ps_slot = 2, ps_conf = 2, ps_conn = 3\<rparr>",
        OF demo_cold_state(1) _ refl _ _ _ _ demo_cold_spare _ demo_cold_state(2) _ _ _ _ _ _ this demo_cold_state(4)]
  show ?thesis by fastforce
qed

section \<open>A concrete run\<close>

text \<open>One worker and one processor, and a request whose body nginx has read.\<close>

definition demo_live :: cstate where
  "demo_live = demo_idle\<lparr>
     notifies := [3 \<mapsto> demo_notify 10 0, 7 \<mapsto> (demo_notify 12 0)\<lparr>read_hanlder := Some Http_Process_Notify_Task,
       write_hanlder := Some Http_Process_Notify_Task, notify_ctx := Some (Http_Conf 0)\<rparr>],
     conns := (\<lambda>k. Some \<lparr>c_fd = (if k = 3 then 10 else 12), c_sockaddr = k, c_read_handler = Notify_Read_Handler, c_read_data = k,
       c_write_handler = Notify_Write_Handler, c_write_data = k, c_added = True, c_write_event = False\<rparr>)\<rparr>"

definition demo_service :: service where
  "demo_service = \<lparr>sv_queue = 1, sv_procs = {3}, sv_workers = {7}, sv_conf = (\<lambda>n. 0), sv_conn = (\<lambda>n. n),
     sv_fd = (\<lambda>n. if n = 3 then 10 else 12)\<rparr>"

lemma demo_ready: "ready demo_service demo_live"
proof -
  have i: "idles demo_live 1 [3]" "pending demo_live 3 []" "pending demo_live 7 []"
    by (simp_all add: demo_live_def demo_idle_def wstate.extend_def cstate.fields_def http_simps)
  then have "idle_any demo_live 1 {3}" unfolding idle_any_def by force
  then show ?thesis
    using i by (simp add: ready_def deployed_def demo_service_def)
      (simp add: demo_live_def demo_idle_def wstate.extend_def cstate.fields_def http_simps)
qed

lemma demo_live_body: "one_buffer demo_live (Chain_cell 40) [1, 2, 3]"
  by (simp add: demo_live_def demo_idle_def wstate.extend_def cstate.fields_def demo_http_def load_def live_def
      one_buffer_def chain_defs mem_buf_def ptr_diff_def read_bytes_def numeral_eq_Suc)

lemma demo_asks: "asks demo_service demo_live 7 0 (Chain_cell 40) [1, 2, 3]"
  by (simp add: asks_def demo_service_def demo_live_body)
    (simp add: demo_live_def demo_idle_def wstate.extend_def cstate.fields_def http_simps)

lemma demo_not_empty: "\<not> idles demo_live (sv_queue demo_service) []"
  by (simp add: demo_service_def demo_live_def demo_idle_def wstate.extend_def cstate.fields_def http_simps)

lemma demo_setting: "setting demo_env demo_pb"
  by (simp add: setting_def demo_env_def demo_pb_def ascii_def)

lemma demo_live_spare: "spare (en_pick demo_env) (chunks demo_live) 6"
  using demo_idle_spare by (simp add: demo_live_def)

text \<open>The request has come, and the processor has room for its task.\<close>

lemma demo_came:
  "\<exists>s J L A. served demo_env demo_pb (\<lambda>_. False) (\<lambda>_. 0) demo_service demo_live [Request 7 0 (Some [1, 2, 3])] s
     \<and> working demo_env demo_pb demo_service [0 \<mapsto> Some [1, 2, 3]] J {} s L A \<and> spare (pb_pick demo_pb) (chunks s) 2
     \<and> \<not> turned_away demo_env s 0"
proof -
  have sp: "spare (en_pick demo_env) (chunks demo_live) (4 + 2)" using demo_live_spare by simp
  then have sp4: "spare (en_pick demo_env) (chunks demo_live) 4" by (rule spare_le) simp
  note st = demo_setting settingD [OF demo_setting]
  from asks_steps [OF ready_working [OF demo_ready, of demo_env demo_pb undefined] demo_asks sp st(2)] obtain s0 s' J' L' where s':
    "ngx_http_rpc_http_handler demo_env (Some (sv_conf demo_service 7)) 0 demo_live = Some (NGX_AGAIN, s0)"
    "ngx_http_rpc_post_async_handler demo_env 0 (body_read 0 (Chain_cell 40) s0) = Some s'"
    "working demo_env demo_pb demo_service [0 \<mapsto> Some [1, 2, 3]] J' {} s' L' {}" "spare (en_pick demo_env) (chunks s') 2"
    "idles demo_live (sv_queue demo_service) [] \<and> calls_for 0 (calls s') = refused_calls demo_env 0
       \<or> 0 \<in> (fst \<circ> J') ` listed L' (sv_all demo_service)"
    by blast
  have "\<not> turned_away demo_env s' 0"
    using s'(5) demo_not_empty answers_differ(2) unfolding working_waiting [OF s'(3), symmetric] by blast
  moreover have "service_step demo_env demo_pb (\<lambda>_. False) (\<lambda>_. 0) demo_service demo_live (Request 7 0 (Some [1, 2, 3])) s'"
    by (rule service_step.request [OF demo_asks sp4 s'(1,2)])
  from served.step [OF served.start this]
  have "served demo_env demo_pb (\<lambda>_. False) (\<lambda>_. 0) demo_service demo_live [Request 7 0 (Some [1, 2, 3])] s'" by simp
  ultimately show ?thesis using s'(3,4) st(3) by metis
qed

theorem no_request_lost_witness:
  "\<exists>s. served demo_env demo_pb (\<lambda>_. False) (\<lambda>_. 0) demo_service demo_live [Request 7 0 (Some [1, 2, 3])] s
     \<and> (in_hand demo_service s 0 \<or> replied demo_env demo_pb s 0 [1, 2, 3] \<or> turned_away demo_env s 0)
     \<and> calls_for 1 (calls s) = []"
proof -
  obtain s where s: "served demo_env demo_pb (\<lambda>_. False) (\<lambda>_. 0) demo_service demo_live [Request 7 0 (Some [1, 2, 3])] s"
    using demo_came by blast
  from no_request_lost [OF s demo_ready demo_setting] show ?thesis using s by auto
qed

theorem callbacks_never_fail_witness:
  "(\<exists>s'. service_step demo_env demo_pb (\<lambda>_. False) (\<lambda>_. 0) demo_service demo_live (Request 7 0 (Some [1, 2, 3])) s'
     \<and> in_hand demo_service s' 0)
   \<and> (\<exists>s'. service_step demo_env demo_pb (\<lambda>_. False) (\<lambda>_. 0) demo_service demo_live (Request 7 0 None) s' \<and> bad_request s' 0)"
proof -
  have sp: "spare (en_pick demo_env) (chunks demo_live) 4" "spare (en_pick demo_env) (chunks demo_live) 1"
    by (rule spare_le [OF demo_live_spare]; simp)+
  have m: "names_method demo_service demo_live 7 0" using demo_asks unfolding asks_def names_method_def by blast
  note all = callbacks_never_fail [OF served.start demo_ready demo_setting, where cmp = "\<lambda>_. False" and junk = "\<lambda>_. 0"]
  then show ?thesis using sp m demo_asks demo_not_empty by blast
qed

theorem every_request_answered_witness:
  "\<exists>s ws s'. served demo_env demo_pb (\<lambda>_. False) (\<lambda>_. 0) demo_service demo_live [Request 7 0 (Some [1, 2, 3])] s
     \<and> served demo_env demo_pb (\<lambda>_. False) (\<lambda>_. 0) demo_service s (map Wake ws) s' \<and> length ws \<le> 2
     \<and> replied demo_env demo_pb s' 0 [1, 2, 3]"
proof -
  obtain s J L A where s: "served demo_env demo_pb (\<lambda>_. False) (\<lambda>_. 0) demo_service demo_live [Request 7 0 (Some [1, 2, 3])] s"
    "working demo_env demo_pb demo_service [0 \<mapsto> Some [1, 2, 3]] J {} s L A" "spare (pb_pick demo_pb) (chunks s) 2"
    "\<not> turned_away demo_env s 0"
    using demo_came by blast
  have "{r. waiting s r} \<subseteq> {0}"
    using workingD(6) [OF s(2)] by (auto simp: book_def waiting_def split: if_splits)
  from card_mono [OF _ this] have c: "card {r. waiting s r} \<le> 1" by simp
  then have "spare (pb_pick demo_pb) (chunks s) (2 * card {r. waiting s r})" by (intro spare_le [OF s(3)]) simp
  note all = every_request_answered [OF s(1) demo_ready demo_setting this]
  then obtain ws s' where r: "served demo_env demo_pb (\<lambda>_. False) (\<lambda>_. 0) demo_service s (map Wake ws) s'"
    "replied demo_env demo_pb s' 0 [1, 2, 3]" using s(4) by (auto simp: answered_by_def)
  moreover have "length ws \<le> 2 * card {r. waiting s r}" using all r(1) by blast
  then have "length ws \<le> 2" using c by simp
  ultimately show ?thesis using s(1) by blast
qed

end
