(* ===== verification/Module_Tables.thy ===== *)
theory Module_Tables
  imports Inspect_Module Shm_Properties
begin

text \<open>
  What the three modules hand to nginx: the static tables of ngx_rpc_process.c, ngx_http_rpc.c and
  ngx_http_inspect_module.cpp with their directives and the functions nginx calls, what a line of the configuration
  does through them, and the logs of the C++ code.
\<close>

section \<open>The tables\<close>

text \<open>
  The fields of \<open>ngx_command_t\<close> that the tables fill: where a directive may stand, how many words it takes, its handler and
  the configuration it gets.
\<close>

datatype conf_place = NGX_PROC_CONF | NGX_HTTP_LOC_CONF

datatype conf_words = NGX_CONF_TAKE1 | NGX_CONF_ANY

datatype conf_offset = NGX_PROC_CONF_OFFSET | NGX_HTTP_LOC_CONF_OFFSET

datatype directive_fn = Set_Shm_Size | Set_Log | Set_Inspect_Application

record ngx_command =
  cmd_name :: "byte list"
  cmd_place :: conf_place
  cmd_words :: conf_words
  cmd_set :: directive_fn
  cmd_conf :: conf_offset

text \<open>The end mark \<open>ngx_null_command\<close> is the end of the list.\<close>

definition ngx_proc_rpc_commands :: "ngx_command list" where
  "ngx_proc_rpc_commands =
    [\<lparr>cmd_name = ascii ''ngx_proc_rpc_set_shm_size'', cmd_place = NGX_PROC_CONF, cmd_words = NGX_CONF_TAKE1,
      cmd_set = Set_Shm_Size, cmd_conf = NGX_PROC_CONF_OFFSET\<rparr>,
     \<lparr>cmd_name = ascii ''ngx_proc_rpc_set_log'', cmd_place = NGX_PROC_CONF, cmd_words = NGX_CONF_TAKE1,
      cmd_set = Set_Log, cmd_conf = NGX_PROC_CONF_OFFSET\<rparr>]"

definition ngx_http_rpc_module_commands :: "ngx_command list" where
  "ngx_http_rpc_module_commands = []"

definition ngx_http_inspect_commands :: "ngx_command list" where
  "ngx_http_inspect_commands =
    [\<lparr>cmd_name = ascii ''ngx_conf_set_inspect_application_hanlder'', cmd_place = NGX_HTTP_LOC_CONF,
      cmd_words = NGX_CONF_ANY, cmd_set = Set_Inspect_Application, cmd_conf = NGX_HTTP_LOC_CONF_OFFSET\<rparr>]"

text \<open>The functions that the modules hand to nginx, and the two kinds of contexts.\<close>

datatype module_fn =
    Fn_proc_rpc_create_loc_conf | Fn_proc_rpc_merge_loc_conf | Fn_proc_rpc_process_init | Fn_proc_rpc_process_exit
  | Fn_proc_rpc_master_init | Fn_proc_rpc_master_exit
  | Fn_http_rpc_postconfiguration | Fn_http_rpc_create_main_conf | Fn_http_rpc_init_process | Fn_http_rpc_exit_process
  | Fn_http_inspect_create_loc_conf | Fn_inspect_process_exit

record ngx_proc_module =
  pm_name :: "byte list"
  pm_create_main_conf :: "module_fn option"
  pm_init_main_conf :: "module_fn option"
  pm_create_proc_conf :: "module_fn option"
  pm_merge_proc_conf :: "module_fn option"
  pm_prepare :: "module_fn option"
  pm_process_init :: "module_fn option"
  pm_loop_proc :: "module_fn option"
  pm_exit_proc :: "module_fn option"

record ngx_http_module =
  hm_preconfiguration :: "module_fn option"
  hm_postconfiguration :: "module_fn option"
  hm_create_main_conf :: "module_fn option"
  hm_init_main_conf :: "module_fn option"
  hm_create_srv_conf :: "module_fn option"
  hm_merge_srv_conf :: "module_fn option"
  hm_create_loc_conf :: "module_fn option"
  hm_merge_loc_conf :: "module_fn option"

definition ngx_proc_rpc_module_ctx :: ngx_proc_module where
  "ngx_proc_rpc_module_ctx = \<lparr>pm_name = ascii ''ngx_proc_rpc'', pm_create_main_conf = None, pm_init_main_conf = None,
     pm_create_proc_conf = Some Fn_proc_rpc_create_loc_conf, pm_merge_proc_conf = Some Fn_proc_rpc_merge_loc_conf,
     pm_prepare = None, pm_process_init = Some Fn_proc_rpc_process_init, pm_loop_proc = None,
     pm_exit_proc = Some Fn_proc_rpc_process_exit\<rparr>"

definition ngx_http_rpc_module_ctx :: ngx_http_module where
  "ngx_http_rpc_module_ctx = \<lparr>hm_preconfiguration = None, hm_postconfiguration = Some Fn_http_rpc_postconfiguration,
     hm_create_main_conf = Some Fn_http_rpc_create_main_conf, hm_init_main_conf = None,
     hm_create_srv_conf = None, hm_merge_srv_conf = None, hm_create_loc_conf = None, hm_merge_loc_conf = None\<rparr>"

definition ngx_http_inspect_module_ctx :: ngx_http_module where
  "ngx_http_inspect_module_ctx = \<lparr>hm_preconfiguration = None, hm_postconfiguration = None,
     hm_create_main_conf = None, hm_init_main_conf = None, hm_create_srv_conf = None, hm_merge_srv_conf = None,
     hm_create_loc_conf = Some Fn_http_inspect_create_loc_conf, hm_merge_loc_conf = None\<rparr>"

datatype module_ctx = Proc_Module ngx_proc_module | Http_Module ngx_http_module

record ngx_module =
  md_ctx :: module_ctx
  md_commands :: "ngx_command list"
  md_init_master :: "module_fn option"
  md_init_module :: "module_fn option"
  md_init_process :: "module_fn option"
  md_init_thread :: "module_fn option"
  md_exit_thread :: "module_fn option"
  md_exit_process :: "module_fn option"
  md_exit_master :: "module_fn option"

definition ngx_proc_rpc_module :: ngx_module where
  "ngx_proc_rpc_module = \<lparr>md_ctx = Proc_Module ngx_proc_rpc_module_ctx, md_commands = ngx_proc_rpc_commands, md_init_master = None,
     md_init_module = Some Fn_proc_rpc_master_init, md_init_process = None, md_init_thread = None,
     md_exit_thread = None, md_exit_process = None, md_exit_master = Some Fn_proc_rpc_master_exit\<rparr>"

definition ngx_http_rpc_module :: ngx_module where
  "ngx_http_rpc_module = \<lparr>md_ctx = Http_Module ngx_http_rpc_module_ctx, md_commands = ngx_http_rpc_module_commands, md_init_master = None,
     md_init_module = None, md_init_process = Some Fn_http_rpc_init_process, md_init_thread = None,
     md_exit_thread = None, md_exit_process = Some Fn_http_rpc_exit_process, md_exit_master = None\<rparr>"

definition ngx_http_inspect_module :: ngx_module where
  "ngx_http_inspect_module = \<lparr>md_ctx = Http_Module ngx_http_inspect_module_ctx, md_commands = ngx_http_inspect_commands, md_init_master = None,
     md_init_module = None, md_init_process = None, md_init_thread = None, md_exit_thread = None,
     md_exit_process = Some Fn_inspect_process_exit, md_exit_master = None\<rparr>"

text \<open>
  The functions that nginx calls at a point of its life, module by module. With the modules in this order the
  queue object is made before any worker takes its notify object from it.
\<close>

definition rpc_modules :: "ngx_module list" where
  "rpc_modules = [ngx_proc_rpc_module, ngx_http_rpc_module, ngx_http_inspect_module]"

definition called_at :: "(ngx_module \<Rightarrow> module_fn option) \<Rightarrow> module_fn list" where
  "called_at hook = List.map_filter hook rpc_modules"

lemmas module_defs = rpc_modules_def ngx_proc_rpc_module_def ngx_http_rpc_module_def ngx_http_inspect_module_def
  called_at_def map_filter_simps

lemma called_at_hooks:
  "called_at md_init_module = [Fn_proc_rpc_master_init]" "called_at md_init_process = [Fn_http_rpc_init_process]"
  "called_at md_exit_process = [Fn_http_rpc_exit_process, Fn_inspect_process_exit]"
  "called_at md_exit_master = [Fn_proc_rpc_master_exit]"
  by (simp_all add: module_defs)

section \<open>Lines of the configuration\<close>

text \<open>
  nginx finds a line's directive by its first word, checks the number of its words and calls the handler. The check
  \<open>admits\<close> is nginx's; the theorem below uses only that \<open>NGX_CONF_TAKE1\<close> asks for one word after the name.
\<close>

datatype line_result = Unknown_Directive | Invalid_Words | Handled conf_result

definition conf_line ::
  "(conf_words \<Rightarrow> nat \<Rightarrow> bool) \<Rightarrow> (byte list \<Rightarrow> int) \<Rightarrow> int \<Rightarrow> nat option \<Rightarrow> byte list \<Rightarrow> byte list list \<Rightarrow> addr
    \<Rightarrow> 'z pstate_scheme \<Rightarrow> (line_result \<times> 'z pstate_scheme) option" where
  "conf_line admits parse_size pagesize zone name args c s =
     (case List.find (\<lambda>k. cmd_name k = name) ngx_proc_rpc_commands of
        None \<Rightarrow> Some (Unknown_Directive, s)
      | Some k \<Rightarrow>
          (if \<not> admits (cmd_words k) (length (name # args)) then Some (Invalid_Words, s)
           else do {
             (r, s) \<leftarrow> (case cmd_set k of
                          Set_Shm_Size \<Rightarrow> ngx_proc_rpc_set_shm_size parse_size pagesize zone (name # args) c s
                        | _ \<Rightarrow> ngx_proc_rpc_set_log s);
             Some (Handled r, s)
           }))"

lemma names_differ: "ascii ''ngx_proc_rpc_set_shm_size'' \<noteq> ascii ''ngx_proc_rpc_set_log''"
  by (simp add: ascii_def)

lemma conf_line_size:
  "conf_line admits parse_size pagesize zone (ascii ''ngx_proc_rpc_set_shm_size'') args c s =
     (if \<not> admits NGX_CONF_TAKE1 (Suc (length args)) then Some (Invalid_Words, s)
      else map_option (\<lambda>(r, s). (Handled r, s))
             (ngx_proc_rpc_set_shm_size parse_size pagesize zone (ascii ''ngx_proc_rpc_set_shm_size'' # args) c s))"
  by (cases "ngx_proc_rpc_set_shm_size parse_size pagesize zone (ascii ''ngx_proc_rpc_set_shm_size'' # args) c s")
    (auto simp: conf_line_def ngx_proc_rpc_commands_def)

lemma conf_line_log:
  "conf_line admits parse_size pagesize zone (ascii ''ngx_proc_rpc_set_log'') args c s =
     Some (if admits NGX_CONF_TAKE1 (Suc (length args)) then Handled Conf_OK else Invalid_Words, s)"
  using names_differ by (simp add: conf_line_def ngx_proc_rpc_commands_def ngx_proc_rpc_set_log_def)

text \<open>
  C40. What a line of the configuration for the processor module does, for every line. A name
  that is not in the table is unknown, and the wrong number of words is refused by nginx. The log directive
  accepts its word and does nothing with it. A size below eight pages is an error that changes nothing; another
  size is stored and the zone is registered with the configuration, and if nginx cannot make the zone the handler
  writes to NULL. For every size that cannot be read the handler has no defined result: its message prints the
  fourth word of the line, and the table admits lines of two words only.
\<close>

theorem configuration_lines:
  assumes "\<forall>n. admits NGX_CONF_TAKE1 n \<longleftrightarrow> n = 2"
    and "pconfs s c = Some cf" "zones s z = Some zn" "0 < pagesize" "parse_size v < 2 ^ 63"
  shows "(name \<notin> {ascii ''ngx_proc_rpc_set_shm_size'', ascii ''ngx_proc_rpc_set_log''} \<longrightarrow>
       conf_line admits parse_size pagesize (Some z) name args c s = Some (Unknown_Directive, s))
     \<and> (name \<in> {ascii ''ngx_proc_rpc_set_shm_size'', ascii ''ngx_proc_rpc_set_log''} \<and> length args \<noteq> 1 \<longrightarrow>
       conf_line admits parse_size pagesize (Some z) name args c s = Some (Invalid_Words, s))
     \<and> conf_line admits parse_size pagesize (Some z) (ascii ''ngx_proc_rpc_set_log'') [v] c s = Some (Handled Conf_OK, s)
     \<and> (parse_size v = NGX_ERROR \<longrightarrow>
       conf_line admits parse_size pagesize (Some z) (ascii ''ngx_proc_rpc_set_shm_size'') [v] c s = None)
     \<and> (parse_size v \<noteq> NGX_ERROR \<and> parse_size v < 8 * pagesize \<longrightarrow>
       conf_line admits parse_size pagesize (Some z) (ascii ''ngx_proc_rpc_set_shm_size'') [v] c s = Some (Handled Conf_Error, s))
     \<and> (8 * pagesize \<le> parse_size v \<longrightarrow>
       conf_line admits parse_size pagesize None (ascii ''ngx_proc_rpc_set_shm_size'') [v] c s = None
       \<and> (\<exists>s'. conf_line admits parse_size pagesize (Some z) (ascii ''ngx_proc_rpc_set_shm_size'') [v] c s = Some (Handled Conf_OK, s')
          \<and> map_option (uint \<circ> shm_size) (pconfs s' c) = Some (parse_size v)
          \<and> zones s' = (zones s)(z \<mapsto> zn\<lparr>z_init := Some Proc_Rpc_Init_Zone, z_data := Some c\<rparr>)))"
proof -
  have adm: "admits NGX_CONF_TAKE1 (Suc k) \<longleftrightarrow> k = 1" for k using assms(1) by simp
  note size = set_shm_size_cases [where parse_size = parse_size and arg = v and name = "ascii ''ngx_proc_rpc_set_shm_size''",
      OF assms(2,3) refl assms(4,5)]
  have known: "conf_line admits parse_size pagesize (Some z) name args c s = Some (Invalid_Words, s)"
    if "name \<in> {ascii ''ngx_proc_rpc_set_shm_size'', ascii ''ngx_proc_rpc_set_log''}" "length args \<noteq> 1"
    using that by (auto simp: conf_line_size conf_line_log adm)
  have unknown: "conf_line admits parse_size pagesize (Some z) name args c s = Some (Unknown_Directive, s)"
    if "name \<notin> {ascii ''ngx_proc_rpc_set_shm_size'', ascii ''ngx_proc_rpc_set_log''}"
    using that by (auto simp: conf_line_def ngx_proc_rpc_commands_def)
  have nozone: "ngx_proc_rpc_set_shm_size parse_size pagesize None [x, v] c s = None"
    if "8 * pagesize \<le> parse_size v" for x
    using that assms(2,4) by (simp add: ngx_proc_rpc_set_shm_size_def)
  show ?thesis
    using known unknown size nozone by (simp add: conf_line_size conf_line_log adm) blast
qed

theorem configuration_lines_witness:
  "\<exists>s'. conf_line (\<lambda>k n. k = NGX_CONF_ANY \<or> n = 2) (\<lambda>bs. if bs = [120] then -1 else int (length bs) * 65536) 4096 (Some 0)
          (ascii ''ngx_proc_rpc_set_shm_size'') [[49]] 0 ((demo [] [] 0)\<lparr>zones := [0 \<mapsto> demo_zone]\<rparr>) = Some (Handled Conf_OK, s')
     \<and> map_option (uint \<circ> shm_size) (pconfs s' 0) = Some 65536
     \<and> conf_line (\<lambda>k n. k = NGX_CONF_ANY \<or> n = 2) (\<lambda>bs. if bs = [120] then -1 else int (length bs) * 65536) 4096 (Some 0)
          (ascii ''ngx_proc_rpc_set_shm_size'') [[120]] 0 ((demo [] [] 0)\<lparr>zones := [0 \<mapsto> demo_zone]\<rparr>) = None"
proof -
  let ?s = "(demo [] [] 0)\<lparr>zones := [0 \<mapsto> demo_zone]\<rparr>"
  have "pconfs ?s 0 = Some \<lparr>pc_shpool = Some 0, pc_queue = Some 1, pc_notify = Some 3, shm_size = 0\<rparr>" "zones ?s 0 = Some demo_zone"
    by (simp_all add: demo_def)
  note c = configuration_lines [where admits = "\<lambda>k n. k = NGX_CONF_ANY \<or> n = 2" and pagesize = 4096
      and parse_size = "\<lambda>bs. if bs = [120] then -1 else int (length bs) * 65536", OF _ this]
  show ?thesis using c [of "[49]"] c [of "[120]"] by auto
qed

section \<open>The logs of the C++ code\<close>

text \<open>
  The cached log \<open>cache_ngx_log\<close>, or the cycle's log while it is \<open>NULL\<close>. Setting it also makes
  protobuf hand its messages to \<open>LogHandler\<close>, which writes them to the cycle's log, as do the macros of
  ngx_log_cpp.h. The lines handed to nginx are kept, each with its log and its level; which of them nginx writes is up to
  nginx. A text is printed with \<open>%s\<close>, so it ends at its first zero byte.
\<close>

datatype log_text = Plain_Text "byte list" | Protobuf_Text "byte list" int "byte list"

record log_state =
  cache_ngx_log :: "addr option"
  cycle_log :: addr
  protobuf_handled :: bool
  log_lines :: "(addr \<times> nat \<times> log_text) list"

definition NGX_LOG_ERR :: nat where "NGX_LOG_ERR = 4"
definition NGX_LOG_INFO :: nat where "NGX_LOG_INFO = 7"
definition NGX_LOG_DEBUG_ALL :: nat where "NGX_LOG_DEBUG_ALL = 2147483632"

definition log_line :: "nat \<Rightarrow> log_text \<Rightarrow> log_state \<Rightarrow> log_state" where
  "log_line level x s = s\<lparr>log_lines := (cycle_log s, level, x) # log_lines s\<rparr>"

definition percent_s :: "byte list \<Rightarrow> byte list" where
  "percent_s bs = takeWhile (\<lambda>b. b \<noteq> 0) bs"

definition LogHandler :: "nat \<Rightarrow> byte list \<Rightarrow> int \<Rightarrow> byte list \<Rightarrow> log_state \<Rightarrow> log_state" where
  "LogHandler level filename line message s =
     log_line NGX_LOG_ERR (Protobuf_Text (percent_s filename) line (percent_s message)) s"

definition set_cache_log :: "addr option \<Rightarrow> log_state \<Rightarrow> addr option \<times> log_state" where
  "set_cache_log cache_log s = (cache_ngx_log s, s\<lparr>cache_ngx_log := cache_log, protobuf_handled := True\<rparr>)"

definition get_cache_log :: "log_state \<Rightarrow> addr" where
  "get_cache_log s = (case cache_ngx_log s of Some l \<Rightarrow> l | None \<Rightarrow> cycle_log s)"

text \<open>
  The macros: the pieces \<open>p\<close> of the stream are joined first. nginx compiles debug lines only into a debug build.
\<close>

definition DEBUG :: "bool \<Rightarrow> byte list list \<Rightarrow> log_state \<Rightarrow> log_state" where
  "DEBUG debug_build p s =
     (if debug_build then log_line NGX_LOG_DEBUG_ALL (Plain_Text (percent_s (concat p))) s else s)"

definition INFO :: "byte list list \<Rightarrow> log_state \<Rightarrow> log_state" where
  "INFO p s = log_line NGX_LOG_INFO (Plain_Text (percent_s (concat p))) s"

definition WARN :: "byte list list \<Rightarrow> log_state \<Rightarrow> log_state" where
  "WARN p s = log_line NGX_LOG_ERR (Plain_Text (percent_s (concat p))) s"

definition ERROR :: "byte list list \<Rightarrow> log_state \<Rightarrow> log_state" where
  "ERROR p s = log_line NGX_LOG_ERR (Plain_Text (percent_s (concat p))) s"

text \<open>Setting a log and then the log that was returned gives every reader the former log again.\<close>

lemma cache_log_restored:
  assumes "set_cache_log l s = (pre, s1)" and "set_cache_log pre s1 = (l', s2)"
  shows "l' = l" "get_cache_log s2 = get_cache_log s" "get_cache_log (LogHandler v f n m s2) = get_cache_log s"
  using assms by (auto simp: set_cache_log_def get_cache_log_def LogHandler_def log_line_def split: option.splits)

text \<open>
  No line reaches a cached log that is not the cycle's: whatever is cached, the macros and the handler write to the
  cycle's log, and the cached log keeps its lines.
\<close>

definition lines_to :: "addr \<Rightarrow> log_state \<Rightarrow> (nat \<times> log_text) list" where
  "lines_to l s = map snd (filter (\<lambda>x. fst x = l) (log_lines s))"

lemma cached_log_unused:
  assumes "cache_ngx_log s = Some l" and "l \<noteq> cycle_log s"
  shows "lines_to (get_cache_log s) (INFO p s) = lines_to l s" "lines_to (get_cache_log s) (WARN p s) = lines_to l s"
    "lines_to (get_cache_log s) (ERROR p s) = lines_to l s" "lines_to (get_cache_log s) (DEBUG b p s) = lines_to l s"
    "lines_to (get_cache_log s) (LogHandler v f n m s) = lines_to l s"
  using assms
  by (simp_all add: get_cache_log_def lines_to_def INFO_def WARN_def ERROR_def DEBUG_def LogHandler_def log_line_def)

text \<open>A warning cannot be told from an error.\<close>

lemma warn_is_error: "WARN p s = ERROR p s"
  by (simp add: WARN_def ERROR_def)

end
