(* ===== verification/Spec2Isabelle.thy ===== *)
theory Spec2Isabelle
  imports Shm_Properties Stream_Properties Http_Properties Forwarded_Call Notify_Wakeup
    Generator_Properties Inspect_Properties Service_Run Tied_Processor Module_Tables
begin

text \<open>
  A verification development for nginx-rpc: an nginx module that serves protobuf methods over HTTP, with
  worker processes that speak HTTP, processor processes that run the methods, and shared
  memory between them; a protobuf compiler plugin that generates the nginx module of a service;
  and one module generated that way.

  \<^bold>\<open>The program.\<close> All paths are under src/. A worker (ngx_rpc_module/ngx_http_rpc.c) finds the method of a
  request, makes a task in shared memory (ngx_rpc_task.c), copies the body into it, and gives it to the
  queue object (ngx_rpc_queue.c), which takes an idle processor from its list and pushes the task to that
  processor's notify object (ngx_rpc_notify.c): a locked list of tasks with an eventfd. The processor
  (ngx_rpc_process.c) runs the tasks of its list; a method reads its request and writes its response
  through streams over chains of buffers (ngx_rpc_buffer.cpp), with a channel object
  (ngx_rpc_channel.cpp) that pushes the task back to the worker's notify object; the worker then answers the
  client, or starts a subrequest whose end sends the task to the processor again. The plugin
  (ngx_rpc_plugin/) prints the header and the module of a service; ngx_rpc_inspect_module/ is such a
  module, whose directive registers its methods with the worker module.

  \<^bold>\<open>Theories of the model.\<close>
  \<^item> Rpc_Prelude: types, the error codes of nginx, loading from and storing to addresses, lists of links, and functions as
    runs of their pieces (\<open>run_pieces\<close>).
  \<^item> Slab_Memory: the shared-memory allocator as a map from addresses to typed chunks; which free
    address is chosen is a parameter (\<open>slab_pick\<close>), and reading released memory is a fault.
  \<^item> Ngx_Queue: nginx's intrusive doubly linked lists, \<open>ring\<close> as their invariant.
  \<^item> Rpc_Notify, Rpc_Task, Rpc_Queue, Rpc_Process: one theory for each C file of that name, each with
    the state of its file as an extension of the record before it.
  \<^item> Rpc_Buffer: the reader and the two writers of ngx_rpc_buffer.cpp.
  \<^item> Http_Rpc: ngx_http_rpc.c. What nginx does is recorded as a list of calls.
  \<^item> Rpc_Channel: ngx_rpc_channel.cpp, the service of inspect_impl.h, and the function of a method, which
    is the text \<open>NGX_RPC_METHOD_PROCESS\<close> of the generator and its two instances in the inspect module.
  \<^item> Inspect_Module: the configuration and the directive of ngx_http_inspect_module.cpp.
  \<^item> Module_Tables: the static tables of the three modules (directives, contexts, callbacks), what a line of the
    configuration does through them, and the logs of ngx_log_cpp.cpp and ngx_log_cpp.h.
  \<^item> Rpc_Templates, Rpc_Generator: the texts of the plugin, and its functions. Generator_Printing states
    the documented behaviour of protobuf's printer and a small logic for what is printed.

  Functions have the names of the source. A function that can dereference a null pointer,
  read released memory or fail to return is a function into \<open>option\<close>, with \<open>None\<close> for these; the codes the
  C functions return are values. Regions under a lock are one step. The functions whose regions can be interleaved with
  other processes are defined as runs of their atomic pieces: \<open>push_piece\<close> for the push of a task (the region, then the signal),
  \<open>read_piece\<close> for the read callback (each read of the eventfd, each call of the function), \<open>cycle_piece\<close> for the processor's cycle
  and \<open>drain_piece\<close> for the loop of the cycle and of the worker (each pop, each task). C \<open>int\<close>s are integers wrapped
  with \<open>c_int\<close>, the reference count of a task is a 64-bit word.

  \<^bold>\<open>Theories of the properties.\<close>
  \<^item> Shm_Properties: the lists of tasks are FIFO queues and the idle list a stack; a push hands the task to the processor that
    became idle last; a processor's cycle runs every task once, in order; creation and release of queue, notify
    object and task; deep copy of buffers; the configuration of the processors.
  \<^item> Notify_Wakeup: all interleavings of pushes with the owner of a notify object. The steps are those pieces, of
    which the functions consist, so that a function without interruption is one of the runs: no wakeup is lost,
    every task is taken once, in the order in which it was linked, and no piece fails; and once no push is called any more, every
    run ends with all pushes returned, the list empty, the owner asleep and exactly the submitted tasks taken. The tasks' own functions are
    a contract, \<open>serves\<close>, with instances for the processor's cycle and for the worker's loop with its real handlers.
  \<^item> Stream_Properties: the pool writer refines an output stream; what reader and shared-memory writer do
    beyond one buffer.
  \<^item> Http_Properties: from the configuration to the method of a request, the submission of a request, the
    worker's answers, subrequests.
  \<^item> Channel_Properties: a method's call from the task to the client's answer; forwarding and the end of a
    forwarded call.
  \<^item> Whole_Call, Forwarded_Call: the composition of the worker's handlers, the queue, the processor's cycle, the
    method and the worker's loop, for a method that answers and for one that forwards.
  \<^item> Service_Start: from the master's start over the registration of a worker and of any number of
    processors to the state \<open>service_ready\<close>, and the first request from there.
  \<^item> Service_Lists, Service_Jobs, Service_Callbacks, Service_Run: the service with any number of requests, workers and
    processors, in every order of its events. An event is one callback of the code, with the read callback as
    the code has it: a request's two handlers in its worker, or the read callback of a process whose eventfd is readable. The
    invariant \<open>working\<close> ties the lists of all processes, the idle list in either of its shapes, the signals, the buffers of all
    tasks and what nginx has been asked for; each callback keeps it. From it: no request is lost or answered twice, no callback
    fails, and all requests are answered. It covers requests for \<open>interface\<close> with the body in one buffer in memory, requests for any
    method without a body, which are refused with the status 400, and requests for paths that are no method. Bodies in
    several buffers are not covered, since they are never read to their end, nor is \<open>requeststatus\<close> with a body, whose
    forwarded call makes the worker release memory it must not; the cleanups at the
    end of a request are no events, since \<open>ngx_http_rpc_ctx_destroy\<close> reads memory it has released.
  \<^item> Tied_Processor: what the read callback of a processor really does to the idle list, and that the
    processor still runs every task that is submitted afterwards.
  \<^item> Generator_Properties: the string functions and their reference, every printed text is well defined, the
    generated code is properly nested, the names it registers, the files that are written.
  \<^item> Inspect_Properties: from the directive over the generated names to the method that serves a
    request; the end of the process.

  Interfaces are locales, interpreted on the model's own operations: the list operations of the notify
  object and of the queue object, the contract of an output stream, the pool of workers, and
  the observations of what a generator prints.

  \<^bold>\<open>Bounds.\<close> Loops over lists are recursive in the list or partial functions, and where the code's
  loop may not end, not returning is \<open>None\<close>; properties that claim a result prove that there is one.
  A message of \<open>n\<close> bytes is serialized with at most \<open>n div 4096 + 1\<close> calls of \<open>Next\<close>, which is enough as each
  hands out at least 4096 bytes; the properties about methods take responses of one
  region, 4096 bytes, because the shared-memory writer is wrong beyond it. Allocations are assumed to
  succeed by \<open>spare p m k\<close>: the allocator can serve \<open>k\<close> more of them. The start of the service needs one per
  process and two for the queue object, a request four in its worker and two in its processor.

  \<^bold>\<open>Not modelled.\<close> The lines the C code and the methods write to logs; ngx_rpc_unix_socket.c, which declares but does not implement anything; the code that is
  commented out in ngx_rpc_queue.c from line 120 on; ngx_rpc_plugin.cpp, which only calls protobuf's
  \<open>PluginMain\<close>; inspect.pb.cc and inspect.pb.h, which protoc generates; the test programs. nginx, protobuf and
  the kernel are parameters or hypotheses that state their documented behaviour: \<open>hash_laws\<close> for nginx's hash
  table, \<open>printer_laws\<close> for protobuf's printer, the record \<open>proto\<close> for messages; eventfds are
  modelled as counters.
\<close>

end
